(* ===== verification/Vev_Prelude.thy ===== *)
theory Vev_Prelude
  imports Complex_Main "HOL-Library.Multiset"
begin

text \<open>
  Shared vocabulary of the development.

  The theory declares the collections of rewrite rules the component theories extend
  (\<open>rect_simps\<close> for rectangle membership, \<open>tree_simps\<close> for the pane tree),
  the limits of Go's \<^verbatim>\<open>int\<close>, the list combinators that stand for the loop shapes
  the Go sources use again and again (a loop that stops at the first failing element, a stable
  sort by a \<^verbatim>\<open>less\<close> callback, an index search), and the facts about them every
  component relies on.
\<close>

named_theorems rect_simps \<open>unfolds rectangle membership and the shapes derived from it\<close>
named_theorems tree_simps \<open>rewrites the leaves of a rebuilt pane tree\<close>

section \<open>Go's machine integers\<close>

text \<open>Go's \<^verbatim>\<open>int\<close> is 64 bits wide on every platform the program supports.\<close>

definition max_int :: int where
  "max_int = 2 ^ 63 - 1"

definition min_int :: int where
  "min_int = - (2 ^ 63)"

section \<open>Loops over slices\<close>

text \<open>
  \<open>opt_all\<close> is the loop that collects one value per element and gives up at the first
  element without a value.
\<close>

fun opt_all :: "'a option list \<Rightarrow> 'a list option" where
  "opt_all [] = Some []"
| "opt_all (None # xs) = None"
| "opt_all (Some x # xs) = map_option (Cons x) (opt_all xs)"

lemma opt_all_Some_iff: "opt_all xs = Some ys \<longleftrightarrow> xs = map Some ys"
proof (induction xs arbitrary: ys rule: opt_all.induct)
  case 1
  then show ?case by auto
next
  case (2 xs)
  then show ?case by auto
next
  case (3 x xs)
  then show ?case by (cases ys) auto
qed

lemma opt_all_map_Some: "opt_all (map f xs) = Some ys \<Longrightarrow> length ys = length xs"
  by (auto simp: opt_all_Some_iff dest: arg_cong [where f = length])

lemma opt_all_map_nth:
  "opt_all (map f xs) = Some ys \<Longrightarrow> i < length xs \<Longrightarrow> f (xs ! i) = Some (ys ! i)"
proof -
  assume a: "opt_all (map f xs) = Some ys" and i: "i < length xs"
  from a have "map f xs = map Some ys" by (simp add: opt_all_Some_iff)
  then have "map f xs ! i = map Some ys ! i" by simp
  with i opt_all_map_Some [OF a] show ?thesis by simp
qed

lemma opt_all_map_ex: "(\<forall>x \<in> set xs. \<exists>y. f x = Some y) \<Longrightarrow> \<exists>ys. opt_all (map f xs) = Some ys"
  by (induction xs) auto

text \<open>
  A stable sort driven by a \<^verbatim>\<open>less\<close> callback, as \<^verbatim>\<open>sort.SliceStable\<close>:
  an element is moved in front of the ones that are not less than it.
\<close>

fun insert_by :: "('a \<Rightarrow> 'a \<Rightarrow> bool) \<Rightarrow> 'a \<Rightarrow> 'a list \<Rightarrow> 'a list" where
  "insert_by lt x [] = [x]"
| "insert_by lt x (y # ys) = (if lt y x then y # insert_by lt x ys else x # y # ys)"

definition stable_sort_by :: "('a \<Rightarrow> 'a \<Rightarrow> bool) \<Rightarrow> 'a list \<Rightarrow> 'a list" where
  "stable_sort_by lt xs = foldr (insert_by lt) xs []"

lemma mset_insert_by [simp]: "mset (insert_by lt x ys) = add_mset x (mset ys)"
  by (induction ys) auto

lemma mset_stable_sort_by [simp]: "mset (stable_sort_by lt xs) = mset xs"
  by (induction xs) (auto simp: stable_sort_by_def)

lemma set_stable_sort_by [simp]: "set (stable_sort_by lt xs) = set xs"
  by (metis mset_stable_sort_by set_mset_mset)

lemma length_stable_sort_by [simp]: "length (stable_sort_by lt xs) = length xs"
  by (metis mset_stable_sort_by size_mset)

text \<open>The result is sorted when the callback is a strict weak order on the elements.\<close>

definition weak_order_on :: "'a set \<Rightarrow> ('a \<Rightarrow> 'a \<Rightarrow> bool) \<Rightarrow> bool" where
  "weak_order_on S lt \<longleftrightarrow> (\<forall>a \<in> S. \<forall>b \<in> S. lt a b \<longrightarrow> \<not> lt b a) \<and>
     (\<forall>a \<in> S. \<forall>b \<in> S. \<forall>c \<in> S. \<not> lt b a \<longrightarrow> \<not> lt c b \<longrightarrow> \<not> lt c a)"

lemma sorted_insert_by:
  assumes "weak_order_on S lt" "sorted_wrt (\<lambda>a b. \<not> lt b a) ys" "insert x (set ys) \<subseteq> S"
  shows "sorted_wrt (\<lambda>a b. \<not> lt b a) (insert_by lt x ys)"
  using assms(2,3)
proof (induction ys)
  case (Cons y ys)
  have ins: "set (insert_by lt x ys) = insert x (set ys)"
    by (metis mset_insert_by set_mset_add_mset_insert set_mset_mset)
  have asym: "a \<in> S \<Longrightarrow> b \<in> S \<Longrightarrow> lt a b \<Longrightarrow> \<not> lt b a"
    and trans: "a \<in> S \<Longrightarrow> b \<in> S \<Longrightarrow> c \<in> S \<Longrightarrow> \<not> lt b a \<Longrightarrow> \<not> lt c b \<Longrightarrow> \<not> lt c a" for a b c
    using assms(1) unfolding weak_order_on_def by blast+
  show ?case
  proof (cases "lt y x")
    case True
    then show ?thesis using Cons asym [of y x] by (simp add: ins)
  next
    case False
    then have "\<forall>z \<in> set ys. \<not> lt z x" using Cons.prems trans [of x y] by auto
    then show ?thesis using Cons.prems False by simp
  qed
qed simp

lemma sorted_stable_sort_by:
  "weak_order_on (set xs) lt \<Longrightarrow> sorted_wrt (\<lambda>a b. \<not> lt b a) (stable_sort_by lt xs)"
proof -
  assume w: "weak_order_on (set xs) lt"
  have "set zs \<subseteq> set xs \<Longrightarrow> sorted_wrt (\<lambda>a b. \<not> lt b a) (stable_sort_by lt zs)" for zs
  proof (induction zs)
    case (Cons z zs)
    then show ?case
      using sorted_insert_by [OF w, of "stable_sort_by lt zs" z] by (simp add: stable_sort_by_def [of lt "_ # _"]
          stable_sort_by_def [symmetric])
  qed (simp add: stable_sort_by_def)
  then show ?thesis by simp
qed

lemma stable_sort_by_hd:
  assumes "weak_order_on (set xs) lt" "stable_sort_by lt xs = y # ys" "x \<in> set xs"
  shows "\<not> lt x y"
proof -
  have set: "set (y # ys) = set xs" using assms(2) set_stable_sort_by [of lt xs] by simp
  then have "y \<in> set xs" by auto
  then have "\<not> lt y y" using assms(1) unfolding weak_order_on_def by blast
  then show ?thesis using sorted_stable_sort_by [OF assms(1)] assms(2,3) set by auto
qed

lemma take_filter_sorted:
  "sorted_wrt (\<lambda>a b. P b \<longrightarrow> P a) xs \<Longrightarrow> take (length (filter P xs)) xs = filter P xs"
proof (induction xs)
  case (Cons x xs)
  show ?case
  proof (cases "P x")
    case False
    with Cons.prems have "filter P xs = []" by (auto simp: filter_empty_conv)
    with False show ?thesis by simp
  qed (use Cons in simp)
qed simp

text \<open>The first index that satisfies a condition, as the search loops with \<^verbatim>\<open>break\<close>.\<close>

fun first_index :: "('a \<Rightarrow> bool) \<Rightarrow> 'a list \<Rightarrow> nat option" where
  "first_index P [] = None"
| "first_index P (x # xs) = (if P x then Some 0 else map_option Suc (first_index P xs))"

lemma first_index_Some:
  "first_index P xs = Some i \<Longrightarrow> i < length xs \<and> P (xs ! i) \<and> (\<forall>j < i. \<not> P (xs ! j))"
proof (induction xs arbitrary: i)
  case (Cons x xs)
  then show ?case
    by (auto simp: less_Suc_eq_0_disj split: if_splits)
qed simp

lemma first_index_None: "first_index P xs = None \<longleftrightarrow> (\<forall>x \<in> set xs. \<not> P x)"
  by (induction xs) auto

text \<open>
  The loop that lets each element try an in-place edit and stops at the first one that took it:
  \<open>None\<close> means that no element was changed.
\<close>

fun update_first :: "('a \<Rightarrow> 'a option) \<Rightarrow> 'a list \<Rightarrow> 'a list option" where
  "update_first f [] = None"
| "update_first f (x # xs) =
     (case f x of Some y \<Rightarrow> Some (y # xs) | None \<Rightarrow> map_option (Cons x) (update_first f xs))"

lemma update_first_cong [fundef_cong]:
  "xs = ys \<Longrightarrow> (\<And>x. x \<in> set ys \<Longrightarrow> f x = g x) \<Longrightarrow> update_first f xs = update_first g ys"
  by (induction xs arbitrary: ys) (auto split: option.splits)

lemma update_first_Some:
  "update_first f xs = Some ys \<Longrightarrow>
     \<exists>i y. i < length xs \<and> f (xs ! i) = Some y \<and> (\<forall>j < i. f (xs ! j) = None) \<and> ys = xs[i := y]"
proof (induction xs arbitrary: ys)
  case (Cons x xs)
  show ?case
  proof (cases "f x")
    case None
    with Cons.prems obtain zs where zs: "update_first f xs = Some zs" "ys = x # zs" by auto
    from Cons.IH [OF zs(1)] obtain i y where "i < length xs" "f (xs ! i) = Some y"
      "\<forall>j < i. f (xs ! j) = None" "zs = xs[i := y]" by blast
    with None zs(2) show ?thesis
      by (intro exI [of _ "Suc i"] exI [of _ y]) (auto simp: less_Suc_eq_0_disj)
  next
    case (Some y)
    with Cons.prems show ?thesis by (intro exI [of _ 0] exI [of _ y]) auto
  qed
qed simp

lemma update_first_None: "update_first f xs = None \<longleftrightarrow> (\<forall>x \<in> set xs. f x = None)"
  by (induction xs) (auto split: option.splits)

text \<open>Inserting at and removing from a position of a slice.\<close>

definition insert_at :: "nat \<Rightarrow> 'a \<Rightarrow> 'a list \<Rightarrow> 'a list" where
  "insert_at i x xs = take i xs @ x # drop i xs"

definition remove_at :: "nat \<Rightarrow> 'a list \<Rightarrow> 'a list" where
  "remove_at i xs = take i xs @ drop (Suc i) xs"

lemma length_insert_at [simp]: "length (insert_at i x xs) = Suc (length xs)"
  by (simp add: insert_at_def)

lemma length_remove_at: "i < length xs \<Longrightarrow> length (remove_at i xs) = length xs - 1"
  by (simp add: remove_at_def)

lemma set_insert_at [simp]: "set (insert_at i x xs) = insert x (set xs)"
  by (simp add: insert_at_def) (metis append_take_drop_id set_append)

lemma mset_insert_at [simp]: "mset (insert_at i x xs) = add_mset x (mset xs)"
  by (simp add: insert_at_def) (metis append_take_drop_id mset_append)

lemma mset_remove_at: "i < length xs \<Longrightarrow> add_mset (xs ! i) (mset (remove_at i xs)) = mset xs"
  by (metis id_take_nth_drop mset.simps(2) mset_append remove_at_def union_mset_add_mset_right)

text \<open>Go's integer division truncates towards zero.\<close>

definition go_div :: "int \<Rightarrow> int \<Rightarrow> int" where
  "go_div a b = sgn a * sgn b * (\<bar>a\<bar> div \<bar>b\<bar>)"

section \<open>Sums over lists\<close>

lemma sum_list_update_int:
  "i < length xs \<Longrightarrow> sum_list (xs[i := v]) = sum_list xs - xs ! i + (v :: int)"
  by (induction xs arbitrary: i) (auto split: nat.split)

lemma sum_list_mono_length:
  fixes xs ys :: "int list"
  assumes "length xs = length ys" "\<And>i. i < length xs \<Longrightarrow> xs ! i \<le> ys ! i"
  shows "sum_list xs \<le> sum_list ys"
proof -
  have "sum_list xs = (\<Sum>i<length xs. xs ! i)"
    by (simp add: sum_list_sum_nth atLeast0LessThan)
  also have "\<dots> \<le> (\<Sum>i<length xs. ys ! i)"
    by (rule sum_mono) (use assms(2) in auto)
  also have "\<dots> = sum_list ys"
    by (simp add: sum_list_sum_nth atLeast0LessThan assms(1))
  finally show ?thesis .
qed

lemma length_le_sum_list:
  fixes xs :: "int list"
  assumes "\<And>x. x \<in> set xs \<Longrightarrow> 1 \<le> x"
  shows "int (length xs) \<le> sum_list xs"
  using assms by (induction xs) (auto, smt (verit))

lemma fold_max_ge_acc: "(a :: int) \<le> fold max xs a"
proof (induction xs arbitrary: a)
  case (Cons x xs)
  have "a \<le> max x a" by simp
  also have "\<dots> \<le> fold max xs (max x a)" by (rule Cons.IH)
  finally show ?case by simp
qed simp

lemma fold_max_ge: "x \<in> set xs \<Longrightarrow> (x :: int) \<le> fold max xs a"
proof (induction xs arbitrary: a)
  case (Cons y ys)
  then show ?case using fold_max_ge_acc [of "max y a" ys] by auto
qed simp

end
