(* ===== verification/Float64.thy ===== *)
theory Float64
  imports Vev_Prelude "HOL-Library.Log_Nat"
begin

text \<open>
  Go's \<^verbatim>\<open>float64\<close>: IEEE 754 binary64 arithmetic with rounding to nearest, ties to
  even, as the Go specification fixes it for the layout weights.

  A finite value is the rational number it denotes. The arithmetic operations compute the
  exact rational result and round it to 53 significant bits, with the subnormal range below
  \<open>2 ^ -1022\<close> and overflow to an infinity from \<open>2 ^ 1024\<close> on. The two signed zeros are one
  value here: the layout code never divides by a zero and never looks at the sign of one.
\<close>

section \<open>Rounding\<close>

definition pow2 :: "int \<Rightarrow> rat" where
  "pow2 e = (if 0 \<le> e then of_int (2 ^ nat e) else 1 / of_int (2 ^ nat (- e)))"

text \<open>The binary exponent of a positive rational.\<close>

definition adjust_exponent :: "rat \<Rightarrow> int \<Rightarrow> int" where
  "adjust_exponent x e = (if pow2 e \<le> x then e else e - 1)"

definition binade :: "rat \<Rightarrow> int" where
  "binade x = (case quotient_of x of (n, d) \<Rightarrow> adjust_exponent x (bitlen n - bitlen d))"

definition tie_to_even :: "int \<Rightarrow> rat \<Rightarrow> int" where
  "tie_to_even f d =
     (if d < 1 / 2 then f else if d > 1 / 2 then f + 1 else if even f then f else f + 1)"

definition round_half_even :: "rat \<Rightarrow> int" where
  "round_half_even r = tie_to_even \<lfloor>r\<rfloor> (r - of_int \<lfloor>r\<rfloor>)"

definition round_to_multiple :: "rat \<Rightarrow> rat \<Rightarrow> rat" where
  "round_to_multiple q x = of_int (round_half_even (x / q)) * q"

definition rnd :: "rat \<Rightarrow> rat" where
  "rnd x = (if x = 0 then 0 else round_to_multiple (pow2 (max (binade \<bar>x\<bar> - 52) (- 1074))) x)"

section \<open>Values and operations\<close>

datatype float64 = Fin rat | PosInf | NegInf | NaN

definition overflow64 :: "rat \<Rightarrow> float64" where
  "overflow64 r =
     (if r \<noteq> 0 \<and> 1024 \<le> binade \<bar>r\<bar> then (if 0 < r then PosInf else NegInf) else Fin r)"

definition round64 :: "rat \<Rightarrow> float64" where
  "round64 x = overflow64 (rnd x)"

definition float_of_int :: "int \<Rightarrow> float64" where
  "float_of_int k = round64 (of_int k)"

fun fneg :: "float64 \<Rightarrow> float64" where
  "fneg (Fin a) = Fin (- a)"
| "fneg PosInf = NegInf"
| "fneg NegInf = PosInf"
| "fneg NaN = NaN"

fun fadd :: "float64 \<Rightarrow> float64 \<Rightarrow> float64" where
  "fadd (Fin a) (Fin b) = round64 (a + b)"
| "fadd NaN _ = NaN"
| "fadd _ NaN = NaN"
| "fadd PosInf NegInf = NaN"
| "fadd NegInf PosInf = NaN"
| "fadd PosInf _ = PosInf"
| "fadd _ PosInf = PosInf"
| "fadd NegInf _ = NegInf"
| "fadd _ NegInf = NegInf"

definition fsub :: "float64 \<Rightarrow> float64 \<Rightarrow> float64" where
  "fsub a b = fadd a (fneg b)"

definition inf_signed :: "bool \<Rightarrow> float64" where
  "inf_signed pos = (if pos then PosInf else NegInf)"

fun fpositive :: "float64 \<Rightarrow> bool" where
  "fpositive (Fin a) = (0 < a)"
| "fpositive PosInf = True"
| "fpositive _ = False"

fun fmul :: "float64 \<Rightarrow> float64 \<Rightarrow> float64" where
  "fmul (Fin a) (Fin b) = round64 (a * b)"
| "fmul NaN _ = NaN"
| "fmul _ NaN = NaN"
| "fmul (Fin a) b = (if a = 0 then NaN else inf_signed ((0 < a) = fpositive b))"
| "fmul a (Fin b) = (if b = 0 then NaN else inf_signed (fpositive a = (0 < b)))"
| "fmul a b = inf_signed (fpositive a = fpositive b)"

fun fdiv :: "float64 \<Rightarrow> float64 \<Rightarrow> float64" where
  "fdiv (Fin a) (Fin b) =
     (if b = 0 then (if a = 0 then NaN else inf_signed (0 < a)) else round64 (a / b))"
| "fdiv NaN _ = NaN"
| "fdiv _ NaN = NaN"
| "fdiv (Fin a) _ = Fin 0"
| "fdiv a (Fin b) = inf_signed (fpositive a = (0 \<le> b))"
| "fdiv _ _ = NaN"

fun fless :: "float64 \<Rightarrow> float64 \<Rightarrow> bool" where
  "fless (Fin a) (Fin b) = (a < b)"
| "fless NaN _ = False"
| "fless _ NaN = False"
| "fless PosInf _ = False"
| "fless _ NegInf = False"
| "fless _ _ = True"

fun fle_zero :: "float64 \<Rightarrow> bool" where
  "fle_zero (Fin a) = (a \<le> 0)"
| "fle_zero NegInf = True"
| "fle_zero _ = False"

text \<open>\<^verbatim>\<open>math.Max\<close>.\<close>

definition fmax :: "float64 \<Rightarrow> float64 \<Rightarrow> float64" where
  "fmax a b = (if a = PosInf \<or> b = PosInf then PosInf
     else if a = NaN \<or> b = NaN then NaN else if fless b a then a else b)"

text \<open>
  \<^verbatim>\<open>int(math.Floor(x))\<close>. The conversion of a value outside the range of
  \<^verbatim>\<open>int\<close> is left to the implementation by Go; the amd64 and arm64 results for it are never used
  by the program.
\<close>

fun floor_int :: "float64 \<Rightarrow> int" where
  "floor_int (Fin a) = \<lfloor>a\<rfloor>"
| "floor_int _ = min_int"

fun fval :: "float64 \<Rightarrow> rat" where
  "fval (Fin a) = a"
| "fval _ = 0"

section \<open>Powers of two and exponents\<close>

lemma pow2_pos [simp]: "0 < pow2 e"
  by (simp add: pow2_def)

lemma pow2_nonzero [simp]: "pow2 e \<noteq> 0"
  by (metis less_irrefl pow2_pos)

lemma pow2_succ: "pow2 (e + 1) = 2 * pow2 e"
proof (cases "0 \<le> e")
  case True
  then show ?thesis by (simp add: pow2_def nat_add_distrib)
next
  case False
  then have "nat (- e) = Suc (nat (- (e + 1)))" by simp
  then show ?thesis using False by (auto simp: pow2_def)
qed

lemma pow2_add_nat: "pow2 (e + int n) = 2 ^ n * pow2 e"
proof (induction n)
  case (Suc n)
  have "pow2 (e + int (Suc n)) = pow2 ((e + int n) + 1)" by (simp add: algebra_simps)
  then show ?case using Suc by (simp add: pow2_succ)
qed simp

lemma pow2_mono: "a \<le> b \<Longrightarrow> pow2 a \<le> pow2 b"
proof -
  assume "a \<le> b"
  then have "b = a + int (nat (b - a))" by simp
  then have "pow2 b = 2 ^ nat (b - a) * pow2 a" by (metis pow2_add_nat)
  moreover have "(1 :: rat) \<le> 2 ^ nat (b - a)" by simp
  ultimately show ?thesis
    by (metis less_imp_le mult_le_cancel_right1 not_less pow2_pos)
qed

lemma pow2_diff: "pow2 (int a - int b) = 2 ^ a / 2 ^ b"
proof -
  have "pow2 (int a) = pow2 (int a - int b + int b)" by simp
  also have "\<dots> = 2 ^ b * pow2 (int a - int b)" by (rule pow2_add_nat)
  finally have "2 ^ b * pow2 (int a - int b) = 2 ^ a" by (simp add: pow2_def)
  then show ?thesis by (simp add: field_simps)
qed

lemma bitlen_range:
  assumes "0 < n"
  shows "2 ^ (nat (bitlen n) - 1) \<le> n" and "n < 2 ^ nat (bitlen n)" and "0 < nat (bitlen n)"
  using bitlen_bounds [OF assms] bitlen_eq_zero_iff [of n] bitlen_nonneg [of n] assms
  by (auto simp: nat_diff_distrib)

lemma binade_bounds:
  assumes "0 < x"
  shows "pow2 (binade x) \<le> x" and "x < pow2 (binade x + 1)"
proof -
  obtain n d where q: "quotient_of x = (n, d)" by (cases "quotient_of x")
  have d: "0 < d" using quotient_of_denom_pos [OF q] .
  have x: "x = of_int n / of_int d" using quotient_of_div [OF q] .
  with assms d have n: "0 < n" by (simp add: zero_less_divide_iff)
  define a where "a = nat (bitlen n)"
  define b where "b = nat (bitlen d)"
  note nr = bitlen_range [OF n, folded a_def]
  note dr = bitlen_range [OF d, folded b_def]
  have nl: "(2 :: rat) ^ (a - 1) \<le> of_int n" and nu: "of_int n < (2 :: rat) ^ a"
    and dl: "(2 :: rat) ^ (b - 1) \<le> of_int d" and du: "of_int d < (2 :: rat) ^ b"
    using nr(1,2) dr(1,2) by simp_all
  have d': "(0 :: rat) < of_int d" using d by simp
  have up: "x < pow2 (int a - int b + 1)"
  proof -
    have "x < 2 ^ a / of_int d" using nu d' by (simp add: x divide_strict_right_mono)
    also have "\<dots> \<le> 2 ^ a / 2 ^ (b - 1)" using dl by (simp add: frac_le)
    also have "\<dots> = pow2 (int a - int (b - 1))" by (rule pow2_diff [symmetric])
    also have "int a - int (b - 1) = int a - int b + 1" using dr(3) by simp
    finally show ?thesis .
  qed
  have lo: "pow2 (int a - int b - 1) \<le> x"
  proof -
    have "pow2 (int a - int b - 1) = pow2 (int (a - 1) - int b)" using nr(3) by (simp add: algebra_simps)
    also have "\<dots> = 2 ^ (a - 1) / 2 ^ b" by (rule pow2_diff)
    also have "\<dots> \<le> 2 ^ (a - 1) / of_int d" using du d' by (simp add: frac_le)
    also have "\<dots> \<le> x" using nl d' by (simp add: x divide_right_mono)
    finally show ?thesis .
  qed
  have "bitlen n - bitlen d = int a - int b"
    using bitlen_nonneg [of n] bitlen_nonneg [of d] by (simp add: a_def b_def)
  then have e: "binade x = (if pow2 (int a - int b) \<le> x then int a - int b else int a - int b - 1)"
    by (simp add: binade_def adjust_exponent_def q)
  show "pow2 (binade x) \<le> x" using lo by (simp add: e)
  show "x < pow2 (binade x + 1)" using up by (auto simp: e)
qed

section \<open>The rounding error\<close>

lemma round_half_even_error: "\<bar>of_int (round_half_even r) - r\<bar> \<le> 1 / 2"
  using floor_correct [of r] by (auto simp: round_half_even_def tie_to_even_def)

lemma round_half_even_of_int [simp]: "round_half_even (of_int k) = k"
  by (simp add: round_half_even_def tie_to_even_def)

lemma rnd_error: "\<bar>rnd x - x\<bar> \<le> \<bar>x\<bar> / 2 ^ 53 + 1 / 2 ^ 1075"
proof (cases "x = 0")
  case True
  then show ?thesis by (simp add: rnd_def)
next
  case False
  define q where "q = pow2 (max (binade \<bar>x\<bar> - 52) (- 1074))"
  have q: "0 < q" by (simp add: q_def)
  have "rnd x - x = (of_int (round_half_even (x / q)) - x / q) * q"
    using False q by (simp add: rnd_def round_to_multiple_def q_def algebra_simps)
  then have "\<bar>rnd x - x\<bar> = \<bar>of_int (round_half_even (x / q)) - x / q\<bar> * q"
    using q by (simp add: abs_mult)
  also have "\<dots> \<le> 1 / 2 * q"
    by (rule mult_right_mono [OF round_half_even_error]) (use q in simp)
  finally have err: "\<bar>rnd x - x\<bar> \<le> q / 2" by simp
  have b: "pow2 (binade \<bar>x\<bar>) \<le> \<bar>x\<bar>" using binade_bounds(1) [of "\<bar>x\<bar>"] False by simp
  have sub: "pow2 (- 1074) / 2 = 1 / 2 ^ 1075" by (simp add: pow2_def)
  have nrm: "pow2 (binade \<bar>x\<bar> - 52) / 2 = pow2 (binade \<bar>x\<bar>) / 2 ^ 53"
    using pow2_add_nat [of "binade \<bar>x\<bar> - 52" 52] by (simp add: field_simps)
  have "q / 2 \<le> pow2 (binade \<bar>x\<bar> - 52) / 2 + pow2 (- 1074) / 2"
    unfolding q_def max_def by (auto simp: less_imp_le)
  also have "\<dots> \<le> \<bar>x\<bar> / 2 ^ 53 + 1 / 2 ^ 1075"
    unfolding sub nrm using b by (simp add: divide_right_mono)
  finally show ?thesis using err by linarith
qed

lemma rnd_close:
  assumes "\<bar>x\<bar> \<le> B"
  shows "\<bar>rnd x - x\<bar> \<le> (B + 1) / 2 ^ 53"
proof -
  have "(1 :: rat) / 2 ^ 1075 \<le> 1 / 2 ^ 53" by (simp add: frac_le)
  with rnd_error [of x] divide_right_mono [OF assms, of "2 ^ 53"] show ?thesis
    by (simp add: add_divide_distrib)
qed

lemma rnd_nonneg: "0 \<le> x \<Longrightarrow> 0 \<le> rnd x"
proof (cases "x = 0")
  case False
  assume "0 \<le> x"
  define q where "q = pow2 (max (binade \<bar>x\<bar> - 52) (- 1074))"
  have "0 \<le> x / q" using \<open>0 \<le> x\<close> by (simp add: q_def less_imp_le)
  then have "0 \<le> \<lfloor>x / q\<rfloor>" by simp
  then have "0 \<le> round_half_even (x / q)" by (simp add: round_half_even_def tie_to_even_def)
  then show ?thesis using False by (simp add: rnd_def round_to_multiple_def q_def [symmetric]) (simp add: q_def less_imp_le)
qed (simp add: rnd_def)

lemma rnd_of_int:
  assumes "\<bar>k\<bar> < 2 ^ 53"
  shows "rnd (of_int k) = of_int k"
proof (cases "k = 0")
  case False
  define x where "x = (of_int k :: rat)"
  define e where "e = binade \<bar>x\<bar>"
  have x0: "0 < \<bar>x\<bar>" using False by (simp add: x_def)
  have small: "\<bar>x\<bar> < 2 ^ 53"
    using assms by (simp add: x_def)
  have "e < 53"
  proof (rule ccontr)
    assume "\<not> e < 53"
    then have "pow2 53 \<le> pow2 e" by (simp add: pow2_mono)
    then show False using binade_bounds(1) [OF x0] small by (simp add: e_def pow2_def)
  qed
  then have q0: "max (e - 52) (- 1074) \<le> 0" by simp
  define m where "m = nat (- max (e - 52) (- 1074))"
  have q: "pow2 (max (e - 52) (- 1074)) = 1 / 2 ^ m"
    using pow2_diff [of 0 m] q0 by (simp add: m_def)
  have "x / pow2 (max (e - 52) (- 1074)) = of_int (k * 2 ^ m)" by (simp add: q x_def)
  then have "round_half_even (x / pow2 (max (e - 52) (- 1074))) = k * 2 ^ m"
    by (metis round_half_even_of_int)
  then show ?thesis using False by (simp add: rnd_def round_to_multiple_def flip: x_def e_def) (simp add: q x_def)
qed (simp add: rnd_def)

lemma round64_small: "\<bar>x\<bar> \<le> 2 ^ 64 \<Longrightarrow> round64 x = Fin (rnd x)"
proof -
  assume x: "\<bar>x\<bar> \<le> 2 ^ 64"
  have "\<bar>rnd x - x\<bar> \<le> (2 ^ 64 + 1) / 2 ^ 53" by (rule rnd_close [OF x])
  also have "\<dots> \<le> (2 :: rat) ^ 64" by simp
  finally have small: "\<bar>rnd x\<bar> \<le> 2 ^ 65" using x by simp
  have "\<not> 1024 \<le> binade \<bar>rnd x\<bar>" if "rnd x \<noteq> 0"
  proof
    assume "1024 \<le> binade \<bar>rnd x\<bar>"
    then have "pow2 66 \<le> pow2 (binade \<bar>rnd x\<bar>)" by (simp add: pow2_mono)
    also have "\<dots> \<le> \<bar>rnd x\<bar>" by (rule binade_bounds(1)) (use that in simp)
    finally show False using small by (simp add: pow2_def)
  qed
  then show ?thesis by (auto simp: round64_def overflow64_def)
qed

lemma float_of_int_small: "\<bar>k\<bar> < 2 ^ 53 \<Longrightarrow> float_of_int k = Fin (of_int k)"
proof -
  assume k: "\<bar>k\<bar> < 2 ^ 53"
  then have "\<bar>of_int k :: rat\<bar> < 2 ^ 53"
    by (metis (no_types) of_int_abs of_int_less_numeral_power_cancel_iff)
  then have "\<bar>of_int k :: rat\<bar> \<le> 2 ^ 64" by simp
  with k show ?thesis by (simp add: float_of_int_def round64_small rnd_of_int)
qed

end
