(* ===== verification/Layout_Tree.thy ===== *)
theory Layout_Tree
  imports Float64
begin

text \<open>
  The pane tree of one tab: \<^verbatim>\<open>internal/domain/layout/tree.go\<close> and the read-only queries
  of \<^verbatim>\<open>ops.go\<close>.

  A \<open>node\<close> carries every field of the Go struct, whatever its kind. The Go tree is built of
  pointers, but every mutating operation works on a deep copy made by \<^verbatim>\<open>clone\<close>, in
  which no node is shared; so a node is a value here and an in-place change returns the changed
  value. Child slices never hold a nil pointer: neither the operations nor the snapshot decoder
  store one. A nil root is \<open>None\<close>.

  \<open>wf_node\<close> is the shape every operation keeps: splits and stacks have at least two
  children, a stack holds leaves only and names one of them as expanded, no pane has the empty
  identifier. \<open>wf_tree\<close> adds that no pane occurs twice and that the focus is one of the panes.
\<close>

section \<open>Data\<close>

type_synonym paneID = string

datatype kind = Leaf | Split | Stack

datatype direction = Left | Right | Up | Down

datatype splitDir = Horizontal | Vertical

definition MinPaneCols :: int where "MinPaneCols = 20"

definition MinPaneRows :: int where "MinPaneRows = 2"

datatype axis = Width | Height

datatype node = Node (node_kind: kind) (node_dir: splitDir) (node_children: "node list")
  (node_leaf: paneID) (node_expanded: paneID) (node_weight: float64)

record tree =
  Root :: "node option"
  Focus :: paneID

record rect =
  rX :: int
  rY :: int
  rWidth :: int
  rHeight :: int

definition zero_rect :: rect where
  "zero_rect = \<lparr>rX = 0, rY = 0, rWidth = 0, rHeight = 0\<rparr>"

record placement =
  ID :: paneID
  Content :: rect
  TitleBar :: rect
  Collapsed :: bool
  InStack :: bool

text \<open>Composite literals with the omitted fields at their zero values.\<close>

definition NewLeaf :: "paneID \<Rightarrow> node" where
  "NewLeaf pid = Node Leaf Horizontal [] pid [] (Fin 0)"

definition split_node :: "splitDir \<Rightarrow> node list \<Rightarrow> float64 \<Rightarrow> node" where
  "split_node d cs w = Node Split d cs [] [] w"

definition stack_node :: "node list \<Rightarrow> paneID \<Rightarrow> float64 \<Rightarrow> node" where
  "stack_node cs e w = Node Stack Horizontal cs [] e w"

definition NewTree :: "paneID \<Rightarrow> tree" where
  "NewTree pid = \<lparr>Root = Some (NewLeaf pid), Focus = pid\<rparr>"

definition axisFor :: "direction \<Rightarrow> splitDir" where
  "axisFor dir = (if dir = Left \<or> dir = Right then Horizontal else Vertical)"

text \<open>Assignments to single fields of a node.\<close>

definition set_weight :: "float64 \<Rightarrow> node \<Rightarrow> node" where
  "set_weight w n = Node (node_kind n) (node_dir n) (node_children n) (node_leaf n) (node_expanded n) w"

definition set_children :: "node list \<Rightarrow> node \<Rightarrow> node" where
  "set_children cs n = Node (node_kind n) (node_dir n) cs (node_leaf n) (node_expanded n) (node_weight n)"

definition set_expanded :: "paneID \<Rightarrow> node \<Rightarrow> node" where
  "set_expanded e n = Node (node_kind n) (node_dir n) (node_children n) (node_leaf n) e (node_weight n)"

lemma set_weight_sel [simp]:
  "node_kind (set_weight w n) = node_kind n" "node_dir (set_weight w n) = node_dir n"
  "node_children (set_weight w n) = node_children n" "node_leaf (set_weight w n) = node_leaf n"
  "node_expanded (set_weight w n) = node_expanded n" "node_weight (set_weight w n) = w"
  by (simp_all add: set_weight_def)

lemma set_children_sel [simp]:
  "node_kind (set_children cs n) = node_kind n" "node_dir (set_children cs n) = node_dir n"
  "node_children (set_children cs n) = cs" "node_leaf (set_children cs n) = node_leaf n"
  "node_expanded (set_children cs n) = node_expanded n" "node_weight (set_children cs n) = node_weight n"
  by (simp_all add: set_children_def)

lemma set_expanded_sel [simp]:
  "node_kind (set_expanded e n) = node_kind n" "node_dir (set_expanded e n) = node_dir n"
  "node_children (set_expanded e n) = node_children n" "node_leaf (set_expanded e n) = node_leaf n"
  "node_expanded (set_expanded e n) = e" "node_weight (set_expanded e n) = node_weight n"
  by (simp_all add: set_expanded_def)

lemma NewLeaf_sel [simp]:
  "node_kind (NewLeaf pid) = Leaf" "node_children (NewLeaf pid) = []" "node_leaf (NewLeaf pid) = pid"
  by (simp_all add: NewLeaf_def)

text \<open>The deep copy every operation starts from. On values it changes nothing.\<close>

fun cloneNode :: "node \<Rightarrow> node" where
  "cloneNode (Node k d cs l e w) = Node k d (map cloneNode cs) l e w"

definition clone :: "tree \<Rightarrow> tree" where
  "clone t = \<lparr>Root = map_option cloneNode (Root t), Focus = Focus t\<rparr>"

lemma cloneNode_id [simp]: "cloneNode n = n"
  by (induction n rule: cloneNode.induct) (simp add: map_idI)

lemma clone_id [simp]: "clone t = t"
  by (simp add: clone_def option.map_ident_strong)

section \<open>Queries\<close>

fun containsLeaf :: "node \<Rightarrow> paneID \<Rightarrow> bool" where
  "containsLeaf (Node k d cs l e w) pid =
     (if k = Leaf then l = pid else list_ex (\<lambda>c. containsLeaf c pid) cs)"

fun leafIDs :: "node \<Rightarrow> paneID list" where
  "leafIDs (Node k d cs l e w) = (if k = Leaf then [l] else concat (map leafIDs cs))"

definition first_nonempty :: "paneID list \<Rightarrow> paneID" where
  "first_nonempty ids = (case filter (\<lambda>pid. pid \<noteq> []) ids of [] \<Rightarrow> [] | pid # _ \<Rightarrow> pid)"

fun firstLeaf :: "node \<Rightarrow> paneID" where
  "firstLeaf (Node k d cs l e w) = (if k = Leaf then l else first_nonempty (map firstLeaf cs))"

fun lastLeaf :: "node \<Rightarrow> paneID" where
  "lastLeaf (Node k d cs l e w) = (if k = Leaf then l else first_nonempty (map lastLeaf (rev cs)))"

definition stackDirectLeafIndex :: "node \<Rightarrow> paneID \<Rightarrow> nat option" where
  "stackDirectLeafIndex n target =
     first_index (\<lambda>c. node_kind c = Leaf \<and> node_leaf c = target) (node_children n)"

text \<open>\<open>None\<close> stands for the Go result false: nothing was changed.\<close>

fun setExpanded :: "node \<Rightarrow> paneID \<Rightarrow> node option" where
  "setExpanded (Node k d cs l e w) pid =
     (if k = Stack \<and> stackDirectLeafIndex (Node k d cs l e w) pid \<noteq> None
      then Some (Node k d cs l pid w)
      else map_option (\<lambda>cs'. Node k d cs' l e w) (update_first (\<lambda>c. setExpanded c pid) cs))"

fun CollapsedLeaf :: "node \<Rightarrow> paneID \<Rightarrow> bool" where
  "CollapsedLeaf (Node k d cs l e w) pid =
     (if k = Stack \<and> stackDirectLeafIndex (Node k d cs l e w) pid \<noteq> None then e \<noteq> pid
      else list_ex (\<lambda>c. CollapsedLeaf c pid) cs)"

section \<open>Well-formed trees\<close>

fun wf_node :: "node \<Rightarrow> bool" where
  "wf_node (Node k d cs l e w) =
     (case k of
        Leaf \<Rightarrow> cs = [] \<and> l \<noteq> []
      | Split \<Rightarrow> 2 \<le> length cs \<and> list_all wf_node cs
      | Stack \<Rightarrow> 2 \<le> length cs \<and> list_all (\<lambda>c. node_kind c = Leaf \<and> wf_node c) cs \<and>
          e \<in> set (map node_leaf cs))"

definition wf_tree :: "tree \<Rightarrow> bool" where
  "wf_tree t = (case Root t of
       None \<Rightarrow> Focus t = []
     | Some n \<Rightarrow> wf_node n \<and> distinct (leafIDs n) \<and> Focus t \<in> set (leafIDs n))"

text \<open>The panes whose content is on screen: a stack shows its expanded member only.\<close>

fun visibleIDs :: "node \<Rightarrow> paneID list" where
  "visibleIDs (Node k d cs l e w) =
     (case k of Leaf \<Rightarrow> [l] | Split \<Rightarrow> concat (map visibleIDs cs) | Stack \<Rightarrow> [e])"

section \<open>Lemmas\<close>

lemma visibleIDs_unfold:
  "visibleIDs n = (case node_kind n of Leaf \<Rightarrow> [node_leaf n]
     | Split \<Rightarrow> concat (map visibleIDs (node_children n)) | Stack \<Rightarrow> [node_expanded n])"
  by (cases n) (simp split: kind.split)

lemma visibleIDs_simps [tree_simps, simp]:
  "visibleIDs (set_weight w n) = visibleIDs n"
  "visibleIDs (NewLeaf pid) = [pid]"
  "visibleIDs (split_node d cs w) = concat (map visibleIDs cs)"
  "visibleIDs (stack_node cs e w) = [e]"
  by (simp_all add: visibleIDs_unfold [of "set_weight w n"] visibleIDs_unfold [of n] visibleIDs_unfold [of "NewLeaf pid"]
      split_node_def stack_node_def split: kind.split)

lemma wf_node_unfold:
  "wf_node n = (case node_kind n of
        Leaf \<Rightarrow> node_children n = [] \<and> node_leaf n \<noteq> []
      | Split \<Rightarrow> 2 \<le> length (node_children n) \<and> (\<forall>c \<in> set (node_children n). wf_node c)
      | Stack \<Rightarrow> 2 \<le> length (node_children n) \<and>
          (\<forall>c \<in> set (node_children n). node_kind c = Leaf \<and> wf_node c) \<and>
          node_expanded n \<in> set (map node_leaf (node_children n)))"
  by (cases n) (auto simp: list_all_iff split: kind.split)

lemma leafIDs_unfold:
  "leafIDs n = (if node_kind n = Leaf then [node_leaf n] else concat (map leafIDs (node_children n)))"
  by (cases n) simp

lemma containsLeaf_leafIDs: "containsLeaf n pid \<longleftrightarrow> pid \<in> set (leafIDs n)"
  by (induction n pid rule: containsLeaf.induct) (auto simp: list_ex_iff)

lemma leafIDs_set_weight [tree_simps, simp]: "leafIDs (set_weight w n) = leafIDs n"
  by (simp add: leafIDs_unfold)

lemma leafIDs_set_expanded [tree_simps, simp]: "leafIDs (set_expanded e n) = leafIDs n"
  by (simp add: leafIDs_unfold)

lemma leafIDs_NewLeaf [tree_simps, simp]: "leafIDs (NewLeaf pid) = [pid]"
  by (simp add: leafIDs_unfold)

lemma leafIDs_split_node [tree_simps, simp]: "leafIDs (split_node d cs w) = concat (map leafIDs cs)"
  by (simp add: split_node_def)

lemma leafIDs_stack_node [tree_simps, simp]: "leafIDs (stack_node cs e w) = concat (map leafIDs cs)"
  by (simp add: stack_node_def)

lemma visibleIDs_Leaf: "node_kind n = Leaf \<Longrightarrow> visibleIDs n = [node_leaf n]" "node_kind n = Leaf \<Longrightarrow> leafIDs n = [node_leaf n]"
  by (simp_all add: visibleIDs_unfold [of n] leafIDs_unfold [of n])

lemma wf_node_set_weight [simp]: "wf_node (set_weight w n) = wf_node n"
  by (cases n) (simp add: set_weight_def)

lemma wf_NewLeaf [simp]: "wf_node (NewLeaf pid) \<longleftrightarrow> pid \<noteq> []"
  by (simp add: NewLeaf_def)

lemma wf_NewTree: "pid \<noteq> [] \<Longrightarrow> wf_tree (NewTree pid)"
  by (simp add: wf_tree_def NewTree_def)

lemma wf_node_leaves_nonempty: "wf_node n \<Longrightarrow> leafIDs n \<noteq> [] \<and> [] \<notin> set (leafIDs n)"
proof (induction n rule: leafIDs.induct)
  case (1 k d cs l e w)
  show ?case
  proof (cases "k = Leaf")
    case True
    with "1.prems" show ?thesis by auto
  next
    case False
    with "1.prems" have wf: "\<forall>c \<in> set cs. wf_node c" and len: "2 \<le> length cs"
      by (auto simp: list_all_iff split: kind.splits)
    with False "1.IH" have "\<forall>c \<in> set cs. leafIDs c \<noteq> [] \<and> [] \<notin> set (leafIDs c)" by blast
    moreover obtain c cs' where "cs = c # cs'" using len by (cases cs) auto
    ultimately show ?thesis using False by auto
  qed
qed

lemma first_nonempty_hd: "ids \<noteq> [] \<Longrightarrow> [] \<notin> set ids \<Longrightarrow> first_nonempty ids = hd ids"
  by (cases ids) (auto simp: first_nonempty_def)

lemma firstLeaf_hd: "wf_node n \<Longrightarrow> firstLeaf n = hd (leafIDs n)"
proof (induction n rule: firstLeaf.induct)
  case (1 k d cs l e w)
  show ?case
  proof (cases "k = Leaf")
    case False
    with "1.prems" have wf: "\<forall>c \<in> set cs. wf_node c" and len: "2 \<le> length cs"
      by (auto simp: list_all_iff split: kind.splits)
    with False "1.IH" have eq: "map firstLeaf cs = map (\<lambda>c. hd (leafIDs c)) cs" by auto
    obtain c cs' where cs: "cs = c # cs'" using len by (cases cs) auto
    have ne: "\<forall>c \<in> set cs. hd (leafIDs c) \<noteq> []"
      using wf wf_node_leaves_nonempty by (metis hd_in_set)
    have "first_nonempty (map firstLeaf cs) = hd (leafIDs c)"
      unfolding eq using ne by (subst first_nonempty_hd) (auto simp: cs)
    moreover have "leafIDs c \<noteq> []" using wf wf_node_leaves_nonempty by (simp add: cs)
    ultimately show ?thesis using False by (simp add: cs)
  qed simp
qed

lemma lastLeaf_last: "wf_node n \<Longrightarrow> lastLeaf n = last (leafIDs n)"
proof (induction n rule: lastLeaf.induct)
  case (1 k d cs l e w)
  show ?case
  proof (cases "k = Leaf")
    case False
    with "1.prems" have wf: "\<forall>c \<in> set cs. wf_node c" and len: "2 \<le> length cs"
      by (auto simp: list_all_iff split: kind.splits)
    with False "1.IH" have eq: "map lastLeaf (rev cs) = map (\<lambda>c. last (leafIDs c)) (rev cs)" by auto
    obtain c cs' where cs: "cs = cs' @ [c]" using len by (cases cs rule: rev_cases) auto
    have ne: "\<forall>c \<in> set cs. last (leafIDs c) \<noteq> []"
      using wf wf_node_leaves_nonempty by (metis last_in_set)
    have "first_nonempty (map lastLeaf (rev cs)) = last (leafIDs c)"
      unfolding eq using ne by (subst first_nonempty_hd) (auto simp: cs)
    moreover have "leafIDs c \<noteq> []" using wf wf_node_leaves_nonempty by (simp add: cs)
    ultimately show ?thesis using False by (simp add: cs)
  qed simp
qed

lemma concat_map_update:
  "i < length xs \<Longrightarrow> f y = f (xs ! i) \<Longrightarrow> concat (map f (xs[i := y])) = concat (map f xs)"
  by (metis (no_types, lifting) list_update_id map_update)

lemma setExpanded_leafIDs: "setExpanded n pid = Some n' \<Longrightarrow> leafIDs n' = leafIDs n"
proof (induction n pid arbitrary: n' rule: setExpanded.induct)
  case (1 k d cs l e w pid)
  show ?case
  proof (cases "k = Stack \<and> stackDirectLeafIndex (Node k d cs l e w) pid \<noteq> None")
    case True
    with "1.prems" show ?thesis by auto
  next
    case False
    with "1.prems" obtain cs' where n': "n' = Node k d cs' l e w"
      and up: "update_first (\<lambda>c. setExpanded c pid) cs = Some cs'" by (auto simp del: not_None_eq)
    from up obtain i y where i: "i < length cs" "setExpanded (cs ! i) pid = Some y" "cs' = cs[i := y]"
      by (auto dest!: update_first_Some)
    then have "leafIDs y = leafIDs (cs ! i)" using "1.IH" [OF False, of "cs ! i"] by auto
    with i show ?thesis by (simp add: n' concat_map_update)
  qed
qed

lemma stackDirectLeafIndex_Some:
  "stackDirectLeafIndex n pid = Some i \<Longrightarrow>
     i < length (node_children n) \<and> node_kind (node_children n ! i) = Leaf \<and> node_leaf (node_children n ! i) = pid"
  by (auto simp: stackDirectLeafIndex_def dest: first_index_Some)

lemma list_all_update: "list_all P xs \<Longrightarrow> P y \<Longrightarrow> list_all P (xs[i := y])"
  by (auto simp: list_all_iff dest: set_update_subset_insert [THEN subsetD])

lemma setExpanded_kind: "setExpanded n pid = Some n' \<Longrightarrow> node_kind n' = node_kind n"
  by (cases n) (auto split: if_splits)

lemma setExpanded_Leaf: "wf_node n \<Longrightarrow> node_kind n = Leaf \<Longrightarrow> setExpanded n pid = None"
  by (cases n) auto

lemma setExpanded_wf: "setExpanded n pid = Some n' \<Longrightarrow> wf_node n \<Longrightarrow> wf_node n'"
proof (induction n pid arbitrary: n' rule: setExpanded.induct)
  case (1 k d cs l e w pid)
  show ?case
  proof (cases "k = Stack \<and> stackDirectLeafIndex (Node k d cs l e w) pid \<noteq> None")
    case True
    then obtain i where "stackDirectLeafIndex (Node k d cs l e w) pid = Some i" by blast
    from stackDirectLeafIndex_Some [OF this] have "pid \<in> set (map node_leaf cs)" by auto
    with True "1.prems" show ?thesis by auto
  next
    case False
    with "1.prems"(1) obtain cs' where n': "n' = Node k d cs' l e w"
      and up: "update_first (\<lambda>c. setExpanded c pid) cs = Some cs'" by (auto simp del: not_None_eq)
    from up obtain i y where i: "i < length cs" "setExpanded (cs ! i) pid = Some y" "cs' = cs[i := y]"
      by (auto dest!: update_first_Some)
    have mem: "cs ! i \<in> set cs" using i by simp
    have k: "k = Split"
      using "1.prems"(2) i mem setExpanded_Leaf [of "cs ! i" pid]
      by (auto simp: list_all_iff split: kind.splits)
    with "1.prems"(2) mem have "wf_node (cs ! i)" by (auto simp: list_all_iff)
    then have "wf_node y" using "1.IH" [OF False mem] i by blast
    with k i "1.prems"(2) show ?thesis by (simp add: n' list_all_update)
  qed
qed

lemma wf_stack_leafIDs:
  "\<forall>c \<in> set cs. node_kind c = Leaf \<Longrightarrow> concat (map leafIDs cs) = map node_leaf cs"
  by (induction cs) (auto simp: leafIDs_unfold)

lemma stackDirectLeafIndex_None:
  "\<forall>c \<in> set (node_children n). node_kind c = Leaf \<Longrightarrow>
     stackDirectLeafIndex n pid = None \<longleftrightarrow> pid \<notin> set (map node_leaf (node_children n))"
  by (auto simp: stackDirectLeafIndex_def first_index_None)

lemma visibleIDs_leafIDs: "wf_node n \<Longrightarrow> set (visibleIDs n) \<subseteq> set (leafIDs n)"
proof (induction n rule: visibleIDs.induct)
  case (1 k d cs l e w)
  then show ?case
  proof (cases k)
    case Split
    with 1 show ?thesis by (fastforce simp: list_all_iff)
  next
    case Stack
    with 1 have "\<forall>c \<in> set cs. node_kind c = Leaf" "e \<in> set (map node_leaf cs)" by (auto simp: list_all_iff)
    with Stack show ?thesis using wf_stack_leafIDs [of cs] by simp
  qed simp
qed

end
