(* ===== verification/Layout_Distribute.thy ===== *)
theory Layout_Distribute
  imports Layout_Tree
begin

text \<open>
  The distribution of cells among the children of a split: \<^verbatim>\<open>distribute\<close> of
  \<^verbatim>\<open>internal/domain/layout/geometry.go\<close>.

  \<open>distribute\<close> hands out the cells proportionally to the weights, never below a child's
  minimum; the cells lost to rounding go to the largest fractions. It computes with
  \<^verbatim>\<open>float64\<close>, so its guarantees rest on the rounding error staying below one cell. The
  section on quotas shows that it does, for every screen the protocol can describe: at most
  \<open>screen_limit\<close> cells along an axis. \<open>Panics\<close> is the run-time panic of
  \<^verbatim>\<open>i%len(remainders)\<close> on an empty slice; the same bound rules it out.
\<close>

section \<open>Distribution of cells\<close>

definition screen_limit :: int where
  "screen_limit = 65535"

definition effectiveWeight :: "float64 \<Rightarrow> float64" where
  "effectiveWeight weight =
     (if fle_zero weight \<or> weight = NaN \<or> weight = PosInf \<or> weight = NegInf then Fin 1 else weight)"

definition largestWeight :: "(float64 \<times> bool) list \<Rightarrow> float64" where
  "largestWeight was = foldl (\<lambda>lg (weight, act). if act then fmax lg (effectiveWeight weight) else lg) (Fin 0) was"

definition scaledSum :: "float64 \<Rightarrow> (float64 \<times> bool) list \<Rightarrow> float64" where
  "scaledSum largest was =
     foldl (\<lambda>s (weight, act). if act then fadd s (fdiv (effectiveWeight weight) largest) else s) (Fin 0) was"

definition activeWeightScale :: "float64 list \<Rightarrow> bool list \<Rightarrow> float64 \<times> float64" where
  "activeWeightScale weights active =
     (largestWeight (zip weights active),
      scaledSum (largestWeight (zip weights active)) (zip weights active))"

text \<open>The expression both loops of \<^verbatim>\<open>distribute\<close> compute for an active child.\<close>

definition quota :: "float64 list \<Rightarrow> bool list \<Rightarrow> int \<Rightarrow> nat \<Rightarrow> float64" where
  "quota weights active remaining i =
     (case activeWeightScale weights active of (largest, wsum) \<Rightarrow>
        fdiv (fmul (float_of_int remaining) (fdiv (effectiveWeight (weights ! i)) largest)) wsum)"

definition pinned :: "float64 list \<Rightarrow> int list \<Rightarrow> bool list \<Rightarrow> int \<Rightarrow> nat list" where
  "pinned weights minimums active remaining =
     filter (\<lambda>i. active ! i \<and> fless (quota weights active remaining i) (float_of_int (minimums ! i)))
       [0..<length active]"

definition unpin :: "nat list \<Rightarrow> bool list \<Rightarrow> bool list" where
  "unpin ps active = map (\<lambda>i. active ! i \<and> i \<notin> set ps) [0..<length active]"

definition assign_minimums :: "nat list \<Rightarrow> int list \<Rightarrow> int list \<Rightarrow> int list" where
  "assign_minimums ps minimums allocations =
     map (\<lambda>i. if i \<in> set ps then minimums ! i else allocations ! i) [0..<length allocations]"

lemma unpin_shrinks:
  assumes "ps \<noteq> []" "\<forall>i \<in> set ps. i < length active \<and> active ! i"
  shows "length (filter (\<lambda>i. unpin ps active ! i) [0..<length active])
     < length (filter (\<lambda>i. active ! i) [0..<length active])"
proof -
  obtain p where p: "p \<in> set ps" using assms(1) by (cases ps) auto
  have "length (filter (\<lambda>i. unpin ps active ! i) [0..<length active])
      = card {i. i < length active \<and> active ! i \<and> i \<notin> set ps}"
    by (auto simp: length_filter_conv_card unpin_def intro!: arg_cong [where f = card])
  also have "\<dots> < card {i. i < length active \<and> active ! i}"
    by (rule psubset_card_mono) (use p assms(2) in auto)
  also have "\<dots> = length (filter (\<lambda>i. active ! i) [0..<length active])"
    by (auto simp: length_filter_conv_card intro!: arg_cong [where f = card])
  finally show ?thesis .
qed

text \<open>The pinning loop: children whose quota is below their minimum get the minimum and leave.\<close>

function pinLoop :: "float64 list \<Rightarrow> int list \<Rightarrow> int list \<Rightarrow> bool list \<Rightarrow> int \<Rightarrow> int list \<times> bool list \<times> int" where
  "pinLoop weights minimums allocations active remaining =
     (let ps = pinned weights minimums active remaining in
      if ps = [] then (allocations, active, remaining)
      else pinLoop weights minimums (assign_minimums ps minimums allocations) (unpin ps active)
             (remaining - sum_list (map (\<lambda>i. minimums ! i) ps)))"
  by pat_completeness auto
termination
proof (relation "measure (\<lambda>(_, _, _, active, _). length (filter (\<lambda>i. active ! i) [0..<length active]))",
    goal_cases)
  case (2 weights minimums allocations active remaining ps)
  have "\<forall>i \<in> set ps. i < length active \<and> active ! i" by (auto simp: 2(1) pinned_def)
  from unpin_shrinks [OF 2(2) this] show ?case by (simp add: unpin_def cong: filter_cong)
qed simp

declare pinLoop.simps [simp del]

datatype distribution = Allocated "int list" | Refused | Panics

text \<open>The closing loop: one more cell for each of the first entries, starting over at the end.\<close>

definition give_cells :: "nat list \<Rightarrow> int \<Rightarrow> int list \<Rightarrow> int list" where
  "give_cells order cells allocations =
     fold (\<lambda>k al. let i = order ! (k mod length order) in al[i := al ! i + 1]) [0..<nat cells] allocations"

definition activeIndices :: "bool list \<Rightarrow> nat list" where
  "activeIndices active = filter (\<lambda>i. active ! i) [0..<length active]"

definition wholeCells :: "float64 list \<Rightarrow> bool list \<Rightarrow> int \<Rightarrow> nat \<Rightarrow> int" where
  "wholeCells weights active remaining i = floor_int (quota weights active remaining i)"

text \<open>The active children by falling fraction.\<close>

definition remainderOrder :: "float64 list \<Rightarrow> bool list \<Rightarrow> int \<Rightarrow> nat list" where
  "remainderOrder weights active remaining =
     map fst (stable_sort_by (\<lambda>a b. fless (snd b) (snd a))
       (map (\<lambda>i. (i, fsub (quota weights active remaining i)
                        (float_of_int (wholeCells weights active remaining i)))) (activeIndices active)))"

text \<open>The value of \<^verbatim>\<open>total-allocated\<close> in front of the closing loop.\<close>

definition leftoverCells :: "int \<Rightarrow> float64 list \<Rightarrow> bool list \<Rightarrow> int \<Rightarrow> int" where
  "leftoverCells tot weights active remaining =
     tot - (tot - remaining + sum_list (map (wholeCells weights active remaining) (activeIndices active)))"

fun finishDistribution :: "int \<Rightarrow> float64 list \<Rightarrow> int list \<times> bool list \<times> int \<Rightarrow> distribution" where
  "finishDistribution tot weights (allocations, active, remaining) =
     (if 0 < leftoverCells tot weights active remaining \<and> remainderOrder weights active remaining = []
      then Panics
      else Allocated (give_cells (remainderOrder weights active remaining)
             (leftoverCells tot weights active remaining)
             (map (\<lambda>i. if active ! i then wholeCells weights active remaining i else allocations ! i)
                [0..<length allocations])))"

definition distribute :: "int \<Rightarrow> int list \<Rightarrow> float64 list \<Rightarrow> distribution" where
  "distribute tot minimums weights =
     (if tot < 0 \<or> minimums = [] \<or> length minimums \<noteq> length weights then Refused
      else if list_ex (\<lambda>m. m < 0) minimums then Refused
      else if sum_list minimums > tot then Refused
      else finishDistribution tot weights
        (pinLoop weights minimums (replicate (length minimums) 0) (replicate (length minimums) True) tot))"

section \<open>Quotas and their rounding errors\<close>

text \<open>The rational value of an effective weight; it is always positive and finite.\<close>

definition ew :: "float64 \<Rightarrow> rat" where
  "ew weight = fval (effectiveWeight weight)"

lemma effectiveWeight_Fin: "effectiveWeight weight = Fin (ew weight)"
  by (cases weight) (auto simp: effectiveWeight_def ew_def)

lemma ew_pos [simp]: "0 < ew weight"
  by (cases weight) (auto simp: effectiveWeight_def ew_def)

lemma zip_active:
  "length ws = length act \<Longrightarrow> zip ws act = map (\<lambda>i. (ws ! i, act ! i)) [0..<length act]"
  by (rule nth_equalityI) auto

lemma foldl_active:
  assumes "length ws = length act"
  shows "foldl (\<lambda>s (w, a). if a then f s w else s) z (zip ws act) =
    foldl f z (map (\<lambda>i. ws ! i) (activeIndices act))"
proof -
  have "foldl (\<lambda>s (w, a). if a then f s w else s) z (map (\<lambda>i. (ws ! i, act ! i)) is) =
      foldl f z (map (\<lambda>i. ws ! i) (filter (\<lambda>i. act ! i) is))" for "is"
    by (induction "is" arbitrary: z) auto
  then show ?thesis by (simp add: zip_active [OF assms] activeIndices_def)
qed

text \<open>The largest weight and the scaled sum on rational numbers.\<close>

definition wmax :: "rat list \<Rightarrow> rat" where
  "wmax xs = foldl max 0 xs"

definition fsum :: "rat list \<Rightarrow> rat" where
  "fsum ts = foldl (\<lambda>s t. rnd (s + t)) 0 ts"

lemma foldl_max_ge_acc: "(a :: rat) \<le> foldl max a xs"
proof (induction xs arbitrary: a)
  case (Cons x xs)
  from Cons.IH [of "max a x"] show ?case by simp
qed simp

lemma foldl_max_ge: "x \<in> set xs \<Longrightarrow> (x :: rat) \<le> foldl max a xs"
proof (induction xs arbitrary: a)
  case (Cons y ys)
  then show ?case using foldl_max_ge_acc [of "max a y" ys] by auto
qed simp

lemma foldl_max_mem: "foldl max (a :: rat) xs = a \<or> foldl max a xs \<in> set xs"
proof (induction xs arbitrary: a)
  case (Cons x xs)
  then show ?case by (metis foldl_Cons list.set_intros(1) list.set_intros(2) max_def)
qed simp

lemma wmax_props:
  assumes "xs \<noteq> []" "\<forall>x \<in> set xs. 0 < x"
  shows "wmax xs \<in> set xs" "0 < wmax xs" "\<forall>x \<in> set xs. x \<le> wmax xs"
proof -
  obtain y where y: "y \<in> set xs" using assms(1) by (cases xs) auto
  show le: "\<forall>x \<in> set xs. x \<le> wmax xs" by (auto simp: wmax_def foldl_max_ge)
  then show pos: "0 < wmax xs" using y assms(2) by (meson less_le_trans)
  show "wmax xs \<in> set xs" using foldl_max_mem [of 0 xs] pos by (auto simp: wmax_def)
qed

lemma fmax_Fin [simp]: "fmax (Fin a) (Fin b) = Fin (max a b)"
  by (auto simp: fmax_def max_def)

lemma foldl_fmax: "foldl (\<lambda>s w. fmax s (effectiveWeight w)) (Fin a) ws = Fin (foldl max a (map ew ws))"
  by (induction ws arbitrary: a) (auto simp: effectiveWeight_Fin)

text \<open>Rounded terms and their rounded sum stay close to the exact ones.\<close>

lemma scaled_term:
  assumes "0 < x" "x \<le> L"
  shows "0 \<le> rnd (x / L)" "rnd (x / L) \<le> 2" "round64 (x / L) = Fin (rnd (x / L))"
proof -
  have L: "0 < L" using assms by simp
  have q: "0 \<le> x / L" "x / L \<le> 1" using assms L by auto
  then show "0 \<le> rnd (x / L)" by (simp add: rnd_nonneg)
  have "\<bar>rnd (x / L) - x / L\<bar> \<le> (1 + 1) / 2 ^ 53" by (rule rnd_close) (use q in simp)
  also have "\<dots> \<le> 1" by simp
  finally show "rnd (x / L) \<le> 2" using q by linarith
  show "round64 (x / L) = Fin (rnd (x / L))" by (rule round64_small) (use q in simp)
qed

lemma fsum_error:
  assumes "\<forall>t \<in> set ts. 0 \<le> t \<and> t \<le> 2" "length ts \<le> n" "n \<le> 65535"
  shows "\<bar>fsum ts - sum_list ts\<bar> \<le> of_nat (length ts) * 131072 / 2 ^ 53
    \<and> sum_list ts \<le> 2 * of_nat (length ts) \<and> 0 \<le> sum_list ts"
  using assms(1,2)
proof (induction ts rule: rev_induct)
  case (snoc t ts)
  then have IH: "\<bar>fsum ts - sum_list ts\<bar> \<le> of_nat (length ts) * 131072 / 2 ^ 53"
    "sum_list ts \<le> 2 * of_nat (length ts)" "0 \<le> sum_list ts" by auto
  have t: "0 \<le> t" "t \<le> 2" using snoc.prems by auto
  have n: "(of_nat (length ts) :: rat) \<le> 65534"
    using snoc.prems(2) assms(3) by simp
  have "\<bar>fsum ts - sum_list ts\<bar> \<le> 1"
  proof -
    have "(of_nat (length ts) :: rat) * 131072 / 2 ^ 53 \<le> 65534 * 131072 / 2 ^ 53"
      using n by (simp add: divide_right_mono)
    also have "\<dots> \<le> 1" by simp
    finally show ?thesis using IH(1) by linarith
  qed
  then have "\<bar>fsum ts + t\<bar> \<le> 131071" using IH(2,3) t n by linarith
  then have "\<bar>rnd (fsum ts + t) - (fsum ts + t)\<bar> \<le> (131071 + 1) / 2 ^ 53" by (rule rnd_close)
  moreover have "fsum (ts @ [t]) = rnd (fsum ts + t)" by (simp add: fsum_def)
  ultimately have "\<bar>fsum (ts @ [t]) - sum_list (ts @ [t])\<bar>
      \<le> of_nat (length ts) * 131072 / 2 ^ 53 + 131072 / 2 ^ 53"
    using IH(1) by (simp add: abs_if split: if_splits)
  then show ?case using IH t by (simp add: field_simps)
qed (simp add: fsum_def)

lemma foldl_fadd:
  assumes "\<forall>w \<in> set ws. ew w \<le> L" "length ws \<le> 65535" "0 < L"
  shows "foldl (\<lambda>s w. fadd s (fdiv (effectiveWeight w) (Fin L))) (Fin 0) ws
     = Fin (fsum (map (\<lambda>w. rnd (ew w / L)) ws))"
  using assms(1,2)
proof (induction ws rule: rev_induct)
  case (snoc w ws)
  let ?ts = "map (\<lambda>w. rnd (ew w / L)) ws"
  have wL: "ew w \<le> L" and wsL: "\<forall>w \<in> set ws. ew w \<le> L" using snoc.prems by auto
  note t = scaled_term [OF ew_pos wL]
  have ts: "\<forall>t \<in> set ?ts. 0 \<le> t \<and> t \<le> 2" using scaled_term [OF ew_pos] wsL by auto
  have e: "\<bar>fsum ?ts - sum_list ?ts\<bar> \<le> of_nat (length ?ts) * 131072 / 2 ^ 53"
    "sum_list ?ts \<le> 2 * of_nat (length ?ts)" "0 \<le> sum_list ?ts"
    using fsum_error [OF ts, of 65535] snoc.prems(2) by auto
  have n: "(of_nat (length ?ts) :: rat) \<le> 65535" using snoc.prems(2) by simp
  have "\<bar>fsum ?ts + rnd (ew w / L)\<bar> \<le> 2 ^ 64" using e n t by (simp add: abs_if split: if_splits)
  then have "fadd (Fin (fsum ?ts)) (Fin (rnd (ew w / L))) = Fin (rnd (fsum ?ts + rnd (ew w / L)))"
    by (simp add: round64_small)
  with snoc assms(3) t(3) show ?case by (simp add: effectiveWeight_Fin fsum_def)
qed (simp add: fsum_def)

text \<open>
  The quotas of the active children: each is finite and not negative, and together they miss the
  remaining cells by less than one.
\<close>

lemma quota_error:
  fixes R t S :: rat
  assumes R: "0 \<le> R" "R \<le> 65535" and t: "0 \<le> t" "t \<le> 2" and S: "9 / 10 \<le> S"
  shows "\<bar>rnd (rnd (R * t) / S) - R * t / S\<bar> \<le> 1 / 2 ^ 33"
    "\<bar>R * t\<bar> \<le> 2 ^ 64" "\<bar>rnd (R * t) / S\<bar> \<le> 2 ^ 64" "0 \<le> rnd (rnd (R * t) / S)"
proof -
  have S0: "0 < S" using S by linarith
  have Rt: "0 \<le> R * t" "R * t \<le> 131070"
    using R t mult_mono [OF R(2) t(2)] by auto
  then show "\<bar>R * t\<bar> \<le> 2 ^ 64" by simp
  define p where "p = rnd (R * t)"
  have p0: "0 \<le> p" using Rt by (simp add: p_def rnd_nonneg)
  have p1: "\<bar>p - R * t\<bar> \<le> (131070 + 1) / 2 ^ 53" unfolding p_def by (rule rnd_close) (use Rt in simp)
  moreover have "(131070 + 1) / 2 ^ 53 \<le> (1 :: rat)" by simp
  ultimately have "p \<le> 131071" using Rt by linarith
  then have pS: "0 \<le> p / S" "p / S \<le> 262143"
    using p0 S S0 by (auto simp: field_simps)
  then show "\<bar>rnd (R * t) / S\<bar> \<le> 2 ^ 64" by (simp add: p_def)
  from pS show "0 \<le> rnd (rnd (R * t) / S)" by (simp add: p_def rnd_nonneg)
  have q1: "\<bar>rnd (p / S) - p / S\<bar> \<le> (262143 + 1) / 2 ^ 53" by (rule rnd_close) (use pS in simp)
  have "\<bar>p / S - R * t / S\<bar> = \<bar>p - R * t\<bar> / S"
    using S0 by (simp add: diff_divide_distrib [symmetric])
  also have "\<dots> \<le> (131070 + 1) / 2 ^ 53 / (9 / 10)"
    by (rule frac_le) (use p1 S in auto)
  finally have q2: "\<bar>p / S - R * t / S\<bar> \<le> (131070 + 1) / 2 ^ 53 / (9 / 10)" .
  have "(262143 + 1) / 2 ^ 53 + (131070 + 1) / 2 ^ 53 / (9 / 10) \<le> (1 :: rat) / 2 ^ 33" by simp
  with q1 q2 show "\<bar>rnd (rnd (R * t) / S) - R * t / S\<bar> \<le> 1 / 2 ^ 33"
    unfolding p_def [symmetric] by linarith
qed

definition quotas_ok :: "float64 list \<Rightarrow> bool list \<Rightarrow> int \<Rightarrow> (nat \<Rightarrow> rat) \<Rightarrow> bool" where
  "quotas_ok weights active remaining q \<longleftrightarrow>
     (\<forall>i \<in> set (activeIndices active). quota weights active remaining i = Fin (q i) \<and> 0 \<le> q i) \<and>
     \<bar>sum_list (map q (activeIndices active)) - of_int remaining\<bar> < 1"

lemma sum_list_error:
  fixes f g :: "'a \<Rightarrow> rat"
  assumes "\<And>x. x \<in> set xs \<Longrightarrow> \<bar>f x - g x\<bar> \<le> c"
  shows "\<bar>sum_list (map f xs) - sum_list (map g xs)\<bar> \<le> of_nat (length xs) * c"
  using assms
proof (induction xs)
  case (Cons x xs)
  then have "\<bar>sum_list (map f xs) - sum_list (map g xs)\<bar> \<le> of_nat (length xs) * c"
    and "\<bar>f x - g x\<bar> \<le> c" by auto
  then show ?case by (simp add: field_simps)
qed simp

text \<open>The scale, the scaled weights, their sum and the quotas, as rational numbers.\<close>

definition qscale :: "float64 list \<Rightarrow> bool list \<Rightarrow> rat" where
  "qscale weights active = wmax (map (\<lambda>i. ew (weights ! i)) (activeIndices active))"

definition qterm :: "float64 list \<Rightarrow> bool list \<Rightarrow> nat \<Rightarrow> rat" where
  "qterm weights active i = rnd (ew (weights ! i) / qscale weights active)"

definition qsum :: "float64 list \<Rightarrow> bool list \<Rightarrow> rat" where
  "qsum weights active = fsum (map (qterm weights active) (activeIndices active))"

definition qval :: "float64 list \<Rightarrow> bool list \<Rightarrow> int \<Rightarrow> nat \<Rightarrow> rat" where
  "qval weights active R i = rnd (rnd (of_int R * qterm weights active i) / qsum weights active)"

lemma length_activeIndices: "length (activeIndices active) \<le> length active"
  using length_filter_le [of "\<lambda>i. active ! i" "[0..<length active]"] by (simp add: activeIndices_def)

lemma qscale_props:
  assumes "activeIndices active \<noteq> []"
  shows "0 < qscale weights active" "i \<in> set (activeIndices active) \<Longrightarrow> ew (weights ! i) \<le> qscale weights active"
    "\<exists>i \<in> set (activeIndices active). ew (weights ! i) = qscale weights active"
  using wmax_props [of "map (\<lambda>i. ew (weights ! i)) (activeIndices active)"] assms by (auto simp: qscale_def)

lemma qterm_props:
  assumes "i \<in> set (activeIndices active)"
  shows "0 \<le> qterm weights active i" "qterm weights active i \<le> 2"
    "round64 (ew (weights ! i) / qscale weights active) = Fin (qterm weights active i)"
proof -
  have ne: "activeIndices active \<noteq> []" using assms by auto
  show "0 \<le> qterm weights active i" "qterm weights active i \<le> 2"
    "round64 (ew (weights ! i) / qscale weights active) = Fin (qterm weights active i)"
    using scaled_term [OF ew_pos qscale_props(2) [OF ne assms]] by (auto simp: qterm_def)
qed

lemma activeWeightScale_value:
  assumes len: "length weights = length active" and ne: "activeIndices active \<noteq> []" and n: "length active \<le> 65535"
  shows "activeWeightScale weights active = (Fin (qscale weights active), Fin (qsum weights active))"
proof -
  let ?L = "qscale weights active" and ?ws = "map (\<lambda>i. weights ! i) (activeIndices active)"
  have largest: "largestWeight (zip weights active) = Fin ?L"
    unfolding largestWeight_def foldl_active [OF len, of "\<lambda>lg weight. fmax lg (effectiveWeight weight)"]
      foldl_fmax by (simp add: qscale_def wmax_def comp_def)
  have "scaledSum (Fin ?L) (zip weights active) = Fin (fsum (map (\<lambda>w. rnd (ew w / ?L)) ?ws))"
    unfolding scaledSum_def
      foldl_active [OF len, of "\<lambda>s weight. fadd s (fdiv (effectiveWeight weight) (Fin ?L))"]
    by (rule foldl_fadd) (use qscale_props [OF ne] n length_activeIndices [of active] in auto)
  with largest show ?thesis by (simp add: activeWeightScale_def qsum_def qterm_def [abs_def] comp_def)
qed

text \<open>The rounded sum is close to the exact one, and not small.\<close>

lemma qsum_error:
  assumes "activeIndices active \<noteq> []" and n: "length active \<le> 65535"
  shows "\<bar>qsum weights active - sum_list (map (qterm weights active) (activeIndices active))\<bar> \<le> 1 / 2 ^ 20"
    "1 \<le> sum_list (map (qterm weights active) (activeIndices active))" "9 / 10 \<le> qsum weights active"
proof -
  let ?ts = "map (qterm weights active) (activeIndices active)"
  have ts2: "\<forall>x \<in> set ?ts. 0 \<le> x \<and> x \<le> 2" using qterm_props by auto
  have lenA: "length ?ts \<le> 65535" using n length_activeIndices [of active] by simp
  have "\<bar>qsum weights active - sum_list ?ts\<bar> \<le> of_nat (length ?ts) * 131072 / 2 ^ 53"
    using fsum_error [OF ts2 lenA] by (auto simp: qsum_def)
  also have "\<dots> \<le> 65536 * 131072 / 2 ^ 53" using lenA by (simp add: divide_right_mono)
  also have "\<dots> \<le> 1 / 2 ^ 20" by simp
  finally show err: "\<bar>qsum weights active - sum_list ?ts\<bar> \<le> 1 / 2 ^ 20" .
  obtain i where i: "i \<in> set (activeIndices active)" "ew (weights ! i) = qscale weights active"
    using qscale_props(3) [OF assms(1)] by blast
  have "qterm weights active i = 1" using i qscale_props(1) [OF assms(1), of weights] rnd_of_int [of 1] by (simp add: qterm_def)
  moreover have "qterm weights active i \<le> sum_list ?ts"
    by (rule member_le_sum_list) (use ts2 i in auto)
  ultimately show one: "1 \<le> sum_list ?ts" by simp
  show "9 / 10 \<le> qsum weights active" using err one by (simp add: abs_if split: if_splits)
qed

lemma quota_value:
  assumes len: "length weights = length active" and i: "i \<in> set (activeIndices active)"
    and n: "length active \<le> 65535" and R: "0 \<le> R" "R \<le> screen_limit"
  shows "quota weights active R i = Fin (qval weights active R i)" "0 \<le> qval weights active R i"
    "\<bar>qval weights active R i - of_int R * qterm weights active i / qsum weights active\<bar> \<le> 1 / 2 ^ 33"
proof -
  have ne: "activeIndices active \<noteq> []" using i by auto
  have r: "0 \<le> (of_int R :: rat)" "(of_int R :: rat) \<le> 65535" using R by (auto simp: screen_limit_def)
  note S9 = qsum_error(3) [OF ne n, of weights]
  note qe = quota_error [OF r qterm_props(1,2) [OF i, of weights] S9]
  have fr: "float_of_int R = Fin (of_int R)" by (rule float_of_int_small) (use R in \<open>auto simp: screen_limit_def\<close>)
  show "quota weights active R i = Fin (qval weights active R i)"
    using qscale_props(1) [OF ne, of weights] S9 qterm_props(3) [OF i, of weights] qe(2,3)
    by (auto simp: quota_def activeWeightScale_value [OF len ne n] fr effectiveWeight_Fin round64_small qval_def)
  show "0 \<le> qval weights active R i"
    "\<bar>qval weights active R i - of_int R * qterm weights active i / qsum weights active\<bar> \<le> 1 / 2 ^ 33"
    using qe by (auto simp: qval_def)
qed

lemma scale_error:
  fixes r S T :: rat
  assumes r: "0 \<le> r" "r \<le> 65535" and S: "9 / 10 \<le> S" and err: "\<bar>S - T\<bar> \<le> 1 / 2 ^ 20"
  shows "\<bar>r * T / S - r\<bar> \<le> 1 / 10"
proof -
  have "r * T / S - r = r * (T - S) / S" using S by (simp add: field_simps)
  then have "\<bar>r * T / S - r\<bar> = r * \<bar>T - S\<bar> / S" using r(1) S by (simp add: abs_mult)
  also have "\<dots> \<le> 65535 * (1 / 2 ^ 20) / (9 / 10)"
    by (intro frac_le mult_mono) (use r err S in \<open>auto simp: abs_minus_commute\<close>)
  also have "\<dots> \<le> 1 / 10" by simp
  finally show ?thesis .
qed

lemma sum_list_scaled: "sum_list (map (\<lambda>i. r * f i / S) xs) = r * sum_list (map f xs) / (S :: rat)"
  by (induction xs) (auto simp: algebra_simps add_divide_distrib)

lemma quotas_exist:
  assumes len: "length weights = length active" and ne: "activeIndices active \<noteq> []"
    and n: "length active \<le> 65535" and R: "0 \<le> R" "R \<le> screen_limit"
  shows "quotas_ok weights active R (qval weights active R)"
proof -
  let ?A = "activeIndices active" and ?S = "qsum weights active" and ?t = "qterm weights active" and ?r = "of_int R :: rat"
  have r: "0 \<le> ?r" "?r \<le> 65535" using R by (auto simp: screen_limit_def)
  note q = quota_value [OF len _ n R]
  have lenA: "length ?A \<le> 65535" using n length_activeIndices [of active] by simp
  have "\<bar>sum_list (map (qval weights active R) ?A) - sum_list (map (\<lambda>i. ?r * ?t i / ?S) ?A)\<bar> \<le> of_nat (length ?A) * (1 / 2 ^ 33)"
    by (rule sum_list_error) (use q in auto)
  also have "\<dots> \<le> 65536 * (1 / 2 ^ 33)" using lenA by (simp add: mult_right_mono)
  finally have e1: "\<bar>sum_list (map (qval weights active R) ?A) - sum_list (map (\<lambda>i. ?r * ?t i / ?S) ?A)\<bar> \<le> 1 / 10" by simp
  have "sum_list (map (\<lambda>i. ?r * ?t i / ?S) ?A) = ?r * sum_list (map ?t ?A) / ?S"
    by (rule sum_list_scaled)
  moreover note scale_error [OF r qsum_error(3,1) [OF ne n, of weights]]
  ultimately have "\<bar>sum_list (map (qval weights active R) ?A) - ?r\<bar> < 1" using e1 by linarith
  then show ?thesis using q by (auto simp: quotas_ok_def)
qed

section \<open>Correctness of the distribution\<close>

lemma set_activeIndices: "set (activeIndices act) = {i. i < length act \<and> act ! i}"
  by (auto simp: activeIndices_def)

lemma sum_activeIndices: "sum_list (map f (activeIndices act)) = (\<Sum>i | i < length act \<and> act ! i. f i)"
  for f :: "nat \<Rightarrow> 'a :: comm_monoid_add"
proof -
  have "distinct (activeIndices act)" by (simp add: activeIndices_def)
  then show ?thesis by (simp add: sum_list_distinct_conv_sum_set set_activeIndices)
qed

text \<open>The invariant of the pinning loop: pinned children hold their minimum, the rest is shared.\<close>

definition pin_inv :: "int \<Rightarrow> int list \<Rightarrow> int list \<Rightarrow> bool list \<Rightarrow> int \<Rightarrow> bool" where
  "pin_inv tot minimums al act R \<longleftrightarrow>
     length al = length minimums \<and> length act = length minimums \<and>
     (\<forall>i < length minimums. \<not> act ! i \<longrightarrow> al ! i = minimums ! i) \<and>
     R = tot - (\<Sum>i | i < length minimums \<and> \<not> act ! i. minimums ! i) \<and>
     (activeIndices act = [] \<longrightarrow> R = 0)"

definition distributable :: "int \<Rightarrow> int list \<Rightarrow> float64 list \<Rightarrow> bool" where
  "distributable tot minimums weights \<longleftrightarrow>
     minimums \<noteq> [] \<and> length minimums = length weights \<and> length minimums \<le> 65535 \<and>
     (\<forall>m \<in> set minimums. 0 \<le> m) \<and> sum_list minimums \<le> tot \<and> tot \<le> screen_limit"

lemma sum_active_split:
  fixes f :: "nat \<Rightarrow> int"
  shows "(\<Sum>i | i < n \<and> P i. f i) + (\<Sum>i | i < n \<and> \<not> P i. f i) = (\<Sum>i<n. f i)"
proof -
  have "{..<n} = {i. i < n \<and> P i} \<union> {i. i < n \<and> \<not> P i}" by auto
  then have "(\<Sum>i<n. f i) = (\<Sum>i\<in>{i. i < n \<and> P i} \<union> {i. i < n \<and> \<not> P i}. f i)" by simp
  also have "\<dots> = (\<Sum>i | i < n \<and> P i. f i) + (\<Sum>i | i < n \<and> \<not> P i. f i)"
    by (rule sum.union_disjoint) auto
  finally show ?thesis by simp
qed

lemma pin_inv_remaining:
  assumes "distributable tot minimums weights" "pin_inv tot minimums al act R"
  shows "sum_list (map (\<lambda>i. minimums ! i) (activeIndices act)) \<le> R" "0 \<le> R" "R \<le> screen_limit"
    "length act = length weights" "length act \<le> 65535"
proof -
  have n: "length act = length minimums" and R: "R = tot - (\<Sum>i | i < length minimums \<and> \<not> act ! i. minimums ! i)"
    using assms(2) by (auto simp: pin_inv_def)
  have nonneg: "0 \<le> minimums ! i" if "i < length minimums" for i
    using assms(1) that by (auto simp: distributable_def)
  have eq: "sum_list minimums = (\<Sum>i<length minimums. minimums ! i)"
    by (simp add: sum_list_sum_nth atLeast0LessThan)
  have le: "sum_list minimums \<le> tot" using assms(1) by (simp add: distributable_def)
  have "(\<Sum>i | i < length act \<and> act ! i. minimums ! i) + (tot - R) \<le> tot"
    using sum_active_split [where n = "length minimums" and P = "(!) act" and f = "(!) minimums"] eq le R
    unfolding n by linarith
  then show act: "sum_list (map (\<lambda>i. minimums ! i) (activeIndices act)) \<le> R" by (simp add: sum_activeIndices)
  have "0 \<le> (\<Sum>i | i < length act \<and> act ! i. minimums ! i)"
    by (rule sum_nonneg) (use n nonneg in auto)
  then show "0 \<le> R" using act by (simp add: sum_activeIndices)
  have "0 \<le> (\<Sum>i | i < length minimums \<and> \<not> act ! i. minimums ! i)"
    by (rule sum_nonneg) (use nonneg in auto)
  then show "R \<le> screen_limit" using R assms(1) by (simp add: distributable_def)
  show "length act = length weights" "length act \<le> 65535"
    using assms n by (auto simp: distributable_def)
qed

lemma minimums_small:
  assumes "distributable tot minimums weights" "i < length minimums"
  shows "float_of_int (minimums ! i) = Fin (of_int (minimums ! i))"
proof (rule float_of_int_small)
  have nonneg: "\<forall>m \<in> set minimums. 0 \<le> m" using assms(1) by (simp add: distributable_def)
  then have "minimums ! i \<le> sum_list minimums" by (intro member_le_sum_list) (use assms(2) in auto)
  then have "0 \<le> minimums ! i" "minimums ! i \<le> screen_limit"
    using assms nonneg by (auto simp: distributable_def)
  then show "\<bar>minimums ! i\<bar> < 2 ^ 53" by (auto simp: screen_limit_def)
qed

lemma of_int_sum_list_map: "sum_list (map (\<lambda>i. of_int (f i)) xs) = (of_int (sum_list (map f xs)) :: rat)"
  by (induction xs) auto

text \<open>When a round pins every child that is left, nothing remains to be shared.\<close>

lemma pin_all_exhausts:
  assumes d: "distributable tot minimums weights" and inv: "pin_inv tot minimums al act R"
    and q: "quotas_ok weights act R q" and all: "set (pinned weights minimums act R) = set (activeIndices act)"
  shows "R - sum_list (map (\<lambda>i. minimums ! i) (activeIndices act)) = 0"
proof -
  note rem = pin_inv_remaining [OF d inv]
  have n: "length act = length minimums" using inv by (simp add: pin_inv_def)
  have less: "q i \<le> of_int (minimums ! i)" if "i \<in> set (activeIndices act)" for i
  proof -
    from that all have "i \<in> set (pinned weights minimums act R)" by simp
    then have "fless (quota weights act R i) (float_of_int (minimums ! i))" and "i < length minimums"
      using n by (auto simp: pinned_def)
    then show ?thesis using q that minimums_small [OF d, of i] by (auto simp: quotas_ok_def)
  qed
  have "sum_list (map q (activeIndices act)) \<le> sum_list (map (\<lambda>i. of_int (minimums ! i)) (activeIndices act))"
    by (rule sum_list_mono) (use less in auto)
  also have "\<dots> = of_int (sum_list (map (\<lambda>i. minimums ! i) (activeIndices act)))"
    by (rule of_int_sum_list_map)
  finally have "of_int R - 1 < (of_int (sum_list (map (\<lambda>i. minimums ! i) (activeIndices act))) :: rat)"
    using q by (auto simp: quotas_ok_def abs_if split: if_splits)
  then have "R - 1 < sum_list (map (\<lambda>i. minimums ! i) (activeIndices act))"
    by (metis of_int_1 of_int_diff of_int_less_iff)
  then show ?thesis using rem(1) by simp
qed

lemma activeIndices_unpin:
  "set (activeIndices (unpin ps act)) = set (activeIndices act) - set ps"
  by (auto simp: set_activeIndices unpin_def)

lemma pin_step_inv:
  assumes d: "distributable tot minimums weights" and inv: "pin_inv tot minimums al act R"
    and ps: "ps = pinned weights minimums act R" "ps \<noteq> []"
  shows "pin_inv tot minimums (assign_minimums ps minimums al) (unpin ps act)
           (R - sum_list (map (\<lambda>i. minimums ! i) ps))"
proof -
  have n: "length act = length minimums" "length al = length minimums" using inv by (auto simp: pin_inv_def)
  have psD: "set ps \<subseteq> {i. i < length minimums \<and> act ! i}" and dist: "distinct ps"
    using n by (auto simp: ps pinned_def)
  have "{i. i < length minimums \<and> \<not> unpin ps act ! i} = {i. i < length minimums \<and> \<not> act ! i} \<union> set ps"
    using n psD by (auto simp: unpin_def)
  then have sumI: "(\<Sum>i | i < length minimums \<and> \<not> unpin ps act ! i. minimums ! i) =
      (\<Sum>i | i < length minimums \<and> \<not> act ! i. minimums ! i) + sum_list (map (\<lambda>i. minimums ! i) ps)"
    using psD dist by (subst sum_list_distinct_conv_sum_set, simp, simp only:, subst sum.union_disjoint) auto
  have last: "R - sum_list (map (\<lambda>i. minimums ! i) ps) = 0" if "activeIndices (unpin ps act) = []"
  proof -
    have all: "set (activeIndices act) = set ps"
      using that activeIndices_unpin [of ps act] psD n by (auto simp: set_activeIndices)
    then have ne: "activeIndices act \<noteq> []" using ps(2) by (metis set_empty)
    note rem = pin_inv_remaining [OF d inv]
    obtain q where "quotas_ok weights act R q"
      using quotas_exist [OF _ ne rem(5,2,3)] rem(4) by auto
    from pin_all_exhausts [OF d inv this] all ps(1)
    have "R - sum_list (map (\<lambda>i. minimums ! i) (activeIndices act)) = 0" by simp
    moreover have "sum_list (map (\<lambda>i. minimums ! i) (activeIndices act)) = sum_list (map (\<lambda>i. minimums ! i) ps)"
      using all dist by (simp add: sum_list_distinct_conv_sum_set activeIndices_def)
    ultimately show ?thesis by simp
  qed
  show ?thesis
    using inv n psD sumI last
    by (auto simp: pin_inv_def assign_minimums_def unpin_def)
qed

lemma pinLoop_inv:
  assumes "distributable tot minimums weights" and "pin_inv tot minimums al act R"
  shows "\<exists>al' act' R'. pinLoop weights minimums al act R = (al', act', R') \<and>
    pin_inv tot minimums al' act' R' \<and> pinned weights minimums act' R' = []"
  using assms
proof (induction weights minimums al act R rule: pinLoop.induct)
  case (1 weights minimums al act R)
  show ?case
  proof (cases "pinned weights minimums act R = []")
    case True
    with "1.prems" show ?thesis by (simp add: pinLoop.simps [of weights minimums al])
  next
    case False
    with "1.IH" [OF refl False "1.prems"(1) pin_step_inv [OF "1.prems" refl False]]
    show ?thesis by (simp add: pinLoop.simps [of weights minimums al] Let_def)
  qed
qed

lemma give_cells_sum:
  assumes "\<forall>i \<in> set order. i < length al" "0 \<le> cells" "order \<noteq> [] \<or> cells = 0"
  shows "sum_list (give_cells order cells al) = sum_list al + cells"
    "length (give_cells order cells al) = length al"
    "\<forall>i < length al. al ! i \<le> give_cells order cells al ! i"
proof -
  define step where "step = (\<lambda>k al. let i = order ! (k mod length order) in al[i := (al ! i :: int) + 1])"
  have "sum_list (fold step ks al) = sum_list al + int (length ks) \<and> length (fold step ks al) = length al
     \<and> (\<forall>i < length al. al ! i \<le> fold step ks al ! i)"
    if "order \<noteq> []" "\<forall>i \<in> set order. i < length al" for ks al
    using that(2)
  proof (induction ks arbitrary: al)
    case (Cons k ks)
    have i: "order ! (k mod length order) < length al" using Cons.prems that(1) by simp
    then have s: "sum_list (step k al) = sum_list al + 1" "length (step k al) = length al"
      "\<forall>i < length al. al ! i \<le> step k al ! i"
      by (auto simp: step_def Let_def sum_list_update_int nth_list_update)
    have "\<forall>i \<in> set order. i < length (step k al)" using Cons.prems s by simp
    from Cons.IH [OF this] s show ?case by (auto intro: order_trans)
  qed simp
  note main = this [of al "[0..<nat cells]"]
  show "sum_list (give_cells order cells al) = sum_list al + cells"
    "length (give_cells order cells al) = length al"
    "\<forall>i < length al. al ! i \<le> give_cells order cells al ! i"
    using assms main by (cases "order = []"; force simp: give_cells_def step_def)+
qed

lemma remainderOrder_set: "set (remainderOrder weights act R) = set (activeIndices act)"
  by (force simp: remainderOrder_def)

lemma remainderOrder_Nil: "remainderOrder weights act R = [] \<longleftrightarrow> activeIndices act = []"
  by (metis remainderOrder_set set_empty)

text \<open>What the closing loop starts from.\<close>

definition baseAllocation :: "float64 list \<Rightarrow> int list \<Rightarrow> bool list \<Rightarrow> int \<Rightarrow> int list" where
  "baseAllocation weights al act R =
     map (\<lambda>i. if act ! i then wholeCells weights act R i else al ! i) [0..<length al]"

lemma baseAllocation_ge:
  assumes d: "distributable tot minimums weights" and inv: "pin_inv tot minimums al act R"
    and q: "quotas_ok weights act R q" and pin: "pinned weights minimums act R = []"
    and i: "i < length minimums"
  shows "minimums ! i \<le> baseAllocation weights al act R ! i"
proof -
  have n: "length al = length minimums" "length act = length minimums" using inv by (auto simp: pin_inv_def)
  show ?thesis
  proof (cases "act ! i")
    case False
    then show ?thesis using inv i n by (auto simp: baseAllocation_def pin_inv_def)
  next
    case True
    then have "i \<in> set (activeIndices act)" using i n by (simp add: set_activeIndices)
    then have qi: "quota weights act R i = Fin (q i)" using q by (auto simp: quotas_ok_def)
    have "i \<notin> set (pinned weights minimums act R)" using pin by simp
    then have "of_int (minimums ! i) \<le> q i"
      using True i n qi minimums_small [OF d i] by (auto simp: pinned_def)
    then have "minimums ! i \<le> \<lfloor>q i\<rfloor>" by (simp add: le_floor_iff)
    then show ?thesis using True i n qi by (simp add: baseAllocation_def wholeCells_def)
  qed
qed

lemma baseAllocation_sum:
  assumes inv: "pin_inv tot minimums al act R"
  shows "sum_list (baseAllocation weights al act R) = tot - leftoverCells tot weights act R"
proof -
  have n: "length al = length minimums" "length act = length minimums"
    and al: "\<forall>i < length minimums. \<not> act ! i \<longrightarrow> al ! i = minimums ! i"
    and R: "R = tot - (\<Sum>i | i < length minimums \<and> \<not> act ! i. minimums ! i)"
    using inv by (auto simp: pin_inv_def)
  let ?f = "\<lambda>i. if act ! i then wholeCells weights act R i else al ! i"
  have "sum_list (baseAllocation weights al act R) = (\<Sum>i<length minimums. ?f i)"
    by (simp add: baseAllocation_def n interv_sum_list_conv_sum_set_nat atLeast0LessThan)
  also have "\<dots> = (\<Sum>i | i < length minimums \<and> act ! i. ?f i) + (\<Sum>i | i < length minimums \<and> \<not> act ! i. ?f i)"
    by (rule sum_active_split [symmetric])
  also have "(\<Sum>i | i < length minimums \<and> act ! i. ?f i) =
      sum_list (map (wholeCells weights act R) (activeIndices act))"
    by (simp add: sum_activeIndices n)
  also have "(\<Sum>i | i < length minimums \<and> \<not> act ! i. ?f i) = tot - R"
    using al R by simp
  finally show ?thesis by (simp add: leftoverCells_def)
qed

lemma leftoverCells_nonneg:
  assumes "quotas_ok weights act R q"
  shows "0 \<le> leftoverCells tot weights act R"
proof -
  have "sum_list (map (\<lambda>i. of_int (wholeCells weights act R i)) (activeIndices act)) \<le> sum_list (map q (activeIndices act))"
    by (rule sum_list_mono) (use assms in \<open>auto simp: quotas_ok_def wholeCells_def\<close>)
  also have "\<dots> < of_int R + 1" using assms by (auto simp: quotas_ok_def abs_if split: if_splits)
  finally have "(of_int (sum_list (map (wholeCells weights act R) (activeIndices act))) :: rat) < of_int (R + 1)"
    by (simp add: of_int_sum_list_map)
  then have "sum_list (map (wholeCells weights act R) (activeIndices act)) < R + 1" by (simp only: of_int_less_iff)
  then show ?thesis by (simp add: leftoverCells_def)
qed

lemma distribute_unfold:
  assumes d: "distributable tot minimums weights"
  shows "distribute tot minimums weights = finishDistribution tot weights
    (pinLoop weights minimums (replicate (length minimums) 0) (replicate (length minimums) True) tot)"
proof -
  have "0 \<le> sum_list minimums" by (rule sum_list_nonneg) (use d in \<open>simp add: distributable_def\<close>)
  then have "\<not> tot < 0" using d by (simp add: distributable_def)
  moreover have "\<not> list_ex (\<lambda>m. m < 0) minimums" using d by (auto simp: distributable_def list_ex_iff)
  ultimately show ?thesis using d by (simp add: distribute_def distributable_def)
qed

lemma distribute_ok:
  assumes d: "distributable tot minimums weights"
  shows "\<exists>extents. distribute tot minimums weights = Allocated extents \<and> length extents = length minimums \<and>
    sum_list extents = tot \<and> (\<forall>i < length minimums. minimums ! i \<le> extents ! i)"
proof -
  let ?n = "length minimums"
  have "pin_inv tot minimums (replicate ?n 0) (replicate ?n True) tot"
    using d by (auto simp: pin_inv_def distributable_def activeIndices_def intro!: sum.neutral)
  from pinLoop_inv [OF d this] obtain al act R where
    loop: "pinLoop weights minimums (replicate ?n 0) (replicate ?n True) tot = (al, act, R)"
    and inv: "pin_inv tot minimums al act R" and pin: "pinned weights minimums act R = []" by blast
  have n: "length al = ?n" "length act = ?n" using inv by (auto simp: pin_inv_def)
  note rem = pin_inv_remaining [OF d inv]
  define base where "base = baseAllocation weights al act R"
  define cells where "cells = leftoverCells tot weights act R"
  have base: "length base = ?n" "sum_list base = tot - cells"
    using n baseAllocation_sum [OF inv] by (auto simp: base_def cells_def baseAllocation_def)
  have facts: "0 \<le> cells \<and> (remainderOrder weights act R = [] \<longrightarrow> cells = 0) \<and> (\<forall>i < ?n. minimums ! i \<le> base ! i)"
  proof (cases "activeIndices act = []")
    case True
    then have "R = 0" and "\<forall>i < ?n. \<not> act ! i" using inv n set_activeIndices [of act] by (auto simp: pin_inv_def)
    then show ?thesis using True inv n
      by (auto simp: cells_def leftoverCells_def base_def baseAllocation_def pin_inv_def)
  next
    case False
    then obtain q where q: "quotas_ok weights act R q"
      using quotas_exist [OF _ False rem(5,2,3)] rem(4) by auto
    then show ?thesis
      using False leftoverCells_nonneg [OF q] baseAllocation_ge [OF d inv q pin]
      by (auto simp: cells_def base_def remainderOrder_Nil)
  qed
  have order: "\<forall>i \<in> set (remainderOrder weights act R). i < length base"
    using base n by (auto simp: remainderOrder_set set_activeIndices)
  note give = give_cells_sum [OF order, of cells]
  have "distribute tot minimums weights = finishDistribution tot weights (al, act, R)"
    using distribute_unfold [OF d] loop by simp
  also have "\<dots> = Allocated (give_cells (remainderOrder weights act R) cells base)"
    using facts by (auto simp: cells_def base_def baseAllocation_def)
  finally show ?thesis using facts base give by (auto intro: order_trans)
qed

end
