(* ===== verification/Layout_Geometry.thy ===== *)
theory Layout_Geometry
  imports Layout_Distribute
begin

text \<open>
  The geometry solver: \<^verbatim>\<open>internal/domain/layout/geometry.go\<close> and
  \<^verbatim>\<open>dividers.go\<close>.

  \<open>solveArea\<close> places the panes of a tree. The lemmas show that the placements and the
  dividers tile the area (each cell belongs to exactly one of them), that the placements follow
  the leaves in layout order and respect the minimum pane size, and that a well-formed tree is
  solved whenever its minimum extents fit.
\<close>

section \<open>Minimum extents and child rectangles\<close>

fun minimumExtent :: "node \<Rightarrow> splitDir \<Rightarrow> int option" where
  "minimumExtent (Node k d cs l e w) ax =
     (case k of
        Leaf \<Rightarrow> Some (if ax = Horizontal then MinPaneCols else MinPaneRows)
      | Stack \<Rightarrow>
          if cs = [] then None
          else if list_ex (\<lambda>c. node_kind c \<noteq> Leaf) cs then None
          else Some (if ax = Horizontal then MinPaneCols else int (length cs) + 1)
      | Split \<Rightarrow>
          if cs = [] then None
          else (case opt_all (map (\<lambda>c. minimumExtent c ax) cs) of
                  None \<Rightarrow> None
                | Some ms \<Rightarrow> Some (if d = ax then int (length cs) - 1 + sum_list ms else fold max ms 0)))"

text \<open>The rectangles laid out along an axis, one cell apart.\<close>

fun layRects :: "splitDir \<Rightarrow> rect \<Rightarrow> int \<Rightarrow> int list \<Rightarrow> rect list" where
  "layRects d r pos [] = []"
| "layRects d r pos (extent # es) =
     (if d = Horizontal then \<lparr>rX = pos, rY = rY r, rWidth = extent, rHeight = rHeight r\<rparr>
      else \<lparr>rX = rX r, rY = pos, rWidth = rWidth r, rHeight = extent\<rparr>)
     # layRects d r (pos + extent + 1) es"

definition extentOf :: "splitDir \<Rightarrow> rect \<Rightarrow> int" where
  "extentOf d r = (if d = Vertical then rHeight r else rWidth r)"

definition splitChildRects :: "node \<Rightarrow> rect \<Rightarrow> rect list option" where
  "splitChildRects n r =
     (if node_children n = [] then None
      else if length (node_children n) = 1 then Some [r]
      else (case opt_all (map (\<lambda>c. minimumExtent c (node_dir n)) (node_children n)) of
          None \<Rightarrow> None
        | Some minimums \<Rightarrow>
            (case distribute (extentOf (node_dir n) r - (int (length (node_children n)) - 1)) minimums
                    (map (\<lambda>c. effectiveWeight (node_weight c)) (node_children n)) of
               Allocated extents \<Rightarrow>
                 Some (layRects (node_dir n) r (if node_dir n = Horizontal then rX r else rY r) extents)
             | _ \<Rightarrow> None)))"

section \<open>Placements and dividers\<close>

record divider =
  dRect :: rect
  dDir :: splitDir

definition dividerBetween :: "splitDir \<Rightarrow> rect \<Rightarrow> rect \<Rightarrow> divider" where
  "dividerBetween dir parent prev =
     (if dir = Horizontal
      then \<lparr>dRect = \<lparr>rX = rX prev + rWidth prev, rY = rY parent, rWidth = 1, rHeight = rHeight parent\<rparr>,
            dDir = Horizontal\<rparr>
      else \<lparr>dRect = \<lparr>rX = rX parent, rY = rY prev + rHeight prev, rWidth = rWidth parent, rHeight = 1\<rparr>,
            dDir = Vertical\<rparr>)"

text \<open>The index of the expanded member; a later match wins, as in the Go loop.\<close>

definition expandedIndex :: "node list \<Rightarrow> paneID \<Rightarrow> nat option" where
  "expandedIndex cs e = (case filter (\<lambda>i. node_leaf (cs ! i) = e) [0..<length cs] of
     [] \<Rightarrow> None | is \<Rightarrow> Some (last is))"

definition stackPlacement :: "rect \<Rightarrow> nat \<Rightarrow> nat \<Rightarrow> nat \<Rightarrow> paneID \<Rightarrow> placement" where
  "stackPlacement r cnt idx i leaf =
     (let contentRows = rHeight r - (int cnt - 1) in
      if i < idx then
        \<lparr>ID = leaf, Content = zero_rect,
         TitleBar = \<lparr>rX = rX r, rY = rY r + int i, rWidth = rWidth r, rHeight = 1\<rparr>,
         Collapsed = True, InStack = True\<rparr>
      else if i = idx then
        \<lparr>ID = leaf, Content = \<lparr>rX = rX r, rY = rY r + int idx, rWidth = rWidth r, rHeight = contentRows\<rparr>,
         TitleBar = zero_rect, Collapsed = False, InStack = True\<rparr>
      else
        \<lparr>ID = leaf, Content = zero_rect,
         TitleBar = \<lparr>rX = rX r, rY = rY r + int idx + contentRows + (int i - int idx - 1),
                     rWidth = rWidth r, rHeight = 1\<rparr>,
         Collapsed = True, InStack = True\<rparr>)"

definition solveStack :: "node \<Rightarrow> rect \<Rightarrow> placement list option" where
  "solveStack n r =
     (let cs = node_children n; cnt = length cs in
      if cnt = 0 \<or> rWidth r < MinPaneCols \<or> rHeight r < int cnt + 1 then None
      else if list_ex (\<lambda>c. node_kind c \<noteq> Leaf) cs then None
      else case expandedIndex cs (node_expanded n) of
        None \<Rightarrow> None
      | Some idx \<Rightarrow> Some (map (\<lambda>i. stackPlacement r cnt idx i (node_leaf (cs ! i))) [0..<cnt]))"

text \<open>
  \<open>solve\<close> returns the placements and the dividers of a subtree; \<open>solveChildren\<close> is the loop of
  \<^verbatim>\<open>solveSplit\<close>, with the rectangle of the previous child.
\<close>

fun solve :: "node \<Rightarrow> rect \<Rightarrow> (placement list \<times> divider list) option"
  and solveChildren :: "splitDir \<Rightarrow> rect \<Rightarrow> rect option \<Rightarrow> node list \<Rightarrow> rect list \<Rightarrow>
    (placement list \<times> divider list) option" where
  "solve (Node k d cs l e w) r =
     (case k of
        Leaf \<Rightarrow>
          if rWidth r < MinPaneCols \<or> rHeight r < MinPaneRows then None
          else Some ([\<lparr>ID = l, Content = r, TitleBar = zero_rect, Collapsed = False, InStack = False\<rparr>], [])
      | Split \<Rightarrow>
          (case splitChildRects (Node k d cs l e w) r of
             None \<Rightarrow> None
           | Some rects \<Rightarrow> solveChildren d r None cs rects)
      | Stack \<Rightarrow> map_option (\<lambda>ps. (ps, [])) (solveStack (Node k d cs l e w) r))"
| "solveChildren d r prev [] rects = Some ([], [])"
| "solveChildren d r prev (c # cs) [] = None"
| "solveChildren d r prev (c # cs) (rc # rects) =
     (case solve c rc of
        None \<Rightarrow> None
      | Some (ps, ds) \<Rightarrow>
          (case solveChildren d r (Some rc) cs rects of
             None \<Rightarrow> None
           | Some (ps', ds') \<Rightarrow>
               Some (ps @ ps', (case prev of None \<Rightarrow> [] | Some p \<Rightarrow> [dividerBetween d r p]) @ ds @ ds')))"

definition solveArea :: "node option \<Rightarrow> rect \<Rightarrow> bool \<Rightarrow> (placement list \<times> divider list) option" where
  "solveArea rt area withDividers =
     (case rt of
        None \<Rightarrow> None
      | Some n \<Rightarrow>
          if rWidth area \<le> 0 \<or> rHeight area \<le> 0 then None
          else (case minimumExtent n Horizontal of
             None \<Rightarrow> None
           | Some minWidth \<Rightarrow>
               if rWidth area < minWidth then None
               else (case minimumExtent n Vertical of
                  None \<Rightarrow> None
                | Some minHeight \<Rightarrow>
                    if rHeight area < minHeight then None
                    else map_option (\<lambda>(ps, ds). (ps, if withDividers then ds else [])) (solve n area))))"

definition Solve :: "node option \<Rightarrow> rect \<Rightarrow> placement list option" where
  "Solve rt area = map_option fst (solveArea rt area False)"

definition SolveWithDividers :: "node option \<Rightarrow> rect \<Rightarrow> (placement list \<times> divider list) option" where
  "SolveWithDividers rt area = solveArea rt area True"

section \<open>Solved layouts tile their area\<close>

definition in_rect :: "int \<times> int \<Rightarrow> rect \<Rightarrow> bool" where
  "in_rect p r \<longleftrightarrow> rX r \<le> fst p \<and> fst p < rX r + rWidth r \<and> rY r \<le> snd p \<and> snd p < rY r + rHeight r"

text \<open>How many of the rectangles a cell lies in.\<close>

definition cover :: "int \<times> int \<Rightarrow> rect list \<Rightarrow> nat" where
  "cover p rs = sum_list (map (\<lambda>r. of_bool (in_rect p r)) rs)"

definition placementRects :: "placement list \<Rightarrow> rect list" where
  "placementRects ps = concat (map (\<lambda>p. [Content p, TitleBar p]) ps)"

definition regions :: "placement list \<times> divider list \<Rightarrow> rect list" where
  "regions = (\<lambda>(ps, ds). placementRects ps @ map dRect ds)"

definition fits_screen :: "rect \<Rightarrow> bool" where
  "fits_screen r \<longleftrightarrow> rWidth r \<le> screen_limit \<and> rHeight r \<le> screen_limit"

lemma cover_simps [simp]:
  "cover p [] = 0" "cover p (r # rs) = of_bool (in_rect p r) + cover p rs"
  "cover p (rs @ rs') = cover p rs + cover p rs'"
  by (simp_all add: cover_def)

lemma placementRects_simps [simp]:
  "placementRects [] = []" "placementRects (p # ps) = Content p # TitleBar p # placementRects ps"
  "placementRects (ps @ ps') = placementRects ps @ placementRects ps'"
  by (simp_all add: placementRects_def)

lemma in_zero_rect [simp]: "\<not> in_rect p zero_rect"
  by (simp add: in_rect_def zero_rect_def)

lemma minimumExtent_ge: "minimumExtent n ax = Some m \<Longrightarrow> 2 \<le> m"
proof (induction n ax arbitrary: m rule: minimumExtent.induct)
  case (1 k d cs l e w ax)
  show ?case
  proof (cases k)
    case Split
    with "1.prems" obtain ms where cs: "cs \<noteq> []" and ms: "opt_all (map (\<lambda>c. minimumExtent c ax) cs) = Some ms"
      and m: "m = (if d = ax then int (length cs) - 1 + sum_list ms else fold max ms 0)"
      by (auto split: if_splits option.splits)
    have len: "length ms = length cs" using opt_all_map_Some [OF ms] .
    have two: "2 \<le> x" if "x \<in> set ms" for x
    proof -
      from that obtain i where i: "i < length cs" "x = ms ! i" using len by (metis in_set_conv_nth)
      have "minimumExtent (cs ! i) ax = Some x" using opt_all_map_nth [OF ms i(1)] i(2) by simp
      with "1.IH" [OF Split cs, of "cs ! i"] i(1) show ?thesis by simp
    qed
    obtain x where x: "x \<in> set ms" using cs len by (cases ms) auto
    have "x \<le> sum_list ms" by (rule member_le_sum_list) (use two x in force)+
    then have "2 \<le> int (length cs) - 1 + sum_list ms" using two [OF x] cs by (cases cs) auto
    then show ?thesis using two [OF x] fold_max_ge [OF x, of 0] by (simp add: m)
  next
    case Leaf
    with "1.prems" show ?thesis by (auto simp: MinPaneCols_def MinPaneRows_def split: if_splits)
  next
    case Stack
    with "1.prems" have "cs \<noteq> []" "m = (if ax = Horizontal then MinPaneCols else int (length cs) + 1)"
      by (auto split: if_splits)
    then show ?thesis by (cases cs) (auto simp: MinPaneCols_def)
  qed
qed

text \<open>A split with several children shares its extent, less the gaps, among them.\<close>

lemma distribute_AllocatedD:
  assumes "distribute tot minimums weights = Allocated extents" "\<forall>m \<in> set minimums. 2 \<le> m" "tot \<le> screen_limit"
  shows "distributable tot minimums weights"
proof -
  have *: "\<not> tot < 0" "minimums \<noteq> []" "length minimums = length weights" "sum_list minimums \<le> tot"
    using assms(1) by (auto simp: distribute_def split: if_splits)
  have "int (length minimums) \<le> sum_list minimums" by (rule length_le_sum_list) (use assms(2) in force)
  then show ?thesis using * assms(2,3) by (force simp: distributable_def screen_limit_def)
qed

lemma splitChildRects_extents:
  assumes "splitChildRects n r = Some rects" "fits_screen r" "length (node_children n) \<noteq> 1"
  shows "\<exists>extents. rects = layRects (node_dir n) r (if node_dir n = Horizontal then rX r else rY r) extents \<and>
    length extents = length (node_children n) \<and> extents \<noteq> [] \<and> (\<forall>x \<in> set extents. 0 \<le> x) \<and>
    sum_list extents + int (length extents) - 1 = extentOf (node_dir n) r"
proof -
  let ?cs = "node_children n" and ?d = "node_dir n"
  from assms(1,3) obtain ms extents where ms: "opt_all (map (\<lambda>c. minimumExtent c ?d) ?cs) = Some ms"
    and dist: "distribute (extentOf ?d r - (int (length ?cs) - 1)) ms
        (map (\<lambda>c. effectiveWeight (node_weight c)) ?cs) = Allocated extents"
    and rects: "rects = layRects ?d r (if ?d = Horizontal then rX r else rY r) extents" and ne: "?cs \<noteq> []"
    by (auto simp: splitChildRects_def split: if_splits option.splits distribution.splits)
  have len: "length ms = length ?cs" using opt_all_map_Some [OF ms] .
  have two: "\<forall>m \<in> set ms. 2 \<le> m"
    using opt_all_map_nth [OF ms] len minimumExtent_ge by (metis in_set_conv_nth)
  have "extentOf ?d r - (int (length ?cs) - 1) \<le> screen_limit"
    using assms(2) ne by (cases ?cs) (auto simp: extentOf_def fits_screen_def)
  from distribute_ok [OF distribute_AllocatedD [OF dist two this]] dist
  have ex: "length extents = length ms" "sum_list extents = extentOf ?d r - (int (length ?cs) - 1)"
    "\<forall>i < length ms. ms ! i \<le> extents ! i" by auto
  have "0 \<le> x" if "x \<in> set extents" for x
  proof -
    from that ex(1) obtain i where i: "i < length ms" "x = extents ! i" by (metis in_set_conv_nth)
    then have "2 \<le> ms ! i" using two by simp
    then show ?thesis using ex(3) i by force
  qed
  then show ?thesis using rects ex len ne by auto
qed

fun gaps :: "splitDir \<Rightarrow> rect \<Rightarrow> rect option \<Rightarrow> rect list \<Rightarrow> rect list" where
  "gaps d r prev [] = []"
| "gaps d r prev (rc # rects) =
     (case prev of None \<Rightarrow> [] | Some p \<Rightarrow> [dRect (dividerBetween d r p)]) @ gaps d r (Some rc) rects"

lemma layRects_tile:
  assumes "\<forall>x \<in> set extents. 0 \<le> x" "extents \<noteq> []"
  shows "cover p (layRects d r pos extents) + cover p (gaps d r None (layRects d r pos extents)) =
    of_bool (in_rect p (if d = Horizontal
      then \<lparr>rX = pos, rY = rY r, rWidth = sum_list extents + int (length extents) - 1, rHeight = rHeight r\<rparr>
      else \<lparr>rX = rX r, rY = pos, rWidth = rWidth r, rHeight = sum_list extents + int (length extents) - 1\<rparr>))"
  using assms
proof (induction extents arbitrary: pos)
  case (Cons x es)
  show ?case
  proof (cases "es = []")
    case True
    then show ?thesis by (simp add: in_rect_def)
  next
    case False
    then obtain y ys where es: "es = y # ys" by (cases es) auto
    let ?rs = "layRects d r (pos + x + 1) es"
    have s: "0 \<le> sum_list es" using Cons.prems(1) by (intro sum_list_nonneg) auto
    have g: "cover p (gaps d r (Some rc) ?rs) = of_bool (in_rect p (dRect (dividerBetween d r rc))) + cover p (gaps d r None ?rs)"
      for rc by (simp add: es)
    have IH: "cover p ?rs + cover p (gaps d r None ?rs) =
      of_bool (in_rect p (if d = Horizontal
        then \<lparr>rX = pos + x + 1, rY = rY r, rWidth = sum_list es + int (length es) - 1, rHeight = rHeight r\<rparr>
        else \<lparr>rX = rX r, rY = pos + x + 1, rWidth = rWidth r, rHeight = sum_list es + int (length es) - 1\<rparr>))"
      by (rule Cons.IH) (use Cons.prems(1) False in auto)
    have l: "1 \<le> int (length es)" using es by simp
    have x: "0 \<le> x" using Cons.prems(1) by simp
    show ?thesis
      using IH s l x unfolding layRects.simps gaps.simps cover_simps g
      by (cases d) (auto simp: in_rect_def dividerBetween_def)
  qed
qed simp

text \<open>A stack is a pile of rows, one for each collapsed member, around the expanded one.\<close>

definition stackRow :: "rect \<Rightarrow> nat \<Rightarrow> nat \<Rightarrow> nat \<Rightarrow> int" where
  "stackRow r cnt idx i = rY r + (if i \<le> idx then int i else rHeight r - int cnt + int i)"

lemma stackPlacement_cover:
  assumes "i < cnt" "idx < cnt"
  shows "cover p (placementRects [stackPlacement r cnt idx i leaf]) =
    of_bool (rX r \<le> fst p \<and> fst p < rX r + rWidth r \<and>
       stackRow r cnt idx i \<le> snd p \<and> snd p < stackRow r cnt idx (Suc i))"
  using assms by (auto simp: stackPlacement_def stackRow_def in_rect_def zero_rect_def)

lemma stack_cover:
  assumes "idx < cnt" "int cnt + 1 \<le> rHeight r" "n \<le> cnt"
  shows "cover p (placementRects (map (\<lambda>i. stackPlacement r cnt idx i (f i)) [0..<n])) =
    of_bool (rX r \<le> fst p \<and> fst p < rX r + rWidth r \<and> rY r \<le> snd p \<and> snd p < stackRow r cnt idx n)"
  using assms(3)
proof (induction n)
  case (Suc n)
  have "rY r \<le> stackRow r cnt idx n" "stackRow r cnt idx n \<le> stackRow r cnt idx (Suc n)"
    using assms(1,2) Suc.prems by (auto simp: stackRow_def)
  with Suc stackPlacement_cover [of n cnt idx p r "f n"] assms(1) show ?case by auto
qed (simp add: stackRow_def)

lemma expandedIndex_less: "expandedIndex cs e = Some i \<Longrightarrow> i < length cs \<and> node_leaf (cs ! i) = e"
proof -
  assume a: "expandedIndex cs e = Some i"
  then have "filter (\<lambda>i. node_leaf (cs ! i) = e) [0..<length cs] \<noteq> []"
    and "i = last (filter (\<lambda>i. node_leaf (cs ! i) = e) [0..<length cs])"
    by (auto simp: expandedIndex_def split: list.splits)
  then have "i \<in> set (filter (\<lambda>i. node_leaf (cs ! i) = e) [0..<length cs])" by (metis last_in_set)
  then show ?thesis by simp
qed

lemma solveStack_tiles:
  assumes "solveStack n r = Some ps"
  shows "cover p (placementRects ps) = of_bool (in_rect p r)"
proof -
  let ?cs = "node_children n"
  from assms obtain idx where idx: "expandedIndex ?cs (node_expanded n) = Some idx"
    and ps: "ps = map (\<lambda>i. stackPlacement r (length ?cs) idx i (node_leaf (?cs ! i))) [0..<length ?cs]"
    and h: "int (length ?cs) + 1 \<le> rHeight r"
    by (auto simp: solveStack_def Let_def split: if_splits option.splits)
  have "idx < length ?cs" using expandedIndex_less [OF idx] by simp
  then show ?thesis
    using stack_cover [OF _ h, of idx "length ?cs" p "\<lambda>i. node_leaf (?cs ! i)"]
    by (simp add: ps in_rect_def stackRow_def)
qed

lemma layRects_fit:
  assumes "fits_screen r" "\<forall>x \<in> set extents. 0 \<le> x \<and> x \<le> extentOf d r" "rc \<in> set (layRects d r pos extents)"
  shows "fits_screen rc"
  using assms(2,3)
proof (induction extents arbitrary: pos)
  case (Cons x es)
  then show ?case using assms(1) by (cases d) (auto simp: fits_screen_def extentOf_def)
qed simp

lemma splitChildRects_tile:
  assumes "splitChildRects n r = Some rects" "fits_screen r"
  shows "cover p rects + cover p (gaps (node_dir n) r None rects) = of_bool (in_rect p r)"
    "\<forall>rc \<in> set rects. fits_screen rc" "length rects = length (node_children n)"
proof -
  let ?d = "node_dir n"
  have "cover p rects + cover p (gaps ?d r None rects) = of_bool (in_rect p r) \<and>
    (\<forall>rc \<in> set rects. fits_screen rc) \<and> length rects = length (node_children n)"
  proof (cases "length (node_children n) = 1")
    case True
    with assms show ?thesis by (auto simp: splitChildRects_def split: if_splits)
  next
    case False
    let ?pos = "if ?d = Horizontal then rX r else rY r"
    from splitChildRects_extents [OF assms False] obtain es where es: "rects = layRects ?d r ?pos es"
      "length es = length (node_children n)" "es \<noteq> []" "\<forall>x \<in> set es. 0 \<le> x"
      "sum_list es + int (length es) - 1 = extentOf ?d r" by blast
    have "x \<le> extentOf ?d r" if "x \<in> set es" for x
    proof -
      have "x \<le> sum_list es" by (rule member_le_sum_list) (use es(4) that in auto)
      moreover have "1 \<le> int (length es)" using es(3) by (cases es) auto
      ultimately show ?thesis using es(5) by linarith
    qed
    then have "\<forall>rc \<in> set rects. fits_screen rc" using layRects_fit [OF assms(2)] es(1,4) by blast
    moreover have "length (layRects ?d r pos es) = length es" for pos by (induction es arbitrary: pos) auto
    ultimately show ?thesis
      using layRects_tile [OF es(4,3), of p ?d r ?pos] es(1,2) unfolding es(5)
      by (cases ?d) (auto simp: in_rect_def extentOf_def)
  qed
  then show "cover p rects + cover p (gaps ?d r None rects) = of_bool (in_rect p r)"
    "\<forall>rc \<in> set rects. fits_screen rc" "length rects = length (node_children n)" by auto
qed

lemma solve_tiles:
  shows "solve n r = Some out \<Longrightarrow> fits_screen r \<Longrightarrow> cover p (regions out) = of_bool (in_rect p r)"
    and "solveChildren d r prev cs rects = Some out \<Longrightarrow> \<forall>rc \<in> set rects. fits_screen rc \<Longrightarrow>
      length rects = length cs \<Longrightarrow> cover p (regions out) = cover p rects + cover p (gaps d r prev rects)"
proof (induction n r and d r prev cs rects arbitrary: out and out rule: solve_solveChildren.induct)
  case (1 k d cs l e w r)
  show ?case
  proof (cases k)
    case Leaf
    with "1.prems" show ?thesis by (auto simp: regions_def split: if_splits)
  next
    case Split
    with "1.prems" obtain rects where rects: "splitChildRects (Node k d cs l e w) r = Some rects"
      and sol: "solveChildren d r None cs rects = Some out" by (auto split: option.splits)
    note t = splitChildRects_tile [OF rects "1.prems"(2)]
    have "cover p (regions out) = cover p rects + cover p (gaps d r None rects)"
      using "1.IH" [OF Split rects sol] t(2,3) by simp
    with t(1) [of p] show ?thesis by simp
  next
    case Stack
    with "1.prems" obtain ps where "solveStack (Node k d cs l e w) r = Some ps" "out = (ps, [])" by auto
    with solveStack_tiles show ?thesis by (simp add: regions_def)
  qed
next
  case (4 d r prev c cs rc rects)
  from "4.prems"(1) obtain ps ds ps' ds' where s: "solve c rc = Some (ps, ds)"
    and t: "solveChildren d r (Some rc) cs rects = Some (ps', ds')"
    and out: "out = (ps @ ps', (case prev of None \<Rightarrow> [] | Some p \<Rightarrow> [dividerBetween d r p]) @ ds @ ds')"
    by (auto split: option.splits)
  from "4.IH"(1) [OF s] "4.IH"(2) [OF s refl t] "4.prems" show ?case
    by (auto simp: out regions_def split: option.splits)
qed (auto simp: regions_def)

section \<open>Placements follow the leaves and respect the minimum sizes\<close>

lemma solveStack_ids:
  assumes "solveStack n r = Some ps"
  shows "map ID ps = concat (map leafIDs (node_children n))"
proof -
  let ?cs = "node_children n"
  from assms obtain idx where
    ps: "ps = map (\<lambda>i. stackPlacement r (length ?cs) idx i (node_leaf (?cs ! i))) [0..<length ?cs]"
    and leaves: "\<forall>c \<in> set ?cs. node_kind c = Leaf"
    by (auto simp: solveStack_def Let_def list_ex_iff split: if_splits option.splits)
  have "map ID ps = map (\<lambda>i. node_leaf (?cs ! i)) [0..<length ?cs]"
    by (auto simp: ps stackPlacement_def Let_def)
  also have "\<dots> = map node_leaf ?cs" by (rule nth_equalityI) auto
  finally show ?thesis using wf_stack_leafIDs [OF leaves] by simp
qed

lemma solve_ids:
  shows "solve n r = Some out \<Longrightarrow> map ID (fst out) = leafIDs n"
    and "solveChildren d r prev cs rects = Some out \<Longrightarrow> map ID (fst out) = concat (map leafIDs cs)"
proof (induction n r and d r prev cs rects arbitrary: out and out rule: solve_solveChildren.induct)
  case (1 k d cs l e w r)
  show ?case
  proof (cases k)
    case Stack
    with "1.prems" obtain ps where "solveStack (Node k d cs l e w) r = Some ps" "out = (ps, [])" by auto
    with solveStack_ids [of "Node k d cs l e w"] Stack show ?thesis by simp
  next
    case Split
    with "1.prems" obtain rects where "splitChildRects (Node k d cs l e w) r = Some rects"
      "solveChildren d r None cs rects = Some out" by (auto split: option.splits)
    from "1.IH" [OF Split this] Split show ?thesis by simp
  qed (use "1.prems" in \<open>auto split: if_splits\<close>)
next
  case (4 d r prev c cs rc rects)
  then show ?case by (auto split: option.splits)
qed auto

definition placementReadable :: "placement \<Rightarrow> bool" where
  "placementReadable p \<longleftrightarrow>
     (if Collapsed p then rHeight (TitleBar p) = 1 \<and> MinPaneCols \<le> rWidth (TitleBar p)
      else MinPaneCols \<le> rWidth (Content p) \<and> MinPaneRows \<le> rHeight (Content p))"

lemma solveStack_readable: "solveStack n r = Some ps \<Longrightarrow> list_all placementReadable ps"
  by (auto simp: solveStack_def Let_def list_all_iff stackPlacement_def placementReadable_def MinPaneRows_def
      split: if_splits option.splits)

lemma solve_readable:
  shows "solve n r = Some out \<Longrightarrow> list_all placementReadable (fst out)"
    and "solveChildren d r prev cs rects = Some out \<Longrightarrow> list_all placementReadable (fst out)"
proof (induction n r and d r prev cs rects arbitrary: out and out rule: solve_solveChildren.induct)
  case (1 k d cs l e w r)
  show ?case
  proof (cases k)
    case Leaf
    with "1.prems" show ?thesis by (auto simp: placementReadable_def split: if_splits)
  next
    case Split
    with "1.prems" obtain rects where "splitChildRects (Node k d cs l e w) r = Some rects"
      "solveChildren d r None cs rects = Some out" by (auto split: option.splits)
    from "1.IH" [OF Split this] show ?thesis .
  qed (use "1.prems" in \<open>auto simp: solveStack_readable\<close>)
next
  case (4 d r prev c cs rc rects)
  then show ?case by (auto split: option.splits)
qed auto

section \<open>Every layout that has room is solved\<close>

lemma wf_minimumExtent: "wf_node n \<Longrightarrow> \<exists>m. minimumExtent n ax = Some m"
proof (induction n ax rule: minimumExtent.induct)
  case (1 k d cs l e w ax)
  show ?case
  proof (cases k)
    case Split
    with "1.prems" have cs: "cs \<noteq> []" and wf: "\<forall>c \<in> set cs. wf_node c" by (auto simp: list_all_iff)
    with "1.IH" [OF Split cs] have "\<forall>c \<in> set cs. \<exists>m. minimumExtent c ax = Some m" by blast
    from opt_all_map_ex [OF this] Split cs show ?thesis by auto
  next
    case Stack
    with "1.prems" have "cs \<noteq> []" "\<not> list_ex (\<lambda>c. node_kind c \<noteq> Leaf) cs"
      by (auto simp: list_all_iff list_ex_iff)
    with Stack show ?thesis by simp
  qed simp
qed

definition has_room :: "node \<Rightarrow> rect \<Rightarrow> bool" where
  "has_room n r \<longleftrightarrow>
     (case minimumExtent n Horizontal of None \<Rightarrow> False | Some w \<Rightarrow> w \<le> rWidth r) \<and>
     (case minimumExtent n Vertical of None \<Rightarrow> False | Some h \<Rightarrow> h \<le> rHeight r)"

lemma split_minimumExtent:
  assumes "node_kind n = Split" "minimumExtent n ax = Some m"
  shows "\<exists>ms. opt_all (map (\<lambda>c. minimumExtent c ax) (node_children n)) = Some ms \<and>
    m = (if node_dir n = ax then int (length (node_children n)) - 1 + sum_list ms else fold max ms 0)"
  using assms by (cases n) (auto split: if_splits option.splits)

lemma layRects_nth:
  "i < length es \<Longrightarrow> length (layRects d r pos es) = length es \<and>
     extentOf d (layRects d r pos es ! i) = es ! i \<and>
     (d = Horizontal \<longrightarrow> rHeight (layRects d r pos es ! i) = rHeight r) \<and>
     (d = Vertical \<longrightarrow> rWidth (layRects d r pos es ! i) = rWidth r)"
proof (induction es arbitrary: pos i)
  case (Cons x es)
  have "length (layRects d r p es) = length es" for p by (induction es arbitrary: p) auto
  with Cons show ?case by (cases i; cases d) (auto simp: extentOf_def)
qed simp

lemma length_layRects [simp]: "length (layRects d r pos es) = length es"
  by (induction es arbitrary: pos) auto

lemma has_room_axis:
  "has_room n r \<longleftrightarrow> (\<forall>ax. \<exists>m. minimumExtent n ax = Some m \<and> m \<le> extentOf ax r)"
proof -
  have "has_room n r \<longleftrightarrow> (\<exists>m. minimumExtent n Horizontal = Some m \<and> m \<le> extentOf Horizontal r) \<and>
      (\<exists>m. minimumExtent n Vertical = Some m \<and> m \<le> extentOf Vertical r)"
    by (auto simp: has_room_def extentOf_def split: option.splits)
  also have "\<dots> \<longleftrightarrow> (\<forall>ax. \<exists>m. minimumExtent n ax = Some m \<and> m \<le> extentOf ax r)"
    (is "?P Horizontal \<and> ?P Vertical \<longleftrightarrow> (\<forall>ax. ?P ax)")
  proof (intro iffI allI)
    fix ax assume "?P Horizontal \<and> ?P Vertical"
    then show "?P ax" by (cases ax) auto
  qed auto
  finally show ?thesis .
qed

lemma split_axis_minimums:
  assumes "node_kind n = Split" "has_room n r"
  shows "\<exists>ms. opt_all (map (\<lambda>c. minimumExtent c ax) (node_children n)) = Some ms \<and>
    (if node_dir n = ax then int (length (node_children n)) - 1 + sum_list ms else fold max ms 0) \<le> extentOf ax r"
proof -
  from assms(2) obtain m where m: "minimumExtent n ax = Some m" "m \<le> extentOf ax r" by (auto simp: has_room_axis)
  from split_minimumExtent [OF assms(1) m(1)] m(2) show ?thesis by auto
qed

text \<open>A split that has room finds rectangles for its children, each with room again.\<close>

lemma single_child_room:
  assumes "node_kind n = Split" "node_children n = [c]" "has_room n r"
  shows "has_room c r"
proof -
  have "\<exists>m. minimumExtent c ax = Some m \<and> m \<le> extentOf ax r" for ax
    using split_axis_minimums [OF assms(1,3), of ax] minimumExtent_ge [of c ax] assms(2)
    by (cases "minimumExtent c ax") (auto split: if_splits)
  then show ?thesis by (simp add: has_room_axis)
qed

lemma distributable_split:
  assumes "node_kind n = Split" "node_children n \<noteq> []" "has_room n r" "fits_screen r"
    and ms: "opt_all (map (\<lambda>c. minimumExtent c (node_dir n)) (node_children n)) = Some ms"
  shows "distributable (extentOf (node_dir n) r - (int (length (node_children n)) - 1)) ms
    (map (\<lambda>c. effectiveWeight (node_weight c)) (node_children n))"
proof -
  have le: "int (length (node_children n)) - 1 + sum_list ms \<le> extentOf (node_dir n) r"
    using split_axis_minimums [OF assms(1,3), of "node_dir n"] ms by auto
  note len = opt_all_map_Some [OF ms]
  have two: "\<forall>m \<in> set ms. 2 \<le> m"
    using opt_all_map_nth [OF ms] len minimumExtent_ge by (metis in_set_conv_nth)
  have nl: "int (length ms) \<le> sum_list ms" by (rule length_le_sum_list) (use two in force)
  have lim: "extentOf (node_dir n) r \<le> 65535" using assms(4) by (auto simp: extentOf_def fits_screen_def screen_limit_def)
  have one: "1 \<le> length (node_children n)" using assms(2) by (cases "node_children n") auto
  have "ms \<noteq> []" using len assms(2) by auto
  moreover have "\<forall>m \<in> set ms. 0 \<le> m" using two by force
  moreover have "length ms \<le> 65535" using nl le lim one by linarith
  ultimately show ?thesis using len le lim one by (simp add: distributable_def screen_limit_def)
qed

lemma split_room:
  assumes k: "node_kind n = Split" "node_children n \<noteq> []" and room: "has_room n r" and fit: "fits_screen r"
  shows "\<exists>rects. splitChildRects n r = Some rects \<and> length rects = length (node_children n) \<and>
    (\<forall>i < length rects. has_room (node_children n ! i) (rects ! i))"
proof (cases "length (node_children n) = 1")
  case True
  then obtain c where c: "node_children n = [c]" by (cases "node_children n") auto
  then show ?thesis using single_child_room [OF k(1) c room] by (simp add: splitChildRects_def)
next
  case False
  let ?cs = "node_children n" and ?d = "node_dir n"
  let ?pos = "if ?d = Horizontal then rX r else rY r"
  obtain ms where ms: "opt_all (map (\<lambda>c. minimumExtent c ?d) ?cs) = Some ms"
    using split_axis_minimums [OF k(1) room, of ?d] by auto
  note len = opt_all_map_Some [OF ms]
  from distribute_ok [OF distributable_split [OF k room fit ms]] obtain es where
    es: "distribute (extentOf ?d r - (int (length ?cs) - 1)) ms (map (\<lambda>c. effectiveWeight (node_weight c)) ?cs) = Allocated es"
    "length es = length ms" "\<forall>i < length ms. ms ! i \<le> es ! i" by blast
  have rects: "splitChildRects n r = Some (layRects ?d r ?pos es)"
    using k(2) False ms es(1) by (simp add: splitChildRects_def)
  have "\<exists>m. minimumExtent (?cs ! i) ax = Some m \<and> m \<le> extentOf ax (layRects ?d r ?pos es ! i)"
    if i: "i < length ?cs" for i ax
  proof (cases "ax = ?d")
    case True
    then show ?thesis using opt_all_map_nth [OF ms i] es(2,3) layRects_nth [of i es] i len by auto
  next
    case other: False
    from split_axis_minimums [OF k(1) room, of ax] other obtain ms' where
      ms': "opt_all (map (\<lambda>c. minimumExtent c ax) ?cs) = Some ms'" "fold max ms' 0 \<le> extentOf ax r" by auto
    have "ms' ! i \<in> set ms'" using i opt_all_map_Some [OF ms'(1)] by simp
    then have "ms' ! i \<le> extentOf ax r" using fold_max_ge ms'(2) by (meson order_trans)
    moreover have "extentOf ax (layRects ?d r ?pos es ! i) = extentOf ax r"
      using layRects_nth [of i es ?d r ?pos] other i es(2) len by (cases ax; cases ?d) (auto simp: extentOf_def)
    ultimately show ?thesis using opt_all_map_nth [OF ms'(1) i] by simp
  qed
  then show ?thesis using rects es(2) len by (auto simp: has_room_axis)
qed

lemma wf_stack_solved:
  assumes "wf_node n" "node_kind n = Stack" "has_room n r"
  shows "\<exists>ps. solveStack n r = Some ps"
proof -
  let ?cs = "node_children n"
  have len: "2 \<le> length ?cs" and leaves: "\<forall>c \<in> set ?cs. node_kind c = Leaf"
    and e: "node_expanded n \<in> set (map node_leaf ?cs)"
    using assms(1,2) wf_node_unfold [of n] by auto
  have dims: "MinPaneCols \<le> rWidth r" "int (length ?cs) + 1 \<le> rHeight r"
    using assms(2,3) by (cases n; auto simp: has_room_def split: option.splits if_splits)+
  from e obtain i where "i < length ?cs" "node_leaf (?cs ! i) = node_expanded n"
    by (auto simp: in_set_conv_nth)
  then have "filter (\<lambda>i. node_leaf (?cs ! i) = node_expanded n) [0..<length ?cs] \<noteq> []"
    by (auto simp: filter_empty_conv)
  then have "expandedIndex ?cs (node_expanded n) \<noteq> None"
    by (simp add: expandedIndex_def split: list.split)
  then show ?thesis using len leaves dims by (auto simp: solveStack_def Let_def list_ex_iff)
qed

lemma solve_complete:
  shows "wf_node n \<Longrightarrow> has_room n r \<Longrightarrow> fits_screen r \<Longrightarrow> \<exists>out. solve n r = Some out"
    and "\<forall>c \<in> set cs. wf_node c \<Longrightarrow> length rects = length cs \<Longrightarrow> \<forall>i < length rects. has_room (cs ! i) (rects ! i)
      \<Longrightarrow> \<forall>rc \<in> set rects. fits_screen rc \<Longrightarrow> \<exists>out. solveChildren d r prev cs rects = Some out"
proof (induction n r and d r prev cs rects rule: solve_solveChildren.induct)
  case (1 k d cs l e w r)
  let ?n = "Node k d cs l e w"
  show ?case
  proof (cases k)
    case Leaf
    with "1.prems" show ?thesis by (auto simp: has_room_def MinPaneCols_def MinPaneRows_def)
  next
    case Split
    with "1.prems"(1) have ne: "cs \<noteq> []" and wf: "\<forall>c \<in> set cs. wf_node c" by (auto simp: list_all_iff)
    from split_room [of ?n r] Split ne "1.prems"(2,3) obtain rects where
      rects: "splitChildRects ?n r = Some rects" "length rects = length cs"
      "\<forall>i < length rects. has_room (cs ! i) (rects ! i)" by auto
    have "\<forall>rc \<in> set rects. fits_screen rc" using splitChildRects_tile(2) [OF rects(1) "1.prems"(3)] .
    from "1.IH" [OF Split rects(1) wf rects(2,3) this] rects(1) Split show ?thesis by auto
  next
    case Stack
    with wf_stack_solved [OF "1.prems"(1) _ "1.prems"(2)] show ?thesis by auto
  qed
next
  case (4 d r prev c cs rc rects)
  have rm: "\<forall>i < length rects. has_room (cs ! i) (rects ! i)" using "4.prems"(3) by force
  have "\<exists>out. solve c rc = Some out"
    by (rule "4.IH"(1)) (use "4.prems" in \<open>auto dest: spec [of _ 0]\<close>)
  then obtain ps ds where s: "solve c rc = Some (ps, ds)" by auto
  have "\<exists>out. solveChildren d r (Some rc) cs rects = Some out"
    by (rule "4.IH"(2) [OF s refl]) (use "4.prems" rm in auto)
  then show ?case using s by (auto split: option.splits)
qed auto

section \<open>When a layout solves\<close>

lemma has_room_positive: "has_room n area \<Longrightarrow> 0 < rWidth area \<and> 0 < rHeight area"
  using minimumExtent_ge [of n] by (fastforce simp: has_room_def split: option.splits)

lemma Solve_has_room: "Solve (Some n) area = Some ps \<Longrightarrow> has_room n area"
  by (auto simp: Solve_def solveArea_def has_room_def split: option.splits if_splits)

lemma Solve_has_room_iff:
  assumes "wf_node n" "fits_screen area"
  shows "Solve (Some n) area \<noteq> None \<longleftrightarrow> has_room n area"
proof
  assume room: "has_room n area"
  from solve_complete(1) [OF assms(1) room assms(2)] obtain out where "solve n area = Some out" by blast
  with room has_room_positive [OF room] show "Solve (Some n) area \<noteq> None"
    by (auto simp: Solve_def solveArea_def has_room_def split: option.splits)
qed (use Solve_has_room in blast)

lemma SolveWithDividers_Solve:
  "Solve rt area = map_option fst (SolveWithDividers rt area)"
  by (auto simp: Solve_def SolveWithDividers_def solveArea_def option.map_comp comp_def case_prod_beta
      split: option.splits)

lemma SolveWithDividers_solve:
  "SolveWithDividers (Some n) area = Some out \<Longrightarrow> solve n area = Some out"
  by (auto simp: SolveWithDividers_def solveArea_def split: option.splits if_splits)

lemma Solve_ids: "Solve (Some n) area = Some ps \<Longrightarrow> map ID ps = leafIDs n"
  using SolveWithDividers_solve solve_ids(1) by (fastforce simp: SolveWithDividers_Solve)

lemma minimumExtent_weight [simp]: "minimumExtent (set_weight w n) ax = minimumExtent n ax"
  by (cases n) (simp add: set_weight_def)

lemma has_room_weight [simp]: "has_room (set_weight w n) r = has_room n r"
  by (simp add: has_room_def)

end
