(* ===== verification/Layout_Ops.thy ===== *)
theory Layout_Ops
  imports Layout_Geometry "HOL-Library.List_Lexorder" "HOL-Library.Char_ord"
begin

text \<open>
  The operations on a pane tree: \<^verbatim>\<open>internal/domain/layout/ops.go\<close>.

  Each operation works on a copy and commits it only when the changed layout solves in the given
  area, so an error leaves the tree as it was: the result type is \<open>layoutError + tree\<close>, and
  \<open>Inl\<close> carries no tree. The recursive editors return \<open>None\<close> where the Go function
  returns false without having changed anything.
\<close>

datatype layoutError = ErrNotFound | ErrTooSmall | ErrNoPane | ErrNotInSplit | ErrNotToggleable
  | ErrUnsupportedColumnLayout | ErrInvalidDirection

text \<open>Commit a candidate when it solves.\<close>

definition commit :: "rect \<Rightarrow> tree \<Rightarrow> layoutError + tree" where
  "commit area candidate =
     (case Solve (Root candidate) area of None \<Rightarrow> Inl ErrTooSmall | Some _ \<Rightarrow> Inr candidate)"

section \<open>Weights and areas of the children\<close>

definition clearChildWeights :: "node \<Rightarrow> node" where
  "clearChildWeights n = set_children (map (set_weight (Fin 0)) (node_children n)) n"

definition nodeChildAreas :: "node \<Rightarrow> rect \<Rightarrow> rect list" where
  "nodeChildAreas n area =
     (case (if node_kind n = Split then splitChildRects n area else None) of
        Some rects \<Rightarrow> rects
      | None \<Rightarrow> replicate (length (node_children n)) area)"

definition childArea :: "node \<Rightarrow> rect \<Rightarrow> nat \<Rightarrow> rect" where
  "childArea n area i =
     (if i < length (nodeChildAreas n area) then nodeChildAreas n area ! i else area)"

definition normalizeChildWeightsFromArea :: "node \<Rightarrow> rect \<Rightarrow> node" where
  "normalizeChildWeightsFromArea n area =
     (case splitChildRects n area of
        None \<Rightarrow> n
      | Some rects \<Rightarrow>
          set_children (map (\<lambda>(c, rc). set_weight (float_of_int (extentOf (node_dir n) rc)) c)
            (zip (node_children n) rects)) n)"

section \<open>Resizing\<close>

definition splitDirForAxis :: "axis \<Rightarrow> splitDir" where
  "splitDirForAxis ax = (case ax of Width \<Rightarrow> Horizontal | Height \<Rightarrow> Vertical)"

fun hasMatchingSplit :: "node \<Rightarrow> paneID \<Rightarrow> splitDir \<Rightarrow> bool" where
  "hasMatchingSplit (Node k d cs l e w) focus dir =
     (containsLeaf (Node k d cs l e w) focus \<and>
      (list_ex (\<lambda>c. containsLeaf c focus \<and> hasMatchingSplit c focus dir) cs \<or> (k = Split \<and> d = dir)))"

text \<open>
  The Go function returns a pointer to the split; here its position is the path of child indices
  from the root, given together with the split itself.
\<close>

lemma size_first_index:
  "first_index P cs = Some i \<Longrightarrow> size (cs ! i) < Suc (size_list size cs)"
  by (metis first_index_Some less_Suc_eq_le nth_mem size_list_estimation' order_refl)

function nearestMatchingSplit :: "node \<Rightarrow> paneID \<Rightarrow> splitDir \<Rightarrow> rect \<Rightarrow> (nat list \<times> node \<times> rect \<times> nat) option" where
  "nearestMatchingSplit (Node k d cs l e w) focus dir area =
     (if \<not> containsLeaf (Node k d cs l e w) focus then None
      else (case first_index (\<lambda>c. containsLeaf c focus) cs of
          None \<Rightarrow> None
        | Some i \<Rightarrow>
            (case nearestMatchingSplit (cs ! i) focus dir (childArea (Node k d cs l e w) area i) of
               Some (path, n, a, j) \<Rightarrow> Some (i # path, n, a, j)
             | None \<Rightarrow>
                 if k = Split \<and> d = dir then Some ([], Node k d cs l e w, area, i) else None)))"
  by pat_completeness auto
termination
  by (relation "measure (\<lambda>(n, _, _, _). size n)") (auto dest: size_first_index)

text \<open>Writing a node back through the pointer.\<close>

fun replace_node :: "nat list \<Rightarrow> node \<Rightarrow> node \<Rightarrow> node" where
  "replace_node [] new n = new"
| "replace_node (i # path) new n =
     set_children ((node_children n)[i := replace_node path new (node_children n ! i)]) n"

definition preferredNeighbors :: "nat \<Rightarrow> nat \<Rightarrow> nat list" where
  "preferredNeighbors target cnt =
     (if target + 1 < cnt then [target + 1] else []) @ (if 0 < target then [target - 1] else [])"

definition requestedCells :: "int \<Rightarrow> int" where
  "requestedCells delta = (if delta < 0 then (if delta = min_int then max_int else - delta) else delta)"

text \<open>The neighbour that gives or takes cells, and how many.\<close>

definition resizeTransfer :: "int \<Rightarrow> nat \<Rightarrow> int list \<Rightarrow> int list \<Rightarrow> (nat \<times> int) option" where
  "resizeTransfer delta target extents minimums =
     (if 0 < delta then
        (case filter (\<lambda>i. 0 < extents ! i - minimums ! i) (preferredNeighbors target (length extents)) of
           [] \<Rightarrow> None
         | i # _ \<Rightarrow> Some (i, min (requestedCells delta) (extents ! i - minimums ! i)))
      else
        (case preferredNeighbors target (length extents) of
           [] \<Rightarrow> None
         | i # _ \<Rightarrow>
             if 0 < extents ! target - minimums ! target
             then Some (i, min (requestedCells delta) (extents ! target - minimums ! target))
             else None))"

definition moveCells :: "int \<Rightarrow> nat \<Rightarrow> nat \<Rightarrow> int \<Rightarrow> int list \<Rightarrow> int list" where
  "moveCells delta target neighbor transfer extents =
     (let d = (if 0 < delta then transfer else - transfer) in
      extents[target := extents ! target + d, neighbor := extents ! neighbor - d])"

definition weightsFromExtents :: "int list \<Rightarrow> node \<Rightarrow> node" where
  "weightsFromExtents extents n =
     set_children (map (\<lambda>(c, x). set_weight (float_of_int x) c) (zip (node_children n) extents)) n"

definition resizeSplit :: "int \<Rightarrow> splitDir \<Rightarrow> node \<Rightarrow> rect \<Rightarrow> nat \<Rightarrow> layoutError + node" where
  "resizeSplit delta dir splitNode splitArea target =
     (case splitChildRects splitNode splitArea of
        None \<Rightarrow> Inl ErrTooSmall
      | Some rects \<Rightarrow>
          (case opt_all (map (\<lambda>c. minimumExtent c dir) (node_children splitNode)) of
             None \<Rightarrow> Inl ErrTooSmall
           | Some minimums \<Rightarrow>
               if requestedCells delta = 0 then Inl ErrTooSmall
               else (case resizeTransfer delta target (map (extentOf dir) rects) minimums of
                  None \<Rightarrow> Inl ErrTooSmall
                | Some (neighbor, transfer) \<Rightarrow>
                    if transfer = 0 then Inl ErrTooSmall
                    else Inr (weightsFromExtents
                      (moveCells delta target neighbor transfer (map (extentOf dir) rects)) splitNode))))"

definition ResizeFocus :: "tree \<Rightarrow> axis \<Rightarrow> int \<Rightarrow> rect \<Rightarrow> layoutError + tree" where
  "ResizeFocus t ax delta area =
     (case Root (clone t) of
        None \<Rightarrow> Inl ErrNotInSplit
      | Some n \<Rightarrow>
          if \<not> hasMatchingSplit n (Focus t) (splitDirForAxis ax) then Inl ErrNotInSplit
          else if Solve (Some n) area = None then Inl ErrTooSmall
          else (case nearestMatchingSplit n (Focus t) (splitDirForAxis ax) area of
             None \<Rightarrow> Inl ErrTooSmall
           | Some (path, splitNode, splitArea, target) \<Rightarrow>
               (case resizeSplit delta (splitDirForAxis ax) splitNode splitArea target of
                  Inl err \<Rightarrow> Inl err
                | Inr splitNode' \<Rightarrow> commit area \<lparr>Root = Some (replace_node path splitNode' n), Focus = Focus t\<rparr>)))"

fun clearSplitChildWeights :: "node \<Rightarrow> node" where
  "clearSplitChildWeights (Node k d cs l e w) =
     Node k d (map (\<lambda>c. if k = Split then set_weight (Fin 0) (clearSplitChildWeights c)
                       else clearSplitChildWeights c) cs) l e w"

definition Equalize :: "tree \<Rightarrow> rect \<Rightarrow> layoutError + tree" where
  "Equalize t area =
     (case Root (clone t) of
        None \<Rightarrow> Inl ErrTooSmall
      | Some n \<Rightarrow> commit area \<lparr>Root = Some (clearSplitChildWeights n), Focus = Focus t\<rparr>)"

definition CanResize :: "tree \<Rightarrow> bool" where
  "CanResize t = (case Root t of
       None \<Rightarrow> False
     | Some n \<Rightarrow> hasMatchingSplit n (Focus t) Horizontal \<or> hasMatchingSplit n (Focus t) Vertical)"

section \<open>Splitting\<close>

definition pairWith :: "bool \<Rightarrow> node \<Rightarrow> node \<Rightarrow> node list" where
  "pairWith after existing new = (if after then [existing, new] else [new, existing])"

text \<open>The branch of \<^verbatim>\<open>insertSplit\<close> for a child that is the target leaf.\<close>

definition insertBeside :: "node \<Rightarrow> nat \<Rightarrow> splitDir \<Rightarrow> bool \<Rightarrow> paneID \<Rightarrow> rect \<Rightarrow> node" where
  "insertBeside n i ax after newID area =
     (if node_kind n = Split \<and> node_dir n = ax then
        let targetExtent = extentOf ax (childArea n area i);
            firstExtent = go_div (targetExtent - 1) 2;
            cs = node_children (normalizeChildWeightsFromArea n area);
            newLeaf = set_weight (float_of_int (targetExtent - 1 - firstExtent)) (NewLeaf newID)
        in set_children (insert_at (if after then i + 1 else i) newLeaf
             (cs[i := set_weight (float_of_int firstExtent) (cs ! i)])) n
      else if node_kind n = Stack then
        split_node ax (pairWith after (clearChildWeights (set_weight (Fin 0) n)) (NewLeaf newID)) (node_weight n)
      else
        let child = node_children n ! i in
        set_children ((node_children n)[i :=
          split_node ax (pairWith after (set_weight (Fin 0) child) (NewLeaf newID)) (node_weight child)]) n)"

definition isLeafOf :: "paneID \<Rightarrow> node \<Rightarrow> bool" where
  "isLeafOf pid n \<longleftrightarrow> node_kind n = Leaf \<and> node_leaf n = pid"

fun insertSplit :: "node \<Rightarrow> paneID \<Rightarrow> splitDir \<Rightarrow> bool \<Rightarrow> paneID \<Rightarrow> rect \<Rightarrow> node option"
  and insertSplitLoop :: "node \<Rightarrow> nat \<Rightarrow> node list \<Rightarrow> paneID \<Rightarrow> splitDir \<Rightarrow> bool \<Rightarrow> paneID \<Rightarrow> rect \<Rightarrow> node option" where
  "insertSplit (Node k d cs l e w) target ax after newID area =
     (case insertSplitLoop (Node k d cs l e w) 0 cs target ax after newID area of
        Some n' \<Rightarrow> Some n'
      | None \<Rightarrow>
          if k = Leaf \<and> l = target
          then Some (split_node ax
                 (pairWith after (set_weight (Fin 0) (Node k d cs l e w)) (NewLeaf newID)) w)
          else None)"
| "insertSplitLoop n i [] target ax after newID area = None"
| "insertSplitLoop n i (child # cs) target ax after newID area =
     (if isLeafOf target child then Some (insertBeside n i ax after newID area)
      else (case insertSplit child target ax after newID (childArea n area i) of
          Some child' \<Rightarrow> Some (set_children ((node_children n)[i := child']) n)
        | None \<Rightarrow> insertSplitLoop n (Suc i) cs target ax after newID area))"

definition SplitPane :: "tree \<Rightarrow> paneID \<Rightarrow> direction \<Rightarrow> bool \<Rightarrow> paneID \<Rightarrow> rect \<Rightarrow> layoutError + tree" where
  "SplitPane t target dir after newID area =
     (case Root (clone t) of
        None \<Rightarrow> Inl ErrNotFound
      | Some n \<Rightarrow>
          (case insertSplit n target (axisFor dir) after newID area of
             None \<Rightarrow> Inl ErrNotFound
           | Some n' \<Rightarrow> commit area \<lparr>Root = Some n', Focus = newID\<rparr>))"

section \<open>Stacking\<close>

fun stackNew :: "node \<Rightarrow> paneID \<Rightarrow> paneID \<Rightarrow> node option" where
  "stackNew (Node k d cs l e w) target newID =
     (if k = Stack \<and> list_ex (isLeafOf target) cs
      then Some (clearChildWeights (Node k d (cs @ [NewLeaf newID]) l newID w))
      else (case update_first (\<lambda>c.
                if isLeafOf target c
                then Some (stack_node [set_weight (Fin 0) c, NewLeaf newID] newID (node_weight c))
                else stackNew c target newID) cs of
          Some cs' \<Rightarrow> Some (Node k d cs' l e w)
        | None \<Rightarrow>
            if k = Leaf \<and> l = target
            then Some (stack_node [NewLeaf target, NewLeaf newID] newID w)
            else None))"

definition StackNew :: "tree \<Rightarrow> paneID \<Rightarrow> paneID \<Rightarrow> rect \<Rightarrow> layoutError + tree" where
  "StackNew t target newID area =
     (case Root (clone t) of
        None \<Rightarrow> Inl ErrNotFound
      | Some n \<Rightarrow>
          (case stackNew n target newID of
             None \<Rightarrow> Inl ErrNotFound
           | Some n' \<Rightarrow> commit area \<lparr>Root = Some n', Focus = newID\<rparr>))"

datatype 'a toggleResult = toggleNotFound | toggleToggled 'a | toggleNotToggleable

text \<open>The list has two elements where the code calls it.\<close>

definition splitDirectLeavesContain :: "node \<Rightarrow> paneID \<Rightarrow> bool" where
  "splitDirectLeavesContain n target \<longleftrightarrow>
     list_all (\<lambda>c. node_kind c = Leaf) (node_children n) \<and>
     (node_leaf (node_children n ! 0) = target \<or> node_leaf (node_children n ! 1) = target)"

fun toggleStack :: "node \<Rightarrow> paneID \<Rightarrow> node toggleResult"
  and toggleLoop :: "node list \<Rightarrow> paneID \<Rightarrow> node list toggleResult" where
  "toggleStack (Node k d cs l e w) target =
     (case toggleLoop cs target of
        toggleToggled cs' \<Rightarrow> toggleToggled (Node k d cs' l e w)
      | toggleNotToggleable \<Rightarrow> toggleNotToggleable
      | toggleNotFound \<Rightarrow>
          if \<not> containsLeaf (Node k d cs l e w) target then toggleNotFound
          else if k = Stack then
            (if stackDirectLeafIndex (Node k d cs l e w) target = None then toggleNotToggleable
             else toggleToggled (clearChildWeights (Node Split Vertical cs l [] w)))
          else if k = Split \<and> length cs = 2 \<and> splitDirectLeavesContain (Node k d cs l e w) target
          then toggleToggled (clearChildWeights (Node Stack d cs l target w))
          else toggleNotToggleable)"
| "toggleLoop [] target = toggleNotFound"
| "toggleLoop (c # cs) target =
     (case (if node_kind c = Leaf \<or> \<not> containsLeaf c target then toggleNotFound else toggleStack c target) of
        toggleToggled c' \<Rightarrow> toggleToggled (c' # cs)
      | toggleNotToggleable \<Rightarrow> toggleNotToggleable
      | toggleNotFound \<Rightarrow> map_toggleResult (Cons c) (toggleLoop cs target))"

definition ToggleStack :: "tree \<Rightarrow> paneID \<Rightarrow> rect \<Rightarrow> layoutError + tree" where
  "ToggleStack t target area =
     (case Root (clone t) of
        None \<Rightarrow> Inl ErrNotFound
      | Some n \<Rightarrow>
          (case toggleStack n target of
             toggleNotFound \<Rightarrow> Inl ErrNotFound
           | toggleNotToggleable \<Rightarrow> Inl ErrNotToggleable
           | toggleToggled n' \<Rightarrow> commit area \<lparr>Root = Some n', Focus = Focus t\<rparr>))"

section \<open>Closing\<close>

text \<open>The rest of \<^verbatim>\<open>closeNode\<close> once the children have been visited.\<close>

definition closeContainer :: "node \<Rightarrow> paneID \<Rightarrow> (node option \<times> bool) list \<Rightarrow> node option \<times> bool" where
  "closeContainer n target results =
     (let children = List.map_filter fst results in
      if \<not> list_ex snd results then (Some (set_children children n), False)
      else if length children = 1 then (Some (set_weight (node_weight n) (hd children)), True)
      else (Some (set_expanded
              (if node_kind n = Stack \<and> node_expanded n = target \<and> children \<noteq> []
               then firstLeaf (hd children) else node_expanded n) (set_children children n)), True))"

fun closeNode :: "node \<Rightarrow> paneID \<Rightarrow> node option \<times> bool" where
  "closeNode (Node k d cs l e w) target =
     (if k = Leaf then (if l = target then (None, True) else (Some (Node k d cs l e w), False))
      else closeContainer (Node k d cs l e w) target (map (\<lambda>c. closeNode c target) cs))"

definition siblingLeaf :: "node list \<Rightarrow> nat \<Rightarrow> paneID" where
  "siblingLeaf cs i =
     (if 0 < i then lastLeaf (cs ! (i - 1))
      else if i + 1 < length cs then firstLeaf (cs ! (i + 1)) else [])"

function closeRefocusCandidate :: "node \<Rightarrow> paneID \<Rightarrow> paneID" where
  "closeRefocusCandidate (Node k d cs l e w) target =
     (if k = Leaf then []
      else (case first_index (\<lambda>c. containsLeaf c target) cs of
          None \<Rightarrow> []
        | Some i \<Rightarrow>
            if isLeafOf target (cs ! i) then siblingLeaf cs i
            else if closeRefocusCandidate (cs ! i) target \<noteq> [] then closeRefocusCandidate (cs ! i) target
            else siblingLeaf cs i))"
  by pat_completeness auto
termination
  by (relation "measure (\<lambda>(n, _). size n)") (auto dest: size_first_index)

definition expandIfStacked :: "node \<Rightarrow> paneID \<Rightarrow> node" where
  "expandIfStacked n pid = (case setExpanded n pid of Some n' \<Rightarrow> n' | None \<Rightarrow> n)"

text \<open>The new focus after the focused pane was closed.\<close>

definition refocused :: "node \<Rightarrow> paneID \<Rightarrow> paneID" where
  "refocused n refocus =
     (if refocus \<noteq> [] \<and> containsLeaf n refocus then refocus
      else (case leafIDs n of [] \<Rightarrow> [] | pid # _ \<Rightarrow> pid))"

definition Close :: "tree \<Rightarrow> paneID \<Rightarrow> layoutError + tree" where
  "Close t target =
     (case Root (clone t) of
        None \<Rightarrow> Inl ErrNotFound
      | Some n \<Rightarrow>
          if \<not> containsLeaf n target then Inl ErrNotFound
          else if isLeafOf target n then Inr \<lparr>Root = None, Focus = []\<rparr>
          else (case closeNode n target of
              (rt, removed) \<Rightarrow>
                if \<not> removed then Inl ErrNotFound
                else (case rt of
                    None \<Rightarrow> Inr \<lparr>Root = None, Focus = if Focus t = target then [] else Focus t\<rparr>
                  | Some n' \<Rightarrow>
                      if Focus t = target then
                        let focus = refocused n' (closeRefocusCandidate n target)
                        in Inr \<lparr>Root = Some (expandIfStacked n' focus), Focus = focus\<rparr>
                      else Inr \<lparr>Root = Some n', Focus = Focus t\<rparr>)))"

section \<open>Focus\<close>

definition focusRect :: "placement \<Rightarrow> rect" where
  "focusRect p =
     (if rHeight (TitleBar p) = 0 then Content p
      else if rHeight (Content p) = 0 then TitleBar p
      else \<lparr>rX = rX (TitleBar p), rY = rY (TitleBar p), rWidth = rWidth (TitleBar p),
            rHeight = rY (Content p) + rHeight (Content p) - rY (TitleBar p)\<rparr>)"

definition overlap :: "int \<Rightarrow> int \<Rightarrow> int \<Rightarrow> int \<Rightarrow> int" where
  "overlap a0 a1 b0 b1 = (if min a1 b1 \<le> max a0 b0 then 0 else min a1 b1 - max a0 b0)"

text \<open>\<open>None\<close> when the second rectangle does not lie on that side of the first.\<close>

definition sideGapOverlap :: "rect \<Rightarrow> rect \<Rightarrow> direction \<Rightarrow> (int \<times> int) option" where
  "sideGapOverlap a b dir =
     (let ar = rX a + rWidth a; ab = rY a + rHeight a; br = rX b + rWidth b; bb = rY b + rHeight b in
      case dir of
        Left \<Rightarrow> if br > rX a then None else Some (rX a - br, overlap (rY a) ab (rY b) bb)
      | Right \<Rightarrow> if rX b < ar then None else Some (rX b - ar, overlap (rY a) ab (rY b) bb)
      | Up \<Rightarrow> if bb > rY a then None else Some (rY a - bb, overlap (rX a) ar (rX b) br)
      | Down \<Rightarrow> if rY b < ab then None else Some (rY b - ab, overlap (rX a) ar (rX b) br))"

datatype facingMetricPriority = facingGapFirst | facingOverlapFirst

record facingCandidate =
  fcID :: paneID
  fcGap :: int
  fcOverlap :: int

definition facingLess :: "facingMetricPriority \<Rightarrow> facingCandidate \<Rightarrow> facingCandidate \<Rightarrow> bool" where
  "facingLess priority a b =
     (if priority = facingGapFirst then
        (if fcGap a \<noteq> fcGap b then fcGap a < fcGap b
         else if fcOverlap a \<noteq> fcOverlap b then fcOverlap a > fcOverlap b
         else fcID a < fcID b)
      else
        (if fcOverlap a \<noteq> fcOverlap b then fcOverlap a > fcOverlap b
         else if fcGap a \<noteq> fcGap b then fcGap a < fcGap b
         else fcID a < fcID b))"

definition facingCandidates :: "placement list \<Rightarrow> rect \<Rightarrow> direction \<Rightarrow> facingCandidate list" where
  "facingCandidates placements from dir =
     List.map_filter (\<lambda>p. map_option (\<lambda>(gap, ov). \<lparr>fcID = ID p, fcGap = gap, fcOverlap = ov\<rparr>)
       (sideGapOverlap from (focusRect p) dir)) placements"

definition selectFacingCandidate ::
    "placement list \<Rightarrow> rect \<Rightarrow> direction \<Rightarrow> facingMetricPriority \<Rightarrow> layoutError + paneID" where
  "selectFacingCandidate placements from dir priority =
     (case stable_sort_by (facingLess priority) (facingCandidates placements from dir) of
        [] \<Rightarrow> Inl ErrNoPane
      | c # _ \<Rightarrow> Inr (fcID c))"

definition FocusSpan :: "tree \<Rightarrow> rect \<Rightarrow> layoutError + rect" where
  "FocusSpan t area =
     (case Root t of
        None \<Rightarrow> Inl ErrNotFound
      | Some n \<Rightarrow>
          (case Solve (Some n) area of
             None \<Rightarrow> Inl ErrTooSmall
           | Some placements \<Rightarrow>
               (case filter (\<lambda>p. ID p = Focus t) placements of
                  [] \<Rightarrow> Inl ErrNotFound
                | p # _ \<Rightarrow> Inr (focusRect p))))"

definition outsideSpan :: "direction \<Rightarrow> rect \<Rightarrow> rect \<Rightarrow> rect" where
  "outsideSpan dir sp area =
     (case dir of
        Left \<Rightarrow> sp\<lparr>rX := rX area + rWidth area\<rparr>
      | Right \<Rightarrow> sp\<lparr>rX := rX area - rWidth sp\<rparr>
      | Up \<Rightarrow> sp\<lparr>rY := rY area + rHeight area\<rparr>
      | Down \<Rightarrow> sp\<lparr>rY := rY area - rHeight sp\<rparr>)"

definition EntryPane :: "tree \<Rightarrow> direction \<Rightarrow> rect \<Rightarrow> rect \<Rightarrow> layoutError + paneID" where
  "EntryPane t dir sp area =
     (case Root t of
        None \<Rightarrow> Inl ErrNotFound
      | Some n \<Rightarrow>
          (case Solve (Some n) area of
             None \<Rightarrow> Inl ErrTooSmall
           | Some placements \<Rightarrow> selectFacingCandidate placements (outsideSpan dir sp area) dir facingGapFirst))"

definition focusOn :: "tree \<Rightarrow> paneID \<Rightarrow> tree" where
  "focusOn t pid = \<lparr>Root = map_option (\<lambda>n. expandIfStacked n pid) (Root t), Focus = pid\<rparr>"

definition FocusEnter :: "tree \<Rightarrow> direction \<Rightarrow> rect \<Rightarrow> rect \<Rightarrow> layoutError + tree" where
  "FocusEnter t dir sp area =
     (case EntryPane t dir sp area of Inl err \<Rightarrow> Inl err | Inr pid \<Rightarrow> Inr (focusOn t pid))"

definition adjacentStackLeaf :: "node \<Rightarrow> nat \<Rightarrow> direction \<Rightarrow> paneID" where
  "adjacentStackLeaf n idx dir =
     (let cs = node_children n;
          order = (case dir of Up \<Rightarrow> rev [0..<idx] | Down \<Rightarrow> [idx + 1..<length cs] | _ \<Rightarrow> [])
      in case filter (\<lambda>i. node_kind (cs ! i) = Leaf) order of [] \<Rightarrow> [] | i # _ \<Rightarrow> node_leaf (cs ! i))"

fun focusStackLocal :: "node \<Rightarrow> paneID \<Rightarrow> direction \<Rightarrow> (node \<times> paneID) option"
  and focusStackLoop :: "node list \<Rightarrow> paneID \<Rightarrow> direction \<Rightarrow> (node list \<times> paneID) option" where
  "focusStackLocal (Node k d cs l e w) pid dir =
     (case (if k = Stack then stackDirectLeafIndex (Node k d cs l e w) pid else None) of
        Some idx \<Rightarrow>
          if adjacentStackLeaf (Node k d cs l e w) idx dir \<noteq> []
          then Some (Node k d cs l (adjacentStackLeaf (Node k d cs l e w) idx dir) w,
                     adjacentStackLeaf (Node k d cs l e w) idx dir)
          else None
      | None \<Rightarrow> map_option (\<lambda>(cs', f). (Node k d cs' l e w, f)) (focusStackLoop cs pid dir))"
| "focusStackLoop [] pid dir = None"
| "focusStackLoop (c # cs) pid dir =
     (case focusStackLocal c pid dir of
        Some (c', f) \<Rightarrow> Some (c' # cs, f)
      | None \<Rightarrow> map_option (\<lambda>(cs', f). (c # cs', f)) (focusStackLoop cs pid dir))"

definition FocusDir :: "tree \<Rightarrow> direction \<Rightarrow> rect \<Rightarrow> layoutError + tree" where
  "FocusDir t dir area =
     (case Root t of
        None \<Rightarrow> Inl ErrNotFound
      | Some n \<Rightarrow>
          (case (if dir = Up \<or> dir = Down then focusStackLocal n (Focus t) dir else None) of
             Some (n', f) \<Rightarrow> Inr \<lparr>Root = Some n', Focus = f\<rparr>
           | None \<Rightarrow>
               (case Solve (Some n) area of
                  None \<Rightarrow> Inl ErrTooSmall
                | Some placements \<Rightarrow>
                    (case filter (\<lambda>p. ID p = Focus t) placements of
                       [] \<Rightarrow> Inl ErrNotFound
                     | cur # _ \<Rightarrow>
                         (case selectFacingCandidate placements (focusRect cur) dir facingOverlapFirst of
                            Inl err \<Rightarrow> Inl err
                          | Inr pid \<Rightarrow> Inr (focusOn t pid))))))"

end
