(* ===== verification/Layout_Invariants.thy ===== *)
theory Layout_Invariants
  imports Layout_Ops
begin

text \<open>
  What the operations of \<^verbatim>\<open>ops.go\<close> keep and change: every committed tree is well
  formed, and its panes are exactly the panes the operation is meant to leave behind.
\<close>

section \<open>Trees keep their shape\<close>

lemma commit_Inr: "commit area c = Inr t \<longleftrightarrow> t = c \<and> Solve (Root c) area \<noteq> None"
  by (auto simp: commit_def split: option.splits)

lemma mset_children_update:
  assumes "i < length cs"
  shows "mset (concat (map leafIDs (cs[i := c]))) + mset (leafIDs (cs ! i)) =
    mset (concat (map leafIDs cs)) + mset (leafIDs c)"
  using assms by (induction cs arbitrary: i) (auto split: nat.split)

lemma map_leafIDs_weights:
  "length ws = length cs \<Longrightarrow> map leafIDs (map (\<lambda>(c, x). set_weight (f x) c) (zip cs ws)) = map leafIDs cs"
  by (induction cs ws rule: list_induct2') auto

lemma wf_weights:
  "\<forall>c \<in> set cs. P c \<Longrightarrow> (\<And>c w. P (set_weight w c) = P c) \<Longrightarrow>
     \<forall>c \<in> set (map (\<lambda>(c, x). set_weight (f x) c) (zip cs ws)). P c"
  by (auto dest: set_zip_leftD)

lemma leafIDs_clearChildWeights [tree_simps, simp]: "leafIDs (clearChildWeights n) = leafIDs n"
  by (cases n) (simp add: clearChildWeights_def set_children_def comp_def)

lemma visibleIDs_clearChildWeights [tree_simps, simp]: "visibleIDs (clearChildWeights n) = visibleIDs n"
  by (cases n) (simp add: clearChildWeights_def set_children_def comp_def split: kind.split)

lemma wf_clearChildWeights [simp]: "wf_node (clearChildWeights n) = wf_node n"
  by (cases n) (auto simp: clearChildWeights_def set_children_def list_all_iff split: kind.split)

lemma node_kind_clearChildWeights [simp]: "node_kind (clearChildWeights n) = node_kind n"
  by (simp add: clearChildWeights_def)

lemma wf_set_children_split:
  "node_kind n = Split \<Longrightarrow> wf_node (set_children cs n) \<longleftrightarrow> 2 \<le> length cs \<and> (\<forall>c \<in> set cs. wf_node c)"
  by (cases n) (auto simp: set_children_def list_all_iff)

lemma wf_split_node: "wf_node (split_node d cs w) \<longleftrightarrow> 2 \<le> length cs \<and> (\<forall>c \<in> set cs. wf_node c)"
  by (auto simp: split_node_def list_all_iff)

lemma wf_stack_node:
  "wf_node (stack_node cs e w) \<longleftrightarrow> 2 \<le> length cs \<and> (\<forall>c \<in> set cs. node_kind c = Leaf \<and> wf_node c) \<and>
     e \<in> set (map node_leaf cs)"
  by (auto simp: stack_node_def list_all_iff)

lemma splitChildRects_length:
  assumes "splitChildRects n area = Some rects" "fits_screen area"
  shows "length rects = length (node_children n)"
  using splitChildRects_tile(3) [OF assms] .

text \<open>Normalising the weights keeps the children otherwise unchanged.\<close>

lemma normalize_children:
  assumes "fits_screen area"
  shows "\<exists>ws. length ws = length (node_children n) \<and>
    node_children (normalizeChildWeightsFromArea n area) =
      map (\<lambda>(c, w). set_weight w c) (zip (node_children n) ws)"
proof (cases "splitChildRects n area")
  case None
  have "map (\<lambda>(c, w). set_weight w c) (zip cs (map node_weight cs)) = cs" for cs
    by (induction cs) (auto simp: set_weight_def)
  with None show ?thesis
    by (intro exI [of _ "map node_weight (node_children n)"]) (simp add: normalizeChildWeightsFromArea_def)
next
  case (Some rects)
  show ?thesis
    by (rule exI [of _ "map (\<lambda>rc. float_of_int (extentOf (node_dir n) rc)) rects"])
      (use splitChildRects_length [OF Some assms] Some in
        \<open>auto simp: normalizeChildWeightsFromArea_def zip_map2 comp_def case_prod_beta\<close>)
qed

lemma normalize_leafIDs:
  assumes "fits_screen area"
  shows "map leafIDs (node_children (normalizeChildWeightsFromArea n area)) = map leafIDs (node_children n)"
    "length (node_children (normalizeChildWeightsFromArea n area)) = length (node_children n)"
    "(\<forall>c \<in> set (node_children n). wf_node c) \<Longrightarrow>
       \<forall>c \<in> set (node_children (normalizeChildWeightsFromArea n area)). wf_node c"
proof -
  from normalize_children [OF assms] obtain ws where ws: "length ws = length (node_children n)"
    "node_children (normalizeChildWeightsFromArea n area) =
      map (\<lambda>(c, w). set_weight w c) (zip (node_children n) ws)" by blast
  show "map leafIDs (node_children (normalizeChildWeightsFromArea n area)) = map leafIDs (node_children n)"
    unfolding ws(2) by (rule map_leafIDs_weights [OF ws(1), of "\<lambda>w. w"])
  show "length (node_children (normalizeChildWeightsFromArea n area)) = length (node_children n)"
    using ws by simp
  show "\<forall>c \<in> set (node_children (normalizeChildWeightsFromArea n area)). wf_node c"
    if "\<forall>c \<in> set (node_children n). wf_node c"
    unfolding ws(2) by (rule wf_weights [OF that]) simp
qed

lemma childArea_fits: "fits_screen area \<Longrightarrow> fits_screen (childArea n area i)"
proof -
  assume a: "fits_screen area"
  show ?thesis
  proof (cases "if node_kind n = Split then splitChildRects n area else None")
    case None
    with a show ?thesis by (simp add: childArea_def nodeChildAreas_def)
  next
    case (Some rects)
    then have "splitChildRects n area = Some rects" by (simp split: if_splits)
    from splitChildRects_tile(2) [OF this a] Some a show ?thesis
      by (simp add: childArea_def nodeChildAreas_def)
  qed
qed

section \<open>Splitting adds exactly the new pane\<close>

text \<open>The second list is the first one with a new element somewhere.\<close>

definition inserted :: "'a \<Rightarrow> 'a list \<Rightarrow> 'a list \<Rightarrow> bool" where
  "inserted x xs ys \<longleftrightarrow> (\<exists>us vs. xs = us @ vs \<and> ys = us @ x # vs)"

lemma inserted_ends [intro, simp]: "inserted x xs (x # xs)" "inserted x xs (xs @ [x])"
  by (auto simp: inserted_def intro: exI [of _ "[]"])

lemma inserted_within: "inserted x xs ys \<Longrightarrow> inserted x (us @ xs @ vs) (us @ ys @ vs)"
  unfolding inserted_def by (metis append.assoc append_Cons)

lemma inserted_mset: "inserted x xs ys \<Longrightarrow> mset ys = add_mset x (mset xs)"
  by (auto simp: inserted_def)

lemma inserted_filter: "inserted x xs ys \<Longrightarrow> x \<notin> set xs \<Longrightarrow> filter (\<lambda>y. y \<noteq> x) ys = xs"
  by (auto simp: inserted_def filter_empty_conv intro!: arg_cong2 [where f = append] filter_True)

lemma inserted_insert_at:
  "inserted x (concat (map leafIDs cs)) (concat (map leafIDs (insert_at j (set_weight w (NewLeaf x)) cs)))"
proof -
  have "concat (map leafIDs cs) = concat (map leafIDs (take j cs)) @ concat (map leafIDs (drop j cs))"
    by (metis append_take_drop_id concat_append map_append)
  then show ?thesis by (auto simp: inserted_def insert_at_def)
qed

lemma inserted_child:
  assumes "i < length cs" "inserted x (leafIDs (cs ! i)) (leafIDs c)"
  shows "inserted x (concat (map leafIDs cs)) (concat (map leafIDs (cs[i := c])))"
proof -
  have "concat (map leafIDs cs) = concat (map leafIDs (take i cs)) @ leafIDs (cs ! i) @ concat (map leafIDs (drop (Suc i) cs))"
    using id_take_nth_drop [OF assms(1)] by (metis concat.simps(2) concat_append list.simps(9) map_append)
  moreover have "concat (map leafIDs (cs[i := c])) = concat (map leafIDs (take i cs)) @ leafIDs c @ concat (map leafIDs (drop (Suc i) cs))"
    using assms(1) by (simp add: upd_conv_take_nth_drop)
  ultimately show ?thesis using inserted_within [OF assms(2)] by simp
qed

definition adds :: "node \<Rightarrow> paneID \<Rightarrow> node \<Rightarrow> bool" where
  "adds n newID n' \<longleftrightarrow> wf_node n' \<and> inserted newID (leafIDs n) (leafIDs n') \<and> newID \<in> set (visibleIDs n')"

lemma adds_child:
  assumes "wf_node n" "node_kind n = Split" "i < length (node_children n)" "adds (node_children n ! i) newID c"
  shows "adds n newID (set_children ((node_children n)[i := c]) n)"
proof -
  have "\<forall>x \<in> set (node_children n). wf_node x" "2 \<le> length (node_children n)"
    using assms(1,2) wf_node_unfold [of n] by auto
  then have "wf_node (set_children ((node_children n)[i := c]) n)"
    using assms(2,4) by (auto simp: wf_set_children_split adds_def dest!: set_update_subset_insert [THEN subsetD])
  moreover have "inserted newID (leafIDs n) (leafIDs (set_children ((node_children n)[i := c]) n))"
    using inserted_child [OF assms(3), of newID c] assms(2,4)
    by (simp add: adds_def leafIDs_unfold [of "set_children _ _"] leafIDs_unfold [of n])
  moreover have "newID \<in> set (visibleIDs (set_children ((node_children n)[i := c]) n))"
    using assms(2-4) set_update_memI [OF assms(3), of c] by (auto simp: adds_def visibleIDs_unfold [of "set_children _ _"])
  ultimately show ?thesis by (simp add: adds_def)
qed

lemma adds_pair:
  "wf_node n \<Longrightarrow> newID \<noteq> [] \<Longrightarrow> leafIDs m = leafIDs n \<Longrightarrow> wf_node m = wf_node n \<Longrightarrow>
     adds n newID (split_node ax (pairWith after m (NewLeaf newID)) w)"
  by (auto simp: adds_def pairWith_def wf_split_node)

text \<open>The new pane joins a split that already runs along the wanted axis.\<close>

lemma insertBeside_same:
  assumes wf: "wf_node n" and k: "node_kind n = Split" "node_dir n = ax" and i: "i < length (node_children n)"
    and new: "newID \<noteq> []" and fit: "fits_screen area"
  shows "adds n newID (insertBeside n i ax after newID area)"
proof -
  define ds where "ds = node_children (normalizeChildWeightsFromArea n area)"
  note nz = normalize_leafIDs [OF fit, of n, folded ds_def]
  define wt where "wt = float_of_int (go_div (extentOf ax (childArea n area i) - 1) 2)"
  define es where "es = ds[i := set_weight wt (ds ! i)]"
  have wfn: "\<forall>c \<in> set (node_children n). wf_node c" "2 \<le> length (node_children n)"
    using wf k wf_node_unfold [of n] by auto
  have i': "i < length ds" using i nz(2) by simp
  have ids: "concat (map leafIDs es) = concat (map leafIDs (node_children n))"
    using concat_map_update [OF i', of leafIDs "set_weight wt (ds ! i)"] nz(1) by (simp add: es_def)
  have wfe: "\<forall>c \<in> set es. wf_node c"
    using nz(3) [OF wfn(1)] i' by (auto simp: es_def dest!: set_update_subset_insert [THEN subsetD])
  have "\<exists>w j. insertBeside n i ax after newID area =
      set_children (insert_at j (set_weight w (NewLeaf newID)) es) n"
    using k by (auto simp: insertBeside_def Let_def ds_def wt_def es_def)
  then show ?thesis
    using k wfn(2) nz(2) wfe new inserted_insert_at [of newID es] ids
    by (auto simp: adds_def wf_set_children_split leafIDs_unfold [of "set_children _ _"] leafIDs_unfold [of n]
        visibleIDs_unfold [of "set_children _ _"] es_def)
qed

lemma insertBeside_ok:
  assumes wf: "wf_node n" and i: "i < length (node_children n)"
    and new: "newID \<noteq> []" and fit: "fits_screen area"
  shows "adds n newID (insertBeside n i ax after newID area)"
proof (cases "node_kind n = Split \<and> node_dir n = ax")
  case True
  then show ?thesis using insertBeside_same [OF wf _ _ i new fit] by simp
next
  case other: False
  show ?thesis
  proof (cases "node_kind n = Stack")
    case True
    then show ?thesis using other wf new by (simp add: insertBeside_def adds_pair)
  next
    case False
    with wf i have k: "node_kind n = Split" using wf_node_unfold [of n] by (cases "node_kind n") auto
    then have "wf_node (node_children n ! i)" using wf i wf_node_unfold [of n] by auto
    then have "adds (node_children n ! i) newID (split_node ax
        (pairWith after (set_weight (Fin 0) (node_children n ! i)) (NewLeaf newID)) (node_weight (node_children n ! i)))"
      using new by (simp add: adds_pair)
    from adds_child [OF wf k i this] show ?thesis using other k by (auto simp: insertBeside_def Let_def)
  qed
qed

lemma insertSplit_leaf:
  "wf_node n \<Longrightarrow> node_kind n = Leaf \<Longrightarrow> \<not> isLeafOf target n \<Longrightarrow> insertSplit n target ax after newID area = None"
  by (cases n) (auto simp: isLeafOf_def)

text \<open>A container whose changed child is not the target itself is a split.\<close>

lemma inner_edit_split:
  assumes "wf_node n" "c \<in> set (node_children n)" "node_kind c \<noteq> Leaf"
  shows "node_kind n = Split" "wf_node c"
  using assms wf_node_unfold [of n] by (cases "node_kind n"; auto)+

lemma insertSplit_ok:
  shows "insertSplit n target ax after newID area = Some n' \<Longrightarrow> wf_node n \<Longrightarrow> newID \<noteq> [] \<Longrightarrow> fits_screen area \<Longrightarrow>
      adds n newID n'"
    and "insertSplitLoop n i cs target ax after newID area = Some n' \<Longrightarrow> wf_node n \<Longrightarrow> newID \<noteq> [] \<Longrightarrow> fits_screen area \<Longrightarrow>
      cs = drop i (node_children n) \<Longrightarrow> adds n newID n'"
proof (induction n target ax after newID area and n i cs target ax after newID area
    arbitrary: n' and n' rule: insertSplit_insertSplitLoop.induct)
  case (1 k d cs l e w target ax after newID area)
  show ?case
  proof (cases "insertSplitLoop (Node k d cs l e w) 0 cs target ax after newID area")
    case None
    with "1.prems" show ?thesis by (auto simp: adds_pair split: if_splits)
  next
    case (Some m)
    with "1.IH" [OF Some] "1.prems" show ?thesis by simp
  qed
next
  case (3 n i child cs target ax after newID area)
  have i: "i < length (node_children n)" "node_children n ! i = child" "cs = drop (Suc i) (node_children n)"
    using "3.prems"(5) by (metis drop_eq_Nil list.distinct(1) not_less,
        metis Cons_nth_drop_Suc drop_eq_Nil list.inject list.distinct(1) not_less,
        metis Cons_nth_drop_Suc drop_eq_Nil list.inject list.distinct(1) not_less)
  show ?case
  proof (cases "isLeafOf target child")
    case True
    with "3.prems" i insertBeside_ok [of n i newID area] show ?thesis by auto
  next
    case False
    show ?thesis
    proof (cases "insertSplit child target ax after newID (childArea n area i)")
      case None
      with "3.IH"(2) [OF False None] False "3.prems" i show ?thesis by auto
    next
      case (Some child')
      have mem: "child \<in> set (node_children n)" using i by (metis nth_mem)
      have wfc: "wf_node child"
        using "3.prems"(2) mem wf_node_unfold [of n] by (cases "node_kind n") auto
      then have "node_kind child \<noteq> Leaf" using insertSplit_leaf [of child] False Some by auto
      note inner = inner_edit_split [OF "3.prems"(2) mem this]
      have "adds child newID child'"
        using "3.IH"(1) [OF False Some wfc] "3.prems"(3,4) childArea_fits by auto
      then have "adds n newID (set_children ((node_children n)[i := child']) n)"
        using adds_child [OF "3.prems"(2) inner(1) i(1)] i(2) by simp
      then show ?thesis using "3.prems"(1) False Some by simp
    qed
  qed
qed auto

section \<open>Splitting and stacking find every pane\<close>

lemma insertSplitLoop_None:
  "insertSplitLoop n i cs target ax after newID area = None \<Longrightarrow>
     \<forall>c \<in> set cs. \<not> isLeafOf target c \<and> (\<exists>a. insertSplit c target ax after newID a = None)"
  by (induction cs arbitrary: i) (auto split: if_splits option.splits)

lemma insertSplit_None: "insertSplit n target ax after newID area = None \<Longrightarrow> target \<notin> set (leafIDs n)"
proof (induction n arbitrary: area rule: leafIDs.induct)
  case (1 k d cs l e w)
  have loop: "insertSplitLoop (Node k d cs l e w) 0 cs target ax after newID area = None"
    using "1.prems" by (auto split: option.splits)
  then have "\<not> (k = Leaf \<and> l = target)" using "1.prems" by auto
  moreover have "\<forall>c \<in> set cs. target \<notin> set (leafIDs c)" if "k \<noteq> Leaf"
    using insertSplitLoop_None [OF loop] "1.IH" [OF that] by blast
  ultimately show ?case by auto
qed

lemma stackNew_leaf: "wf_node n \<Longrightarrow> node_kind n = Leaf \<Longrightarrow> \<not> isLeafOf target n \<Longrightarrow> stackNew n target newID = None"
  by (cases n) (auto simp: isLeafOf_def)

lemma stackNew_None: "stackNew n target newID = None \<Longrightarrow> target \<notin> set (leafIDs n)"
proof (induction n rule: leafIDs.induct)
  case (1 k d cs l e w)
  from "1.prems" have "\<forall>c \<in> set cs. \<not> isLeafOf target c \<and> stackNew c target newID = None"
    and "\<not> (k = Leaf \<and> l = target)"
    by (auto simp: update_first_None split: if_splits option.splits)
  with "1.IH" show ?case by auto
qed

lemma stackNew_ok:
  "stackNew n target newID = Some n' \<Longrightarrow> wf_node n \<Longrightarrow> newID \<noteq> [] \<Longrightarrow> adds n newID n'"
proof (induction n target newID arbitrary: n' rule: stackNew.induct)
  case (1 k d cs l e w target newID)
  let ?n = "Node k d cs l e w"
  let ?f = "\<lambda>c. if isLeafOf target c
      then Some (stack_node [set_weight (Fin 0) c, NewLeaf newID] newID (node_weight c))
      else stackNew c target newID"
  show ?case
  proof (cases "k = Stack \<and> list_ex (isLeafOf target) cs")
    case True
    with "1.prems" show ?thesis by (auto simp: adds_def)
  next
    case new: False
    show ?thesis
    proof (cases "update_first ?f cs")
      case None
      with new "1.prems" show ?thesis
        by (auto simp: wf_stack_node adds_def inserted_ends(2) [of _ "[_]", simplified] split: if_splits)
    next
      case (Some cs')
      from update_first_Some [OF Some] obtain i y where
        i: "i < length cs" "?f (cs ! i) = Some y" "cs' = cs[i := y]" by blast
      have mem: "cs ! i \<in> set cs" using i by simp
      have wfc: "wf_node (cs ! i)" using "1.prems"(2) mem by (cases k) (auto simp: list_all_iff)
      have k: "k = Split"
        using "1.prems"(2) i(2) mem new stackNew_leaf [OF wfc, of target newID]
        by (cases k) (auto simp: list_all_iff list_ex_iff split: if_splits)
      have "adds (cs ! i) newID y"
        using "1.IH" [OF new mem] i(2) wfc "1.prems"(3)
        by (auto simp: wf_stack_node isLeafOf_def adds_def split: if_splits)
      from adds_child [of ?n i newID y] this k i(1) "1.prems"(2) show ?thesis
        using new Some "1.prems"(1) i(3) by (auto simp: set_children_def)
    qed
  qed
qed

section \<open>Toggling keeps the panes\<close>

lemma toggle_ok:
  shows "toggleStack n target = toggleToggled n' \<Longrightarrow> wf_node n \<Longrightarrow>
      wf_node n' \<and> leafIDs n' = leafIDs n \<and> target \<in> set (visibleIDs n')"
    and "toggleLoop cs target = toggleToggled cs' \<Longrightarrow> \<forall>c \<in> set cs. wf_node c \<Longrightarrow>
      (\<forall>c \<in> set cs'. wf_node c) \<and> length cs' = length cs \<and> map leafIDs cs' = map leafIDs cs \<and>
      (\<exists>c \<in> set cs. node_kind c \<noteq> Leaf) \<and> (\<exists>c \<in> set cs'. target \<in> set (visibleIDs c))"
proof (induction n target and cs target arbitrary: n' and cs' rule: toggleStack_toggleLoop.induct)
  case (1 k d cs l e w target)
  have wfc: "\<forall>c \<in> set cs. wf_node c" using "1.prems"(2) by (cases k) (auto simp: list_all_iff)
  show ?case
  proof (cases "toggleLoop cs target")
    case (toggleToggled cs')
    with "1.IH" wfc have cs': "\<forall>c \<in> set cs'. wf_node c" "length cs' = length cs" "map leafIDs cs' = map leafIDs cs"
      "\<exists>c \<in> set cs. node_kind c \<noteq> Leaf" "\<exists>c \<in> set cs'. target \<in> set (visibleIDs c)" by auto
    then have "k = Split" using "1.prems"(2) by (cases k) (auto simp: list_all_iff)
    then show ?thesis using toggleToggled "1.prems" cs' by (auto simp: list_all_iff)
  next
    case toggleNotFound
    with "1.prems" show ?thesis
    proof (cases k)
      case Split
      then have n': "n' = clearChildWeights (Node Stack d cs l target w)"
        and sp: "length cs = 2" "splitDirectLeavesContain (Node k d cs l e w) target"
        using toggleNotFound "1.prems"(1) by (auto split: if_splits)
      from sp have "target \<in> set (map node_leaf cs)" "\<forall>c \<in> set cs. node_kind c = Leaf"
        by (auto simp: splitDirectLeavesContain_def list_all_iff)
      then show ?thesis using wfc sp Split by (auto simp: n' list_all_iff)
    next
      case Stack
      then have "\<exists>c \<in> set cs. target \<in> set (visibleIDs c)"
        using toggleNotFound "1.prems"
        by (auto simp: list_all_iff list_ex_iff containsLeaf_leafIDs visibleIDs_Leaf split: if_splits)
      with Stack toggleNotFound "1.prems" show ?thesis by (auto simp: list_all_iff split: if_splits)
    qed (auto simp: list_all_iff split: if_splits)
  qed (use "1.prems" in auto)
next
  case (3 c cs target)
  show ?case
  proof (cases "if node_kind c = Leaf \<or> \<not> containsLeaf c target then toggleNotFound else toggleStack c target")
    case toggleNotFound
    with "3.prems" obtain ds where "toggleLoop cs target = toggleToggled ds" "cs' = c # ds"
      by (cases "toggleLoop cs target") auto
    with "3.IH"(2) [OF toggleNotFound] "3.prems"(2) show ?thesis by auto
  next
    case (toggleToggled c')
    then have g: "\<not> (node_kind c = Leaf \<or> \<not> containsLeaf c target)" "toggleStack c target = toggleToggled c'"
      by (auto split: if_splits)
    from "3.IH"(1) [OF g] toggleToggled "3.prems" g show ?thesis by auto
  next
    case toggleNotToggleable
    with "3.prems"(1) show ?thesis by simp
  qed
qed auto

section \<open>Closing removes exactly the pane\<close>

lemma map_filter_Some [simp]: "List.map_filter (\<lambda>x. Some (f x)) xs = map f xs"
  by (simp add: map_filter_def)

lemma closeNode_absent: "wf_node n \<Longrightarrow> target \<notin> set (leafIDs n) \<Longrightarrow> closeNode n target = (Some n, False)"
proof (induction n target rule: closeNode.induct)
  case (1 k d cs l e w target)
  show ?case
  proof (cases "k = Leaf")
    case False
    then have "\<forall>c \<in> set cs. wf_node c" using "1.prems"(1) by (cases k) (auto simp: list_all_iff)
    then have "\<forall>c \<in> set cs. closeNode c target = (Some c, False)" using "1.IH" [OF False] "1.prems"(2) False by auto
    then have "map (\<lambda>c. closeNode c target) cs = map (\<lambda>c. (Some c, False)) cs" by simp
    then show ?thesis
      using False by (simp add: closeContainer_def Let_def map_filter_map_filter list_ex_iff set_children_def
          del: map_eq_conv) (simp add: map_filter_def comp_def)
  qed (use "1.prems" in auto)
qed

text \<open>A container loses one child or gets it replaced; it is dissolved when one child is left.\<close>

lemma closeContainer_split:
  assumes "cs = xs @ c # ys" "\<forall>x \<in> set (xs @ ys). closeNode x target = (Some x, False)"
    and "closeNode c target = (r, True)"
  shows "closeContainer (Node k d cs l e w) target (map (\<lambda>c. closeNode c target) cs) =
    (let children = xs @ (case r of None \<Rightarrow> [] | Some c' \<Rightarrow> [c']) @ ys in
     if length children = 1 then (Some (set_weight w (hd children)), True)
     else (Some (Node k d children l
            (if k = Stack \<and> e = target \<and> children \<noteq> [] then firstLeaf (hd children) else e) w), True))"
proof -
  have m: "map (\<lambda>c. closeNode c target) cs = map (\<lambda>x. (Some x, False)) xs @ (r, True) # map (\<lambda>x. (Some x, False)) ys"
    using assms by simp
  have f: "List.map_filter fst (map (\<lambda>c. closeNode c target) cs) = xs @ (case r of None \<Rightarrow> [] | Some c' \<Rightarrow> [c']) @ ys"
    unfolding m by (cases r) (simp_all add: map_filter_def comp_def)
  have x: "list_ex snd (map (\<lambda>c. closeNode c target) cs)" unfolding m by simp
  show ?thesis using f x by (auto simp: closeContainer_def Let_def set_children_def set_expanded_def)
qed

definition removes :: "node \<Rightarrow> paneID \<Rightarrow> node \<Rightarrow> bool" where
  "removes n target n' \<longleftrightarrow> wf_node n' \<and> leafIDs n' = filter (\<lambda>pid. pid \<noteq> target) (leafIDs n) \<and>
     set (visibleIDs n) - {target} \<subseteq> set (visibleIDs n')"

lemma filter_other: "target \<notin> set ids \<Longrightarrow> filter (\<lambda>pid. pid \<noteq> target) ids = ids"
  by (auto simp: filter_id_conv)

lemma closeContainer_removes:
  assumes wf: "wf_node (Node k d cs l e w)" and cs: "cs = xs @ c # ys" and k: "k \<noteq> Leaf"
    and others: "\<forall>x \<in> set (xs @ ys). target \<notin> set (leafIDs x)"
    and c: "closeNode c target = (r, True)"
    and r: "(r = None \<and> isLeafOf target c) \<or> (\<exists>c'. r = Some c' \<and> removes c target c' \<and> k = Split)"
  shows "\<exists>n'. closeContainer (Node k d cs l e w) target (map (\<lambda>c. closeNode c target) cs) = (Some n', True) \<and>
    removes (Node k d cs l e w) target n'"
proof -
  define ch where "ch = xs @ (case r of None \<Rightarrow> [] | Some c' \<Rightarrow> [c']) @ ys"
  have wfc: "\<forall>x \<in> set (xs @ c # ys). wf_node x" and len: "2 \<le> length cs"
    using wf k by (cases k; auto simp: cs list_all_iff)+
  have nc: "\<forall>x \<in> set (xs @ ys). closeNode x target = (Some x, False)"
    using others wfc closeNode_absent by auto
  have wch: "\<forall>x \<in> set ch. wf_node x" and ne: "ch \<noteq> []"
    using wfc r len by (auto simp: ch_def removes_def cs split: option.splits)
  have ids: "concat (map leafIDs ch) = filter (\<lambda>pid. pid \<noteq> target) (concat (map leafIDs cs))"
  proof -
    have o: "filter (\<lambda>pid. pid \<noteq> target) (concat (map leafIDs zs)) = concat (map leafIDs zs)"
      if "set zs \<subseteq> set (xs @ ys)" for zs
      by (rule filter_other) (use others that in auto)
    show ?thesis using r o [of xs] o [of ys]
      by (auto simp: ch_def cs removes_def isLeafOf_def leafIDs_unfold [of c] split: option.splits)
  qed
  have stack: "(if e = target then firstLeaf (hd ch) else e) \<in> set (map node_leaf ch)"
    "\<forall>x \<in> set ch. node_kind x = Leaf" if "k = Stack"
  proof -
    have rN: "r = None" "isLeafOf target c" using r that by auto
    have leaves: "\<forall>x \<in> set cs. node_kind x = Leaf" and e: "e \<in> set (map node_leaf cs)"
      using wf that by (auto simp: list_all_iff)
    then show "\<forall>x \<in> set ch. node_kind x = Leaf" by (simp add: ch_def rN cs)
    have "firstLeaf x = node_leaf x" if "node_kind x = Leaf" for x using that by (cases x) simp
    then show "(if e = target then firstLeaf (hd ch) else e) \<in> set (map node_leaf ch)"
      using leaves e ne rN by (cases xs; cases ys) (auto simp: ch_def cs isLeafOf_def)
  qed
  have vis: "set (visibleIDs (Node k d cs l e w)) - {target} \<subseteq> (\<Union>x \<in> set ch. set (visibleIDs x))"
    using k wf r by (cases k) (fastforce simp: ch_def cs removes_def isLeafOf_def visibleIDs_Leaf list_all_iff)+
  note eq = closeContainer_split [OF cs nc c, of k d l e w, folded ch_def]
  show ?thesis
  proof (cases "length ch = 1")
    case True
    then obtain x where x: "ch = [x]" by (auto simp: length_Suc_conv)
    have "removes (Node k d cs l e w) target (set_weight w x)"
      using wch ids k vis unfolding removes_def x by simp
    then show ?thesis using eq x by simp
  next
    case False
    then have "2 \<le> length ch" using ne by (cases ch) (auto simp: Suc_le_eq)
    then have "removes (Node k d cs l e w) target
        (Node k d ch l (if k = Stack \<and> e = target \<and> ch \<noteq> [] then firstLeaf (hd ch) else e) w)"
      using wch ids k stack ne vis by (cases k) (auto simp: removes_def list_all_iff)
    then show ?thesis using eq False by (auto simp: Let_def)
  qed
qed

lemma closeNode_removes:
  "wf_node n \<Longrightarrow> distinct (leafIDs n) \<Longrightarrow> target \<in> set (leafIDs n) \<Longrightarrow> \<not> isLeafOf target n \<Longrightarrow>
     \<exists>n'. closeNode n target = (Some n', True) \<and> removes n target n'"
proof (induction n target rule: closeNode.induct)
  case (1 k d cs l e w target)
  have k: "k \<noteq> Leaf" using "1.prems"(3,4) by (auto simp: isLeafOf_def)
  from "1.prems"(3) k obtain c where c: "c \<in> set cs" "target \<in> set (leafIDs c)" by auto
  obtain xs ys where cs: "cs = xs @ c # ys" using c(1) by (meson split_list)
  have others: "\<forall>x \<in> set (xs @ ys). target \<notin> set (leafIDs x)"
    using "1.prems"(2) k c(2) by (auto simp: cs)
  have wfc: "wf_node c" using "1.prems"(1) k c(1) by (cases k) (auto simp: list_all_iff)
  have dc: "distinct (leafIDs c)" using "1.prems"(2) k by (auto simp: cs)
  have eq: "closeNode (Node k d cs l e w) target =
      closeContainer (Node k d cs l e w) target (map (\<lambda>c. closeNode c target) cs)" using k by simp
  show ?case
  proof (cases "isLeafOf target c")
    case True
    then have "closeNode c target = (None, True)" by (cases c) (auto simp: isLeafOf_def)
    from closeContainer_removes [OF "1.prems"(1) cs k others this] True show ?thesis unfolding eq by blast
  next
    case False
    then have "k = Split"
      using "1.prems"(1) k c by (cases k) (auto simp: list_all_iff isLeafOf_def leafIDs_unfold [of c])
    moreover from "1.IH" [OF k c(1) wfc dc c(2) False] obtain c' where
      "closeNode c target = (Some c', True)" "removes c target c'" by blast
    ultimately show ?thesis
      using closeContainer_removes [OF "1.prems"(1) cs k others, where r = "Some c'"] unfolding eq by blast
  qed
qed

end
