(* ===== verification/Layout_Stability.thy ===== *)
theory Layout_Stability
  imports Layout_Distribute
begin

text \<open>
  Distributing by the extents themselves gives the extents back: \<^verbatim>\<open>distribute\<close>
  in \<^verbatim>\<open>internal/domain/layout/geometry.go\<close>, called with the weights that
  \<^verbatim>\<open>normalizeChildWeightsFromArea\<close> and \<^verbatim>\<open>ResizeFocus\<close>
  write. Every quota is within a quarter of a cell of the exact share, so the rounding of the
  doubles never moves a cell.
\<close>

section \<open>Quotas are close to the exact shares\<close>

lemma share_error:
  fixes r t u S U :: rat
  assumes r: "0 \<le> r" "r \<le> 65535" and S: "9 / 10 \<le> S" and U: "1 \<le> U" and u: "0 \<le> u" "u \<le> 1"
    and t: "\<bar>t - u\<bar> \<le> 1 / 2 ^ 52" and SU: "\<bar>S - U\<bar> \<le> 1 / 2 ^ 19"
  shows "\<bar>r * t / S - r * u / U\<bar> \<le> 1 / 5"
proof -
  have pos: "0 < S" "0 < U" using S U by auto
  have "r * t / S - r * u / U = r * ((t - u) / S + u * (U - S) / (S * U))"
    using pos by (simp add: field_simps)
  then have "\<bar>r * t / S - r * u / U\<bar> = r * \<bar>(t - u) / S + u * (U - S) / (S * U)\<bar>"
    using r(1) by (simp add: abs_mult)
  also have "\<dots> \<le> r * (\<bar>(t - u) / S\<bar> + \<bar>u * (U - S) / (S * U)\<bar>)"
    using r(1) by (intro mult_left_mono abs_triangle_ineq)
  also have "\<dots> \<le> 65535 * ((1 / 2 ^ 52) / (9 / 10) + (1 * (1 / 2 ^ 19)) / (9 / 10 * 1))"
  proof (intro mult_mono add_mono)
    show "\<bar>(t - u) / S\<bar> \<le> (1 / 2 ^ 52) / (9 / 10)"
      unfolding abs_divide by (rule frac_le) (use t S in auto)
    show "\<bar>u * (U - S) / (S * U)\<bar> \<le> (1 * (1 / 2 ^ 19)) / (9 / 10 * 1)"
    proof -
      have "\<bar>u * (U - S)\<bar> \<le> 1 * (1 / 2 ^ 19)"
        unfolding abs_mult using u SU by (intro mult_mono) (auto simp: abs_minus_commute)
      moreover have "9 / 10 * 1 \<le> S * U" using S U by (intro mult_mono) auto
      ultimately show ?thesis unfolding abs_divide using pos by (intro frac_le) auto
    qed
  qed (use r in auto)
  also have "\<dots> \<le> 1 / 5" by simp
  finally show ?thesis .
qed

definition exactShare :: "float64 list \<Rightarrow> bool list \<Rightarrow> int \<Rightarrow> nat \<Rightarrow> rat" where
  "exactShare weights active R i =
     of_int R * ew (weights ! i) / sum_list (map (\<lambda>j. ew (weights ! j)) (activeIndices active))"

lemma quota_share:
  assumes len: "length weights = length active" and i: "i \<in> set (activeIndices active)"
    and n: "length active \<le> 65535" and R: "0 \<le> R" "R \<le> screen_limit"
  shows "\<bar>qval weights active R i - exactShare weights active R i\<bar> < 1 / 4"
proof -
  let ?A = "activeIndices active" and ?L = "qscale weights active" and ?t = "qterm weights active"
  let ?u = "\<lambda>i. ew (weights ! i) / ?L"
  define U where "U = sum_list (map ?u ?A)"
  have ne: "?A \<noteq> []" using i by auto
  have L: "0 < ?L" using qscale_props(1) [OF ne] .
  have lenA: "length ?A \<le> 65535" using n length_activeIndices [of active] by simp
  have u: "0 \<le> ?u j" "?u j \<le> 1" if "j \<in> set ?A" for j
    using qscale_props(2) [OF ne that, of weights] L by (auto simp: less_imp_le)
  have te: "\<bar>?t j - ?u j\<bar> \<le> 1 / 2 ^ 52" if "j \<in> set ?A" for j
    using rnd_close [of "?u j" 1] u [OF that] by (simp add: qterm_def)
  have "\<bar>sum_list (map ?t ?A) - U\<bar> \<le> of_nat (length ?A) * (1 / 2 ^ 52)"
    unfolding U_def by (rule sum_list_error) (use te in auto)
  also have "\<dots> \<le> 65536 * (1 / 2 ^ 52)" using lenA by (simp add: mult_right_mono)
  finally have "\<bar>sum_list (map ?t ?A) - U\<bar> \<le> 1 / 2 ^ 36" by simp
  moreover have "1 / 2 ^ 36 + 1 / 2 ^ 20 \<le> (1 :: rat) / 2 ^ 19" by simp
  ultimately have SU: "\<bar>qsum weights active - U\<bar> \<le> 1 / 2 ^ 19"
    using qsum_error(1) [OF ne n, of weights] by linarith
  have one: "1 \<le> U"
  proof -
    obtain j where j: "j \<in> set ?A" "?u j = 1" using qscale_props(3) [OF ne, of weights] L by auto
    have "?u j \<le> U" unfolding U_def by (rule member_le_sum_list) (use u j in auto)
    with j show ?thesis by simp
  qed
  have r: "0 \<le> (of_int R :: rat)" "(of_int R :: rat) \<le> 65535" using R by (auto simp: screen_limit_def)
  note e = share_error [OF r qsum_error(3) [OF ne n] one u [OF i] te [OF i] SU]
  have "U = sum_list (map (\<lambda>j. ew (weights ! j)) ?A) / ?L"
    unfolding U_def using sum_list_scaled [of 1 "\<lambda>j. ew (weights ! j)" ?L ?A] by simp
  then have "of_int R * ?u i / U = exactShare weights active R i" using L by (simp add: exactShare_def)
  then have "\<bar>of_int R * ?t i / qsum weights active - exactShare weights active R i\<bar> \<le> 1 / 5" using e by simp
  moreover have "1 / 2 ^ 33 + 1 / 5 < (1 :: rat) / 4" by simp
  ultimately show ?thesis using quota_value(3) [OF len i n R] by linarith
qed

section \<open>Giving the leftover cells\<close>

lemma give_cells_prefix:
  assumes "distinct order" "\<forall>i \<in> set order. i < length al" "k \<le> length order"
  shows "give_cells order (int k) al = map (\<lambda>i. al ! i + of_bool (i \<in> set (take k order))) [0..<length al]"
  using assms(3)
proof (induction k)
  case 0
  then show ?case by (simp add: give_cells_def map_nth)
next
  case (Suc k)
  let ?prev = "map (\<lambda>i. al ! i + of_bool (i \<in> set (take k order))) [0..<length al]"
  have k: "k < length order" "k mod length order = k" using Suc.prems by auto
  have i: "order ! k < length al" using assms(2) k by simp
  have new: "order ! k \<notin> set (take k order)" using assms(1) k by (auto simp: in_set_conv_nth nth_eq_iff_index_eq)
  have "give_cells order (int (Suc k)) al = ?prev[order ! k := ?prev ! (order ! k) + 1]"
    using Suc by (simp add: give_cells_def k(2) Let_def nat_add_distrib del: nth_map_upt)
  also have "\<dots> = map (\<lambda>i. al ! i + of_bool (i \<in> set (take (Suc k) order))) [0..<length al]"
    using i new k by (intro nth_equalityI) (auto simp: nth_list_update take_Suc_conv_app_nth)
  finally show ?case .
qed

section \<open>Weights that are the wanted extents\<close>

definition matches :: "int \<Rightarrow> int list \<Rightarrow> float64 list \<Rightarrow> int list \<Rightarrow> bool" where
  "matches tot minimums weights es \<longleftrightarrow>
     distributable tot minimums weights \<and> length es = length minimums \<and> sum_list es = tot \<and>
     (\<forall>i < length minimums. minimums ! i \<le> es ! i \<and> ew (weights ! i) = of_int (es ! i))"

text \<open>The pinning loop pins only children that want their minimum.\<close>

definition stable_inv :: "int \<Rightarrow> int list \<Rightarrow> int list \<Rightarrow> int list \<Rightarrow> bool list \<Rightarrow> int \<Rightarrow> bool" where
  "stable_inv tot minimums es al act R \<longleftrightarrow>
     pin_inv tot minimums al act R \<and> (\<forall>i < length minimums. \<not> act ! i \<longrightarrow> es ! i = minimums ! i)"

lemma active_extents_sum:
  assumes m: "matches tot minimums weights es" and inv: "stable_inv tot minimums es al act R"
  shows "sum_list (map (\<lambda>j. es ! j) (activeIndices act)) = R"
proof -
  have pin: "pin_inv tot minimums al act R" using inv by (simp add: stable_inv_def)
  have n: "length act = length minimums" using pin by (simp add: pin_inv_def)
  have "(\<Sum>i | i < length minimums \<and> \<not> act ! i. es ! i) = (\<Sum>i | i < length minimums \<and> \<not> act ! i. minimums ! i)"
    by (rule sum.cong) (use inv in \<open>auto simp: stable_inv_def\<close>)
  moreover have "(\<Sum>i < length minimums. es ! i) = tot"
    using m by (auto simp: matches_def sum_list_sum_nth atLeast0LessThan)
  moreover have "R = tot - (\<Sum>i | i < length minimums \<and> \<not> act ! i. minimums ! i)" using pin by (simp add: pin_inv_def)
  ultimately show ?thesis
    using sum_active_split [where n = "length minimums" and P = "(!) act" and f = "(!) es"]
    unfolding sum_activeIndices n by linarith
qed

lemma qval_near:
  assumes m: "matches tot minimums weights es" and inv: "stable_inv tot minimums es al act R"
    and i: "i \<in> set (activeIndices act)"
  shows "\<bar>qval weights act R i - of_int (es ! i)\<bar> < 1 / 4"
    "quota weights act R i = Fin (qval weights act R i)"
proof -
  have d: "distributable tot minimums weights" and pin: "pin_inv tot minimums al act R"
    using m inv by (auto simp: matches_def stable_inv_def)
  have n: "length act = length minimums" "length es = length minimums"
    using pin m by (auto simp: pin_inv_def matches_def)
  note rem = pin_inv_remaining [OF d pin]
  have W: "sum_list (map (\<lambda>j. ew (weights ! j)) (activeIndices act)) = of_int R"
  proof -
    have "sum_list (map (\<lambda>j. ew (weights ! j)) (activeIndices act)) = sum_list (map (\<lambda>j. of_int (es ! j)) (activeIndices act))"
      by (rule arg_cong [where f = sum_list]) (use m n in \<open>auto simp: matches_def set_activeIndices\<close>)
    also have "\<dots> = of_int (sum_list (map (\<lambda>j. es ! j) (activeIndices act)))" by (rule of_int_sum_list_map)
    also have "sum_list (map (\<lambda>j. es ! j) (activeIndices act)) = R" by (rule active_extents_sum [OF m inv])
    finally show ?thesis .
  qed
  have "0 < ew (weights ! i)" by simp
  also have "ew (weights ! i) \<le> sum_list (map (\<lambda>j. ew (weights ! j)) (activeIndices act))"
    by (rule member_le_sum_list) (use i in \<open>auto simp: less_imp_le\<close>)
  finally have "0 < (of_int R :: rat)" using W by simp
  then have "exactShare weights act R i = of_int (es ! i)"
    using W m i n by (simp add: exactShare_def matches_def set_activeIndices)
  then show "\<bar>qval weights act R i - of_int (es ! i)\<bar> < 1 / 4"
    using quota_share [OF rem(4) [symmetric] i rem(5,2,3)] by simp
  show "quota weights act R i = Fin (qval weights act R i)"
    by (rule quota_value(1) [OF rem(4) [symmetric] i rem(5,2,3)])
qed

lemma stable_step:
  assumes m: "matches tot minimums weights es" and inv: "stable_inv tot minimums es al act R"
    and ne: "pinned weights minimums act R \<noteq> []"
  shows "stable_inv tot minimums es (assign_minimums (pinned weights minimums act R) minimums al)
    (unpin (pinned weights minimums act R) act) (R - sum_list (map (\<lambda>i. minimums ! i) (pinned weights minimums act R)))"
proof -
  let ?ps = "pinned weights minimums act R"
  have d: "distributable tot minimums weights" and pin: "pin_inv tot minimums al act R"
    using m inv by (auto simp: matches_def stable_inv_def)
  have n: "length act = length minimums" using pin by (simp add: pin_inv_def)
  have "es ! i = minimums ! i" if "i \<in> set ?ps" for i
  proof -
    have i: "i < length minimums" "act ! i" "fless (quota weights act R i) (float_of_int (minimums ! i))"
      using that n by (auto simp: pinned_def)
    then have a: "i \<in> set (activeIndices act)" using n by (simp add: set_activeIndices)
    have "qval weights act R i < of_int (minimums ! i)"
      using i(3) qval_near(2) [OF m inv a] minimums_small [OF d i(1)] by simp
    then have "(of_int (es ! i) :: rat) < of_int (minimums ! i) + 1" using qval_near(1) [OF m inv a] by linarith
    then have "es ! i < minimums ! i + 1" by (metis of_int_1 of_int_add of_int_less_iff)
    moreover have "minimums ! i \<le> es ! i" using m i(1) by (simp add: matches_def)
    ultimately show ?thesis by simp
  qed
  then show ?thesis
    using inv pin_step_inv [OF d pin refl ne] n by (auto simp: stable_inv_def unpin_def)
qed

lemma pinLoop_stable:
  assumes "matches tot minimums weights es" "stable_inv tot minimums es al act R"
  shows "\<exists>al' act' R'. pinLoop weights minimums al act R = (al', act', R') \<and> stable_inv tot minimums es al' act' R'"
  using assms
proof (induction weights minimums al act R rule: pinLoop.induct)
  case (1 weights minimums al act R)
  show ?case
  proof (cases "pinned weights minimums act R = []")
    case True
    with "1.prems" show ?thesis by (simp add: pinLoop.simps [of weights minimums al])
  next
    case False
    with "1.IH" [OF refl False "1.prems"(1) stable_step [OF "1.prems" False]]
    show ?thesis by (simp add: pinLoop.simps [of weights minimums al] Let_def)
  qed
qed

section \<open>The extents come back\<close>

text \<open>An active child that the rounding left one cell short has a large fraction, any other a small one.\<close>

definition short :: "float64 list \<Rightarrow> bool list \<Rightarrow> int \<Rightarrow> int list \<Rightarrow> nat \<Rightarrow> bool" where
  "short weights act R es i \<longleftrightarrow> wholeCells weights act R i < es ! i"

definition fraction :: "float64 list \<Rightarrow> bool list \<Rightarrow> int \<Rightarrow> nat \<Rightarrow> float64" where
  "fraction weights act R i = fsub (quota weights act R i) (float_of_int (wholeCells weights act R i))"

lemma whole_near:
  assumes m: "matches tot minimums weights es" and inv: "stable_inv tot minimums es al act R"
    and i: "i \<in> set (activeIndices act)"
  shows "wholeCells weights act R i + of_bool (short weights act R es i) = es ! i"
    "\<exists>f. fraction weights act R i = Fin f \<and> (if short weights act R es i then 1 / 2 < f else f < 1 / 2)"
proof -
  let ?q = "qval weights act R i" and ?e = "es ! i"
  define w where "w = \<lfloor>?q\<rfloor>"
  note near = qval_near [OF m inv i]
  have wc: "wholeCells weights act R i = w" using near(2) by (simp add: wholeCells_def w_def)
  have w: "of_int w \<le> ?q" "?q < of_int w + 1" using floor_correct [of ?q] by (auto simp: w_def)
  have "(of_int w :: rat) < of_int ?e + 1" "(of_int ?e :: rat) < of_int w + 2" using w near(1) by linarith+
  then have "w < ?e + 1" "?e < w + 2" by (metis of_int_1 of_int_add of_int_less_iff, metis of_int_add of_int_less_iff of_int_numeral)
  then have we: "w = ?e \<or> w = ?e - 1" by linarith
  then show "wholeCells weights act R i + of_bool (short weights act R es i) = es ! i"
    by (auto simp: short_def wc)
  have d: "distributable tot minimums weights" and pin: "pin_inv tot minimums al act R"
    using m inv by (auto simp: matches_def stable_inv_def)
  have "\<bar>?e\<bar> \<le> screen_limit"
  proof -
    have i': "i < length es" using i m pin by (auto simp: set_activeIndices matches_def pin_inv_def)
    have nn: "0 \<le> x" if "x \<in> set es" for x
    proof -
      from that obtain j where j: "j < length es" "x = es ! j" by (metis in_set_conv_nth)
      have "0 \<le> minimums ! j" "minimums ! j \<le> es ! j" using m j by (auto simp: matches_def distributable_def)
      then show ?thesis using j by simp
    qed
    have "?e \<le> sum_list es" by (rule member_le_sum_list) (use nn i' in auto)
    moreover have "0 \<le> ?e" using nn i' by simp
    ultimately show ?thesis using m by (auto simp: matches_def distributable_def)
  qed
  then have fw: "float_of_int w = Fin (of_int w)" using we by (intro float_of_int_small) (auto simp: screen_limit_def)
  have fr: "fraction weights act R i = Fin (rnd (?q - of_int w))"
    using near(2) w by (simp add: fraction_def wc fw fsub_def round64_small)
  have close: "\<bar>rnd (?q - of_int w) - (?q - of_int w)\<bar> \<le> (1 + 1) / 2 ^ 53" by (rule rnd_close) (use w in auto)
  moreover have "(1 + 1) / 2 ^ 53 < (1 :: rat) / 8" by simp
  ultimately have "if w < ?e then 1 / 2 < rnd (?q - of_int w) else rnd (?q - of_int w) < 1 / 2"
    using we near(1) by (auto simp: abs_if split: if_splits)
  then show "\<exists>f. fraction weights act R i = Fin f \<and> (if short weights act R es i then 1 / 2 < f else f < 1 / 2)"
    using fr by (simp add: short_def wc)
qed

lemma remainderOrder_prefix:
  assumes m: "matches tot minimums weights es" and inv: "stable_inv tot minimums es al act R"
  shows "distinct (remainderOrder weights act R)"
    "set (take (length (filter (short weights act R es) (activeIndices act))) (remainderOrder weights act R)) =
      {i \<in> set (activeIndices act). short weights act R es i}"
    "length (filter (short weights act R es) (activeIndices act)) \<le> length (remainderOrder weights act R)"
proof -
  let ?A = "activeIndices act" and ?s = "short weights act R es"
  define ps where "ps = map (\<lambda>i. (i, fraction weights act R i)) ?A"
  define sorted where "sorted = stable_sort_by (\<lambda>a b. fless (snd b) (snd a)) ps"
  have ro: "remainderOrder weights act R = map fst sorted"
    by (simp add: remainderOrder_def sorted_def ps_def fraction_def)
  have ms: "mset (map fst sorted) = mset ?A"
  proof -
    have "mset (map fst sorted) = image_mset fst (mset ps)" by (simp add: sorted_def)
    also have "\<dots> = mset (map fst ps)" by simp
    also have "map fst ps = ?A" by (simp add: ps_def comp_def)
    finally show ?thesis .
  qed
  have len: "length sorted = length ?A" by (simp add: sorted_def ps_def)
  show "distinct (remainderOrder weights act R)"
    using mset_eq_imp_distinct_iff [OF ms] by (simp add: ro activeIndices_def)
  show "length (filter ?s ?A) \<le> length (remainderOrder weights act R)" by (simp add: ro len)
  have el: "fst a \<in> set ?A \<and> snd a = fraction weights act R (fst a)" if "a \<in> set ps" for a
    using that by (auto simp: ps_def)
  have val: "\<exists>f. snd a = Fin f \<and> (if ?s (fst a) then 1 / 2 < f else f < 1 / 2)" if "a \<in> set ps" for a
    using whole_near(2) [OF m inv, of "fst a"] el [OF that] by auto
  have "weak_order_on (set ps) (\<lambda>a b. fless (snd b) (snd a))"
    unfolding weak_order_on_def using val by (metis fless.simps(1) less_asym not_less order_trans)
  from sorted_stable_sort_by [OF this] have "sorted_wrt (\<lambda>a b. \<not> fless (snd a) (snd b)) sorted"
    by (simp add: sorted_def)
  then have "sorted_wrt (\<lambda>a b. ?s (fst b) \<longrightarrow> ?s (fst a)) sorted"
  proof (rule sorted_wrt_mono_rel [rotated])
    fix a b assume "a \<in> set sorted" "b \<in> set sorted" "\<not> fless (snd a) (snd b)"
    then show "?s (fst b) \<longrightarrow> ?s (fst a)" using val [of a] val [of b] by (auto simp: sorted_def split: if_splits)
  qed
  then have "take (length (filter (\<lambda>a. ?s (fst a)) sorted)) sorted = filter (\<lambda>a. ?s (fst a)) sorted"
    by (rule take_filter_sorted)
  moreover have "length (filter (\<lambda>a. ?s (fst a)) sorted) = length (filter ?s ?A)"
  proof -
    have "mset (filter ?s (map fst sorted)) = mset (filter ?s ?A)" using ms by (metis mset_filter)
    then have "length (filter ?s (map fst sorted)) = length (filter ?s ?A)" by (metis size_mset)
    then show ?thesis by (simp add: filter_map comp_def)
  qed
  ultimately have "take (length (filter ?s ?A)) (map fst sorted) = filter ?s (map fst sorted)"
    by (simp add: take_map filter_map comp_def)
  then show "set (take (length (filter ?s ?A)) (remainderOrder weights act R)) = {i \<in> set ?A. ?s i}"
    using mset_eq_setD [OF ms] by (simp add: ro)
qed

lemma distribute_matches:
  assumes m: "matches tot minimums weights es"
  shows "distribute tot minimums weights = Allocated es"
proof -
  let ?n = "length minimums"
  have d: "distributable tot minimums weights" using m by (simp add: matches_def)
  have "stable_inv tot minimums es (replicate ?n 0) (replicate ?n True) tot"
    using d by (auto simp: stable_inv_def pin_inv_def distributable_def activeIndices_def intro!: sum.neutral)
  from pinLoop_stable [OF m this] obtain al act R where
    loop: "pinLoop weights minimums (replicate ?n 0) (replicate ?n True) tot = (al, act, R)"
    and inv: "stable_inv tot minimums es al act R" by blast
  let ?A = "activeIndices act" and ?s = "short weights act R es"
  have pin: "pin_inv tot minimums al act R" using inv by (simp add: stable_inv_def)
  have n: "length al = ?n" "length act = ?n" "length es = ?n" using pin m by (auto simp: pin_inv_def matches_def)
  note near = whole_near(1) [OF m inv] and order = remainderOrder_prefix [OF m inv]
  define base where "base = baseAllocation weights al act R"
  have base: "base ! i + of_bool (i \<in> set ?A \<and> ?s i) = es ! i" if "i < ?n" for i
  proof (cases "act ! i")
    case True
    then have "i \<in> set ?A" using that n by (simp add: set_activeIndices)
    then show ?thesis using near [of i] True that n by (simp add: base_def baseAllocation_def)
  next
    case False
    then show ?thesis using inv pin that n
      by (simp add: base_def baseAllocation_def stable_inv_def pin_inv_def set_activeIndices)
  qed
  have left: "leftoverCells tot weights act R = int (length (filter ?s ?A))"
  proof -
    have "sum_list (map (\<lambda>i. wholeCells weights act R i + of_bool (?s i)) ?A) = R"
      using active_extents_sum [OF m inv] near by (simp cong: map_cong)
    moreover have "sum_list (map (\<lambda>i. of_bool (?s i)) xs) = int (length (filter ?s xs))" for xs
      by (induction xs) auto
    ultimately show ?thesis by (simp add: leftoverCells_def sum_list_addf)
  qed
  have lb: "length base = ?n" by (simp add: base_def baseAllocation_def n)
  have "distribute tot minimums weights = finishDistribution tot weights (al, act, R)"
    using distribute_unfold [OF d] loop by simp
  also have "\<dots> = Allocated (give_cells (remainderOrder weights act R) (int (length (filter ?s ?A))) base)"
    using order(3) by (auto simp: left base_def baseAllocation_def)
  also have "give_cells (remainderOrder weights act R) (int (length (filter ?s ?A))) base = es"
  proof -
    have "\<forall>i \<in> set (remainderOrder weights act R). i < length base"
      using lb n by (auto simp: remainderOrder_set set_activeIndices)
    from give_cells_prefix [OF order(1) this order(3)] show ?thesis
      unfolding order(2) using base lb n by (auto intro!: nth_equalityI)
  qed
  finally show ?thesis .
qed

end
