(* ===== verification/Layout_Resize.thy ===== *)
theory Layout_Resize
  imports Layout_Invariants Layout_Stability
begin

text \<open>
  Resizing and equalising: \<^verbatim>\<open>ResizeFocus\<close> and \<^verbatim>\<open>Equalize\<close> of
  \<^verbatim>\<open>internal/domain/layout/ops.go\<close> change nothing but weights, and a resize moves
  exactly the requested cells, as far as the minimum of the giving pane allows.
\<close>

section \<open>Trees up to weights\<close>

fun eraseWeights :: "node \<Rightarrow> node" where
  "eraseWeights (Node k d cs l e w) = Node k d (map eraseWeights cs) l e (Fin 0)"

lemma eraseWeights_sel [simp]:
  "node_kind (eraseWeights n) = node_kind n" "node_dir (eraseWeights n) = node_dir n"
  "node_children (eraseWeights n) = map eraseWeights (node_children n)" "node_leaf (eraseWeights n) = node_leaf n"
  "node_expanded (eraseWeights n) = node_expanded n"
  by (cases n; simp)+

lemma eraseWeights_set_weight [simp]: "eraseWeights (set_weight w n) = eraseWeights n"
  by (cases n) (simp add: set_weight_def)

lemma leafIDs_erase: "leafIDs (eraseWeights n) = leafIDs n"
  by (induction n rule: leafIDs.induct) (simp add: comp_def cong: map_cong)

lemma visibleIDs_erase: "visibleIDs (eraseWeights n) = visibleIDs n"
  by (induction n rule: visibleIDs.induct) (simp add: comp_def cong: map_cong split: kind.split)

lemma wf_erase: "wf_node (eraseWeights n) = wf_node n"
  by (induction n rule: wf_node.induct) (auto simp: list_all_iff split: kind.split)

lemma minimumExtent_erase: "minimumExtent (eraseWeights n) ax = minimumExtent n ax"
proof (induction n ax rule: minimumExtent.induct)
  case (1 k d cs l e w ax)
  show ?case
  proof (cases k)
    case Split
    show ?thesis
    proof (cases "cs = []")
      case False
      have "map (\<lambda>c. minimumExtent c ax) (map eraseWeights cs) = map (\<lambda>c. minimumExtent c ax) cs"
        using "1.IH" [OF Split False] by simp
      then show ?thesis using Split False by (simp del: map_map split: option.split)
    qed (use Split in simp)
  qed (simp_all add: list_ex_iff)
qed

text \<open>Two trees that differ in weights only.\<close>

definition reweighted :: "node \<Rightarrow> node \<Rightarrow> bool" where
  "reweighted n n' \<longleftrightarrow> eraseWeights n' = eraseWeights n"

lemma reweighted_facts:
  assumes "reweighted n n'"
  shows "leafIDs n' = leafIDs n" "visibleIDs n' = visibleIDs n" "wf_node n' = wf_node n" "has_room n' r = has_room n r"
proof -
  show "leafIDs n' = leafIDs n" using assms leafIDs_erase [of n'] leafIDs_erase [of n] by (simp add: reweighted_def)
  show "visibleIDs n' = visibleIDs n" using assms visibleIDs_erase [of n'] visibleIDs_erase [of n] by (simp add: reweighted_def)
  show "wf_node n' = wf_node n" using assms wf_erase [of n'] wf_erase [of n] by (simp add: reweighted_def)
  have "minimumExtent n' ax = minimumExtent n ax" for ax
    using assms minimumExtent_erase [of n'] minimumExtent_erase [of n] by (simp add: reweighted_def)
  then show "has_room n' r = has_room n r" by (simp add: has_room_def)
qed

lemma reweighted_clear: "reweighted n (clearSplitChildWeights n)"
proof (induction n rule: clearSplitChildWeights.induct)
  case (1 k d cs l e w)
  then show ?case by (auto simp: reweighted_def)
qed

lemma reweighted_extents: "length es = length (node_children n) \<Longrightarrow> reweighted n (weightsFromExtents es n)"
proof -
  assume len: "length es = length (node_children n)"
  have "map eraseWeights (map (\<lambda>(c, x). set_weight (float_of_int x) c) (zip cs es)) = map eraseWeights cs"
    if "length es = length cs" for cs
    using that by (induction cs es rule: list_induct2') auto
  from this [OF len] show ?thesis
    by (cases n) (simp add: reweighted_def weightsFromExtents_def set_children_def)
qed

section \<open>The split that is resized\<close>

fun node_at :: "nat list \<Rightarrow> node \<Rightarrow> node option" where
  "node_at [] n = Some n"
| "node_at (i # path) n = (if i < length (node_children n) then node_at path (node_children n ! i) else None)"

lemma reweighted_replace:
  "node_at path n = Some s \<Longrightarrow> reweighted s s' \<Longrightarrow> reweighted n (replace_node path s' n)"
proof (induction path n rule: node_at.induct)
  case (2 i path n)
  then have i: "i < length (node_children n)" and IH: "reweighted (node_children n ! i) (replace_node path s' (node_children n ! i))"
    by (auto split: if_splits)
  have "map eraseWeights ((node_children n)[i := replace_node path s' (node_children n ! i)]) = map eraseWeights (node_children n)"
    using i IH by (simp add: map_update reweighted_def) (metis list_update_id map_update)
  then show ?case by (cases n) (simp add: reweighted_def set_children_def)
qed simp

lemma childArea_room:
  assumes wf: "wf_node n" and room: "has_room n r" and fit: "fits_screen r" and i: "i < length (node_children n)"
  shows "has_room (node_children n ! i) (childArea n r i)"
proof (cases "node_kind n")
  case Split
  have "node_children n \<noteq> []" using i by auto
  from split_room [OF Split this room fit] obtain rects where "splitChildRects n r = Some rects"
    "length rects = length (node_children n)" "\<forall>i < length rects. has_room (node_children n ! i) (rects ! i)" by auto
  then show ?thesis using Split i by (simp add: childArea_def nodeChildAreas_def)
next
  case Stack
  have "node_kind (node_children n ! i) = Leaf" using wf Stack i wf_node_unfold [of n] by auto
  then obtain d cs l e w where c: "node_children n ! i = Node Leaf d cs l e w" by (metis node.exhaust_sel)
  have "MinPaneCols \<le> rWidth r" "int (length (node_children n)) + 1 \<le> rHeight r"
    using room Stack by (cases n; auto simp: has_room_def split: option.splits if_splits)+
  then show ?thesis using Stack i c
    by (simp add: childArea_def nodeChildAreas_def has_room_def MinPaneCols_def MinPaneRows_def)
next
  case Leaf
  then show ?thesis using wf i wf_node_unfold [of n] by simp
qed

lemma nearestMatchingSplit_ok:
  "nearestMatchingSplit n focus dir area = Some (path, s, a, j) \<Longrightarrow> wf_node n \<Longrightarrow> has_room n area \<Longrightarrow> fits_screen area \<Longrightarrow>
     node_at path n = Some s \<and> node_kind s = Split \<and> node_dir s = dir \<and> wf_node s \<and> has_room s a \<and> fits_screen a \<and>
     j < length (node_children s) \<and> focus \<in> set (leafIDs (node_children s ! j))"
proof (induction n focus dir area arbitrary: path s a j rule: nearestMatchingSplit.induct)
  case (1 k d cs l e w focus dir area)
  let ?n = "Node k d cs l e w"
  from "1.prems"(1) obtain i where c: "\<not> \<not> containsLeaf ?n focus" "first_index (\<lambda>c. containsLeaf c focus) cs = Some i"
    by (auto split: if_splits option.splits)
  note fi = first_index_Some [OF c(2)]
  have wfc: "wf_node (cs ! i)" using "1.prems"(2) fi by (cases k) (auto simp: list_all_iff)
  show ?case
  proof (cases "nearestMatchingSplit (cs ! i) focus dir (childArea ?n area i)")
    case None
    then show ?thesis using "1.prems" c fi by (auto simp: containsLeaf_leafIDs split: if_splits)
  next
    case (Some r)
    then obtain p' s' a' j' where r: "r = (p', s', a', j')" by (cases r)
    have eq: "path = i # p'" "s = s'" "a = a'" "j = j'" using "1.prems"(1) c Some r by (auto simp del: containsLeaf.simps split: if_splits)
    have "node_at p' (cs ! i) = Some s \<and> node_kind s = Split \<and> node_dir s = dir \<and> wf_node s \<and> has_room s a \<and> fits_screen a \<and>
       j < length (node_children s) \<and> focus \<in> set (leafIDs (node_children s ! j))"
      using "1.IH" [OF c(1,2), of p' s a j] Some r eq wfc childArea_room [OF "1.prems"(2-4), of i] fi
        childArea_fits [OF "1.prems"(4)] by simp
    then show ?thesis using eq fi by simp
  qed
qed

section \<open>Weights reproduce extents\<close>

definition valid_extents :: "node \<Rightarrow> rect \<Rightarrow> int list \<Rightarrow> bool" where
  "valid_extents n r es \<longleftrightarrow>
     length es = length (node_children n) \<and> sum_list es + int (length es) - 1 = extentOf (node_dir n) r \<and>
     (\<forall>i < length es. \<exists>m. minimumExtent (node_children n ! i) (node_dir n) = Some m \<and> m \<le> es ! i)"

lemma map_extentOf_layRects: "map (extentOf d) (layRects d r pos es) = es"
  by (induction es arbitrary: pos) (auto simp: extentOf_def, (cases d; simp)+)

lemma solved_extents:
  assumes k: "node_kind n = Split" "2 \<le> length (node_children n)" and room: "has_room n r" and fit: "fits_screen r"
  shows "\<exists>rects. splitChildRects n r = Some rects \<and> valid_extents n r (map (extentOf (node_dir n)) rects)"
proof -
  from split_room [OF k(1) _ room fit] k(2) obtain rects where rects: "splitChildRects n r = Some rects"
    "length rects = length (node_children n)" "\<forall>i < length rects. has_room (node_children n ! i) (rects ! i)" by fastforce
  from splitChildRects_extents [OF rects(1) fit] k(2) obtain es pos where
    es: "rects = layRects (node_dir n) r pos es" "length es = length (node_children n)"
    "sum_list es + int (length es) - 1 = extentOf (node_dir n) r" by fastforce
  have eq: "map (extentOf (node_dir n)) rects = es" unfolding es(1) by (rule map_extentOf_layRects)
  have "\<exists>m. minimumExtent (node_children n ! i) (node_dir n) = Some m \<and> m \<le> es ! i" if "i < length es" for i
    using rects(2,3) that es(2) eq by (auto simp: has_room_axis)
  with es(2,3) have "valid_extents n r es" by (simp add: valid_extents_def)
  with rects(1) eq show ?thesis by simp
qed

lemma ew_float_of_int: "0 < x \<Longrightarrow> x \<le> screen_limit \<Longrightarrow> ew (effectiveWeight (float_of_int x)) = of_int x"
  using float_of_int_small [of x] by (simp add: ew_def effectiveWeight_def screen_limit_def)

lemma valid_extents_matches:
  assumes n: "node_children n \<noteq> []" and v: "valid_extents n r es" and fit: "fits_screen r"
  shows "\<exists>ms. opt_all (map (\<lambda>c. minimumExtent c (node_dir n)) (node_children n)) = Some ms \<and>
    matches (extentOf (node_dir n) r - (int (length (node_children n)) - 1)) ms
      (map (\<lambda>x. effectiveWeight (float_of_int x)) es) es"
proof -
  let ?d = "node_dir n" and ?cs = "node_children n"
  have len: "length es = length ?cs" and sum: "sum_list es + int (length es) - 1 = extentOf ?d r"
    and minE: "\<forall>i < length es. \<exists>m. minimumExtent (?cs ! i) ?d = Some m \<and> m \<le> es ! i"
    using v by (auto simp: valid_extents_def)
  have "\<forall>c \<in> set ?cs. \<exists>m. minimumExtent c ?d = Some m" using minE len by (metis in_set_conv_nth)
  from opt_all_map_ex [OF this] obtain ms where ms: "opt_all (map (\<lambda>c. minimumExtent c ?d) ?cs) = Some ms" by blast
  note lms = opt_all_map_Some [OF ms]
  have le: "2 \<le> ms ! i" "ms ! i \<le> es ! i" if "i < length ms" for i
    using opt_all_map_nth [OF ms, of i] minE that len lms minimumExtent_ge by fastforce+
  have two: "2 \<le> x" if "x \<in> set es" for x
    using that le len lms by (metis in_set_conv_nth order_trans)
  have ne: "es \<noteq> []" using n len by auto
  have nl: "int (length es) \<le> sum_list es" by (rule length_le_sum_list) (use two in force)
  have lim: "extentOf ?d r \<le> screen_limit" using fit by (auto simp: extentOf_def fits_screen_def)
  have one: "1 \<le> length es" using ne by (cases es) auto
  have "sum_list ms \<le> sum_list es" by (rule sum_list_mono_length) (use le len lms in auto)
  then have "distributable (extentOf ?d r - (int (length ?cs) - 1)) ms (map (\<lambda>x. effectiveWeight (float_of_int x)) es)"
    using le(1) len lms nl sum lim one ne by (auto simp: distributable_def screen_limit_def in_set_conv_nth) force
  moreover have "ew (effectiveWeight (float_of_int (es ! i))) = of_int (es ! i)" if "i < length es" for i
  proof (rule ew_float_of_int)
    have "es ! i \<le> sum_list es" by (rule member_le_sum_list) (use two that in force)+
    then show "es ! i \<le> screen_limit" using sum lim one by linarith
    show "0 < es ! i" using two [of "es ! i"] that by simp
  qed
  ultimately have "matches (extentOf ?d r - (int (length ?cs) - 1)) ms (map (\<lambda>x. effectiveWeight (float_of_int x)) es) es"
    using le(2) len lms sum by (simp add: matches_def)
  with ms show ?thesis by blast
qed

lemma weights_reproduce:
  assumes k: "2 \<le> length (node_children n)" and v: "valid_extents n r es" and fit: "fits_screen r"
  shows "\<exists>rects. splitChildRects (weightsFromExtents es n) r = Some rects \<and> map (extentOf (node_dir n)) rects = es"
proof -
  let ?n = "weightsFromExtents es n"
  have len: "length es = length (node_children n)" using v by (simp add: valid_extents_def)
  have ne: "node_children n \<noteq> []" using k by auto
  from valid_extents_matches [OF ne v fit] obtain ms where
    ms: "opt_all (map (\<lambda>c. minimumExtent c (node_dir n)) (node_children n)) = Some ms" and
    m: "matches (extentOf (node_dir n) r - (int (length (node_children n)) - 1)) ms
      (map (\<lambda>x. effectiveWeight (float_of_int x)) es) es" by blast
  have ch: "map (\<lambda>c. minimumExtent c d) (node_children ?n) = map (\<lambda>c. minimumExtent c d) (node_children n)"
    "map (\<lambda>c. effectiveWeight (node_weight c)) (node_children ?n) = map (\<lambda>x. effectiveWeight (float_of_int x)) es" for d
    using len by (auto simp: weightsFromExtents_def case_prod_beta intro!: nth_equalityI)
  have sh: "node_dir ?n = node_dir n" "length (node_children ?n) = length (node_children n)"
    using len by (simp_all add: weightsFromExtents_def)
  have "splitChildRects ?n r = Some (layRects (node_dir n) r (if node_dir n = Horizontal then rX r else rY r) es)"
    unfolding splitChildRects_def ch sh using k ms distribute_matches [OF m] sh(2) by auto
  then show ?thesis by (simp add: map_extentOf_layRects)
qed

section \<open>Resizing moves the requested cells\<close>

lemma preferredNeighbors_props:
  "i \<in> set (preferredNeighbors target cnt) \<Longrightarrow> target < cnt \<Longrightarrow> i < cnt \<and> i \<noteq> target"
  by (auto simp: preferredNeighbors_def split: if_splits)

lemma requestedCells_pos: "min_int \<le> delta \<Longrightarrow> delta \<noteq> 0 \<Longrightarrow> 0 < requestedCells delta"
  by (auto simp: requestedCells_def max_int_def min_int_def)

text \<open>
  The pane that gives cells keeps at least its minimum: the neighbour when the focused pane grows,
  the focused pane itself when it shrinks.
\<close>

lemma resizeTransfer_props:
  assumes r: "resizeTransfer delta target extents minimums = Some (nb, transfer)" and target: "target < length extents"
  shows "nb < length extents" "nb \<noteq> target"
    "transfer = min (requestedCells delta)
      (if 0 < delta then extents ! nb - minimums ! nb else extents ! target - minimums ! target)"
    "0 < (if 0 < delta then extents ! nb - minimums ! nb else extents ! target - minimums ! target)"
proof -
  have "nb \<in> set (preferredNeighbors target (length extents)) \<and>
      transfer = min (requestedCells delta) (if 0 < delta then extents ! nb - minimums ! nb else extents ! target - minimums ! target) \<and>
      0 < (if 0 < delta then extents ! nb - minimums ! nb else extents ! target - minimums ! target)"
  proof (cases "0 < delta")
    case True
    then have "filter (\<lambda>i. 0 < extents ! i - minimums ! i) (preferredNeighbors target (length extents)) =
        nb # tl (filter (\<lambda>i. 0 < extents ! i - minimums ! i) (preferredNeighbors target (length extents)))"
      using r by (auto simp: resizeTransfer_def split: list.splits)
    then have "nb \<in> set (filter (\<lambda>i. 0 < extents ! i - minimums ! i) (preferredNeighbors target (length extents)))"
      by (metis list.set_intros(1))
    then show ?thesis using r True by (auto simp: resizeTransfer_def split: list.splits)
  next
    case False
    then show ?thesis using r by (auto simp: resizeTransfer_def split: list.splits if_splits)
  qed
  with preferredNeighbors_props [OF _ target] show "nb < length extents" "nb \<noteq> target"
    "transfer = min (requestedCells delta)
      (if 0 < delta then extents ! nb - minimums ! nb else extents ! target - minimums ! target)"
    "0 < (if 0 < delta then extents ! nb - minimums ! nb else extents ! target - minimums ! target)" by blast+
qed

lemma moveCells_sum:
  assumes "target < length es" "nb < length es" "nb \<noteq> target"
  shows "length (moveCells delta target nb transfer es) = length es"
    "sum_list (moveCells delta target nb transfer es) = sum_list es"
    "i < length es \<Longrightarrow> moveCells delta target nb transfer es ! i =
      es ! i + (if i = target then (if 0 < delta then transfer else - transfer)
                else if i = nb then (if 0 < delta then - transfer else transfer) else 0)"
  using assms by (auto simp: moveCells_def Let_def sum_list_update_int nth_list_update)

lemma moveCells_valid:
  assumes v: "valid_extents n r es" and ms: "opt_all (map (\<lambda>c. minimumExtent c (node_dir n)) (node_children n)) = Some minimums"
    and tr: "resizeTransfer delta target es minimums = Some (nb, transfer)" and target: "target < length es"
    and pos: "0 < requestedCells delta"
  shows "valid_extents n r (moveCells delta target nb transfer es)" "0 < transfer"
proof -
  note t = resizeTransfer_props [OF tr target]
  note mv = moveCells_sum [OF target t(1,2), where delta = delta and transfer = transfer]
  show tpos: "0 < transfer" using t(3,4) pos by simp
  have len: "length es = length (node_children n)" using v by (simp add: valid_extents_def)
  have "\<exists>m. minimumExtent (node_children n ! i) (node_dir n) = Some m \<and> m \<le> moveCells delta target nb transfer es ! i"
    if i: "i < length es" for i
  proof -
    have min_i: "minimumExtent (node_children n ! i) (node_dir n) = Some (minimums ! i)"
      using opt_all_map_nth [OF ms] i len by simp
    then have "minimums ! i \<le> es ! i" using v i by (auto simp: valid_extents_def)
    then have "minimums ! i \<le> moveCells delta target nb transfer es ! i"
      using mv(3) [OF i] t(3,4) tpos by (auto split: if_splits)
    with min_i show ?thesis by blast
  qed
  then show "valid_extents n r (moveCells delta target nb transfer es)" using v mv(1,2) by (simp add: valid_extents_def)
qed

text \<open>What a resize of one split does to the extents of its children.\<close>

lemma resizeSplit_exact:
  assumes r: "resizeSplit delta (node_dir s) s a target = Inr s'" and k: "node_kind s = Split" "2 \<le> length (node_children s)"
    and room: "has_room s a" and fit: "fits_screen a" and target: "target < length (node_children s)"
    and delta: "min_int \<le> delta"
  shows "\<exists>rects rects' nb transfer. splitChildRects s a = Some rects \<and> splitChildRects s' a = Some rects' \<and>
    nb < length rects \<and> nb \<noteq> target \<and> 0 < transfer \<and> transfer \<le> requestedCells delta \<and>
    map (extentOf (node_dir s)) rects' = moveCells delta target nb transfer (map (extentOf (node_dir s)) rects)"
    "reweighted s s'"
proof -
  let ?d = "node_dir s"
  from solved_extents [OF k room fit] obtain rects where rects: "splitChildRects s a = Some rects"
    "valid_extents s a (map (extentOf ?d) rects)" by blast
  from r rects(1) obtain minimums nb transfer where
    ms: "opt_all (map (\<lambda>c. minimumExtent c ?d) (node_children s)) = Some minimums" and req: "requestedCells delta \<noteq> 0"
    and tr: "resizeTransfer delta target (map (extentOf ?d) rects) minimums = Some (nb, transfer)"
    and s': "s' = weightsFromExtents (moveCells delta target nb transfer (map (extentOf ?d) rects)) s"
    by (auto simp: resizeSplit_def split: option.splits if_splits)
  have len: "length rects = length (node_children s)" using rects(2) by (simp add: valid_extents_def)
  then have target': "target < length (map (extentOf ?d) rects)" using target by simp
  have "delta \<noteq> 0" using req by (auto simp: requestedCells_def)
  then have pos: "0 < requestedCells delta" by (rule requestedCells_pos [OF delta])
  note t = resizeTransfer_props [OF tr target']
  note mv = moveCells_valid [OF rects(2) ms tr target' pos]
  from weights_reproduce [OF k(2) mv(1) fit] obtain rects' where "splitChildRects s' a = Some rects'"
    "map (extentOf ?d) rects' = moveCells delta target nb transfer (map (extentOf ?d) rects)" unfolding s' by blast
  moreover have "nb < length rects" "transfer \<le> requestedCells delta" using t(1,3) by simp_all
  ultimately show "\<exists>rects rects' nb transfer. splitChildRects s a = Some rects \<and> splitChildRects s' a = Some rects' \<and>
    nb < length rects \<and> nb \<noteq> target \<and> 0 < transfer \<and> transfer \<le> requestedCells delta \<and>
    map (extentOf ?d) rects' = moveCells delta target nb transfer (map (extentOf ?d) rects)"
    using rects(1) t(2) mv(2) by blast
  show "reweighted s s'"
    unfolding s' by (rule reweighted_extents) (use moveCells_sum(1) [OF target' t(1,2)] len in simp)
qed

lemma ResizeFocus_Inr:
  assumes r: "ResizeFocus t ax delta area = Inr t'" and wf: "wf_tree t" and fit: "fits_screen area" and delta: "min_int \<le> delta"
  shows "\<exists>n path s a target s'. Root t = Some n \<and> Root t' = Some (replace_node path s' n) \<and> Focus t' = Focus t \<and>
    nearestMatchingSplit n (Focus t) (splitDirForAxis ax) area = Some (path, s, a, target) \<and>
    resizeSplit delta (node_dir s) s a target = Inr s' \<and> node_kind s = Split \<and> node_dir s = splitDirForAxis ax \<and>
    2 \<le> length (node_children s) \<and> has_room s a \<and> fits_screen a \<and> target < length (node_children s) \<and>
    Focus t \<in> set (leafIDs (node_children s ! target)) \<and> reweighted n (replace_node path s' n) \<and> wf_node n"
proof -
  from r obtain n path s a target s' where n: "Root t = Some n" "Solve (Some n) area \<noteq> None"
    and near: "nearestMatchingSplit n (Focus t) (splitDirForAxis ax) area = Some (path, s, a, target)"
    and rs: "resizeSplit delta (splitDirForAxis ax) s a target = Inr s'"
    and t': "t' = \<lparr>Root = Some (replace_node path s' n), Focus = Focus t\<rparr>"
    by (auto simp: ResizeFocus_def commit_Inr split: option.splits if_splits sum.splits)
  have wfn: "wf_node n" using wf n by (simp add: wf_tree_def)
  have room: "has_room n area" using n(2) Solve_has_room by blast
  note s = nearestMatchingSplit_ok [OF near wfn room fit]
  have two: "2 \<le> length (node_children s)" using s wf_node_unfold [of s] by auto
  have rs': "resizeSplit delta (node_dir s) s a target = Inr s'" using rs s by simp
  have "reweighted s s'" using resizeSplit_exact(2) [OF rs'] s two delta by blast
  then have "reweighted n (replace_node path s' n)" using reweighted_replace s by blast
  with n t' near rs' s two wfn show ?thesis by auto
qed

end
