(* ===== verification/Layout_Focus.thy ===== *)
theory Layout_Focus
  imports Layout_Invariants
begin

text \<open>
  Focus: expansion of stacks, the pane that takes over the focus of a closed one, and directional
  focus, from \<^verbatim>\<open>internal/domain/layout/ops.go\<close>.
\<close>

section \<open>Expansion makes a pane visible\<close>

lemma setExpanded_visible: "setExpanded n pid = Some n' \<Longrightarrow> wf_node n \<Longrightarrow> pid \<in> set (visibleIDs n')"
proof (induction n pid arbitrary: n' rule: setExpanded.induct)
  case (1 k d cs l e w pid)
  show ?case
  proof (cases "k = Stack \<and> stackDirectLeafIndex (Node k d cs l e w) pid \<noteq> None")
    case True
    with "1.prems" show ?thesis by auto
  next
    case False
    with "1.prems"(1) obtain cs' where n': "n' = Node k d cs' l e w"
      and up: "update_first (\<lambda>c. setExpanded c pid) cs = Some cs'" by (auto simp del: not_None_eq)
    from up obtain i y where i: "i < length cs" "setExpanded (cs ! i) pid = Some y" "cs' = cs[i := y]"
      by (auto dest!: update_first_Some)
    have mem: "cs ! i \<in> set cs" using i by simp
    have wfc: "wf_node (cs ! i)" using "1.prems"(2) mem by (cases k) (auto simp: list_all_iff)
    then have "node_kind (cs ! i) \<noteq> Leaf" using i(2) setExpanded_Leaf by fastforce
    then have k: "k = Split" using "1.prems"(2) mem by (cases k) (auto simp: list_all_iff)
    have "pid \<in> set (visibleIDs y)" using "1.IH" [OF False mem i(2) wfc] .
    then show ?thesis using k i by (auto simp: n' intro!: bexI [of _ y] set_update_memI)
  qed
qed

lemma setExpanded_None: "setExpanded n pid = None \<Longrightarrow> wf_node n \<Longrightarrow> pid \<in> set (leafIDs n) \<Longrightarrow> pid \<in> set (visibleIDs n)"
proof (induction n pid rule: setExpanded.induct)
  case (1 k d cs l e w pid)
  let ?n = "Node k d cs l e w"
  have ns: "\<not> (k = Stack \<and> stackDirectLeafIndex ?n pid \<noteq> None)" and ch: "\<forall>c \<in> set cs. setExpanded c pid = None"
    using "1.prems"(1) by (auto simp: update_first_None simp del: not_None_eq split: if_splits)
  show ?case
  proof (cases k)
    case Split
    then show ?thesis using "1.prems" ch "1.IH" [OF ns] by (auto simp: list_all_iff)
  next
    case Stack
    then have "\<forall>c \<in> set cs. node_kind c = Leaf" using "1.prems"(2) by (auto simp: list_all_iff)
    then show ?thesis using Stack ns "1.prems"(3) stackDirectLeafIndex_None [of ?n pid] wf_stack_leafIDs [of cs] by auto
  qed (use "1.prems" in auto)
qed

lemma expandIfStacked_ok:
  assumes "wf_node n" "pid \<in> set (leafIDs n)"
  shows "wf_node (expandIfStacked n pid)" "leafIDs (expandIfStacked n pid) = leafIDs n"
    "pid \<in> set (visibleIDs (expandIfStacked n pid))"
  using assms setExpanded_wf setExpanded_leafIDs setExpanded_visible setExpanded_None
  by (auto simp: expandIfStacked_def split: option.split)

text \<open>The query for a collapsed pane agrees with what is visible.\<close>

lemma CollapsedLeaf_absent: "wf_node n \<Longrightarrow> pid \<notin> set (leafIDs n) \<Longrightarrow> \<not> CollapsedLeaf n pid"
proof (induction n pid rule: CollapsedLeaf.induct)
  case (1 k d cs l e w pid)
  let ?n = "Node k d cs l e w"
  have ns: "\<not> (k = Stack \<and> stackDirectLeafIndex ?n pid \<noteq> None)"
  proof (cases "k = Stack")
    case True
    then have "\<forall>c \<in> set cs. node_kind c = Leaf" using "1.prems"(1) by (auto simp: list_all_iff)
    then show ?thesis using True "1.prems"(2) stackDirectLeafIndex_None [of ?n pid] wf_stack_leafIDs [of cs] by auto
  qed simp
  have "\<forall>c \<in> set cs. \<not> CollapsedLeaf c pid"
    using "1.IH" [OF ns] "1.prems" by (cases k) (auto simp: list_all_iff)
  then show ?case using ns by (auto simp: list_ex_iff)
qed

lemma CollapsedLeaf_iff:
  "wf_node n \<Longrightarrow> distinct (leafIDs n) \<Longrightarrow> pid \<in> set (leafIDs n) \<Longrightarrow> CollapsedLeaf n pid \<longleftrightarrow> pid \<notin> set (visibleIDs n)"
proof (induction n pid rule: CollapsedLeaf.induct)
  case (1 k d cs l e w pid)
  let ?n = "Node k d cs l e w"
  show ?case
  proof (cases k)
    case Split
    have wfc: "\<forall>c \<in> set cs. wf_node c \<and> distinct (leafIDs c)" using "1.prems" Split by (auto simp: list_all_iff distinct_concat_iff)
    from "1.prems"(3) Split obtain c where c: "c \<in> set cs" "pid \<in> set (leafIDs c)" by auto
    have ns: "\<not> (k = Stack \<and> stackDirectLeafIndex ?n pid \<noteq> None)" using Split by simp
    obtain xs ys where cs: "cs = xs @ c # ys" using c(1) by (meson split_list)
    have others: "pid \<notin> set (leafIDs x)" if "x \<in> set (xs @ ys)" for x
      using "1.prems"(2) Split c(2) that by (auto simp: cs)
    have noC: "\<not> CollapsedLeaf x pid" if "pid \<notin> set (leafIDs x)" "wf_node x" for x
      using that CollapsedLeaf_absent by blast
    have "list_ex (\<lambda>c. CollapsedLeaf c pid) cs \<longleftrightarrow> CollapsedLeaf c pid"
      using noC others wfc by (auto simp: list_ex_iff cs)
    moreover have "pid \<in> set (visibleIDs ?n) \<longleftrightarrow> pid \<in> set (visibleIDs c)"
      using others visibleIDs_leafIDs wfc Split by (fastforce simp: cs)
    moreover have "CollapsedLeaf c pid \<longleftrightarrow> pid \<notin> set (visibleIDs c)" using "1.IH" [OF ns c(1)] wfc c by blast
    ultimately show ?thesis using Split by simp
  next
    case Stack
    then have "\<forall>c \<in> set cs. node_kind c = Leaf" using "1.prems"(1) by (auto simp: list_all_iff)
    then show ?thesis using Stack "1.prems"(3) stackDirectLeafIndex_None [of ?n pid] wf_stack_leafIDs [of cs] by auto
  qed (use "1.prems" in auto)
qed

section \<open>Solved placements show the visible panes\<close>

definition shownIDs :: "placement list \<Rightarrow> paneID list" where
  "shownIDs ps = map ID (filter (\<lambda>p. \<not> Collapsed p) ps)"

lemma shownIDs_append [simp]: "shownIDs (ps @ qs) = shownIDs ps @ shownIDs qs"
  by (simp add: shownIDs_def)

lemma filter_upt_eq: "idx < cnt \<Longrightarrow> filter (\<lambda>i. i = idx) [0..<cnt] = [idx]"
  by (induction cnt) auto

lemma expandedIndex_Some: "expandedIndex cs e = Some idx \<Longrightarrow> idx < length cs \<and> node_leaf (cs ! idx) = e"
proof -
  assume a: "expandedIndex cs e = Some idx"
  let ?is = "filter (\<lambda>i. node_leaf (cs ! i) = e) [0..<length cs]"
  have "?is \<noteq> []" "idx = last ?is" using a by (auto simp: expandedIndex_def split: list.splits)
  then have "idx \<in> set ?is" using last_in_set by blast
  then show ?thesis by simp
qed

lemma solveStack_visible: "solveStack n r = Some ps \<Longrightarrow> shownIDs ps = [node_expanded n]"
proof -
  assume "solveStack n r = Some ps"
  then obtain idx where idx: "expandedIndex (node_children n) (node_expanded n) = Some idx"
    and ps: "ps = map (\<lambda>i. stackPlacement r (length (node_children n)) idx i (node_leaf (node_children n ! i))) [0..<length (node_children n)]"
    by (auto simp: solveStack_def Let_def split: if_splits option.splits)
  have "Collapsed (stackPlacement r cnt idx i leaf) \<longleftrightarrow> i \<noteq> idx" "ID (stackPlacement r cnt idx i leaf) = leaf" for cnt i leaf
    by (auto simp: stackPlacement_def Let_def)
  then show ?thesis using expandedIndex_Some [OF idx] by (simp add: ps shownIDs_def filter_map comp_def filter_upt_eq)
qed

lemma solve_visible:
  shows "solve n r = Some out \<Longrightarrow> shownIDs (fst out) = visibleIDs n"
    and "solveChildren d r prev cs rects = Some out \<Longrightarrow> shownIDs (fst out) = concat (map visibleIDs cs)"
proof (induction n r and d r prev cs rects arbitrary: out and out rule: solve_solveChildren.induct)
  case (1 k d cs l e w r)
  show ?case
  proof (cases k)
    case Leaf
    with "1.prems" show ?thesis by (auto simp: shownIDs_def split: if_splits)
  next
    case Split
    with "1.prems" obtain rects where "splitChildRects (Node k d cs l e w) r = Some rects"
      "solveChildren d r None cs rects = Some out" by (auto split: option.splits)
    from "1.IH" [OF Split this] Split show ?thesis by simp
  next
    case Stack
    with "1.prems" obtain ps where "solveStack (Node k d cs l e w) r = Some ps" "out = (ps, [])" by auto
    with solveStack_visible [of "Node k d cs l e w"] Stack show ?thesis by simp
  qed
qed (auto simp: shownIDs_def split: option.splits prod.splits)

section \<open>The pane that takes over the focus\<close>

definition adjacent :: "'a \<Rightarrow> 'a \<Rightarrow> 'a list \<Rightarrow> bool" where
  "adjacent x y xs \<longleftrightarrow> (\<exists>us vs. xs = us @ x # y # vs \<or> xs = us @ y # x # vs)"

lemma adjacent_within: "adjacent x y xs \<Longrightarrow> adjacent x y (us @ xs @ vs)"
  unfolding adjacent_def by (metis append.assoc append_Cons)

lemma adjacent_mem: "adjacent x y xs \<Longrightarrow> x \<in> set xs \<and> y \<in> set xs"
  by (auto simp: adjacent_def)

lemma children_decompose:
  assumes "i < length cs"
  shows "concat (map leafIDs cs) = concat (map leafIDs (take i cs)) @ leafIDs (cs ! i) @ concat (map leafIDs (drop (Suc i) cs))"
  by (subst id_take_nth_drop [OF assms]) simp

lemma siblingLeaf_adjacent:
  assumes wf: "\<forall>c \<in> set cs. wf_node c" and i: "i < length cs" and two: "2 \<le> length cs" and leaf: "leafIDs (cs ! i) = [target]"
  shows "adjacent target (siblingLeaf cs i) (concat (map leafIDs cs))"
proof (cases "0 < i")
  case True
  let ?p = "cs ! (i - 1)"
  have p: "wf_node ?p" using wf i by simp
  then have ids: "leafIDs ?p = butlast (leafIDs ?p) @ [lastLeaf ?p]"
    using lastLeaf_last wf_node_leaves_nonempty by (metis append_butlast_last_id)
  have "concat (map leafIDs (take i cs)) = concat (map leafIDs (take (i - 1) cs)) @ leafIDs ?p"
    using True i take_Suc_conv_app_nth [of "i - 1" cs] by simp
  then have eq: "concat (map leafIDs cs) = (concat (map leafIDs (take (i - 1) cs)) @ butlast (leafIDs ?p)) @
      lastLeaf ?p # target # concat (map leafIDs (drop (Suc i) cs))"
    unfolding children_decompose [OF i] leaf by (subst (asm) ids) simp
  have "siblingLeaf cs i = lastLeaf ?p" using True by (simp add: siblingLeaf_def)
  then show ?thesis unfolding adjacent_def by (simp only:) (rule exI, rule exI, rule disjI2, rule eq)
next
  case False
  then have i0: "i = 0" "1 < length cs" using two by auto
  let ?s = "cs ! 1"
  have s: "wf_node ?s" using wf i0 by simp
  then have ids: "leafIDs ?s = firstLeaf ?s # tl (leafIDs ?s)"
    using firstLeaf_hd wf_node_leaves_nonempty by (metis list.collapse)
  have "drop (Suc 0) cs = ?s # drop 2 cs" using i0 by (metis One_nat_def Cons_nth_drop_Suc numeral_2_eq_2)
  then have "concat (map leafIDs cs) = [] @ target # firstLeaf ?s # (tl (leafIDs ?s) @ concat (map leafIDs (drop 2 cs)))"
    unfolding children_decompose [OF i] using ids leaf i0 by simp
  then show ?thesis using i0 unfolding adjacent_def siblingLeaf_def by auto
qed

lemma closeRefocusCandidate_adjacent:
  "wf_node n \<Longrightarrow> node_kind n \<noteq> Leaf \<Longrightarrow> target \<in> set (leafIDs n) \<Longrightarrow>
     adjacent target (closeRefocusCandidate n target) (leafIDs n)"
proof (induction n target rule: closeRefocusCandidate.induct)
  case (1 k d cs l e w target)
  have k: "\<not> k = Leaf" using "1.prems"(2) by simp
  have wfc: "\<forall>c \<in> set cs. wf_node c" and two: "2 \<le> length cs"
    using "1.prems"(1) k by (cases k; auto simp: list_all_iff)+
  obtain i where i: "first_index (\<lambda>c. containsLeaf c target) cs = Some i"
    using "1.prems"(3) k by (cases "first_index (\<lambda>c. containsLeaf c target) cs")
      (auto simp: first_index_None containsLeaf_leafIDs)
  note fi = first_index_Some [OF i]
  have mem: "target \<in> set (leafIDs (cs ! i))" "wf_node (cs ! i)" using fi wfc by (auto simp: containsLeaf_leafIDs)
  show ?case
  proof (cases "isLeafOf target (cs ! i)")
    case True
    then have "leafIDs (cs ! i) = [target]" by (simp add: isLeafOf_def visibleIDs_Leaf)
    from siblingLeaf_adjacent [OF wfc _ two this] fi k i True show ?thesis by simp
  next
    case False
    then have nk: "node_kind (cs ! i) \<noteq> Leaf" using mem by (auto simp: isLeafOf_def visibleIDs_Leaf)
    note IH = "1.IH"(1) [OF k i False mem(2) nk mem(1)]
    have "closeRefocusCandidate (cs ! i) target \<noteq> []"
      using adjacent_mem [OF IH] wf_node_leaves_nonempty [OF mem(2)] by metis
    then have eq: "closeRefocusCandidate (Node k d cs l e w) target = closeRefocusCandidate (cs ! i) target"
      using k i False by simp
    have "adjacent target (closeRefocusCandidate (cs ! i) target) (concat (map leafIDs cs))"
      using adjacent_within [OF IH] children_decompose [of i cs] fi by simp
    then show ?thesis unfolding eq using k by simp
  qed
qed

section \<open>Directional focus\<close>

lemma weak_order_facingLess: "weak_order_on S (facingLess priority)"
  unfolding weak_order_on_def facingLess_def by (cases priority) (simp; meson less_asym less_linear less_trans order_less_le not_less order_trans)+

lemma facingCandidates_mem:
  "c \<in> set (facingCandidates ps fr dir) \<longleftrightarrow>
     (\<exists>p \<in> set ps. \<exists>gap ov. sideGapOverlap fr (focusRect p) dir = Some (gap, ov) \<and>
        c = \<lparr>fcID = ID p, fcGap = gap, fcOverlap = ov\<rparr>)"
  by (auto simp: facingCandidates_def map_filter_def image_iff)

text \<open>The chosen pane is a candidate, and no candidate beats it.\<close>

lemma selectFacingCandidate_best:
  assumes "selectFacingCandidate ps fr dir priority = Inr pid"
  shows "\<exists>c \<in> set (facingCandidates ps fr dir). fcID c = pid \<and>
    (\<forall>c' \<in> set (facingCandidates ps fr dir). \<not> facingLess priority c' c)"
proof -
  from assms obtain c cs where s: "stable_sort_by (facingLess priority) (facingCandidates ps fr dir) = c # cs" "fcID c = pid"
    by (auto simp: selectFacingCandidate_def split: list.splits)
  have "c \<in> set (facingCandidates ps fr dir)"
    using set_stable_sort_by [of "facingLess priority" "facingCandidates ps fr dir"] s(1) by (metis list.set_intros(1))
  with s stable_sort_by_hd [OF weak_order_facingLess s(1)] show ?thesis by blast
qed

lemma selectFacingCandidate_none:
  "selectFacingCandidate ps fr dir priority = Inl err \<longleftrightarrow>
     err = ErrNoPane \<and> (\<forall>p \<in> set ps. sideGapOverlap fr (focusRect p) dir = None)"
proof -
  have "stable_sort_by (facingLess priority) (facingCandidates ps fr dir) = [] \<longleftrightarrow> facingCandidates ps fr dir = []"
    by (metis length_0_conv length_stable_sort_by)
  also have "\<dots> \<longleftrightarrow> (\<forall>p \<in> set ps. sideGapOverlap fr (focusRect p) dir = None)"
    by (auto simp: facingCandidates_def map_filter_def filter_empty_conv) (metis option.exhaust surj_pair)
  finally show ?thesis by (auto simp: selectFacingCandidate_def split: list.splits)
qed

text \<open>Moving the focus inside a stack expands the neighbour.\<close>

lemma adjacentStackLeaf_mem:
  assumes "adjacentStackLeaf n idx dir \<noteq> []" "idx < length (node_children n)"
  shows "\<exists>c \<in> set (node_children n). node_kind c = Leaf \<and> node_leaf c = adjacentStackLeaf n idx dir"
proof -
  define order where "order = (case dir of Up \<Rightarrow> rev [0..<idx] | Down \<Rightarrow> [idx + 1..<length (node_children n)] | _ \<Rightarrow> [])"
  have in_range: "\<forall>i \<in> set order. i < length (node_children n)" using assms(2) by (auto simp: order_def split: direction.splits)
  let ?f = "filter (\<lambda>i. node_kind (node_children n ! i) = Leaf) order"
  have eq: "adjacentStackLeaf n idx dir = (case ?f of [] \<Rightarrow> [] | i # _ \<Rightarrow> node_leaf (node_children n ! i))"
    by (simp add: adjacentStackLeaf_def Let_def order_def)
  then obtain i js where f: "?f = i # js" using assms(1) by (cases ?f) auto
  then have "i \<in> set ?f" by (metis list.set_intros(1))
  then have "node_children n ! i \<in> set (node_children n)" "node_kind (node_children n ! i) = Leaf" using in_range by auto
  then show ?thesis using f eq by auto
qed

lemma focusStackLocal_ok:
  shows "focusStackLocal n pid dir = Some (n', f) \<Longrightarrow> wf_node n \<Longrightarrow>
      wf_node n' \<and> leafIDs n' = leafIDs n \<and> f \<in> set (visibleIDs n') \<and> node_kind n \<noteq> Leaf"
    and "focusStackLoop cs pid dir = Some (cs', f) \<Longrightarrow> \<forall>c \<in> set cs. wf_node c \<Longrightarrow>
      (\<forall>c \<in> set cs'. wf_node c) \<and> length cs' = length cs \<and> map leafIDs cs' = map leafIDs cs \<and>
      (\<exists>c \<in> set cs'. f \<in> set (visibleIDs c)) \<and> (\<exists>c \<in> set cs. node_kind c \<noteq> Leaf)"
proof (induction n pid dir and cs pid dir arbitrary: n' f and cs' f rule: focusStackLocal_focusStackLoop.induct)
  case (1 k d cs l e w pid dir)
  let ?n = "Node k d cs l e w"
  have wfc: "\<forall>c \<in> set cs. wf_node c" using "1.prems"(2) by (cases k) (auto simp: list_all_iff)
  show ?case
  proof (cases "if k = Stack then stackDirectLeafIndex ?n pid else None")
    case None
    with "1.prems"(1) obtain cs' where cs': "focusStackLoop cs pid dir = Some (cs', f)" "n' = Node k d cs' l e w" by auto
    from "1.IH" [OF None cs'(1) wfc] have IH: "\<forall>c \<in> set cs'. wf_node c" "length cs' = length cs" "map leafIDs cs' = map leafIDs cs"
      "\<exists>c \<in> set cs'. f \<in> set (visibleIDs c)" "\<exists>c \<in> set cs. node_kind c \<noteq> Leaf" by blast+
    have "k = Split" using IH(5) "1.prems"(2) by (cases k) (auto simp: list_all_iff)
    then show ?thesis using IH cs'(2) "1.prems"(2) by (auto simp: list_all_iff)
  next
    case (Some idx)
    then have k: "k = Stack" and idx: "stackDirectLeafIndex ?n pid = Some idx" by (auto split: if_splits)
    have f: "f = adjacentStackLeaf ?n idx dir" "f \<noteq> []" "n' = Node k d cs l f w"
      using "1.prems"(1) Some by (auto split: if_splits)
    have "f \<in> set (map node_leaf cs)"
      using adjacentStackLeaf_mem [of ?n idx dir] stackDirectLeafIndex_Some [OF idx] f(1,2) by (auto simp: image_iff Bex_def dest: sym)
    then show ?thesis using f(3) k "1.prems"(2) by auto
  qed
next
  case (3 c cs pid dir)
  show ?case
  proof (cases "focusStackLocal c pid dir")
    case None
    with "3.prems"(1) obtain ds where "focusStackLoop cs pid dir = Some (ds, f)" "cs' = c # ds" by auto
    with "3.IH"(2) [OF None] "3.prems"(2) show ?thesis by auto
  next
    case (Some r)
    then obtain c' where c': "focusStackLocal c pid dir = Some (c', f)" "cs' = c' # cs" using "3.prems"(1) by (cases r) auto
    from "3.IH"(1) [OF c'(1)] c'(2) "3.prems"(2) show ?thesis by auto
  qed
qed auto

end
