(* ===== verification/Layout_Columns.thy ===== *)
theory Layout_Columns
  imports Layout_Invariants
begin

text \<open>
  Moving a pane between the columns of a tree: \<^verbatim>\<open>internal/domain/layout/consume_expel.go\<close>.

  A canonical tree is a row of columns, each a pane, a vertical split of panes or a stack. The
  operation rejects every other shape; on a canonical tree it moves the pane, keeps the panes and
  keeps the tree canonical.
\<close>

section \<open>Recognising canonical columns\<close>

definition horizontalRoot :: "node \<Rightarrow> bool" where
  "horizontalRoot n \<longleftrightarrow> node_kind n = Split \<and> node_dir n = Horizontal"

definition canonicalColumns :: "node \<Rightarrow> node list" where
  "canonicalColumns n = (if horizontalRoot n then node_children n else [n])"

text \<open>The identifiers seen so far; \<open>None\<close> for an empty or repeated one.\<close>

definition addUniqueLeafID :: "paneID list \<Rightarrow> paneID \<Rightarrow> paneID list option" where
  "addUniqueLeafID ids pid = (if pid = [] then None else if pid \<in> set ids then None else Some (pid # ids))"

fun addMembers :: "node list \<Rightarrow> paneID list \<Rightarrow> paneID list option" where
  "addMembers [] ids = Some ids"
| "addMembers (m # ms) ids =
     (if node_kind m \<noteq> Leaf \<or> node_children m \<noteq> [] then None
      else (case addUniqueLeafID ids (node_leaf m) of None \<Rightarrow> None | Some ids' \<Rightarrow> addMembers ms ids'))"

definition validCanonicalColumn :: "node \<Rightarrow> paneID list \<Rightarrow> paneID list option" where
  "validCanonicalColumn c ids =
     (case node_kind c of
        Leaf \<Rightarrow> if node_children c \<noteq> [] then None else addUniqueLeafID ids (node_leaf c)
      | Split \<Rightarrow>
          if node_dir c \<noteq> Vertical \<or> length (node_children c) < 2 then None
          else addMembers (node_children c) ids
      | Stack \<Rightarrow>
          if length (node_children c) < 2 then None
          else (case addMembers (node_children c) ids of
              None \<Rightarrow> None
            | Some ids' \<Rightarrow>
                if list_ex (\<lambda>m. node_leaf m = node_expanded c) (node_children c) then Some ids' else None))"

fun validColumns :: "node list \<Rightarrow> paneID list \<Rightarrow> paneID list option" where
  "validColumns [] ids = Some ids"
| "validColumns (c # cs) ids =
     (case validCanonicalColumn c ids of None \<Rightarrow> None | Some ids' \<Rightarrow> validColumns cs ids')"

definition validCanonicalColumnTree :: "tree \<Rightarrow> bool" where
  "validCanonicalColumnTree t =
     (case Root t of
        None \<Rightarrow> False
      | Some n \<Rightarrow>
          if canonicalColumns n = [] then False
          else if horizontalRoot n \<and> length (canonicalColumns n) < 2 then False
          else (case validColumns (canonicalColumns n) [] of
              None \<Rightarrow> False
            | Some ids \<Rightarrow> Focus t \<noteq> [] \<and> Focus t \<in> set ids))"

text \<open>The column of a pane and its place in it; \<open>None\<close> in second place is the Go index -1.\<close>

fun findColumnMember :: "nat \<Rightarrow> node list \<Rightarrow> paneID \<Rightarrow> (nat \<times> nat option) option" where
  "findColumnMember i [] target = None"
| "findColumnMember i (c # cs) target =
     (if node_kind c = Leaf then
        (if node_leaf c = target then Some (i, None) else findColumnMember (Suc i) cs target)
      else (case first_index (\<lambda>m. node_leaf m = target) (node_children c) of
          Some j \<Rightarrow> Some (i, Some j)
        | None \<Rightarrow> findColumnMember (Suc i) cs target))"

section \<open>The move\<close>

definition fairShareWeight :: "node list \<Rightarrow> float64" where
  "fairShareWeight siblings =
     (if siblings = [] then Fin 0
      else fdiv (foldl (\<lambda>s n. fadd s (effectiveWeight (node_weight n))) (Fin 0) siblings)
             (float_of_int (int (length siblings))))"

definition removeNodeAt :: "node list \<Rightarrow> nat \<Rightarrow> node list" where
  "removeNodeAt nodes index = remove_at index nodes"

definition insertNodeAt :: "node list \<Rightarrow> nat \<Rightarrow> node \<Rightarrow> node list" where
  "insertNodeAt nodes index n = insert_at index n nodes"

text \<open>\<open>None\<close> is the index panic on the areas of an unsolvable root.\<close>

definition absorb :: "node \<Rightarrow> node \<Rightarrow> rect list option \<Rightarrow> nat \<Rightarrow> node option" where
  "absorb destination moved columnAreas destinationIndex =
     (case node_kind destination of
        Leaf \<Rightarrow> Some (split_node Vertical [set_weight (Fin 0) destination, moved] (node_weight destination))
      | Split \<Rightarrow>
          (case columnAreas of
             None \<Rightarrow> None
           | Some areas \<Rightarrow>
               if length areas \<le> destinationIndex then None
               else let normal = normalizeChildWeightsFromArea destination (areas ! destinationIndex)
                    in Some (set_children (node_children normal @
                         [set_weight (fairShareWeight (node_children normal)) moved]) normal))
      | Stack \<Rightarrow>
          Some (clearChildWeights (set_expanded (node_leaf moved)
            (set_children (node_children destination @ [moved]) destination))))"

definition consumeSingletonColumn :: "node \<Rightarrow> nat \<Rightarrow> direction \<Rightarrow> rect \<Rightarrow> node option" where
  "consumeSingletonColumn n sourceIndex dir area =
     (let destinationIndex = (if dir = Right then sourceIndex + 1 else sourceIndex - 1);
          moved = set_weight (Fin 0) (node_children n ! sourceIndex)
      in case absorb (node_children n ! destinationIndex) moved (splitChildRects n area) destinationIndex of
           None \<Rightarrow> None
         | Some destination \<Rightarrow>
             (let cs = removeNodeAt ((node_children n)[destinationIndex := destination]) sourceIndex in
              Some (if length cs = 1 then set_weight (node_weight n) (hd cs) else set_children cs n)))"

text \<open>The column after one of its members has left it, and what stands for it in the row.\<close>

definition reducedColumn :: "node \<Rightarrow> nat \<Rightarrow> node" where
  "reducedColumn source j =
     (let moved = node_children source ! j;
          rest = set_children (removeNodeAt (node_children source) j) source
      in if node_kind source = Stack
         then clearChildWeights (set_expanded
           (if node_expanded source = node_leaf moved then node_leaf (hd (node_children rest)) else node_expanded source) rest)
         else rest)"

definition withoutMember :: "node \<Rightarrow> nat \<Rightarrow> node" where
  "withoutMember source j =
     (let rest = reducedColumn source j in
      if length (node_children rest) = 1 then set_weight (node_weight source) (hd (node_children rest)) else rest)"

definition expelColumnMember :: "node \<Rightarrow> nat \<Rightarrow> nat \<Rightarrow> direction \<Rightarrow> node" where
  "expelColumnMember n columnIndex memberIndex dir =
     (let source = canonicalColumns n ! columnIndex;
          moved = set_weight (Fin 0) (node_children source ! memberIndex);
          remaining = withoutMember source memberIndex
      in if \<not> horizontalRoot n then
           split_node Horizontal
             (if dir = Left then [moved, set_weight (Fin 0) remaining] else [set_weight (Fin 0) remaining, moved])
             (node_weight n)
         else
           let cs = (node_children n)[columnIndex := remaining] in
           set_children (insertNodeAt cs (if dir = Right then columnIndex + 1 else columnIndex)
             (set_weight (fairShareWeight cs) moved)) n)"

datatype moveResult = Moved tree | Unmoved | MoveFailed layoutError | MovePanics

definition hasNeighborColumn :: "nat \<Rightarrow> nat \<Rightarrow> direction \<Rightarrow> bool" where
  "hasNeighborColumn columnIndex cnt dir = (if dir = Right then columnIndex + 1 < cnt else 0 < columnIndex)"

text \<open>The part after the candidate has been cloned and solved.\<close>

definition moveCandidate :: "node \<Rightarrow> paneID \<Rightarrow> direction \<Rightarrow> rect \<Rightarrow> node option" where
  "moveCandidate n target dir area =
     (case findColumnMember 0 (canonicalColumns n) target of
        None \<Rightarrow> None
      | Some (columnIndex, member) \<Rightarrow>
          (let rt = (if horizontalRoot n then normalizeChildWeightsFromArea n area else n) in
           case member of
             None \<Rightarrow> consumeSingletonColumn rt columnIndex dir area
           | Some j \<Rightarrow> Some (expelColumnMember rt columnIndex j dir)))"

definition ConsumeOrExpelPane :: "tree \<Rightarrow> paneID \<Rightarrow> direction \<Rightarrow> rect \<Rightarrow> moveResult" where
  "ConsumeOrExpelPane t target dir area =
     (if dir \<noteq> Left \<and> dir \<noteq> Right then MoveFailed ErrInvalidDirection
      else if \<not> validCanonicalColumnTree t then MoveFailed ErrUnsupportedColumnLayout
      else (case Root t of
          None \<Rightarrow> MoveFailed ErrUnsupportedColumnLayout
        | Some n \<Rightarrow>
            (case findColumnMember 0 (canonicalColumns n) target of
               None \<Rightarrow> MoveFailed ErrNotFound
             | Some (columnIndex, _) \<Rightarrow>
                 if node_kind (canonicalColumns n ! columnIndex) = Leaf \<and>
                    \<not> hasNeighborColumn columnIndex (length (canonicalColumns n)) dir
                 then Unmoved
                 else if Solve (Some n) area = None then MoveFailed ErrTooSmall
                 else (case moveCandidate n target dir area of
                     None \<Rightarrow> MovePanics
                   | Some n' \<Rightarrow>
                       if Solve (Some n') area = None then MoveFailed ErrTooSmall
                       else Moved \<lparr>Root = Some n', Focus = target\<rparr>))))"

section \<open>Canonical trees are well formed\<close>

text \<open>What the validation establishes of a column.\<close>

definition leafMember :: "node \<Rightarrow> bool" where
  "leafMember m \<longleftrightarrow> node_kind m = Leaf \<and> node_children m = [] \<and> node_leaf m \<noteq> []"

definition canonicalColumn :: "node \<Rightarrow> bool" where
  "canonicalColumn c \<longleftrightarrow>
     (case node_kind c of
        Leaf \<Rightarrow> leafMember c
      | Split \<Rightarrow> node_dir c = Vertical \<and> 2 \<le> length (node_children c) \<and> (\<forall>m \<in> set (node_children c). leafMember m)
      | Stack \<Rightarrow> 2 \<le> length (node_children c) \<and> (\<forall>m \<in> set (node_children c). leafMember m) \<and>
          node_expanded c \<in> node_leaf ` set (node_children c))"

lemma leafMember_wf: "leafMember m \<Longrightarrow> wf_node m \<and> leafIDs m = [node_leaf m]"
  by (cases m) (auto simp: leafMember_def)

lemma canonicalColumn_wf: "canonicalColumn c \<Longrightarrow> wf_node c"
  using leafMember_wf by (auto simp: canonicalColumn_def wf_node_unfold [of c] leafMember_def split: kind.splits)

lemma members_leafIDs: "\<forall>m \<in> set ms. leafMember m \<Longrightarrow> concat (map leafIDs ms) = map node_leaf ms"
  by (induction ms) (auto simp: leafMember_wf)

lemma addMembers_Some:
  "addMembers ms ids = Some ids' \<longleftrightarrow>
     (\<forall>m \<in> set ms. leafMember m) \<and> distinct (map node_leaf ms) \<and> set (map node_leaf ms) \<inter> set ids = {} \<and>
     ids' = rev (map node_leaf ms) @ ids"
  by (induction ms arbitrary: ids) (auto simp: addUniqueLeafID_def leafMember_def)

lemma addMembers_column:
  assumes "node_kind c \<noteq> Leaf"
  shows "addMembers (node_children c) ids = Some ids' \<longleftrightarrow>
    (\<forall>m \<in> set (node_children c). leafMember m) \<and> distinct (leafIDs c) \<and> set (leafIDs c) \<inter> set ids = {} \<and>
    ids' = rev (leafIDs c) @ ids"
proof (cases "\<forall>m \<in> set (node_children c). leafMember m")
  case True
  then have "leafIDs c = map node_leaf (node_children c)"
    using assms members_leafIDs leafIDs_unfold [of c] by simp
  then show ?thesis using True by (simp only: addMembers_Some)
qed (auto simp: addMembers_Some)

lemma validCanonicalColumn_Some:
  "validCanonicalColumn c ids = Some ids' \<longleftrightarrow>
     canonicalColumn c \<and> distinct (leafIDs c) \<and> set (leafIDs c) \<inter> set ids = {} \<and> ids' = rev (leafIDs c) @ ids"
proof (cases "node_kind c")
  case Leaf
  then show ?thesis
    by (auto simp: validCanonicalColumn_def addUniqueLeafID_def canonicalColumn_def leafMember_def visibleIDs_Leaf)
next
  case Split
  then show ?thesis
    using addMembers_column [of c ids ids'] by (auto simp: validCanonicalColumn_def canonicalColumn_def)
next
  case Stack
  then show ?thesis
    using addMembers_column [of c ids] by (auto simp: validCanonicalColumn_def canonicalColumn_def list_ex_iff image_iff Bex_def
        eq_commute [of _ "node_expanded c"] split: option.splits)
qed

lemma validColumns_Some:
  "validColumns cs ids = Some ids' \<longleftrightarrow>
     (\<forall>c \<in> set cs. canonicalColumn c) \<and> distinct (concat (map leafIDs cs)) \<and>
     set (concat (map leafIDs cs)) \<inter> set ids = {} \<and> ids' = rev (concat (map leafIDs cs)) @ ids"
proof (induction cs arbitrary: ids)
  case (Cons c cs)
  have "validColumns (c # cs) ids = Some ids' \<longleftrightarrow>
      (\<exists>ids1. validCanonicalColumn c ids = Some ids1 \<and> validColumns cs ids1 = Some ids')"
    by (auto split: option.splits)
  also have "\<dots> \<longleftrightarrow> canonicalColumn c \<and> distinct (leafIDs c) \<and> set (leafIDs c) \<inter> set ids = {} \<and>
      validColumns cs (rev (leafIDs c) @ ids) = Some ids'"
    unfolding validCanonicalColumn_Some by blast
  also have "\<dots> \<longleftrightarrow> (\<forall>c \<in> set (c # cs). canonicalColumn c) \<and> distinct (leafIDs c @ concat (map leafIDs cs)) \<and>
      set (leafIDs c @ concat (map leafIDs cs)) \<inter> set ids = {} \<and> ids' = rev (leafIDs c @ concat (map leafIDs cs)) @ ids"
    unfolding Cons.IH distinct_append set_append set_rev rev_append append.assoc by auto
  finally show ?case by simp
qed auto

text \<open>A row of at least two columns, or one column.\<close>

definition canonicalRow :: "node \<Rightarrow> bool" where
  "canonicalRow n \<longleftrightarrow>
     (\<forall>c \<in> set (canonicalColumns n). canonicalColumn c) \<and> (horizontalRoot n \<longrightarrow> 2 \<le> length (node_children n))"

lemma leafIDs_columns: "concat (map leafIDs (canonicalColumns n)) = leafIDs n"
  by (simp add: canonicalColumns_def horizontalRoot_def leafIDs_unfold [of n])

lemma canonicalRow_wf: "canonicalRow n \<Longrightarrow> wf_node n"
proof (cases "horizontalRoot n")
  case True
  then show "canonicalRow n \<Longrightarrow> wf_node n"
    using canonicalColumn_wf
    by (simp add: canonicalRow_def canonicalColumns_def horizontalRoot_def wf_node_unfold [of n])
qed (use canonicalColumn_wf in \<open>simp add: canonicalRow_def canonicalColumns_def\<close>)

lemma validCanonicalColumnTree_iff:
  "validCanonicalColumnTree t \<longleftrightarrow>
     (\<exists>n. Root t = Some n \<and> canonicalRow n \<and> distinct (leafIDs n) \<and> Focus t \<in> set (leafIDs n))"
proof (cases "Root t")
  case (Some n)
  have "validColumns (canonicalColumns n) [] = Some ids \<longleftrightarrow>
      (\<forall>c \<in> set (canonicalColumns n). canonicalColumn c) \<and> distinct (leafIDs n) \<and> ids = rev (leafIDs n)" for ids
    using validColumns_Some [of "canonicalColumns n" "[]" ids] unfolding leafIDs_columns by simp
  note v = this
  show ?thesis
  proof (cases "canonicalRow n \<and> distinct (leafIDs n)")
    case True
    then have "[] \<notin> set (leafIDs n)" using canonicalRow_wf wf_node_leaves_nonempty by blast
    moreover have "validColumns (canonicalColumns n) [] = Some (rev (leafIDs n))"
      using True by (simp add: v canonicalRow_def)
    ultimately show ?thesis using True Some
      by (auto simp: validCanonicalColumnTree_def canonicalRow_def canonicalColumns_def split: if_splits)
  next
    case False
    then show ?thesis using Some v
      by (auto simp: validCanonicalColumnTree_def canonicalRow_def canonicalColumns_def split: if_splits option.splits)
  qed
qed (simp add: validCanonicalColumnTree_def)

section \<open>The move keeps the panes and the shape\<close>

lemma leafMember_weight [simp]: "leafMember (set_weight w m) = leafMember m"
  by (simp add: leafMember_def)

lemma canonicalColumn_weight [simp]: "canonicalColumn (set_weight w c) = canonicalColumn c"
  by (simp add: canonicalColumn_def split: kind.split)

lemma canonicalColumn_Leaf: "canonicalColumn c \<Longrightarrow> node_kind c = Leaf \<Longrightarrow> leafMember c"
  by (simp add: canonicalColumn_def)

lemma leafMember_column: "leafMember m \<Longrightarrow> canonicalColumn m"
  by (simp add: canonicalColumn_def leafMember_def)

lemma canonicalColumn_row: "canonicalColumn c \<Longrightarrow> canonicalRow c"
  by (auto simp: canonicalRow_def canonicalColumns_def horizontalRoot_def canonicalColumn_def)

lemma canonicalRow_columns:
  "node_kind n = Split \<Longrightarrow> node_dir n = Horizontal \<Longrightarrow> 2 \<le> length cs \<Longrightarrow> \<forall>c \<in> set cs. canonicalColumn c \<Longrightarrow>
     canonicalRow (set_children cs n)"
  by (simp add: canonicalRow_def canonicalColumns_def horizontalRoot_def)

lemma findColumnMember_Some:
  "findColumnMember i cs target = Some (j, m) \<Longrightarrow>
     i \<le> j \<and> j - i < length cs \<and>
     (case m of None \<Rightarrow> isLeafOf target (cs ! (j - i))
      | Some q \<Rightarrow> node_kind (cs ! (j - i)) \<noteq> Leaf \<and> q < length (node_children (cs ! (j - i))) \<and>
          node_leaf (node_children (cs ! (j - i)) ! q) = target)"
proof (induction cs arbitrary: i)
  case (Cons c cs)
  show ?case
  proof (cases "findColumnMember i (c # cs) target = findColumnMember (Suc i) cs target")
    case True
    with Cons.prems have later: "findColumnMember (Suc i) cs target = Some (j, m)" by simp
    have eq: "(c # cs) ! (j - i) = cs ! (j - Suc i)" using Cons.IH [OF later] by (simp add: nth_Cons')
    show ?thesis unfolding eq using Cons.IH [OF later] by auto
  next
    case False
    show ?thesis
    proof (cases "node_kind c = Leaf")
      case True
      then show ?thesis using False Cons.prems by (auto simp: isLeafOf_def split: if_splits)
    next
      case notLeaf: False
      with False obtain q where q: "first_index (\<lambda>m. node_leaf m = target) (node_children c) = Some q"
        by (auto split: option.splits)
      then have "j = i" "m = Some q" using notLeaf Cons.prems by simp_all
      with first_index_Some [OF q] notLeaf show ?thesis by simp
    qed
  qed
qed simp

lemma findColumnMember_None:
  "\<forall>c \<in> set cs. canonicalColumn c \<Longrightarrow> findColumnMember i cs target = None \<Longrightarrow> target \<notin> set (concat (map leafIDs cs))"
proof (induction cs arbitrary: i)
  case (Cons c cs)
  have "target \<notin> set (leafIDs c)"
  proof (cases "node_kind c = Leaf")
    case True
    then show ?thesis using Cons.prems by (auto simp: visibleIDs_Leaf split: if_splits)
  next
    case False
    then have "\<forall>m \<in> set (node_children c). leafMember m"
      using Cons.prems(1) by (auto simp: canonicalColumn_def split: kind.splits)
    then have "leafIDs c = map node_leaf (node_children c)" using False leafIDs_unfold [of c] members_leafIDs by simp
    then show ?thesis using False Cons.prems(2) by (auto simp: first_index_None split: option.splits)
  qed
  moreover have "findColumnMember (Suc i) cs target = None" using Cons.prems(2) by (auto split: if_splits option.splits)
  ultimately show ?case using Cons.IH [of "Suc i"] Cons.prems(1) by auto
qed simp

lemma mset_columns_remove_at:
  "i < length cs \<Longrightarrow> mset (leafIDs (cs ! i)) + mset (concat (map leafIDs (remove_at i cs))) = mset (concat (map leafIDs cs))"
  by (subst (3) id_take_nth_drop [of i cs]) (auto simp: remove_at_def)

lemma mset_columns_insert_at:
  "mset (concat (map leafIDs (insert_at i c cs))) = mset (leafIDs c) + mset (concat (map leafIDs cs))"
  by (subst (2) append_take_drop_id [of i cs, symmetric]) (simp only: map_append concat_append mset_append, simp add: insert_at_def)

lemma mset_exchange: "A + N = B + M \<Longrightarrow> add_mset t M = N \<Longrightarrow> add_mset t A = B"
  by auto

lemma set_remove_at: "set (remove_at i xs) \<subseteq> set xs"
  by (auto simp: remove_at_def dest: in_set_takeD in_set_dropD)

lemma nth_in_remove_at: "j < length xs \<Longrightarrow> j \<noteq> i \<Longrightarrow> xs ! j \<in> set (remove_at i xs)"
  by (cases "j < i") (auto simp: remove_at_def in_set_conv_nth intro: exI [of _ j] exI [of _ "j - Suc i"])

text \<open>A canonical column takes a pane in at its end.\<close>

lemma absorb_ok:
  assumes dest: "canonicalColumn destination" and moved: "leafMember moved"
    and di: "di < length areas" and fit: "fits_screen (areas ! di)"
  shows "\<exists>c. absorb destination moved (Some areas) di = Some c \<and> canonicalColumn c \<and>
    leafIDs c = leafIDs destination @ [node_leaf moved] \<and> node_leaf moved \<in> set (visibleIDs c)"
proof (cases "node_kind destination")
  case Leaf
  with dest moved show ?thesis
    by (auto simp: absorb_def canonicalColumn_def leafMember_wf split_node_def visibleIDs_Leaf leafMember_def)
next
  case Split
  define normal where "normal = normalizeChildWeightsFromArea destination (areas ! di)"
  obtain ws where ws: "length ws = length (node_children destination)"
    "node_children normal = map (\<lambda>(c, w). set_weight w c) (zip (node_children destination) ws)"
    using normalize_children [OF fit, of destination] unfolding normal_def by blast
  have ms: "\<forall>m \<in> set (node_children normal). leafMember m" "length (node_children normal) = length (node_children destination)"
    using Split dest ws by (auto simp: canonicalColumn_def dest: set_zip_leftD)
  have ids: "map leafIDs (node_children normal) = map leafIDs (node_children destination)"
    unfolding normal_def by (rule normalize_leafIDs(1) [OF fit])
  have sh: "node_kind normal = Split" "node_dir normal = node_dir destination"
    using Split by (auto simp: normal_def normalizeChildWeightsFromArea_def split: option.split)
  have eq: "absorb destination moved (Some areas) di = Some (set_children (node_children normal @
      [set_weight (fairShareWeight (node_children normal)) moved]) normal)"
    using Split di by (simp add: absorb_def Let_def normal_def)
  have m: "leafIDs moved = [node_leaf moved]" "visibleIDs moved = [node_leaf moved]"
    using moved by (simp_all add: leafMember_def visibleIDs_Leaf)
  let ?c = "set_children (node_children normal @ [set_weight (fairShareWeight (node_children normal)) moved]) normal"
  have "leafIDs ?c = leafIDs destination @ [node_leaf moved]" "node_leaf moved \<in> set (visibleIDs ?c)"
    using sh(1) Split ids by (simp_all add: leafIDs_unfold [of ?c] leafIDs_unfold [of destination] visibleIDs_unfold [of ?c] m)
  moreover have "canonicalColumn ?c" using Split dest sh ms moved by (simp add: canonicalColumn_def)
  ultimately show ?thesis unfolding eq by blast
next
  case Stack
  with dest moved show ?thesis
    by (auto simp: absorb_def canonicalColumn_def leafMember_wf clearChildWeights_def visibleIDs_unfold [of "set_children _ _"]
      leafIDs_unfold [of "set_children _ _"] leafIDs_unfold [of destination] comp_def)
qed

text \<open>A canonical column lets a member go.\<close>

lemma reducedColumn_ok:
  assumes col: "canonicalColumn source" and k: "node_kind source \<noteq> Leaf" and j: "j < length (node_children source)"
  shows "\<forall>m \<in> set (node_children (reducedColumn source j)). leafMember m"
    "length (node_children (reducedColumn source j)) = length (node_children source) - 1"
    "map node_leaf (node_children (reducedColumn source j)) = remove_at j (map node_leaf (node_children source))"
    "3 \<le> length (node_children source) \<Longrightarrow> canonicalColumn (reducedColumn source j)"
    "node_kind (reducedColumn source j) = node_kind source"
proof -
  define cs where "cs = remove_at j (node_children source)"
  have ms: "\<forall>m \<in> set (node_children source). leafMember m"
    using col k by (auto simp: canonicalColumn_def split: kind.splits)
  have cs: "\<forall>m \<in> set cs. leafMember m" "length cs = length (node_children source) - 1"
    using ms length_remove_at [OF j] by (auto simp: cs_def dest: set_remove_at [THEN subsetD])
  have ch: "node_children (reducedColumn source j) = (if node_kind source = Stack then map (set_weight (Fin 0)) cs else cs)"
    by (simp add: reducedColumn_def Let_def removeNodeAt_def cs_def clearChildWeights_def)
  show "\<forall>m \<in> set (node_children (reducedColumn source j)). leafMember m"
    "length (node_children (reducedColumn source j)) = length (node_children source) - 1"
    "map node_leaf (node_children (reducedColumn source j)) = remove_at j (map node_leaf (node_children source))"
    using cs by (auto simp: ch cs_def remove_at_def take_map drop_map comp_def)
  show kind: "node_kind (reducedColumn source j) = node_kind source"
    by (simp add: reducedColumn_def Let_def)
  assume len: "3 \<le> length (node_children source)"
  have ne: "cs \<noteq> []" using cs(2) len by auto
  have "node_expanded (reducedColumn source j) \<in> node_leaf ` set cs" if st: "node_kind source = Stack"
  proof (cases "node_expanded source = node_leaf (node_children source ! j)")
    case True
    then show ?thesis using st ne by (simp add: reducedColumn_def Let_def removeNodeAt_def clearChildWeights_def cs_def)
  next
    case False
    have "mset (node_children source) = add_mset (node_children source ! j) (mset cs)"
      using mset_remove_at [OF j] by (simp add: cs_def)
    then have "set (node_children source) = insert (node_children source ! j) (set cs)"
      by (metis set_mset_add_mset_insert set_mset_mset)
    with False st col have "node_expanded source \<in> node_leaf ` set cs" by (auto simp: canonicalColumn_def)
    with False st show ?thesis by (simp add: reducedColumn_def Let_def clearChildWeights_def)
  qed
  moreover have "node_dir (reducedColumn source j) = node_dir source"
    by (simp add: reducedColumn_def Let_def clearChildWeights_def)
  ultimately show "canonicalColumn (reducedColumn source j)"
    using col k cs len by (auto simp: canonicalColumn_def kind ch image_image split: kind.splits)
qed

lemma withoutMember_ok:
  assumes col: "canonicalColumn source" and k: "node_kind source \<noteq> Leaf" and j: "j < length (node_children source)"
  shows "canonicalColumn (withoutMember source j)"
    "add_mset (node_leaf (node_children source ! j)) (mset (leafIDs (withoutMember source j))) = mset (leafIDs source)"
proof -
  let ?rest = "reducedColumn source j"
  note r = reducedColumn_ok [OF col k j]
  have ms: "\<forall>m \<in> set (node_children source). leafMember m" and len: "2 \<le> length (node_children source)"
    using col k by (auto simp: canonicalColumn_def split: kind.splits)
  have rest: "leafIDs ?rest = map node_leaf (node_children ?rest)"
    using members_leafIDs [OF r(1)] r(5) k leafIDs_unfold [of ?rest] by simp
  have w: "canonicalColumn (withoutMember source j) \<and> leafIDs (withoutMember source j) = map node_leaf (node_children ?rest)"
  proof (cases "length (node_children ?rest) = 1")
    case True
    then obtain m where m: "node_children ?rest = [m]" by (auto simp: length_Suc_conv)
    then have "leafMember m" using r(1) by simp
    with m show ?thesis by (simp add: withoutMember_def Let_def leafMember_column leafMember_wf)
  next
    case False
    then have "3 \<le> length (node_children source)" using r(2) len by auto
    with False r(4) rest show ?thesis by (simp add: withoutMember_def Let_def)
  qed
  have "leafIDs source = map node_leaf (node_children source)"
    using members_leafIDs [OF ms] k leafIDs_unfold [of source] by simp
  with mset_remove_at [of j "map node_leaf (node_children source)"] w r(3) j
  show "canonicalColumn (withoutMember source j)"
    "add_mset (node_leaf (node_children source ! j)) (mset (leafIDs (withoutMember source j))) = mset (leafIDs source)"
    by simp_all
qed

text \<open>What a move promises of the new root.\<close>

definition movesPane :: "node \<Rightarrow> paneID \<Rightarrow> node \<Rightarrow> bool" where
  "movesPane n target n' \<longleftrightarrow>
     canonicalRow n' \<and> mset (leafIDs n') = mset (leafIDs n) \<and> target \<in> set (visibleIDs n')"

lemma visible_child:
  "node_kind n = Split \<Longrightarrow> c \<in> set (node_children n) \<Longrightarrow> set (visibleIDs c) \<subseteq> set (visibleIDs n)"
  by (auto simp: visibleIDs_unfold [of n])

lemma consumeSingletonColumn_ok:
  assumes row: "canonicalRow n" and h: "horizontalRoot n" and i: "i < length (node_children n)"
    and src: "isLeafOf target (node_children n ! i)" and nb: "hasNeighborColumn i (length (node_children n)) dir"
    and areas: "splitChildRects n area = Some areas" and fit: "fits_screen area"
  shows "\<exists>n'. consumeSingletonColumn n i dir area = Some n' \<and> movesPane n target n'"
proof -
  let ?cs = "node_children n"
  define di where "di = (if dir = Right then i + 1 else i - 1)"
  have di: "di < length ?cs" "di \<noteq> i" using nb i by (auto simp: di_def hasNeighborColumn_def split: if_splits)
  have n: "node_kind n = Split" "node_dir n = Horizontal" using h by (simp_all add: horizontalRoot_def)
  have cols: "\<forall>c \<in> set ?cs. canonicalColumn c" using row h by (simp add: canonicalRow_def canonicalColumns_def)
  have moved: "leafMember (set_weight (Fin 0) (?cs ! i))" "node_leaf (?cs ! i) = target" "leafIDs (?cs ! i) = [target]"
    using src cols i canonicalColumn_Leaf by (auto simp: isLeafOf_def visibleIDs_Leaf)
  have al: "di < length areas" "fits_screen (areas ! di)"
    using splitChildRects_tile(2,3) [OF areas fit] di by auto
  have "canonicalColumn (?cs ! di)" using cols di by simp
  from absorb_ok [OF this moved(1) al] moved(2) obtain c where
    c: "absorb (?cs ! di) (set_weight (Fin 0) (?cs ! i)) (Some areas) di = Some c" "canonicalColumn c"
    "leafIDs c = leafIDs (?cs ! di) @ [target]" "target \<in> set (visibleIDs c)" by auto
  define ds where "ds = remove_at i (?cs[di := c])"
  have lds: "length ds = length ?cs - 1" "2 \<le> length ?cs"
    using i di length_remove_at [of i "?cs[di := c]"] row h by (auto simp: ds_def canonicalRow_def)
  have ds: "\<forall>x \<in> set ds. canonicalColumn x"
    using cols c(2) by (auto simp: ds_def dest!: set_remove_at [THEN subsetD] set_update_subset_insert [THEN subsetD])
  have mem: "c \<in> set ds"
    using nth_in_remove_at [of di "?cs[di := c]" i] di by (simp add: ds_def)
  have ids: "mset (concat (map leafIDs ds)) = mset (leafIDs n)"
    using mset_columns_remove_at [of i "?cs[di := c]"] mset_children_update [OF di(1), of c] i di c(3) moved(3) n(1)
    by (simp add: ds_def leafIDs_unfold [of n])
  have eq: "consumeSingletonColumn n i dir area =
      Some (if length ds = 1 then set_weight (node_weight n) (hd ds) else set_children ds n)"
    using c(1) areas by (simp add: consumeSingletonColumn_def Let_def ds_def removeNodeAt_def di_def [symmetric])
  show ?thesis
  proof (cases "length ds = 1")
    case True
    then have x: "ds = [c]" using mem by (auto simp: length_Suc_conv)
    with ds ids c(4) have "movesPane n target (set_weight (node_weight n) c)"
      by (simp add: movesPane_def canonicalColumn_row)
    then show ?thesis unfolding eq x by simp
  next
    case False
    have "canonicalRow (set_children ds n)" using canonicalRow_columns [OF n _ ds] lds False by simp
    moreover have "target \<in> set (visibleIDs (set_children ds n))"
      using visible_child [of "set_children ds n" c] n mem c(4) by auto
    ultimately have "movesPane n target (set_children ds n)"
      using ids n(1) by (simp add: movesPane_def leafIDs_unfold [of "set_children ds n"])
    then show ?thesis unfolding eq using False by simp
  qed
qed

lemma expelColumnMember_ok:
  assumes row: "canonicalRow n" and i: "i < length (canonicalColumns n)"
    and k: "node_kind (canonicalColumns n ! i) \<noteq> Leaf" and j: "j < length (node_children (canonicalColumns n ! i))"
    and target: "node_leaf (node_children (canonicalColumns n ! i) ! j) = target"
  shows "movesPane n target (expelColumnMember n i j dir)"
proof -
  define src where "src = canonicalColumns n ! i"
  define rest where "rest = withoutMember src j"
  define moved where "moved = set_weight (Fin 0) (node_children src ! j)"
  have col: "canonicalColumn src" using row i by (simp add: canonicalRow_def src_def)
  note w = withoutMember_ok [OF col k [folded src_def] j [folded src_def], folded rest_def]
  have mem: "leafMember moved" "node_leaf moved = target"
    using col k j target by (auto simp: src_def moved_def canonicalColumn_def split: kind.splits)
  have m: "leafIDs moved = [target]" "visibleIDs moved = [target]" "canonicalColumn moved"
    using mem by (auto simp: leafMember_def visibleIDs_Leaf leafMember_column)
  show ?thesis
  proof (cases "horizontalRoot n")
    case False
    have src: "src = n" using False i by (simp add: src_def canonicalColumns_def)
    let ?cs = "if dir = Left then [moved, set_weight (Fin 0) rest] else [set_weight (Fin 0) rest, moved]"
    have eq: "expelColumnMember n i j dir = split_node Horizontal ?cs (node_weight n)"
      using False by (simp add: expelColumnMember_def Let_def src_def rest_def moved_def)
    have "canonicalRow (split_node Horizontal ?cs (node_weight n))"
      using w(1) m(3) by (simp add: canonicalRow_def canonicalColumns_def horizontalRoot_def split_node_def)
    then show ?thesis unfolding eq using w(2) m target src by (simp add: movesPane_def src_def)
  next
    case True
    then have n: "node_kind n = Split" "node_dir n = Horizontal" "src = node_children n ! i" "i < length (node_children n)"
      using i by (simp_all add: horizontalRoot_def src_def canonicalColumns_def)
    define cs where "cs = (node_children n)[i := rest]"
    define ds where "ds = insert_at (if dir = Right then i + 1 else i) (set_weight (fairShareWeight cs) moved) cs"
    have eq: "expelColumnMember n i j dir = set_children ds n"
      using True n(3) by (simp add: expelColumnMember_def Let_def src_def rest_def moved_def cs_def ds_def insertNodeAt_def
          canonicalColumns_def)
    have "\<forall>c \<in> set ds. canonicalColumn c"
      using row True w(1) m(3)
      by (auto simp: ds_def cs_def canonicalRow_def canonicalColumns_def dest!: set_update_subset_insert [THEN subsetD])
    moreover have "2 \<le> length ds" using row True by (simp add: ds_def cs_def canonicalRow_def)
    ultimately have "canonicalRow (set_children ds n)" using canonicalRow_columns [OF n(1,2)] by blast
    moreover have "mset (leafIDs (set_children ds n)) = mset (leafIDs n)"
      using mset_exchange [OF mset_children_update [OF n(4), of rest] w(2) [unfolded n(3)]] m(1) n target
      by (simp add: ds_def cs_def mset_columns_insert_at leafIDs_unfold [of "set_children _ n"] leafIDs_unfold [of n] src_def)
    moreover have "target \<in> set (visibleIDs (set_children ds n))"
      using visible_child [of "set_children ds n" "set_weight (fairShareWeight cs) moved"] n(1) m(2) by (auto simp: ds_def)
    ultimately show ?thesis unfolding eq by (simp add: movesPane_def)
  qed
qed

section \<open>The whole operation\<close>

lemma set_children_same [simp]: "set_children (node_children n) n = n"
  by (simp add: set_children_def)

lemma normalize_shape:
  assumes "fits_screen area"
  shows "\<exists>ws. length ws = length (node_children n) \<and>
    normalizeChildWeightsFromArea n area = set_children (map (\<lambda>(c, w). set_weight w c) (zip (node_children n) ws)) n"
proof -
  have "normalizeChildWeightsFromArea n area = set_children (node_children (normalizeChildWeightsFromArea n area)) n"
    by (simp add: normalizeChildWeightsFromArea_def split: option.split)
  with normalize_children [OF assms, of n] show ?thesis by metis
qed

lemma minimumExtent_children:
  assumes "node_kind n = Split" "map (\<lambda>c. minimumExtent c ax) cs = map (\<lambda>c. minimumExtent c ax) (node_children n)"
  shows "minimumExtent (set_children cs n) ax = minimumExtent n ax"
proof -
  have "length cs = length (node_children n)" using assms(2) by (metis length_map)
  with assms show ?thesis by (cases n) (auto simp: set_children_def split: option.split)
qed

lemma map_weights_same:
  "length ws = length cs \<Longrightarrow> (\<And>c w. f (set_weight w c) = f c) \<Longrightarrow> map f (map (\<lambda>(c, w). set_weight w c) (zip cs ws)) = map f cs"
  by (induction cs ws rule: list_induct2') auto

text \<open>Turning the current extents into weights changes nothing the move looks at.\<close>

lemma normalized_row:
  assumes row: "canonicalRow n" and h: "horizontalRoot n" and fit: "fits_screen area"
  defines "rt \<equiv> normalizeChildWeightsFromArea n area"
  shows "canonicalRow rt" "horizontalRoot rt" "leafIDs rt = leafIDs n"
    "length (node_children rt) = length (node_children n)"
    "i < length (node_children n) \<Longrightarrow> \<exists>w. node_children rt ! i = set_weight w (node_children n ! i)"
    "has_room rt r = has_room n r"
proof -
  obtain ws where ws: "length ws = length (node_children n)"
    and rt: "rt = set_children (map (\<lambda>(c, w). set_weight w c) (zip (node_children n) ws)) n"
    using normalize_shape [OF fit, of n] rt_def by blast
  show len: "length (node_children rt) = length (node_children n)" using ws by (simp add: rt)
  show h': "horizontalRoot rt" using h by (simp add: rt horizontalRoot_def)
  have "\<forall>c \<in> set (node_children rt). canonicalColumn c"
    using row h by (auto simp: rt canonicalRow_def canonicalColumns_def dest: set_zip_leftD)
  then show "canonicalRow rt" using row h h' len by (simp add: canonicalRow_def canonicalColumns_def)
  show "leafIDs rt = leafIDs n"
    using map_weights_same [OF ws, of leafIDs] h
    by (simp add: rt horizontalRoot_def leafIDs_unfold [of "set_children _ n"] leafIDs_unfold [of n])
  show "\<exists>w. node_children rt ! i = set_weight w (node_children n ! i)" if "i < length (node_children n)"
    using that ws by (auto simp: rt)
  have "minimumExtent rt ax = minimumExtent n ax" for ax
    unfolding rt by (rule minimumExtent_children [OF _ map_weights_same [OF ws]]) (use h in \<open>simp_all add: horizontalRoot_def\<close>)
  then show "has_room rt r = has_room n r" by (simp add: has_room_def)
qed

lemma movesPane_leafIDs: "leafIDs m = leafIDs n \<Longrightarrow> movesPane m target n' = movesPane n target n'"
  by (simp add: movesPane_def)

lemma moveCandidate_ok:
  assumes row: "canonicalRow n" and room: "has_room n area" and fit: "fits_screen area"
    and found: "findColumnMember 0 (canonicalColumns n) target = Some (i, m)"
    and nb: "m = None \<Longrightarrow> hasNeighborColumn i (length (canonicalColumns n)) dir"
  shows "\<exists>n'. moveCandidate n target dir area = Some n' \<and> movesPane n target n'"
proof -
  define rt where "rt = (if horizontalRoot n then normalizeChildWeightsFromArea n area else n)"
  have rt: "canonicalRow rt" "horizontalRoot rt = horizontalRoot n" "leafIDs rt = leafIDs n" "has_room rt area"
    "length (canonicalColumns rt) = length (canonicalColumns n)"
    using row room normalized_row [OF row _ fit] by (auto simp: rt_def canonicalColumns_def)
  have col: "\<exists>w. canonicalColumns rt ! i = set_weight w (canonicalColumns n ! i) \<or> canonicalColumns rt ! i = canonicalColumns n ! i"
    using findColumnMember_Some [OF found] normalized_row(5) [OF row _ fit, of i] rt(2)
    by (auto simp: rt_def canonicalColumns_def split: if_splits)
  have i: "i < length (canonicalColumns rt)" using findColumnMember_Some [OF found] rt(5) by simp
  show ?thesis
  proof (cases m)
    case None
    have h: "horizontalRoot rt"
      using nb [OF None] rt(2) i by (auto simp: hasNeighborColumn_def canonicalColumns_def split: if_splits)
    then have cs: "canonicalColumns rt = node_children rt" "node_kind rt = Split" by (simp_all add: canonicalColumns_def horizontalRoot_def)
    have "node_children rt \<noteq> []" using i cs by auto
    from split_room [OF cs(2) this rt(4) fit] obtain areas where "splitChildRects rt area = Some areas" by blast
    moreover have "isLeafOf target (node_children rt ! i)"
      using findColumnMember_Some [OF found] None col cs by (auto simp: isLeafOf_def)
    ultimately obtain n' where "consumeSingletonColumn rt i dir area = Some n'" "movesPane rt target n'"
      using consumeSingletonColumn_ok [OF rt(1) h _ _ _ _ fit, of i target dir areas] i cs nb [OF None] rt(5) by auto
    then show ?thesis using found None movesPane_leafIDs [OF rt(3)] by (simp add: moveCandidate_def rt_def Let_def)
  next
    case (Some j)
    have "movesPane rt target (expelColumnMember rt i j dir)"
      by (rule expelColumnMember_ok [OF rt(1) i]) (use findColumnMember_Some [OF found] Some col in auto)
    then show ?thesis using found Some movesPane_leafIDs [OF rt(3)] by (simp add: moveCandidate_def rt_def Let_def)
  qed
qed

text \<open>The operation never panics, and a move keeps the panes and the canonical shape.\<close>

lemma ConsumeOrExpelPane_cases:
  assumes "fits_screen area"
  shows "case ConsumeOrExpelPane t target dir area of
      Moved t' \<Rightarrow> validCanonicalColumnTree t \<and> validCanonicalColumnTree t' \<and> Focus t' = target \<and>
        (\<exists>n n'. Root t = Some n \<and> Root t' = Some n' \<and> movesPane n target n' \<and> Solve (Some n') area \<noteq> None)
    | MovePanics \<Rightarrow> False | _ \<Rightarrow> True"
proof (cases "validCanonicalColumnTree t")
  case True
  then obtain n where n: "Root t = Some n" "canonicalRow n" "distinct (leafIDs n)" by (auto simp: validCanonicalColumnTree_iff)
  show ?thesis
  proof (cases "findColumnMember 0 (canonicalColumns n) target")
    case (Some im)
    obtain i m where im: "im = (i, m)" by fastforce
    note found = Some [unfolded im]
    have leaf: "node_kind (canonicalColumns n ! i) = Leaf \<longleftrightarrow> m = None"
      using findColumnMember_Some [OF found] by (auto simp: isLeafOf_def split: option.splits)
    show ?thesis
    proof (cases "(m = None \<longrightarrow> hasNeighborColumn i (length (canonicalColumns n)) dir) \<and> Solve (Some n) area \<noteq> None")
      case go: True
      then have "has_room n area" using Solve_has_room by blast
      from moveCandidate_ok [OF n(2) this assms found] go obtain n' where
        n': "moveCandidate n target dir area = Some n'" "movesPane n target n'" by blast
      have "distinct (leafIDs n')" "target \<in> set (leafIDs n')"
        using n'(2) n(3) mset_eq_imp_distinct_iff [of "leafIDs n'" "leafIDs n"] visibleIDs_leafIDs [of n'] canonicalRow_wf [of n']
        by (auto simp: movesPane_def)
      then have "validCanonicalColumnTree \<lparr>Root = Some n', Focus = target\<rparr>"
        using n'(2) by (simp add: validCanonicalColumnTree_iff movesPane_def)
      moreover have "\<not> (node_kind (canonicalColumns n ! i) = Leaf \<and> \<not> hasNeighborColumn i (length (canonicalColumns n)) dir)"
        using leaf go by blast
      then have "ConsumeOrExpelPane t target dir area =
          (if dir \<noteq> Left \<and> dir \<noteq> Right then MoveFailed ErrInvalidDirection
           else if Solve (Some n') area = None then MoveFailed ErrTooSmall else Moved \<lparr>Root = Some n', Focus = target\<rparr>)"
        using True n(1) found go n'(1) by (cases dir) (auto simp: ConsumeOrExpelPane_def)
      ultimately show ?thesis using True n(1) n'(2) by simp
    qed (use True n(1) found leaf in \<open>auto simp: ConsumeOrExpelPane_def\<close>)
  qed (use True n(1) in \<open>simp add: ConsumeOrExpelPane_def\<close>)
qed (simp add: ConsumeOrExpelPane_def)

end
