(* ===== verification/Layout_Steps.thy ===== *)
theory Layout_Steps
  imports Layout_Resize Layout_Focus Layout_Columns
begin

text \<open>
  The operations of \<^verbatim>\<open>internal/domain/layout\<close> on whole trees.

  The contract of an operation is the locale \<open>layout_edit\<close>: it keeps the invariant of a
  layout and changes the panes as stated. An operation that commits a candidate only when it
  solves meets the stronger \<open>committed_edit\<close>. The operations of the model interpret both, and
  the step relation \<open>layout_step\<close> puts them together: every layout that a sequence of
  operations reaches satisfies the invariant.
\<close>

section \<open>The invariant of a layout\<close>

definition panes :: "tree \<Rightarrow> paneID list" where
  "panes t = (case Root t of None \<Rightarrow> [] | Some n \<Rightarrow> leafIDs n)"

text \<open>A well-formed tree whose focused pane is on screen.\<close>

definition layout_inv :: "tree \<Rightarrow> bool" where
  "layout_inv t \<longleftrightarrow> wf_tree t \<and> (case Root t of None \<Rightarrow> True | Some n \<Rightarrow> Focus t \<in> set (visibleIDs n))"

lemma layout_invI:
  "wf_node n \<Longrightarrow> distinct (leafIDs n) \<Longrightarrow> f \<in> set (visibleIDs n) \<Longrightarrow> layout_inv \<lparr>Root = Some n, Focus = f\<rparr>"
  using visibleIDs_leafIDs by (auto simp: layout_inv_def wf_tree_def)

lemma layout_inv_None [simp]: "layout_inv \<lparr>Root = None, Focus = []\<rparr>"
  by (simp add: layout_inv_def wf_tree_def)

lemma layout_invD:
  assumes "layout_inv t" "Root t = Some n"
  shows "wf_node n" "distinct (leafIDs n)" "Focus t \<in> set (leafIDs n)" "Focus t \<in> set (visibleIDs n)"
  using assms by (auto simp: layout_inv_def wf_tree_def)

lemma layout_inv_wf: "layout_inv t \<Longrightarrow> wf_tree t"
  by (simp add: layout_inv_def)

lemma panes_Some [simp]: "Root t = Some n \<Longrightarrow> panes t = leafIDs n"
  by (simp add: panes_def)

lemma layout_inv_NewTree: "pid \<noteq> [] \<Longrightarrow> layout_inv (NewTree pid)"
  by (simp add: NewTree_def layout_invI)

section \<open>The contracts\<close>

text \<open>What the operations rely on from the geometry solver.\<close>

locale layout_solver =
  fixes slv :: "node option \<Rightarrow> rect \<Rightarrow> placement list option"
  assumes slv_ids: "slv (Some n) area = Some ps \<Longrightarrow> map ID ps = leafIDs n"
    and slv_visible: "slv (Some n) area = Some ps \<Longrightarrow> shownIDs ps = visibleIDs n"
begin

lemma candidate_is_pane:
  assumes "slv (Some n) area = Some ps" "selectFacingCandidate ps fr dir priority = Inr pid"
  shows "pid \<in> set (leafIDs n)"
proof -
  from selectFacingCandidate_best [OF assms(2)] obtain c where "c \<in> set (facingCandidates ps fr dir)" "fcID c = pid" by blast
  then obtain p where "p \<in> set ps" "ID p = pid" by (auto simp: facingCandidates_mem)
  then show ?thesis using slv_ids [OF assms(1)] by (metis imageI set_map)
qed

lemma focused_is_placed:
  assumes "slv (Some n) area = Some ps" "pid \<in> set (leafIDs n)"
  shows "filter (\<lambda>p. ID p = pid) ps \<noteq> []"
proof -
  have "pid \<in> set (map ID ps)" using slv_ids [OF assms(1)] assms(2) by simp
  then show ?thesis by (auto simp: filter_empty_conv)
qed

lemma focus_is_shown:
  assumes "slv (Some n) area = Some ps" "pid \<in> set (visibleIDs n)"
  shows "pid \<in> set (shownIDs ps)"
  using slv_visible [OF assms(1)] assms(2) by simp

end

lemma Solve_visible: "Solve (Some n) area = Some ps \<Longrightarrow> shownIDs ps = visibleIDs n"
  using SolveWithDividers_solve solve_visible(1) by (fastforce simp: SolveWithDividers_Solve)

interpretation solver: layout_solver Solve
  by unfold_locales (simp_all add: Solve_ids Solve_visible)

locale layout_edit =
  fixes edit :: "tree \<Rightarrow> layoutError + tree"
    and guard :: "tree \<Rightarrow> bool"
    and effect :: "paneID list \<Rightarrow> paneID list \<Rightarrow> bool"
  assumes edit_inv: "layout_inv t \<Longrightarrow> guard t \<Longrightarrow> edit t = Inr t' \<Longrightarrow> layout_inv t'"
    and edit_effect: "layout_inv t \<Longrightarrow> guard t \<Longrightarrow> edit t = Inr t' \<Longrightarrow> effect (panes t) (panes t')"
begin

lemma edit_focus_live:
  assumes "layout_inv t" "guard t" "edit t = Inr t'" "panes t' \<noteq> []"
  shows "Focus t' \<in> set (panes t')"
proof (cases "Root t'")
  case (Some n)
  then show ?thesis using layout_invD(3) [OF edit_inv [OF assms(1-3)] Some] by simp
qed (use assms(4) in \<open>simp add: panes_def\<close>)

lemma edit_focus_uncollapsed:
  assumes "layout_inv t" "guard t" "edit t = Inr t'" "Root t' = Some n"
  shows "\<not> CollapsedLeaf n (Focus t')"
  using layout_invD [OF edit_inv [OF assms(1-3)] assms(4)] CollapsedLeaf_iff by blast

end

locale committed_edit = layout_edit +
  fixes area :: rect
  assumes edit_solves: "edit t = Inr t' \<Longrightarrow> Solve (Root t') area \<noteq> None"
    and guard_fits: "guard t \<Longrightarrow> fits_screen area"
begin

text \<open>A committed tree can be drawn: its panes and dividers tile the area and the focus is on screen.\<close>

lemma edit_drawable:
  assumes "layout_inv t" "guard t" "edit t = Inr t'"
  shows "\<exists>ps ds. SolveWithDividers (Root t') area = Some (ps, ds) \<and> map ID ps = panes t' \<and>
    Focus t' \<in> set (shownIDs ps) \<and> list_all placementReadable ps \<and>
    (\<forall>cell. cover cell (regions (ps, ds)) = of_bool (in_rect cell area))"
proof -
  from edit_solves [OF assms(3)] obtain n where n: "Root t' = Some n"
    by (cases "Root t'") (auto simp: Solve_def solveArea_def)
  from edit_solves [OF assms(3)] n obtain ps ds where s: "SolveWithDividers (Some n) area = Some (ps, ds)"
    by (auto simp: SolveWithDividers_Solve)
  then have sol: "solve n area = Some (ps, ds)" "Solve (Some n) area = Some ps"
    by (simp_all add: SolveWithDividers_solve SolveWithDividers_Solve)
  show ?thesis
    using s sol n solve_ids(1) [OF sol(1)] solve_readable(1) [OF sol(1)] solve_tiles(1) [OF sol(1) guard_fits [OF assms(2)]]
      solver.focus_is_shown [OF sol(2) layout_invD(4) [OF edit_inv [OF assms] n]]
    by auto
qed

end

section \<open>The operations meet them\<close>

lemma inserted_distinct: "inserted x xs ys \<Longrightarrow> distinct xs \<Longrightarrow> x \<notin> set xs \<Longrightarrow> distinct ys"
  by (auto simp: inserted_def)

lemma adds_inv:
  "adds n newID n' \<Longrightarrow> distinct (leafIDs n) \<Longrightarrow> newID \<notin> set (leafIDs n) \<Longrightarrow> layout_inv \<lparr>Root = Some n', Focus = newID\<rparr>"
  by (auto simp: adds_def intro: layout_invI inserted_distinct)

definition fresh_in :: "paneID \<Rightarrow> rect \<Rightarrow> tree \<Rightarrow> bool" where
  "fresh_in newID area t \<longleftrightarrow> newID \<noteq> [] \<and> newID \<notin> set (panes t) \<and> fits_screen area"

lemma SplitPane_Inr:
  assumes "layout_inv t" "SplitPane t target dir after newID area = Inr t'" "newID \<noteq> []" "fits_screen area"
  shows "\<exists>n n'. Root t = Some n \<and> t' = \<lparr>Root = Some n', Focus = newID\<rparr> \<and> adds n newID n' \<and> Solve (Some n') area \<noteq> None"
proof -
  from assms(2) obtain n n' where n: "Root t = Some n" "insertSplit n target (axisFor dir) after newID area = Some n'"
    "t' = \<lparr>Root = Some n', Focus = newID\<rparr>" "Solve (Some n') area \<noteq> None"
    by (auto simp: SplitPane_def commit_Inr split: option.splits)
  with insertSplit_ok(1) [OF n(2) layout_invD(1) [OF assms(1) n(1)] assms(3,4)] show ?thesis by blast
qed

interpretation split: committed_edit "\<lambda>t. SplitPane t target dir after newID area" "fresh_in newID area" "inserted newID" area
  for target dir after newID area
proof unfold_locales
  fix t t' assume a: "layout_inv t" "fresh_in newID area t" "SplitPane t target dir after newID area = Inr t'"
  from SplitPane_Inr [OF a(1,3)] a(2) obtain n n' where n: "Root t = Some n" "t' = \<lparr>Root = Some n', Focus = newID\<rparr>" "adds n newID n'"
    by (auto simp: fresh_in_def)
  then show "layout_inv t'" using adds_inv layout_invD(2) [OF a(1) n(1)] a(2) by (simp add: fresh_in_def)
  show "inserted newID (panes t) (panes t')" using n by (simp add: adds_def)
qed (auto simp: SplitPane_def commit_Inr fresh_in_def split: option.splits)

lemma StackNew_Inr:
  assumes "layout_inv t" "StackNew t target newID area = Inr t'" "newID \<noteq> []"
  shows "\<exists>n n'. Root t = Some n \<and> t' = \<lparr>Root = Some n', Focus = newID\<rparr> \<and> adds n newID n' \<and> Solve (Some n') area \<noteq> None"
proof -
  from assms(2) obtain n n' where n: "Root t = Some n" "stackNew n target newID = Some n'"
    "t' = \<lparr>Root = Some n', Focus = newID\<rparr>" "Solve (Some n') area \<noteq> None"
    by (auto simp: StackNew_def commit_Inr split: option.splits)
  with stackNew_ok [OF n(2) layout_invD(1) [OF assms(1) n(1)] assms(3)] show ?thesis by blast
qed

interpretation stack: committed_edit "\<lambda>t. StackNew t target newID area" "fresh_in newID area" "inserted newID" area
  for target newID area
proof unfold_locales
  fix t t' assume a: "layout_inv t" "fresh_in newID area t" "StackNew t target newID area = Inr t'"
  from StackNew_Inr [OF a(1,3)] a(2) obtain n n' where n: "Root t = Some n" "t' = \<lparr>Root = Some n', Focus = newID\<rparr>" "adds n newID n'"
    by (auto simp: fresh_in_def)
  then show "layout_inv t'" using adds_inv layout_invD(2) [OF a(1) n(1)] a(2) by (simp add: fresh_in_def)
  show "inserted newID (panes t) (panes t')" using n by (simp add: adds_def)
qed (auto simp: StackNew_def commit_Inr fresh_in_def split: option.splits)

text \<open>The toggle of the focused pane; toggling another pane may collapse the focused one.\<close>

interpretation toggle: committed_edit "\<lambda>t. ToggleStack t target area" "\<lambda>t. target = Focus t \<and> fits_screen area" "(=)" area
  for target area
proof unfold_locales
  fix t t' assume a: "layout_inv t" "target = Focus t \<and> fits_screen area" "ToggleStack t target area = Inr t'"
  from a(3) obtain n n' where n: "Root t = Some n" "toggleStack n target = toggleToggled n'" "t' = \<lparr>Root = Some n', Focus = Focus t\<rparr>"
    by (auto simp: ToggleStack_def commit_Inr split: option.splits toggleResult.splits)
  note ok = toggle_ok(1) [OF n(2) layout_invD(1) [OF a(1) n(1)]]
  show "layout_inv t'" unfolding n(3) by (rule layout_invI) (use ok a(2) layout_invD(2) [OF a(1) n(1)] in auto)
  show "panes t = panes t'" using n ok by simp
qed (auto simp: ToggleStack_def commit_Inr split: option.splits toggleResult.splits)

lemma reweighted_inv:
  "layout_inv t \<Longrightarrow> Root t = Some n \<Longrightarrow> reweighted n n' \<Longrightarrow> layout_inv \<lparr>Root = Some n', Focus = Focus t\<rparr>"
  using layout_invD reweighted_facts by (intro layout_invI) metis+

interpretation resize: committed_edit "\<lambda>t. ResizeFocus t ax delta area" "\<lambda>t. min_int \<le> delta \<and> fits_screen area" "(=)" area
  for ax delta area
proof unfold_locales
  fix t t' assume a: "layout_inv t" "min_int \<le> delta \<and> fits_screen area" "ResizeFocus t ax delta area = Inr t'"
  from ResizeFocus_Inr [OF a(3) layout_inv_wf [OF a(1)]] a(2) obtain n n' where n: "Root t = Some n" "Root t' = Some n'"
    "Focus t' = Focus t" "reweighted n n'" by blast
  from reweighted_inv [OF a(1) n(1,4)] n(2,3) show "layout_inv t'" by (cases t') simp
  show "panes t = panes t'" using n reweighted_facts(1) by simp
qed (auto simp: ResizeFocus_def commit_Inr split: option.splits if_splits sum.splits)

interpretation equalize: committed_edit "\<lambda>t. Equalize t area" "\<lambda>t. fits_screen area" "(=)" area for area
proof unfold_locales
  fix t t' assume a: "layout_inv t" "Equalize t area = Inr t'"
  from a(2) obtain n where n: "Root t = Some n" "t' = \<lparr>Root = Some (clearSplitChildWeights n), Focus = Focus t\<rparr>"
    by (auto simp: Equalize_def commit_Inr split: option.splits)
  from reweighted_inv [OF a(1) n(1) reweighted_clear] n(2) show "layout_inv t'" by simp
  show "panes t = panes t'" using n reweighted_facts(1) [OF reweighted_clear] by simp
qed (auto simp: Equalize_def commit_Inr split: option.splits)

text \<open>Closing: which pane is left focused, and what is left.\<close>

lemma Close_result:
  assumes inv: "layout_inv t" and target: "target \<in> set (panes t)"
  shows "\<exists>t'. Close t target = Inr t' \<and> layout_inv t' \<and> panes t' = filter (\<lambda>pid. pid \<noteq> target) (panes t) \<and>
    (Focus t \<noteq> target \<longrightarrow> Focus t' = Focus t) \<and>
    (Focus t = target \<longrightarrow> panes t' \<noteq> [] \<longrightarrow> adjacent target (Focus t') (panes t))"
proof -
  from target obtain n where n: "Root t = Some n" by (cases "Root t") (auto simp: panes_def)
  note i = layout_invD [OF inv n]
  have mem: "containsLeaf n target" "target \<in> set (leafIDs n)" using target n by (simp_all add: containsLeaf_leafIDs)
  show ?thesis
  proof (cases "isLeafOf target n")
    case True
    then have "leafIDs n = [target]" by (simp add: isLeafOf_def visibleIDs_Leaf)
    moreover have "Close t target = Inr \<lparr>Root = None, Focus = []\<rparr>" using n mem True by (simp add: Close_def)
    ultimately show ?thesis using n i(3) by (simp add: panes_def)
  next
    case False
    from closeNode_removes [OF i(1,2) mem(2) False] obtain n' where
      n': "closeNode n target = (Some n', True)" "removes n target n'" by blast
    have ids: "leafIDs n' = filter (\<lambda>pid. pid \<noteq> target) (leafIDs n)" and wf': "wf_node n'"
      and vis: "set (visibleIDs n) - {target} \<subseteq> set (visibleIDs n')" using n'(2) by (auto simp: removes_def)
    have dist: "distinct (leafIDs n')" using ids i(2) by simp
    show ?thesis
    proof (cases "Focus t = target")
      case other: False
      then have "Close t target = Inr \<lparr>Root = Some n', Focus = Focus t\<rparr>" using n mem False n'(1) by (simp add: Close_def)
      moreover have "layout_inv \<lparr>Root = Some n', Focus = Focus t\<rparr>" using other i(4) vis by (intro layout_invI wf' dist) auto
      ultimately show ?thesis using n ids other by simp
    next
      case True
      let ?c = "closeRefocusCandidate n target"
      have "node_kind n \<noteq> Leaf" using False mem(2) by (auto simp: isLeafOf_def visibleIDs_Leaf)
      from closeRefocusCandidate_adjacent [OF i(1) this mem(2)] have adj: "adjacent target ?c (leafIDs n)" .
      then have "?c \<noteq> target" using i(2) by (auto simp: adjacent_def)
      then have c: "?c \<in> set (leafIDs n')" "?c \<noteq> []"
        using adjacent_mem [OF adj] ids wf_node_leaves_nonempty [OF i(1)] by auto
      then have "refocused n' ?c = ?c" by (simp add: refocused_def containsLeaf_leafIDs)
      then have cl: "Close t target = Inr \<lparr>Root = Some (expandIfStacked n' ?c), Focus = ?c\<rparr>"
        using n mem False n'(1) True by (simp add: Close_def Let_def)
      note ex = expandIfStacked_ok [OF wf' c(1)]
      have "layout_inv \<lparr>Root = Some (expandIfStacked n' ?c), Focus = ?c\<rparr>"
        by (intro layout_invI ex(1,3)) (simp add: ex(2) dist)
      then show ?thesis using cl n ids ex(2) adj True by simp
    qed
  qed
qed

interpretation close: layout_edit "\<lambda>t. Close t target" "\<lambda>t. True" "\<lambda>ids ids'. ids' = filter (\<lambda>pid. pid \<noteq> target) ids"
  for target
proof unfold_locales
  fix t t' assume a: "layout_inv t" "True" "Close t target = Inr t'"
  then have "target \<in> set (panes t)"
    by (auto simp: Close_def containsLeaf_leafIDs split: option.splits if_splits)
  from Close_result [OF a(1) this] a(3)
  show "layout_inv t'" "panes t' = filter (\<lambda>pid. pid \<noteq> target) (panes t)" by auto
qed

lemma focusOn_inv:
  assumes "layout_inv t" "Root t = Some n" "pid \<in> set (leafIDs n)"
  shows "layout_inv (focusOn t pid)" "panes (focusOn t pid) = panes t"
proof -
  note ex = expandIfStacked_ok [OF layout_invD(1) [OF assms(1,2)] assms(3)]
  show "layout_inv (focusOn t pid)"
    using assms(2) layout_invD(2) [OF assms(1,2)] by (simp add: focusOn_def layout_invI ex)
  show "panes (focusOn t pid) = panes t" using assms(2) by (simp add: focusOn_def panes_def ex(2))
qed

interpretation focus_enter: layout_edit "\<lambda>t. FocusEnter t dir sp area" "\<lambda>t. True" "(=)" for dir sp area
proof unfold_locales
  fix t t' assume a: "layout_inv t" "True" "FocusEnter t dir sp area = Inr t'"
  then obtain n ps pid where n: "Root t = Some n" "Solve (Some n) area = Some ps"
    "selectFacingCandidate ps (outsideSpan dir sp area) dir facingGapFirst = Inr pid" "t' = focusOn t pid"
    by (auto simp: FocusEnter_def EntryPane_def split: option.splits sum.splits)
  from focusOn_inv [OF a(1) n(1) solver.candidate_is_pane [OF n(2,3)]] n(4)
  show "layout_inv t'" "panes t = panes t'" by simp_all
qed

interpretation focus_dir: layout_edit "\<lambda>t. FocusDir t dir area" "\<lambda>t. True" "(=)" for dir area
proof unfold_locales
  fix t t' assume a: "layout_inv t" "True" "FocusDir t dir area = Inr t'"
  then obtain n where n: "Root t = Some n" by (auto simp: FocusDir_def split: option.splits)
  note i = layout_invD [OF a(1) n]
  have "layout_inv t' \<and> panes t = panes t'"
  proof (cases "if dir = Up \<or> dir = Down then focusStackLocal n (Focus t) dir else None")
    case (Some r)
    then obtain n' f where r: "focusStackLocal n (Focus t) dir = Some (n', f)" "r = (n', f)" by (cases r) (auto split: if_splits)
    have t': "t' = \<lparr>Root = Some n', Focus = f\<rparr>" using a(3) n Some r(2) by (simp add: FocusDir_def)
    note ok = focusStackLocal_ok(1) [OF r(1) i(1)]
    have "layout_inv t'" unfolding t' by (rule layout_invI) (use ok i(2) in auto)
    then show ?thesis using n ok t' by simp
  next
    case None
    with a(3) n obtain ps cur pid where "Solve (Some n) area = Some ps"
      "selectFacingCandidate ps (focusRect cur) dir facingOverlapFirst = Inr pid" "t' = focusOn t pid"
      by (auto simp: FocusDir_def split: option.splits list.splits sum.splits)
    with focusOn_inv [OF a(1) n solver.candidate_is_pane] show ?thesis by simp
  qed
  then show "layout_inv t'" "panes t = panes t'" by simp_all
qed

lemma ConsumeOrExpelPane_inv:
  assumes "ConsumeOrExpelPane t target dir area = Moved t'" "fits_screen area"
  shows "layout_inv t'" "mset (panes t') = mset (panes t)"
proof -
  from ConsumeOrExpelPane_cases [OF assms(2), of t target dir] assms(1) obtain n n' where
    n: "Root t = Some n" "Root t' = Some n'" "movesPane n target n'" "Focus t' = target" "validCanonicalColumnTree t'" by auto
  have t': "t' = \<lparr>Root = Some n', Focus = target\<rparr>" using n by (cases t') simp
  show "layout_inv t'"
    unfolding t' by (rule layout_invI) (use n canonicalRow_wf in \<open>auto simp: movesPane_def validCanonicalColumnTree_iff\<close>)
  show "mset (panes t') = mset (panes t)" using n by (simp add: movesPane_def)
qed

section \<open>Sequences of operations\<close>

inductive layout_step :: "rect \<Rightarrow> tree \<Rightarrow> tree \<Rightarrow> bool" for area where
  step_split: "SplitPane t target dir after newID area = Inr t' \<Longrightarrow> newID \<noteq> [] \<Longrightarrow> newID \<notin> set (panes t) \<Longrightarrow>
    layout_step area t t'"
| step_stack: "StackNew t target newID area = Inr t' \<Longrightarrow> newID \<noteq> [] \<Longrightarrow> newID \<notin> set (panes t) \<Longrightarrow> layout_step area t t'"
| step_toggle: "ToggleStack t (Focus t) area = Inr t' \<Longrightarrow> layout_step area t t'"
| step_resize: "ResizeFocus t ax delta area = Inr t' \<Longrightarrow> min_int \<le> delta \<Longrightarrow> layout_step area t t'"
| step_equalize: "Equalize t area = Inr t' \<Longrightarrow> layout_step area t t'"
| step_close: "Close t target = Inr t' \<Longrightarrow> layout_step area t t'"
| step_focus: "FocusDir t dir area = Inr t' \<Longrightarrow> layout_step area t t'"
| step_enter: "FocusEnter t dir sp area = Inr t' \<Longrightarrow> layout_step area t t'"
| step_move: "ConsumeOrExpelPane t target dir area = Moved t' \<Longrightarrow> layout_step area t t'"

text \<open>The layouts of one pane, changed by operations on areas that fit a screen.\<close>

inductive reachable_layout :: "tree \<Rightarrow> bool" where
  reachable_new: "pid \<noteq> [] \<Longrightarrow> reachable_layout (NewTree pid)"
| reachable_step: "reachable_layout t \<Longrightarrow> fits_screen area \<Longrightarrow> layout_step area t t' \<Longrightarrow> reachable_layout t'"

lemma layout_step_inv:
  assumes "layout_step area t t'" "layout_inv t" "fits_screen area"
  shows "layout_inv t'"
  using assms(1)
proof cases
  case (step_split target dir after newID)
  then show ?thesis using split.edit_inv assms by (auto simp: fresh_in_def)
next
  case (step_stack target newID)
  then show ?thesis using stack.edit_inv assms by (auto simp: fresh_in_def)
next
  case step_toggle
  then show ?thesis using toggle.edit_inv assms by blast
next
  case (step_resize ax delta)
  then show ?thesis using resize.edit_inv assms by blast
next
  case step_equalize
  then show ?thesis using equalize.edit_inv assms by blast
next
  case (step_close target)
  then show ?thesis using close.edit_inv assms by blast
next
  case (step_focus dir)
  then show ?thesis using focus_dir.edit_inv assms by blast
next
  case (step_enter dir sp)
  then show ?thesis using focus_enter.edit_inv assms by blast
next
  case (step_move target dir)
  then show ?thesis using ConsumeOrExpelPane_inv assms by blast
qed

lemma reachable_layout_inv: "reachable_layout t \<Longrightarrow> layout_inv t"
  by (induction rule: reachable_layout.induct) (auto intro: layout_inv_NewTree layout_step_inv)

end
