(* ===== verification/Layout_Properties.thy ===== *)
theory Layout_Properties
  imports Layout_Steps
begin

text \<open>
  The properties of the pane layout (\<^verbatim>\<open>internal/domain/layout\<close>), each with a witness on
  a concrete tree and screen. The proofs apply the lemmas of the layout theories and the
  interpretations of their locales.
\<close>

section \<open>Distribution and geometry\<close>

text \<open>
  C4. Whatever the weights, \<^verbatim>\<open>distribute\<close> hands out every cell: for non-negative
  minimums that fit a screen extent it never refuses and never indexes outside its candidate list,
  the extents sum to the total, and each reaches its minimum.
\<close>

theorem distribute_allocates:
  assumes "distributable tot minimums weights"
  shows "\<exists>extents. distribute tot minimums weights = Allocated extents \<and> length extents = length minimums \<and>
    sum_list extents = tot \<and> (\<forall>i < length minimums. minimums ! i \<le> extents ! i)"
  by (rule distribute_ok [OF assms])

theorem distribute_allocates_witness:
  "\<exists>extents. distribute 100 [20, 45, 20] [Fin 7, Fin (1/3), NaN] = Allocated extents \<and> length extents = 3 \<and>
    sum_list extents = 100 \<and> (\<forall>i < 3. [20, 45, 20] ! i \<le> extents ! i)"
  using distribute_allocates [of 100 "[20, 45, 20]" "[Fin 7, Fin (1/3), NaN]"]
  by (simp add: distributable_def screen_limit_def numeral_3_eq_3)

text \<open>
  C23. The rounding of the doubles never moves a cell: when the weights are the wanted extents
  themselves, \<^verbatim>\<open>distribute\<close> returns exactly these extents.
\<close>

theorem distribute_reproduces:
  assumes "distributable tot minimums weights" "length es = length minimums" "sum_list es = tot"
    and "\<forall>i < length minimums. minimums ! i \<le> es ! i \<and> effectiveWeight (weights ! i) = Fin (of_int (es ! i))"
  shows "distribute tot minimums weights = Allocated es"
  by (rule distribute_matches) (use assms in \<open>simp add: matches_def ew_def\<close>)

theorem distribute_reproduces_witness:
  "distribute 100 [20, 20, 20] [Fin 33, Fin 47, Fin 20] = Allocated [33, 47, 20]"
  using distribute_reproduces [of 100 "[20, 20, 20]" "[Fin 33, Fin 47, Fin 20]" "[33, 47, 20]"]
  by (simp add: distributable_def screen_limit_def effectiveWeight_def less_Suc_eq all_conj_distrib numeral_3_eq_3)

text \<open>
  C1. A solved layout tiles its area: every cell of the area lies in exactly one pane content,
  title bar or divider, no cell outside the area lies in any of them, the placements are the panes
  in layout order, and each is at least as large as the minimum pane.
\<close>

theorem SolveWithDividers_tiles:
  assumes "SolveWithDividers (Some n) area = Some (ps, ds)" "fits_screen area"
  shows "(\<forall>cell. cover cell (regions (ps, ds)) = of_bool (in_rect cell area)) \<and> map ID ps = leafIDs n \<and>
    list_all placementReadable ps"
  using SolveWithDividers_solve [OF assms(1)] assms(2) solve_tiles(1) solve_ids(1) solve_readable(1) by fastforce

text \<open>A screen of two panes whose weights are their extents.\<close>

definition twoPanes :: node where
  "twoPanes = split_node Horizontal [set_weight (Fin 40) (NewLeaf ''a''), set_weight (Fin 39) (NewLeaf ''b'')] (Fin 0)"

definition screen :: rect where
  "screen = \<lparr>rX = 0, rY = 0, rWidth = 80, rHeight = 24\<rparr>"

lemma screen_fits: "fits_screen screen"
  by (simp add: fits_screen_def screen_limit_def screen_def)

lemma twoPanes_rects:
  "splitChildRects twoPanes screen =
     Some [\<lparr>rX = 0, rY = 0, rWidth = 40, rHeight = 24\<rparr>, \<lparr>rX = 41, rY = 0, rWidth = 39, rHeight = 24\<rparr>]"
proof -
  have "matches 79 [20, 20] [Fin 40, Fin 39] [40, 39]"
    by (simp add: matches_def distributable_def screen_limit_def ew_def effectiveWeight_def less_Suc_eq all_conj_distrib numeral_2_eq_2)
  from distribute_matches [OF this] show ?thesis
    by (simp add: twoPanes_def screen_def split_node_def set_weight_def NewLeaf_def splitChildRects_def extentOf_def
        MinPaneCols_def effectiveWeight_def)
qed

lemma twoPanes_solved:
  "SolveWithDividers (Some twoPanes) screen = Some
     ([\<lparr>ID = ''a'', Content = \<lparr>rX = 0, rY = 0, rWidth = 40, rHeight = 24\<rparr>, TitleBar = zero_rect, Collapsed = False, InStack = False\<rparr>,
       \<lparr>ID = ''b'', Content = \<lparr>rX = 41, rY = 0, rWidth = 39, rHeight = 24\<rparr>, TitleBar = zero_rect, Collapsed = False, InStack = False\<rparr>],
      [\<lparr>dRect = \<lparr>rX = 40, rY = 0, rWidth = 1, rHeight = 24\<rparr>, dDir = Horizontal\<rparr>])"
  using twoPanes_rects
  by (simp add: SolveWithDividers_def solveArea_def twoPanes_def screen_def split_node_def set_weight_def NewLeaf_def
      MinPaneCols_def MinPaneRows_def dividerBetween_def)

theorem SolveWithDividers_tiles_witness:
  "\<exists>ps ds. SolveWithDividers (Some twoPanes) screen = Some (ps, ds) \<and> cover (40, 3) (regions (ps, ds)) = 1"
proof -
  obtain ps ds where s: "SolveWithDividers (Some twoPanes) screen = Some (ps, ds)" using twoPanes_solved by blast
  have "in_rect (40, 3) screen" by (simp add: in_rect_def screen_def)
  with SolveWithDividers_tiles [OF s screen_fits] s show ?thesis by simp
qed

text \<open>
  A layout solves exactly when the minimum extents of its tree fit: a well-formed tree is never
  refused for its weights, and never accepted when a pane would be too small.
\<close>

theorem Solve_iff_room:
  assumes "wf_node n" "fits_screen area"
  shows "(\<exists>ps. Solve (Some n) area = Some ps) \<longleftrightarrow> has_room n area"
  using Solve_has_room_iff [OF assms] by auto

theorem Solve_iff_room_witness:
  "(\<exists>ps. Solve (Some (set_weight (Fin 5) twoPanes)) screen = Some ps) \<and> (\<nexists>ps. Solve (Some twoPanes) (screen\<lparr>rWidth := 40\<rparr>) = Some ps)"
  using Solve_iff_room [of "set_weight (Fin 5) twoPanes" screen] Solve_iff_room [of twoPanes "screen\<lparr>rWidth := 40\<rparr>"]
  by (simp add: twoPanes_def screen_def split_node_def set_weight_def NewLeaf_def fits_screen_def screen_limit_def has_room_def
      MinPaneCols_def MinPaneRows_def)

text \<open>
  C28. \<^verbatim>\<open>Close\<close> removes exactly the given pane, keeps the order of the others and the
  invariant of the layout, and hands the focus of a closed focused pane to a pane next to it.
\<close>

theorem Close_removes:
  assumes "layout_inv t" "target \<in> set (panes t)"
  shows "\<exists>t'. Close t target = Inr t' \<and> layout_inv t' \<and> panes t' = filter (\<lambda>pid. pid \<noteq> target) (panes t) \<and>
    (Focus t \<noteq> target \<longrightarrow> Focus t' = Focus t) \<and>
    (Focus t = target \<longrightarrow> panes t' \<noteq> [] \<longrightarrow> adjacent target (Focus t') (panes t))"
  by (rule Close_result [OF assms])

lemma twoPanes_inv: "layout_inv \<lparr>Root = Some twoPanes, Focus = ''a''\<rparr>"
  by (rule layout_invI) (simp_all add: twoPanes_def split_node_def set_weight_def NewLeaf_def)

theorem Close_removes_witness:
  "\<exists>t'. Close \<lparr>Root = Some twoPanes, Focus = ''a''\<rparr> ''a'' = Inr t' \<and> panes t' = [''b'']"
  using Close_removes [OF twoPanes_inv, of "''a''"] by (auto simp: twoPanes_def split_node_def)


lemma split_new_tree:
  "SplitPane (NewTree ''a'') ''a'' Right True ''b'' screen =
     Inr \<lparr>Root = Some (split_node Horizontal [NewLeaf ''a'', NewLeaf ''b''] (Fin 0)), Focus = ''b''\<rparr>"
proof -
  let ?n = "split_node Horizontal [NewLeaf ''a'', NewLeaf ''b''] (Fin 0)"
  have "Solve (Some ?n) screen \<noteq> None"
    by (subst Solve_has_room_iff) (simp_all add: split_node_def NewLeaf_def screen_def fits_screen_def screen_limit_def has_room_def
        MinPaneCols_def MinPaneRows_def)
  then show ?thesis
    by (auto simp: SplitPane_def NewTree_def axisFor_def pairWith_def set_weight_def NewLeaf_def commit_def split: option.splits)
qed


text \<open>
  Stacking a new pane onto another one adds exactly that pane and expands it; the committed
  layout tiles the area with the new pane on screen.
\<close>

theorem StackNew_adds:
  assumes "layout_inv t" "newID \<noteq> []" "newID \<notin> set (panes t)" "fits_screen area"
    and "StackNew t target newID area = Inr t'"
  shows "layout_inv t' \<and> Focus t' = newID \<and> filter (\<lambda>pid. pid \<noteq> newID) (panes t') = panes t \<and>
    (\<exists>ps ds. SolveWithDividers (Root t') area = Some (ps, ds) \<and> map ID ps = panes t' \<and> newID \<in> set (shownIDs ps) \<and>
      (\<forall>cell. cover cell (regions (ps, ds)) = of_bool (in_rect cell area)))"
proof -
  have g: "fresh_in newID area t" using assms by (simp add: fresh_in_def)
  have f: "Focus t' = newID" using StackNew_Inr [OF assms(1,5,2)] by auto
  show ?thesis
    using stack.edit_inv [OF assms(1) g assms(5)] f stack.edit_drawable [OF assms(1) g assms(5)]
      inserted_filter [OF stack.edit_effect [OF assms(1) g assms(5)] assms(3)] by auto
qed

lemma stack_new_tree:
  "StackNew (NewTree ''a'') ''a'' ''b'' screen =
     Inr \<lparr>Root = Some (stack_node [NewLeaf ''a'', NewLeaf ''b''] ''b'' (Fin 0)), Focus = ''b''\<rparr>"
proof -
  let ?n = "stack_node [NewLeaf ''a'', NewLeaf ''b''] ''b'' (Fin 0)"
  have "Solve (Some ?n) screen \<noteq> None"
    by (subst Solve_has_room_iff) (simp_all add: stack_node_def NewLeaf_def screen_def fits_screen_def screen_limit_def has_room_def
        MinPaneCols_def MinPaneRows_def)
  then show ?thesis by (auto simp: StackNew_def NewTree_def NewLeaf_def commit_def split: option.splits)
qed

theorem StackNew_adds_witness:
  "\<exists>t'. StackNew (NewTree ''a'') ''a'' ''b'' screen = Inr t' \<and> layout_inv t' \<and> Focus t' = ''b''"
proof -
  obtain t' where t': "StackNew (NewTree ''a'') ''a'' ''b'' screen = Inr t'" using stack_new_tree by blast
  have "panes (NewTree ''a'') = [''a'']" by (simp add: NewTree_def panes_def)
  with StackNew_adds [OF layout_inv_NewTree [of "''a''"] _ _ screen_fits t'] t' show ?thesis by simp
qed

text \<open>
  Toggling the focused pane between a split and a stack keeps every pane in its place in the
  layout order, keeps the focus, and leaves the focused pane on screen.
\<close>

theorem ToggleStack_keeps:
  assumes "layout_inv t" "fits_screen area" "ToggleStack t (Focus t) area = Inr t'"
  shows "layout_inv t' \<and> Focus t' = Focus t \<and> panes t' = panes t \<and>
    (\<exists>ps ds. SolveWithDividers (Root t') area = Some (ps, ds) \<and> Focus t \<in> set (shownIDs ps))"
proof -
  have f: "Focus t' = Focus t" using assms(3) by (auto simp: ToggleStack_def commit_Inr split: option.splits toggleResult.splits)
  show ?thesis
    using toggle.edit_inv [OF assms(1) _ assms(3)] toggle.edit_effect [OF assms(1) _ assms(3)]
      toggle.edit_drawable [OF assms(1) _ assms(3)] f assms(2) by auto
qed

lemma toggle_two_panes:
  "ToggleStack \<lparr>Root = Some twoPanes, Focus = ''a''\<rparr> ''a'' screen =
     Inr \<lparr>Root = Some (stack_node [NewLeaf ''a'', NewLeaf ''b''] ''a'' (Fin 0)), Focus = ''a''\<rparr>"
proof -
  let ?n = "stack_node [NewLeaf ''a'', NewLeaf ''b''] ''a'' (Fin 0)"
  have "Solve (Some ?n) screen \<noteq> None"
    by (subst Solve_has_room_iff) (simp_all add: stack_node_def NewLeaf_def screen_def fits_screen_def screen_limit_def has_room_def
        MinPaneCols_def MinPaneRows_def)
  moreover have "toggleStack twoPanes ''a'' = toggleToggled ?n"
    by (simp add: twoPanes_def split_node_def stack_node_def set_weight_def NewLeaf_def splitDirectLeavesContain_def
        clearChildWeights_def set_children_def)
  ultimately show ?thesis by (auto simp: ToggleStack_def commit_def split: option.splits)
qed

theorem ToggleStack_keeps_witness:
  "\<exists>t'. ToggleStack \<lparr>Root = Some twoPanes, Focus = ''a''\<rparr> ''a'' screen = Inr t' \<and> layout_inv t' \<and> panes t' = [''a'', ''b'']"
proof -
  have "ToggleStack \<lparr>Root = Some twoPanes, Focus = ''a''\<rparr> (Focus \<lparr>Root = Some twoPanes, Focus = ''a''\<rparr>) screen =
      Inr \<lparr>Root = Some (stack_node [NewLeaf ''a'', NewLeaf ''b''] ''a'' (Fin 0)), Focus = ''a''\<rparr>"
    by (simp add: toggle_two_panes)
  from ToggleStack_keeps [OF twoPanes_inv screen_fits this] toggle_two_panes show ?thesis by (simp add: twoPanes_def)
qed


lemma resize_two_panes:
  "\<exists>t'. ResizeFocus \<lparr>Root = Some twoPanes, Focus = ''a''\<rparr> Width 5 screen = Inr t'"
proof -
  let ?s = "weightsFromExtents [45, 34] twoPanes"
  have "Solve (Some twoPanes) screen \<noteq> None" using twoPanes_solved by (simp add: SolveWithDividers_Solve)
  moreover have "Solve (Some ?s) screen \<noteq> None"
    by (subst Solve_has_room_iff) (simp_all add: weightsFromExtents_def twoPanes_def split_node_def set_weight_def set_children_def NewLeaf_def
       screen_def fits_screen_def screen_limit_def has_room_def MinPaneCols_def MinPaneRows_def)
  moreover have "nearestMatchingSplit twoPanes ''a'' Horizontal screen = Some ([], twoPanes, screen, 0)"
    by (simp add: twoPanes_def split_node_def set_weight_def NewLeaf_def)
  moreover have "hasMatchingSplit twoPanes ''a'' Horizontal"
    by (simp add: twoPanes_def split_node_def set_weight_def NewLeaf_def)
  moreover have "resizeSplit 5 Horizontal twoPanes screen 0 = Inr ?s"
    by (simp add: resizeSplit_def twoPanes_rects) (simp add: twoPanes_def split_node_def set_weight_def NewLeaf_def MinPaneCols_def
        requestedCells_def resizeTransfer_def preferredNeighbors_def extentOf_def moveCells_def)
  ultimately show ?thesis by (auto simp: ResizeFocus_def splitDirForAxis_def commit_def split: option.splits)
qed




text \<open>
  C32. Moving a pane between columns never panics; when it moves, the panes are the same, the moved
  pane is focused and on screen, the tree is a row of canonical columns again, and it solves.
\<close>

theorem ConsumeOrExpelPane_moves:
  assumes "fits_screen area"
  shows "case ConsumeOrExpelPane t target dir area of
      Moved t' \<Rightarrow> validCanonicalColumnTree t' \<and> layout_inv t' \<and> Focus t' = target \<and> mset (panes t') = mset (panes t) \<and>
        Solve (Root t') area \<noteq> None
    | MovePanics \<Rightarrow> False | _ \<Rightarrow> True"
  using ConsumeOrExpelPane_cases [OF assms, of t target dir] ConsumeOrExpelPane_inv [of t target dir area] assms
  by (auto split: moveResult.splits)

theorem ConsumeOrExpelPane_moves_witness:
  "\<exists>t'. ConsumeOrExpelPane \<lparr>Root = Some (stack_node [NewLeaf ''a'', NewLeaf ''b''] ''a'' (Fin 0)), Focus = ''a''\<rparr> ''b'' Right screen =
     Moved t' \<and> Focus t' = ''b'' \<and> layout_inv t'"
proof -
  let ?t = "\<lparr>Root = Some (stack_node [NewLeaf ''a'', NewLeaf ''b''] ''a'' (Fin 0)), Focus = ''a''\<rparr>"
  let ?n = "stack_node [NewLeaf ''a'', NewLeaf ''b''] ''a'' (Fin 0)"
  let ?m = "split_node Horizontal [NewLeaf ''a'', NewLeaf ''b''] (Fin 0)"
  have solves: "Solve (Some ?n) screen \<noteq> None" "Solve (Some ?m) screen \<noteq> None"
    by (subst Solve_has_room_iff; simp add: stack_node_def split_node_def NewLeaf_def screen_def fits_screen_def screen_limit_def
        has_room_def MinPaneCols_def MinPaneRows_def)+
  have "moveCandidate ?n ''b'' Right screen = Some ?m"
    by (simp add: moveCandidate_def canonicalColumns_def horizontalRoot_def stack_node_def split_node_def NewLeaf_def
        expelColumnMember_def Let_def withoutMember_def reducedColumn_def removeNodeAt_def remove_at_def clearChildWeights_def
        set_children_def set_expanded_def set_weight_def)
  then have "\<exists>t'. ConsumeOrExpelPane ?t ''b'' Right screen = Moved t'"
    using solves by (auto simp: ConsumeOrExpelPane_def validCanonicalColumnTree_def canonicalColumns_def horizontalRoot_def
        stack_node_def NewLeaf_def validCanonicalColumn_def addUniqueLeafID_def)
  then obtain t' where "ConsumeOrExpelPane ?t ''b'' Right screen = Moved t'" by blast
  with ConsumeOrExpelPane_moves [OF screen_fits, where t = ?t and target = "''b''" and dir = Right] show ?thesis by simp
qed



text \<open>
  The solver and the query agree on what is hidden: in a solved layout a pane is placed
  collapsed exactly when \<^verbatim>\<open>CollapsedLeaf\<close> says so.
\<close>

theorem collapsed_panes_agree:
  assumes "wf_node n" "distinct (leafIDs n)" "Solve (Some n) area = Some ps" "pid \<in> set (leafIDs n)"
  shows "CollapsedLeaf n pid \<longleftrightarrow> pid \<notin> set (shownIDs ps)"
  using CollapsedLeaf_iff [OF assms(1,2,4)] Solve_visible [OF assms(3)] by simp

theorem collapsed_panes_agree_witness:
  "\<exists>ps. Solve (Some (stack_node [NewLeaf ''a'', NewLeaf ''b''] ''b'' (Fin 0))) screen = Some ps \<and> ''a'' \<notin> set (shownIDs ps)"
proof -
  let ?n = "stack_node [NewLeaf ''a'', NewLeaf ''b''] ''b'' (Fin 0)"
  have "Solve (Some ?n) screen \<noteq> None"
    by (subst Solve_has_room_iff) (simp_all add: stack_node_def NewLeaf_def screen_def fits_screen_def screen_limit_def has_room_def
        MinPaneCols_def MinPaneRows_def)
  then obtain ps where ps: "Solve (Some ?n) screen = Some ps" by blast
  have "CollapsedLeaf ?n ''a''" by (simp add: stack_node_def NewLeaf_def stackDirectLeafIndex_def)
  with collapsed_panes_agree [OF _ _ ps, of "''a''"] ps show ?thesis by (simp add: wf_stack_node)
qed

end
