(* ===== verification/Stream_Window.thy ===== *)
theory Stream_Window
  imports Vev_Prelude "HOL-Library.Word"
begin

unbundle bit_operations_syntax

text \<open>
  The anti-replay admission window of the broker's logical streams:
  \<^verbatim>\<open>internal/ports/broker_stream_window.go\<close>.

  Stream identities are 64-bit words, the window is an array of sixteen words used as a bitset.
  The abstract view is the set of identities admitted so far: the window refines the rule that
  admits an identity exactly when it is not zero, was not admitted before and does not trail the
  newest one by the window size or more.
\<close>

section \<open>The window\<close>

definition BrokerStreamWindowSize :: nat where "BrokerStreamWindowSize = 1024"

definition brokerStreamWindowWords :: nat where "brokerStreamWindowWords = BrokerStreamWindowSize div 64"

record brokerStreamWindow =
  win_highest :: "64 word"
  win_base :: "64 word"
  win_words :: "64 word list"

definition empty_window :: brokerStreamWindow where
  "empty_window = \<lparr>win_highest = 0, win_base = 0, win_words = replicate brokerStreamWindowWords 0\<rparr>"

datatype admissionError = BrokerAdmissionInvalid | BrokerAdmissionStale

datatype admission = Admitted brokerStreamWindow | NotAdmitted admissionError | AdmitPanics

definition windowBase :: "64 word \<Rightarrow> 64 word" where
  "windowBase highest = (if highest \<le> of_nat BrokerStreamWindowSize then 1
     else highest - of_nat (BrokerStreamWindowSize - 1))"

text \<open>The word and the bit of an offset; an index outside the array is a panic.\<close>

definition setLocked :: "64 word \<Rightarrow> 64 word list \<Rightarrow> 64 word list option" where
  "setLocked offset ws =
     (let k = unat (offset div 64) in
      if k < length ws then Some (ws[k := ws ! k OR push_bit (unat (offset mod 64)) 1]) else None)"

definition testLocked :: "64 word \<Rightarrow> 64 word list \<Rightarrow> bool option" where
  "testLocked offset ws =
     (let k = unat (offset div 64) in
      if k < length ws then Some (ws ! k AND push_bit (unat (offset mod 64)) 1 \<noteq> 0) else None)"

definition shiftedWord :: "nat \<Rightarrow> nat \<Rightarrow> 64 word list \<Rightarrow> nat \<Rightarrow> 64 word" where
  "shiftedWord wds bits ws i =
     (let index = i + wds in
      if brokerStreamWindowWords \<le> index then 0
      else drop_bit bits (ws ! index) OR
        (if index + 1 < brokerStreamWindowWords then push_bit (64 - bits) (ws ! (index + 1)) else 0))"

definition shiftLocked :: "64 word \<Rightarrow> 64 word list \<Rightarrow> 64 word list" where
  "shiftLocked shift ws =
     (if of_nat BrokerStreamWindowSize \<le> shift then replicate brokerStreamWindowWords 0
      else map (shiftedWord (unat (shift div 64)) (unat (shift mod 64)) ws) [0..<brokerStreamWindowWords])"

text \<open>The three ways an identity enters a window.\<close>

definition admitAt :: "64 word \<Rightarrow> 64 word \<Rightarrow> 64 word list \<Rightarrow> 64 word \<Rightarrow> admission" where
  "admitAt highest base ws stream =
     (case setLocked (stream - base) ws of
        None \<Rightarrow> AdmitPanics
      | Some ws' \<Rightarrow> Admitted \<lparr>win_highest = highest, win_base = base, win_words = ws'\<rparr>)"

definition Admit :: "brokerStreamWindow \<Rightarrow> 64 word \<Rightarrow> admission" where
  "Admit w stream =
     (if stream = 0 then NotAdmitted BrokerAdmissionInvalid
      else if win_highest w = 0 then admitAt stream (windowBase stream) (win_words w) stream
      else if stream < win_base w then NotAdmitted BrokerAdmissionStale
      else if stream \<le> win_highest w then
        (case testLocked (stream - win_base w) (win_words w) of
           None \<Rightarrow> AdmitPanics
         | Some True \<Rightarrow> NotAdmitted BrokerAdmissionStale
         | Some False \<Rightarrow> admitAt (win_highest w) (win_base w) (win_words w) stream)
      else
        let next = windowBase stream in
        if win_base w < next
        then admitAt stream next (shiftLocked (next - win_base w) (win_words w)) stream
        else admitAt stream (win_base w) (win_words w) stream)"

section \<open>Bits of the window\<close>

definition winbit :: "64 word list \<Rightarrow> nat \<Rightarrow> bool" where
  "winbit ws k \<longleftrightarrow> bit (ws ! (k div 64)) (k mod 64)"

lemma words_16 [simp]: "brokerStreamWindowWords = 16" "BrokerStreamWindowSize = 1024"
  by (simp_all add: brokerStreamWindowWords_def BrokerStreamWindowSize_def)

lemma offset_parts:
  fixes offset :: "64 word"
  shows "unat (offset div 64) = unat offset div 64" "unat (offset mod 64) = unat offset mod 64"
  by (simp_all add: unat_div unat_mod)

lemma bit_one_shift: "bit ((2 :: 64 word) ^ m) n \<longleftrightarrow> n = m \<and> n < 64"
  by (auto simp: bit_exp_iff possible_bit_word)

lemma setLocked_winbit:
  assumes "length ws = 16" "unat offset < 1024"
  shows "\<exists>ws'. setLocked offset ws = Some ws' \<and> length ws' = 16 \<and>
    (\<forall>j < 1024. winbit ws' j \<longleftrightarrow> j = unat offset \<or> winbit ws j)"
proof -
  let ?k = "unat offset div 64" and ?b = "unat offset mod 64"
  have k: "?k < 16" using assms(2) by auto
  let ?ws = "ws[?k := ws ! ?k OR push_bit ?b 1]"
  have "winbit ?ws j \<longleftrightarrow> j = unat offset \<or> winbit ws j" if "j < 1024" for j
  proof (cases "j div 64 = ?k")
    case True
    have "j = unat offset \<longleftrightarrow> j mod 64 = ?b" using True by (metis div_mult_mod_eq)
    then show ?thesis using True k assms(1) by (auto simp: winbit_def bit_or_iff bit_one_shift)
  next
    case False
    then show ?thesis by (auto simp: winbit_def)
  qed
  then show ?thesis using k assms(1) by (simp add: setLocked_def Let_def offset_parts)
qed

lemma testLocked_winbit:
  assumes "length ws = 16" "unat offset < 1024"
  shows "testLocked offset ws = Some (winbit ws (unat offset))"
proof -
  let ?k = "unat offset div 64" and ?b = "unat offset mod 64"
  have "?k < 16" "?b < 64" using assms(2) by auto
  moreover have "(x AND push_bit ?b 1 \<noteq> 0) = bit x ?b" for x :: "64 word"
    using \<open>?b < 64\<close> unfolding bit_eq_iff [of "x AND push_bit ?b 1" 0] by (auto simp: bit_and_iff bit_one_shift)
  ultimately show ?thesis using assms(1) by (simp add: testLocked_def Let_def offset_parts winbit_def)
qed

lemma block_parts: "c < 64 \<Longrightarrow> (64 * a + c) div 64 = a \<and> (64 * a + c) mod 64 = (c :: nat)"
  by simp

lemma shiftLocked_winbit:
  assumes "length ws = 16" "j < 1024"
  shows "winbit (shiftLocked shift ws) j \<longleftrightarrow> j + unat shift < 1024 \<and> winbit ws (j + unat shift)"
    "length (shiftLocked shift ws) = 16"
proof -
  let ?s = "unat shift"
  show "length (shiftLocked shift ws) = 16" by (simp add: shiftLocked_def)
  have le: "1024 \<le> shift \<longleftrightarrow> 1024 \<le> ?s" by (simp add: word_le_nat_alt)
  show "winbit (shiftLocked shift ws) j \<longleftrightarrow> j + ?s < 1024 \<and> winbit ws (j + ?s)"
  proof (cases "1024 \<le> ?s")
    case True
    then show ?thesis using le assms(2) by (simp add: shiftLocked_def winbit_def)
  next
    case False
    define i b wds bits where d: "i = j div 64" "b = j mod 64" "wds = ?s div 64" "bits = ?s mod 64"
    have i: "i < 16" "b < 64" "bits < 64" "wds < 16" using assms(2) False by (auto simp: d)
    have j: "j = 64 * i + b" "?s = 64 * wds + bits" by (simp_all add: d)
    have w: "winbit (shiftLocked shift ws) j = bit (shiftedWord wds bits ws i) b"
      using False le i by (simp add: shiftLocked_def winbit_def offset_parts flip: d)
    show ?thesis
    proof (cases "b + bits < 64")
      case True
      have "j + ?s = 64 * (i + wds) + (b + bits)" using j by simp
      then have "(j + ?s) div 64 = i + wds" "(j + ?s) mod 64 = b + bits"
        using block_parts [OF True, of "i + wds"] by simp_all
      moreover have "j + ?s < 1024 \<longleftrightarrow> i + wds < 16" using True j by auto
      ultimately show ?thesis using i True unfolding w
        by (auto simp: shiftedWord_def Let_def winbit_def bit_or_iff bit_drop_bit_eq bit_push_bit_iff add.commute)
    next
      case carry: False
      have "j + ?s = 64 * (i + wds + 1) + (b + bits - 64)" "b + bits - 64 < 64" using j carry i by auto
      then have "(j + ?s) div 64 = i + wds + 1" "(j + ?s) mod 64 = b + bits - 64"
        using block_parts [of "b + bits - 64" "i + wds + 1"] by simp_all
      moreover have "j + ?s < 1024 \<longleftrightarrow> i + wds + 1 < 16" using carry i j by auto
      moreover have "\<not> bit (x :: 64 word) (b + bits)" for x using carry bit_imp_le_length [of x "b + bits"] by auto
      ultimately show ?thesis using i carry unfolding w
        by (auto simp: shiftedWord_def Let_def winbit_def bit_or_iff bit_drop_bit_eq bit_push_bit_iff add.commute)
    qed
  qed
qed

section \<open>The rule the window implements\<close>

text \<open>The window after the identities of a finite set have been admitted.\<close>

definition newest :: "nat set \<Rightarrow> nat" where
  "newest A = (if A = {} then 0 else Max A)"

definition oldest :: "nat \<Rightarrow> nat" where
  "oldest h = (if h \<le> 1024 then 1 else h - 1023)"

definition represents :: "brokerStreamWindow \<Rightarrow> nat set \<Rightarrow> bool" where
  "represents w A \<longleftrightarrow> finite A \<and> 0 \<notin> A \<and> length (win_words w) = 16 \<and> unat (win_highest w) = newest A \<and>
     (A = {} \<longrightarrow> (\<forall>k < 1024. \<not> winbit (win_words w) k)) \<and>
     (A \<noteq> {} \<longrightarrow> unat (win_base w) = oldest (newest A) \<and>
       (\<forall>k < 1024. winbit (win_words w) k \<longleftrightarrow> unat (win_base w) + k \<in> A))"

text \<open>An identity is admitted unless it is zero, was admitted before, or trails by the window size.\<close>

definition admissible :: "nat set \<Rightarrow> nat \<Rightarrow> bool" where
  "admissible A s \<longleftrightarrow> s \<noteq> 0 \<and> s \<notin> A \<and> (A \<noteq> {} \<longrightarrow> newest A < s + 1024)"

lemma newest_facts:
  assumes "finite A" "A \<noteq> {}"
  shows "newest A \<in> A" "x \<in> A \<Longrightarrow> x \<le> newest A" "0 \<notin> A \<Longrightarrow> 0 < newest A"
proof -
  show m: "newest A \<in> A" using assms by (simp add: newest_def)
  show "x \<in> A \<Longrightarrow> x \<le> newest A" using assms by (simp add: newest_def)
  show "0 \<notin> A \<Longrightarrow> 0 < newest A" using m by (metis gr0I)
qed

lemma newest_insert: "finite A \<Longrightarrow> newest (insert s A) = max s (newest A)"
  by (auto simp: newest_def)

lemma unat_windowBase: "s \<noteq> 0 \<Longrightarrow> unat (windowBase s) = oldest (unat s)"
proof -
  have le: "s \<le> 1024 \<longleftrightarrow> unat s \<le> 1024" by (simp add: word_le_nat_alt)
  show ?thesis
  proof (cases "unat s \<le> 1024")
    case False
    then have "(1023 :: 64 word) \<le> s" by (simp add: word_le_nat_alt)
    then have "unat (s - 1023) = unat s - 1023" by (simp add: unat_sub)
    then show ?thesis using False le by (simp add: windowBase_def oldest_def)
  qed (use le in \<open>simp add: windowBase_def oldest_def\<close>)
qed

lemma oldest_range: "0 < h \<Longrightarrow> oldest h \<le> h \<and> h - oldest h < 1024 \<and> h < oldest h + 1024 \<and> 0 < oldest h"
  by (auto simp: oldest_def)

text \<open>Entering an identity into words that describe the older ones keeps the description.\<close>

lemma admitAt_represents:
  assumes ws: "length ws = 16" and base: "unat base = oldest (newest (insert (unat s) A))" and h: "unat h = newest (insert (unat s) A)"
    and fin: "finite A" "0 \<notin> A" and s: "s \<noteq> 0" "unat base \<le> unat s"
    and bits: "\<forall>k < 1024. winbit ws k \<longleftrightarrow> unat base + k \<in> A"
  shows "\<exists>w. admitAt h base ws s = Admitted w \<and> represents w (insert (unat s) A)"
proof -
  let ?A = "insert (unat s) A"
  have s0: "0 < unat s" using s(1) by (simp add: unat_gt_0)
  have "unat s \<le> newest ?A" using fin(1) by (intro newest_facts(2)) auto
  then have off: "unat (s - base) = unat s - unat base" "unat s - unat base < 1024"
    using s(2) oldest_range [of "newest ?A"] s0 base by (auto simp: unat_sub word_le_nat_alt)
  from setLocked_winbit [OF ws, of "s - base"] off obtain ws' where
    ws': "setLocked (s - base) ws = Some ws'" "length ws' = 16"
    "\<forall>j < 1024. winbit ws' j \<longleftrightarrow> j = unat s - unat base \<or> winbit ws j" by auto
  then have "represents \<lparr>win_highest = h, win_base = base, win_words = ws'\<rparr> ?A"
    using fin h base bits s(2) s0 by (auto simp: represents_def)
  then show ?thesis using ws'(1) by (simp add: admitAt_def)
qed

lemma window_facts:
  assumes "represents w A" "A \<noteq> {}"
  shows "finite A" "0 \<notin> A" "length (win_words w) = 16" "unat (win_base w) = oldest (newest A)"
    "unat (win_highest w) = newest A" "\<forall>k < 1024. winbit (win_words w) k \<longleftrightarrow> unat (win_base w) + k \<in> A"
    "win_highest w \<noteq> 0" "oldest (newest A) \<le> newest A" "newest A < oldest (newest A) + 1024" "0 < oldest (newest A)"
proof -
  show f: "finite A" "0 \<notin> A" "length (win_words w) = 16" "unat (win_base w) = oldest (newest A)"
    "unat (win_highest w) = newest A" "\<forall>k < 1024. winbit (win_words w) k \<longleftrightarrow> unat (win_base w) + k \<in> A"
    using assms by (auto simp: represents_def)
  have "0 < newest A" using newest_facts(3) f(1,2) assms(2) by blast
  then show "win_highest w \<noteq> 0" "oldest (newest A) \<le> newest A" "newest A < oldest (newest A) + 1024" "0 < oldest (newest A)"
    using oldest_range f(5) by auto
qed

definition refined :: "nat set \<Rightarrow> 64 word \<Rightarrow> admission \<Rightarrow> bool" where
  "refined A s r \<longleftrightarrow>
     (if admissible A (unat s) then \<exists>w'. r = Admitted w' \<and> represents w' (insert (unat s) A)
      else r = NotAdmitted (if s = 0 then BrokerAdmissionInvalid else BrokerAdmissionStale))"

lemma Admit_first:
  assumes rep: "represents w {}" and s: "s \<noteq> 0"
  shows "refined {} s (Admit w s)"
proof -
  have s0: "0 < unat s" using s by (simp add: unat_gt_0)
  have h: "win_highest w = 0" using rep by (simp add: represents_def newest_def unat_eq_zero)
  have "\<exists>w'. admitAt s (windowBase s) (win_words w) s = Admitted w' \<and> represents w' (insert (unat s) {})"
    by (rule admitAt_represents) (use s s0 rep unat_windowBase [OF s] oldest_range [OF s0] in
        \<open>auto simp: represents_def newest_def\<close>)
  then show ?thesis using s h s0 by (simp add: Admit_def admissible_def refined_def)
qed

lemma Admit_inside:
  assumes rep: "represents w A" and ne: "A \<noteq> {}" and s: "s \<noteq> 0"
    and inside: "unat (win_base w) \<le> unat s" "unat s \<le> newest A"
  shows "refined A s (Admit w s)"
proof -
  note f = window_facts [OF rep ne]
  have s0: "0 < unat s" using s by (simp add: unat_gt_0)
  have off: "unat (s - win_base w) = unat s - unat (win_base w)" "unat s - unat (win_base w) < 1024"
    using inside f(4,9) by (auto simp: unat_sub word_le_nat_alt)
  have t: "testLocked (s - win_base w) (win_words w) = Some (unat s \<in> A)"
    using testLocked_winbit [OF f(3), of "s - win_base w"] off f(6) inside by simp
  have adm: "admissible A (unat s) \<longleftrightarrow> unat s \<notin> A" using inside f(4,9) s0 by (auto simp: admissible_def)
  have ins: "newest (insert (unat s) A) = newest A" using inside f(1) by (simp add: newest_insert)
  have "\<exists>w'. admitAt (win_highest w) (win_base w) (win_words w) s = Admitted w' \<and> represents w' (insert (unat s) A)"
    by (rule admitAt_represents) (use ins f s inside in auto)
  then show ?thesis using s f(7) inside t adm s0
    by (auto simp: refined_def Admit_def word_less_nat_alt word_le_nat_alt f(5) not_less split: bool.split)
qed

lemma shifted_bits:
  assumes rep: "represents w A" and ne: "A \<noteq> {}" and b: "win_base w < b" and k: "k < 1024"
  shows "winbit (shiftLocked (b - win_base w) (win_words w)) k \<longleftrightarrow> unat b + k \<in> A"
proof -
  note f = window_facts [OF rep ne]
  have d: "unat (b - win_base w) = unat b - unat (win_base w)" "unat (win_base w) < unat b"
    using b by (simp_all add: unat_sub word_less_nat_alt word_le_nat_alt)
  show ?thesis
    using shiftLocked_winbit(1) [OF f(3) k, of "b - win_base w"] d f(4,6,9) newest_facts(2) [OF f(1) ne, of "unat b + k"]
    by (auto simp: add.commute)
qed

lemma Admit_newer:
  assumes rep: "represents w A" and ne: "A \<noteq> {}" and newer: "newest A < unat s"
  shows "refined A s (Admit w s)"
proof -
  note f = window_facts [OF rep ne]
  have s: "s \<noteq> 0" "0 < unat s" using newer by auto
  have adm: "admissible A (unat s)" using newer newest_facts(2) [OF f(1) ne] s by (fastforce simp: admissible_def)
  have ins: "newest (insert (unat s) A) = unat s" using newer f(1) by (simp add: newest_insert)
  have nb: "unat (windowBase s) = oldest (unat s)" by (rule unat_windowBase [OF s(1)])
  have rng: "unat (windowBase s) \<le> unat s" using nb oldest_range [OF s(2)] by simp
  have eq: "Admit w s = (if win_base w < windowBase s
      then admitAt s (windowBase s) (shiftLocked (windowBase s - win_base w) (win_words w)) s
      else admitAt s (win_base w) (win_words w) s)"
    using s f newer by (simp add: Admit_def Let_def word_less_nat_alt word_le_nat_alt)
  show ?thesis
  proof (cases "win_base w < windowBase s")
    case True
    have "\<exists>w'. admitAt s (windowBase s) (shiftLocked (windowBase s - win_base w) (win_words w)) s = Admitted w' \<and>
        represents w' (insert (unat s) A)"
      by (rule admitAt_represents) (use shifted_bits [OF rep ne True] ins nb f s rng in \<open>auto simp: shiftLocked_def\<close>)
    then show ?thesis using eq True adm by (simp add: refined_def)
  next
    case False
    then have "unat (windowBase s) \<le> unat (win_base w)" by (simp add: word_less_nat_alt)
    then have "unat (win_base w) = oldest (unat s)" using nb f(4) newer by (auto simp: oldest_def split: if_splits)
    then have "\<exists>w'. admitAt s (win_base w) (win_words w) s = Admitted w' \<and> represents w' (insert (unat s) A)"
      by (intro admitAt_represents) (use ins f s rng nb in auto)
    then show ?thesis using eq False adm by (simp add: refined_def)
  qed
qed

lemma Admit_refines:
  assumes rep: "represents w A"
  shows "refined A s (Admit w s)"
proof (cases "s = 0 \<or> A = {}")
  case True
  then show ?thesis using Admit_first rep by (cases "s = 0") (simp_all add: refined_def Admit_def admissible_def)
next
  case False
  then have ne: "A \<noteq> {}" and s: "s \<noteq> 0" by auto
  note f = window_facts [OF rep ne]
  show ?thesis
  proof (cases "unat s < unat (win_base w)")
    case True
    then have "\<not> admissible A (unat s)" using f(4) ne by (auto simp: admissible_def oldest_def split: if_splits)
    then show ?thesis using s f(7) True by (simp add: refined_def Admit_def word_less_nat_alt)
  next
    case False
    then show ?thesis using Admit_inside [OF rep ne s] Admit_newer [OF rep ne] by (meson not_less)
  qed
qed

lemma empty_window_represents: "represents empty_window {}"
  by (simp add: represents_def empty_window_def newest_def winbit_def)

section \<open>A sequence of opens\<close>

text \<open>The identities admitted when a list of opens arrives, and the window they leave.\<close>

fun admitAll :: "brokerStreamWindow \<Rightarrow> 64 word list \<Rightarrow> (brokerStreamWindow \<times> 64 word list) option" where
  "admitAll w [] = Some (w, [])"
| "admitAll w (s # ss) =
     (case Admit w s of
        Admitted w' \<Rightarrow> map_option (\<lambda>(w'', as). (w'', s # as)) (admitAll w' ss)
      | NotAdmitted _ \<Rightarrow> admitAll w ss
      | AdmitPanics \<Rightarrow> None)"

lemma admitAll_distinct:
  assumes "represents w A"
  shows "\<exists>w' as. admitAll w ss = Some (w', as) \<and> represents w' (A \<union> unat ` set as) \<and> distinct as \<and>
    unat ` set as \<inter> A = {} \<and> set as \<subseteq> set ss"
  using assms
proof (induction ss arbitrary: w A)
  case (Cons s ss)
  show ?case
  proof (cases "admissible A (unat s)")
    case True
    then obtain w' where w': "Admit w s = Admitted w'" "represents w' (insert (unat s) A)"
      using Admit_refines [OF Cons.prems, of s] by (auto simp: refined_def)
    from Cons.IH [OF w'(2)] obtain w'' as where IH: "admitAll w' ss = Some (w'', as)"
      "represents w'' (insert (unat s) A \<union> unat ` set as)" "distinct as" "unat ` set as \<inter> insert (unat s) A = {}" "set as \<subseteq> set ss" by blast
    moreover have "unat s \<notin> A" using True by (simp add: admissible_def)
    ultimately show ?thesis using w'(1) by (auto simp: insert_commute)
  next
    case False
    then obtain e where "Admit w s = NotAdmitted e" using Admit_refines [OF Cons.prems, of s] by (auto simp: refined_def)
    then show ?thesis using Cons.IH [OF Cons.prems] by auto
  qed
qed simp

section \<open>Properties\<close>

text \<open>
  C11. The bit window implements its specification: a window that stands for a set of admitted
  identities admits exactly the identities that are not zero, not consumed and not 1024 or more
  behind the newest, enters them, and refuses the others with the documented error. No index into
  the words is ever out of range.
\<close>

theorem Admit_implements:
  assumes "represents w A"
  shows "if admissible A (unat stream) then \<exists>w'. Admit w stream = Admitted w' \<and> represents w' (insert (unat stream) A)
    else Admit w stream = NotAdmitted (if stream = 0 then BrokerAdmissionInvalid else BrokerAdmissionStale)"
  using Admit_refines [OF assms, of stream] by (simp add: refined_def)

theorem Admit_implements_witness:
  "(\<exists>w'. Admit empty_window 5000 = Admitted w' \<and> represents w' {5000}) \<and>
    Admit empty_window 0 = NotAdmitted BrokerAdmissionInvalid"
  using Admit_implements [OF empty_window_represents, of 5000] Admit_implements [OF empty_window_represents, of 0]
  by (simp add: admissible_def)

text \<open>
  However the opens of a connection arrive, with repetitions and out of order, each identity is
  admitted at most once, the identity zero never, and the window never fails.
\<close>

theorem identities_consumed_once:
  "\<exists>w as. admitAll empty_window ss = Some (w, as) \<and> distinct as \<and> set as \<subseteq> set ss \<and> 0 \<notin> set as \<and>
    represents w (unat ` set as)"
proof -
  from admitAll_distinct [OF empty_window_represents, of ss] obtain w as where
    *: "admitAll empty_window ss = Some (w, as)" "represents w (unat ` set as)" "distinct as" "set as \<subseteq> set ss" by auto
  then have "0 \<notin> unat ` set as" by (simp add: represents_def)
  then have "0 \<notin> set as" by (auto simp: image_iff)
  with * show ?thesis by blast
qed

end
