(* ===== verification/Go_Bytes.thy ===== *)
theory Go_Bytes
  imports Vev_Prelude "HOL-Library.Word" "HOL-Library.List_Lexorder"
begin

unbundle bit_operations_syntax

text \<open>
  Bytes and the pieces of Go's standard library the wire and file formats use: the big-endian
  integers of \<^verbatim>\<open>encoding/binary\<close>, the IEEE checksum of
  \<^verbatim>\<open>hash/crc32\<close>, and writers that may take fewer bytes than they were given.
\<close>

type_synonym byte = "8 word"

section \<open>Big-endian integers\<close>

definition be16 :: "16 word \<Rightarrow> byte list" where
  "be16 x = [ucast (drop_bit 8 x), ucast x]"

definition be32 :: "32 word \<Rightarrow> byte list" where
  "be32 x = [ucast (drop_bit 24 x), ucast (drop_bit 16 x), ucast (drop_bit 8 x), ucast x]"

fun from_be16 :: "byte list \<Rightarrow> 16 word" where
  "from_be16 (a # b # _) = push_bit 8 (ucast a) OR ucast b"
| "from_be16 _ = 0"

fun from_be32 :: "byte list \<Rightarrow> 32 word" where
  "from_be32 (a # b # c # d # _) =
     push_bit 24 (ucast a) OR push_bit 16 (ucast b) OR push_bit 8 (ucast c) OR ucast d"
| "from_be32 _ = 0"

lemma length_be [simp]: "length (be16 x) = 2" "length (be32 y) = 4"
  by (simp_all add: be16_def be32_def)

lemma from_be16_be16 [simp]: "from_be16 (be16 x @ rest) = x"
proof (rule bit_word_eqI)
  fix n assume "n < LENGTH(16)"
  then have n: "n < 16" by simp
  show "bit (from_be16 (be16 x @ rest)) n = bit x n"
    using n by (cases "n < 8") (auto simp: be16_def bit_or_iff bit_push_bit_iff bit_ucast_iff bit_drop_bit_eq)
qed

lemma from_be32_be32 [simp]: "from_be32 (be32 x @ rest) = x"
proof (rule bit_word_eqI)
  fix n assume "n < LENGTH(32)"
  then have n: "n < 32" by simp
  consider "n < 8" | "8 \<le> n" "n < 16" | "16 \<le> n" "n < 24" | "24 \<le> n" using n by linarith
  then show "bit (from_be32 (be32 x @ rest)) n = bit x n"
    using n by cases (auto simp: be32_def bit_or_iff bit_push_bit_iff bit_ucast_iff bit_drop_bit_eq)
qed

lemma be32_from_be32:
  assumes "length bs = 4"
  shows "be32 (from_be32 bs) = bs"
proof -
  from assms obtain a b c d where bs: "bs = [a, b, c, d]"
    by (auto simp: length_Suc_conv numeral_eq_Suc)
  have "bit (ucast (drop_bit 24 (from_be32 bs)) :: byte) n = bit a n" "bit (ucast (drop_bit 16 (from_be32 bs)) :: byte) n = bit b n"
    "bit (ucast (drop_bit 8 (from_be32 bs)) :: byte) n = bit c n" "bit (ucast (from_be32 bs) :: byte) n = bit d n" if "n < 8" for n
    using that by (auto simp: bs bit_or_iff bit_push_bit_iff bit_ucast_iff bit_drop_bit_eq dest: bit_imp_le_length)
  then show ?thesis unfolding be32_def bs by (auto intro!: bit_word_eqI simp: bs)
qed

lemma be16_from_be16:
  assumes "length bs = 2"
  shows "be16 (from_be16 bs) = bs"
proof -
  from assms obtain a b where bs: "bs = [a, b]" by (auto simp: length_Suc_conv numeral_eq_Suc)
  have "bit (ucast (drop_bit 8 (from_be16 bs)) :: byte) n = bit a n" "bit (ucast (from_be16 bs) :: byte) n = bit b n" if "n < 8" for n
    using that by (auto simp: bs bit_or_iff bit_push_bit_iff bit_ucast_iff bit_drop_bit_eq dest: bit_imp_le_length)
  then show ?thesis unfolding be16_def bs by (auto intro!: bit_word_eqI simp: bs)
qed

section \<open>The checksum\<close>

definition crc_bit :: "32 word \<Rightarrow> 32 word" where
  "crc_bit c = (if bit c 0 then drop_bit 1 c XOR 0xEDB88320 else drop_bit 1 c)"

definition crc_byte :: "32 word \<Rightarrow> byte \<Rightarrow> 32 word" where
  "crc_byte c b = (crc_bit ^^ 8) (c XOR ucast b)"

definition ChecksumIEEE :: "byte list \<Rightarrow> 32 word" where
  "ChecksumIEEE bs = NOT (foldl crc_byte (NOT 0) bs)"

end
