(* ===== verification/Kv_Codec.thy ===== *)
theory Kv_Codec
  imports Go_Bytes
begin

text \<open>
  The file format of the key/val store: \<^verbatim>\<open>pkg/kv/codec.go\<close>.

  A Go map is an association list whose keys are distinct; the file lists the entries by rising
  key. Decoding an encoded map gives the map back, and a file is accepted only when its bytes are
  exactly the checksummed entries that decoding returns.
\<close>

type_synonym entries = "(byte list \<times> byte list) list"

definition fileMagic :: "byte list" where "fileMagic = [0x56, 0x45, 0x56, 0x4B]"

definition fileVersion :: "16 word" where "fileVersion = 3"

definition filePrefixLen :: nat where "filePrefixLen = 4 + 2 + 4"

definition crcLen :: nat where "crcLen = 4"

section \<open>Encoding\<close>

definition appendCRC :: "byte list \<Rightarrow> byte list" where
  "appendCRC payload = payload @ be32 (ChecksumIEEE payload)"

definition encodeEntry :: "byte list \<times> byte list \<Rightarrow> byte list" where
  "encodeEntry = (\<lambda>(key, val). be32 (of_nat (length key)) @ key @ be32 (of_nat (length val)) @ val)"

text \<open>\<^verbatim>\<open>sort.Strings\<close> orders keys by their bytes.\<close>

definition sortedEntries :: "entries \<Rightarrow> entries" where
  "sortedEntries data = map (\<lambda>key. (key, the (map_of data key))) (sort (map fst data))"

definition encodeFile :: "entries \<Rightarrow> byte list" where
  "encodeFile data =
     appendCRC (fileMagic @ be16 fileVersion @ be32 (of_nat (length data)) @ concat (map encodeEntry (sortedEntries data)))"

section \<open>Decoding\<close>

text \<open>A length at an offset of the payload, and the offset after it.\<close>

definition decodeLength :: "byte list \<Rightarrow> nat \<Rightarrow> (nat \<times> nat) option" where
  "decodeLength payload off =
     (if length payload - off < 4 then None
      else if max_int < int (unat (from_be32 (take 4 (drop off payload)))) then None
      else Some (unat (from_be32 (take 4 (drop off payload))), off + 4))"

text \<open>One entry of the loop: key, val and the offset after them.\<close>

definition decodeEntry :: "byte list \<Rightarrow> nat \<Rightarrow> (byte list \<times> byte list \<times> nat) option" where
  "decodeEntry payload off =
     (case decodeLength payload off of
        None \<Rightarrow> None
      | Some (keyLen, off1) \<Rightarrow>
          if length payload - off1 < keyLen then None
          else (case decodeLength payload (off1 + keyLen) of
              None \<Rightarrow> None
            | Some (valueLen, off2) \<Rightarrow>
                if length payload - off2 < valueLen then None
                else Some (take keyLen (drop off1 payload), take valueLen (drop off2 payload), off2 + valueLen)))"

fun decodeEntries :: "nat \<Rightarrow> byte list \<Rightarrow> nat \<Rightarrow> entries \<Rightarrow> (entries \<times> nat) option" where
  "decodeEntries 0 payload off data = Some (data, off)"
| "decodeEntries (Suc cnt) payload off data =
     (case decodeEntry payload off of
        None \<Rightarrow> None
      | Some (key, val, off') \<Rightarrow>
          if key \<in> set (map fst data) then None
          else decodeEntries cnt payload off' (data @ [(key, val)]))"

datatype kvError = ErrCorrupt | ErrClosed | IOError

definition decodeFile :: "byte list \<Rightarrow> kvError + entries" where
  "decodeFile raw =
     (if length raw < filePrefixLen + crcLen then Inl ErrCorrupt
      else
        let payload = take (length raw - crcLen) raw in
        if ChecksumIEEE payload \<noteq> from_be32 (drop (length raw - crcLen) raw) then Inl ErrCorrupt
        else if take 4 payload \<noteq> fileMagic \<or> from_be16 (take 2 (drop 4 payload)) \<noteq> fileVersion then Inl ErrCorrupt
        else (case decodeEntries (unat (from_be32 (take 4 (drop 6 payload)))) payload filePrefixLen [] of
            None \<Rightarrow> Inl ErrCorrupt
          | Some (data, off) \<Rightarrow> if off \<noteq> length payload then Inl ErrCorrupt else Inr data))"

section \<open>Entries and their bytes\<close>

definition small_entry :: "byte list \<times> byte list \<Rightarrow> bool" where
  "small_entry = (\<lambda>(key, val). length key < 2 ^ 32 \<and> length val < 2 ^ 32)"

lemma unat_of_nat_32: "n < 2 ^ 32 \<Longrightarrow> unat (of_nat n :: 32 word) = n"
  by (simp add: unat_of_nat)

lemma decodeLength_be32:
  assumes "off = length us" "n < 2 ^ 32"
  shows "decodeLength (us @ be32 (of_nat n) @ vs) off = Some (n, off + 4)"
  using assms from_be32_be32 [of "of_nat n" "[]"] by (simp add: decodeLength_def unat_of_nat_32 max_int_def)

lemma decodeEntry_encoded:
  assumes "off = length us" "small_entry (key, val)"
  shows "decodeEntry (us @ encodeEntry (key, val) @ vs) off = Some (key, val, off + length (encodeEntry (key, val)))"
proof -
  let ?p = "us @ encodeEntry (key, val) @ vs"
  have k: "decodeLength ?p off = Some (length key, off + 4)"
    using assms decodeLength_be32 [of off us "length key" "key @ be32 (of_nat (length val)) @ val @ vs"]
    by (simp add: encodeEntry_def small_entry_def)
  have v: "decodeLength ?p (off + 4 + length key) = Some (length val, off + 4 + length key + 4)"
    using assms decodeLength_be32 [of "off + 4 + length key" "us @ be32 (of_nat (length key)) @ key" "length val" "val @ vs"]
    by (simp add: encodeEntry_def small_entry_def)
  show ?thesis by (simp only: decodeEntry_def k v option.case prod.case) (simp add: encodeEntry_def assms(1))
qed

lemma decodeEntries_encoded:
  assumes "off = length us" "\<forall>e \<in> set es. small_entry e" "distinct (map fst (data @ es))"
  shows "decodeEntries (length es) (us @ concat (map encodeEntry es) @ vs) off data =
    Some (data @ es, off + length (concat (map encodeEntry es)))"
  using assms
proof (induction es arbitrary: us off data)
  case (Cons e es)
  obtain key val where e: "e = (key, val)" by fastforce
  have d: "decodeEntry (us @ encodeEntry e @ concat (map encodeEntry es) @ vs) off = Some (key, val, off + length (encodeEntry e))"
    using decodeEntry_encoded [of off us key val "concat (map encodeEntry es) @ vs"] Cons.prems by (simp add: e)
  have "decodeEntries (length es) ((us @ encodeEntry e) @ concat (map encodeEntry es) @ vs) (off + length (encodeEntry e)) (data @ [e]) =
      Some ((data @ [e]) @ es, off + length (encodeEntry e) + length (concat (map encodeEntry es)))"
    by (rule Cons.IH) (use Cons.prems in auto)
  then show ?case using d Cons.prems(3) by (simp add: e)
qed simp

text \<open>A decoded entry is what the bytes between the two offsets encode.\<close>

lemma decodeLength_Some:
  assumes "decodeLength payload off = Some (n, off')"
  shows "off' = off + 4" "off' \<le> length payload" "n < 2 ^ 32" "take 4 (drop off payload) = be32 (of_nat n)"
proof -
  have len: "4 \<le> length payload - off" and n: "n = unat (from_be32 (take 4 (drop off payload)))" and o: "off' = off + 4"
    using assms by (auto simp: decodeLength_def split: if_splits)
  show "off' = off + 4" "off' \<le> length payload" using o len by auto
  show "n < 2 ^ 32" using n unsigned_less [of "from_be32 (take 4 (drop off payload))"] by simp
  show "take 4 (drop off payload) = be32 (of_nat n)" using n len be32_from_be32 [of "take 4 (drop off payload)"] by simp
qed

lemma drop_split: "take (k + m) (drop off xs) = take k (drop off xs) @ take m (drop (off + k) xs)"
  by (simp add: take_add add.commute)

lemma decodeEntry_Some:
  assumes "decodeEntry payload off = Some (key, val, off')"
  shows "off \<le> off'" "off' \<le> length payload" "small_entry (key, val)"
    "take (off' - off) (drop off payload) = encodeEntry (key, val)"
proof -
  from assms obtain kl o1 vl o2 where
    k: "decodeLength payload off = Some (kl, o1)" "kl \<le> length payload - o1" and
    v: "decodeLength payload (o1 + kl) = Some (vl, o2)" "vl \<le> length payload - o2" and
    r: "key = take kl (drop o1 payload)" "val = take vl (drop o2 payload)" "off' = o2 + vl"
    by (auto simp: decodeEntry_def split: option.splits if_splits)
  note kd = decodeLength_Some [OF k(1)] and vd = decodeLength_Some [OF v(1)]
  have len: "length key = kl" "length val = vl" using r k(2) v(2) kd(2) vd(2) by auto
  show "off \<le> off'" "off' \<le> length payload" using r(3) kd vd v(2) by auto
  show "small_entry (key, val)" using len kd(3) vd(3) by (simp add: small_entry_def)
  have "off' - off = 4 + (kl + (4 + vl))" using r(3) kd(1) vd(1) by simp
  then have "take (off' - off) (drop off payload) =
      take 4 (drop off payload) @ take kl (drop (off + 4) payload) @ take 4 (drop (off + 4 + kl) payload) @ take vl (drop (off + 4 + kl + 4) payload)"
    by (simp only: drop_split append.assoc)
  then show "take (off' - off) (drop off payload) = encodeEntry (key, val)"
    using kd(1,4) vd(1,4) r len by (simp add: encodeEntry_def)
qed

lemma decodeEntries_Some:
  assumes "decodeEntries cnt payload off data = Some (data', off')" "distinct (map fst data)"
  shows "\<exists>es. data' = data @ es \<and> length es = cnt \<and> distinct (map fst data') \<and> (\<forall>e \<in> set es. small_entry e) \<and>
    off \<le> off' \<and> (off \<le> length payload \<longrightarrow> off' \<le> length payload) \<and> take (off' - off) (drop off payload) = concat (map encodeEntry es)"
  using assms
proof (induction cnt arbitrary: off data)
  case (Suc cnt)
  from Suc.prems(1) obtain key val o1 where e: "decodeEntry payload off = Some (key, val, o1)"
    and new: "key \<notin> set (map fst data)" and rest: "decodeEntries cnt payload o1 (data @ [(key, val)]) = Some (data', off')"
    by (auto split: option.splits if_splits)
  note d = decodeEntry_Some [OF e]
  from Suc.IH [OF rest] new Suc.prems(2) obtain es where es: "data' = (data @ [(key, val)]) @ es" "length es = cnt"
    "distinct (map fst data')" "\<forall>e \<in> set es. small_entry e" "o1 \<le> off'" "off' \<le> length payload"
    "take (off' - o1) (drop o1 payload) = concat (map encodeEntry es)" using d(2) by auto
  have "off' - off = (o1 - off) + (off' - o1)" using d(1) es(5) by simp
  then have "take (off' - off) (drop off payload) = take (o1 - off) (drop off payload) @ take (off' - o1) (drop o1 payload)"
    using d(1) drop_split [of "o1 - off" "off' - o1" off payload] by simp
  then have "take (off' - off) (drop off payload) = concat (map encodeEntry ((key, val) # es))" using d(4) es(7) by simp
  then show ?case using es d by (intro exI [of _ "(key, val) # es"]) auto
qed auto

section \<open>Whole files\<close>

definition filePayload :: "entries \<Rightarrow> byte list" where
  "filePayload es = fileMagic @ be16 fileVersion @ be32 (of_nat (length es)) @ concat (map encodeEntry es)"

definition storable :: "entries \<Rightarrow> bool" where
  "storable data \<longleftrightarrow> distinct (map fst data) \<and> (\<forall>e \<in> set data. small_entry e) \<and> length data < 2 ^ 32"

lemma lookup_entry: "distinct (map fst data) \<Longrightarrow> e \<in> set data \<Longrightarrow> (fst e, the (map_of data (fst e))) = e"
  by (cases e) (simp add: map_of_is_SomeI)

lemma sortedEntries_facts:
  assumes "distinct (map fst data)"
  shows "set (sortedEntries data) = set data" "map fst (sortedEntries data) = sort (map fst data)"
    "map_of (sortedEntries data) = map_of data" "length (sortedEntries data) = length data" "distinct (map fst (sortedEntries data))"
proof -
  show keys: "map fst (sortedEntries data) = sort (map fst data)" by (simp add: sortedEntries_def comp_def)
  have "set (sortedEntries data) = (\<lambda>key. (key, the (map_of data key))) ` fst ` set data" by (simp add: sortedEntries_def)
  also have "\<dots> = (\<lambda>e. e) ` set data"
    unfolding image_image by (rule image_cong) (use lookup_entry [OF assms] in auto)
  finally show set: "set (sortedEntries data) = set data" by simp
  show dist: "distinct (map fst (sortedEntries data))" using keys assms by simp
  show "map_of (sortedEntries data) = map_of data" using map_of_inject_set [OF dist assms] set by simp
  show "length (sortedEntries data) = length data" by (simp add: sortedEntries_def)
qed

lemma sortedEntries_sorted:
  assumes "distinct (map fst data)" "sorted (map fst data)"
  shows "sortedEntries data = data"
proof -
  have "sort (map fst data) = map fst data" using assms(2) by (simp add: sorted_sort_id)
  moreover have "map (\<lambda>e. (fst e, the (map_of data (fst e)))) data = data"
    by (rule map_idI) (use lookup_entry [OF assms(1)] in auto)
  ultimately show ?thesis by (simp add: sortedEntries_def comp_def)
qed

lemma encodeFile_payload: "distinct (map fst data) \<Longrightarrow> encodeFile data = appendCRC (filePayload (sortedEntries data))"
  by (simp add: encodeFile_def filePayload_def sortedEntries_facts)

lemma length_fileMagic [simp]: "length fileMagic = 4"
  by (simp add: fileMagic_def)

lemma decodeFile_payload:
  assumes "distinct (map fst es)" "\<forall>e \<in> set es. small_entry e" "length es < 2 ^ 32"
  shows "decodeFile (appendCRC (filePayload es)) = Inr es"
proof -
  let ?p = "filePayload es" and ?h = "fileMagic @ be16 fileVersion @ be32 (of_nat (length es))"
  have p: "?p = ?h @ concat (map encodeEntry es) @ []" by (simp add: filePayload_def)
  have len: "length (appendCRC ?p) = length ?p + 4" "10 \<le> length ?p" by (simp_all add: appendCRC_def filePayload_def)
  have cut: "take (length (appendCRC ?p) - 4) (appendCRC ?p) = ?p" "drop (length (appendCRC ?p) - 4) (appendCRC ?p) = be32 (ChecksumIEEE ?p)"
    by (simp_all add: appendCRC_def)
  have head: "take 4 ?p = fileMagic" "take 2 (drop 4 ?p) = be16 fileVersion" "take 4 (drop 6 ?p) = be32 (of_nat (length es))"
    by (simp_all add: filePayload_def)
  have dec: "decodeEntries (length es) ?p 10 [] = Some (es, length ?p)"
    unfolding p by (subst decodeEntries_encoded) (use assms in auto)
  show ?thesis
    unfolding decodeFile_def crcLen_def filePrefixLen_def Let_def cut head
    using len dec assms(3) from_be32_be32 [of _ "[]"] from_be16_be16 [of _ "[]"] by (simp add: unat_of_nat_32)
qed

lemma decodeFile_encodeFile:
  assumes "storable data"
  shows "decodeFile (encodeFile data) = Inr (sortedEntries data)"
proof -
  have d: "distinct (map fst data)" using assms by (simp add: storable_def)
  show ?thesis unfolding encodeFile_payload [OF d]
    by (rule decodeFile_payload) (use assms sortedEntries_facts [OF d] in \<open>auto simp: storable_def\<close>)
qed

text \<open>An accepted file has no byte that the decoded entries do not account for.\<close>

lemma decodeFile_exact:
  assumes "decodeFile raw = Inr data"
  shows "storable data" "raw = appendCRC (filePayload data)"
proof -
  define p where "p = take (length raw - 4) raw"
  from assms have len: "14 \<le> length raw" and crc: "ChecksumIEEE p = from_be32 (drop (length raw - 4) raw)"
    and magic: "take 4 p = fileMagic" and ver: "from_be16 (take 2 (drop 4 p)) = fileVersion"
    and dec: "decodeEntries (unat (from_be32 (take 4 (drop 6 p)))) p 10 [] = Some (data, length p)"
    by (auto simp: decodeFile_def Let_def p_def crcLen_def filePrefixLen_def not_less split: if_splits option.splits)
  have lp: "10 \<le> length p" "length p = length raw - 4" using len by (auto simp: p_def)
  from decodeEntries_Some [OF dec] lp have es: "length data = unat (from_be32 (take 4 (drop 6 p)))" "distinct (map fst data)"
    "\<forall>e \<in> set data. small_entry e" "drop 10 p = concat (map encodeEntry data)" by auto
  show "storable data" using es(1-3) unsigned_less [of "from_be32 (take 4 (drop 6 p))"] by (simp add: storable_def)
  have v: "take 2 (drop 4 p) = be16 fileVersion" using be16_from_be16 [of "take 2 (drop 4 p)"] ver lp by simp
  have c: "take 4 (drop 6 p) = be32 (of_nat (length data))" using be32_from_be32 [of "take 4 (drop 6 p)"] es(1) lp by simp
  have "p = take 4 p @ take 2 (drop 4 p) @ take 4 (drop 6 p) @ drop 10 p"
  proof -
    have "take (4 + (2 + 4)) (drop 0 p) = take 4 (drop 0 p) @ take 2 (drop (0 + 4) p) @ take 4 (drop (0 + 4 + 2) p)"
      by (simp only: drop_split)
    then show ?thesis using append_take_drop_id [of 10 p] by simp
  qed
  then have "p = filePayload data" using magic v c es(4) by (simp add: filePayload_def)
  moreover have "raw = p @ drop (length raw - 4) raw" by (simp add: p_def)
  moreover have "drop (length raw - 4) raw = be32 (ChecksumIEEE p)"
    using be32_from_be32 [of "drop (length raw - 4) raw"] crc len by simp
  ultimately show "raw = appendCRC (filePayload data)" by (metis appendCRC_def)
qed

section \<open>Properties\<close>

text \<open>
  C33. A store file round-trips: decoding the encoding of a map whose lengths fit the 32-bit fields
  gives the same map, its entries in key order.
\<close>

theorem file_roundtrip:
  assumes "storable data"
  shows "\<exists>es. decodeFile (encodeFile data) = Inr es \<and> map_of es = map_of data \<and> sorted (map fst es)"
proof -
  have d: "distinct (map fst data)" using assms by (simp add: storable_def)
  show ?thesis using decodeFile_encodeFile [OF assms] sortedEntries_facts [OF d] by auto
qed

theorem file_roundtrip_witness:
  "\<exists>es. decodeFile (encodeFile [([2, 1], [7]), ([1], [])]) = Inr es \<and>
    map_of es = map_of [([2, 1], [7]), ([1], [])] \<and> sorted (map fst es)"
  by (rule file_roundtrip) (simp add: storable_def small_entry_def)

text \<open>
  C34. The decoder accepts nothing but files an encoder could have written: an accepted file is the
  checksummed layout of the entries it decodes to, with no duplicate key and no trailing byte.
\<close>

theorem decodeFile_accepts_only_files:
  assumes "decodeFile raw = Inr data"
  shows "raw = appendCRC (filePayload data) \<and> distinct (map fst data)"
  using decodeFile_exact [OF assms] by (simp add: storable_def)

theorem decodeFile_accepts_only_files_witness:
  "\<exists>data. encodeFile [([1], [9])] = appendCRC (filePayload data) \<and> distinct (map fst data)"
proof -
  have s: "storable [([1], [9])]" by (simp add: storable_def small_entry_def)
  show ?thesis using decodeFile_accepts_only_files [OF decodeFile_encodeFile [OF s]] by blast
qed

end
