(* ===== verification/Kv_Store.thy ===== *)
theory Kv_Store
  imports Kv_Codec "HOL-Library.AList"
begin

text \<open>
  The key/value store: \<^verbatim>\<open>pkg/kv/kv.go\<close>.

  A store keeps a map in memory and writes the whole file at a sync: a temporary file, its fsync,
  a rename over the main file, an fsync of the directory. Each of these system calls may fail; the
  fault is an argument of the model. The main file only changes at the rename, so it always holds
  one whole encoded map. The process lock and the permissions of the directory are not modelled.
\<close>

section \<open>State\<close>

record store =
  st_data :: entries
  st_dirty :: bool
  st_closed :: bool

text \<open>The main file on disk; \<open>None\<close> when it does not exist.\<close>

type_synonym disk = "byte list option"

text \<open>The first system call of a sync that fails.\<close>

datatype syncFault = NoFault | OpenTmpFails | WriteFails | FsyncFails | CloseTmpFails | RenameFails | SyncDirFails

section \<open>Operations\<close>

definition syncLocked :: "syncFault \<Rightarrow> store \<Rightarrow> disk \<Rightarrow> (kvError option \<times> store \<times> disk)" where
  "syncLocked fault s d =
     (if \<not> st_dirty s then (None, s, d)
      else (case fault of
          NoFault \<Rightarrow> (None, s\<lparr>st_dirty := False\<rparr>, Some (encodeFile (st_data s)))
        | SyncDirFails \<Rightarrow> (Some IOError, s, Some (encodeFile (st_data s)))
        | _ \<Rightarrow> (Some IOError, s, d)))"

datatype openFault = NoOpenFault | PrivateDirFails | LockFails | ReadFails

definition OpenStore :: "openFault \<Rightarrow> syncFault \<Rightarrow> disk \<Rightarrow> (kvError + store) \<times> disk" where
  "OpenStore fault sfault d =
     (case fault of
        NoOpenFault \<Rightarrow>
          (case d of
             None \<Rightarrow>
               (case syncLocked sfault \<lparr>st_data = [], st_dirty = True, st_closed = False\<rparr> d of
                  (None, s, d') \<Rightarrow> (Inr s, d')
                | (Some err, _, d') \<Rightarrow> (Inl err, d'))
           | Some raw \<Rightarrow>
               (case decodeFile raw of
                  Inl err \<Rightarrow> (Inl err, d)
                | Inr data \<Rightarrow> (Inr \<lparr>st_data = data, st_dirty = False, st_closed = False\<rparr>, d)))
      | _ \<Rightarrow> (Inl IOError, d))"

definition Get :: "store \<Rightarrow> byte list \<Rightarrow> byte list \<times> bool" where
  "Get s key = (case map_of (st_data s) key of None \<Rightarrow> ([], False) | Some val \<Rightarrow> (val, True))"

definition SetKey :: "store \<Rightarrow> byte list \<Rightarrow> byte list \<Rightarrow> kvError + store" where
  "SetKey s key val =
     (if st_closed s then Inl ErrClosed
      else Inr (s\<lparr>st_data := AList.update key val (st_data s), st_dirty := True\<rparr>))"

definition DeleteKey :: "store \<Rightarrow> byte list \<Rightarrow> kvError + store" where
  "DeleteKey s key =
     (if st_closed s then Inl ErrClosed
      else Inr (if map_of (st_data s) key \<noteq> None
                then s\<lparr>st_data := AList.delete key (st_data s), st_dirty := True\<rparr> else s))"

text \<open>The pairs a callback sees before it stops the walk.\<close>

fun visited :: "(byte list \<Rightarrow> byte list \<Rightarrow> bool) \<Rightarrow> entries \<Rightarrow> entries" where
  "visited fn [] = []"
| "visited fn ((k, v) # es) = (k, v) # (if fn k v then visited fn es else [])"

definition RangeKeys :: "(byte list \<Rightarrow> byte list \<Rightarrow> bool) \<Rightarrow> store \<Rightarrow> entries" where
  "RangeKeys fn s = visited fn (sortedEntries (st_data s))"

definition Sync :: "syncFault \<Rightarrow> store \<Rightarrow> disk \<Rightarrow> (kvError option \<times> store \<times> disk)" where
  "Sync fault s d = (if st_closed s then (Some ErrClosed, s, d) else syncLocked fault s d)"

definition CloseStore :: "syncFault \<Rightarrow> store \<Rightarrow> disk \<Rightarrow> (kvError option \<times> store \<times> disk)" where
  "CloseStore fault s d =
     (if st_closed s then (None, s, d)
      else (case syncLocked fault s d of (err, s', d') \<Rightarrow> (err, s'\<lparr>st_closed := True\<rparr>, d')))"

definition CloseWithoutSync :: "store \<Rightarrow> store" where
  "CloseWithoutSync s = (if st_closed s then s else s\<lparr>st_closed := True\<rparr>)"

section \<open>Contract of a map\<close>

text \<open>What the callers of a store rely on.\<close>

locale key_store =
  fixes lookup :: "'s \<Rightarrow> 'k \<Rightarrow> 'v option"
    and put :: "'s \<Rightarrow> 'k \<Rightarrow> 'v \<Rightarrow> 's option"
    and remove :: "'s \<Rightarrow> 'k \<Rightarrow> 's option"
  assumes put_lookup: "put s k v = Some s' \<Longrightarrow> lookup s' k' = (if k' = k then Some v else lookup s k')"
    and remove_lookup: "remove s k = Some s' \<Longrightarrow> lookup s' k' = (if k' = k then None else lookup s k')"
begin

lemma last_put_wins: "put s k v = Some s1 \<Longrightarrow> put s1 k v' = Some s2 \<Longrightarrow> lookup s2 k = Some v'"
  by (simp add: put_lookup)

lemma puts_commute:
  assumes "k \<noteq> k'" "put s k v = Some s1" "put s1 k' v' = Some s2" "put s k' v' = Some t1" "put t1 k v = Some t2"
  shows "lookup s2 x = lookup t2 x"
  using assms by (simp add: put_lookup)

lemma remove_undoes_put:
  assumes "lookup s k = None" "put s k v = Some s1" "remove s1 k = Some s2"
  shows "lookup s2 x = lookup s x"
  using assms by (simp add: put_lookup remove_lookup)

end

definition lookupKey :: "store \<Rightarrow> byte list \<Rightarrow> byte list option" where
  "lookupKey s k = (case Get s k of (val, True) \<Rightarrow> Some val | (_, False) \<Rightarrow> None)"

definition ok :: "'e + 'a \<Rightarrow> 'a option" where
  "ok r = (case r of Inl _ \<Rightarrow> None | Inr x \<Rightarrow> Some x)"

lemma lookupKey_map_of: "lookupKey s k = map_of (st_data s) k"
  by (simp add: lookupKey_def Get_def split: option.split)

interpretation kv: key_store lookupKey "\<lambda>s k v. ok (SetKey s k v)" "\<lambda>s k. ok (DeleteKey s k)"
  by unfold_locales (auto simp: lookupKey_map_of ok_def SetKey_def DeleteKey_def update_conv' delete_conv' split: if_splits)

section \<open>The file always holds one whole map\<close>

text \<open>The decoded main file, and the maps a store had in memory.\<close>

definition diskMap :: "disk \<Rightarrow> (byte list \<rightharpoonup> byte list) option" where
  "diskMap d = (case d of None \<Rightarrow> None | Some raw \<Rightarrow> (case decodeFile raw of Inl _ \<Rightarrow> None | Inr es \<Rightarrow> Some (map_of es)))"

text \<open>A clean store agrees with the file, and the file is readable.\<close>

definition store_inv :: "store \<Rightarrow> disk \<Rightarrow> bool" where
  "store_inv s d \<longleftrightarrow> distinct (map fst (st_data s)) \<and> (\<exists>m. diskMap d = Some m) \<and>
     (\<not> st_dirty s \<longrightarrow> diskMap d = Some (map_of (st_data s)))"

lemma diskMap_encodeFile: "storable data \<Longrightarrow> diskMap (Some (encodeFile data)) = Some (map_of data)"
  using sortedEntries_facts(3) by (simp add: diskMap_def decodeFile_encodeFile storable_def)

text \<open>Whatever fails, a sync leaves the old file or the whole new map.\<close>

lemma syncLocked_atomic:
  assumes "store_inv s d" "storable (st_data s)" "syncLocked fault s d = (err, s', d')"
  shows "store_inv s' d'" "st_data s' = st_data s" "d' = d \<or> diskMap d' = Some (map_of (st_data s))"
    "err = None \<Longrightarrow> diskMap d' = Some (map_of (st_data s)) \<and> \<not> st_dirty s'"
  using assms diskMap_encodeFile [OF assms(2)]
  by (auto simp: syncLocked_def store_inv_def split: if_splits syncFault.splits)

lemma OpenStore_inv:
  assumes "OpenStore fault sfault d = (Inr s, d')"
  shows "store_inv s d' \<and> \<not> st_dirty s \<and> \<not> st_closed s \<and> diskMap d' = Some (map_of (st_data s))"
proof -
  have e: "diskMap (Some (encodeFile [])) = Some (map_of [])"
    by (rule diskMap_encodeFile) (simp add: storable_def)
  show ?thesis
  proof (cases d)
    case None
    with assms e show ?thesis
      by (auto simp: OpenStore_def syncLocked_def store_inv_def split: openFault.splits syncFault.splits option.splits prod.splits)
  next
    case (Some raw)
    with assms obtain data where "decodeFile raw = Inr data" "s = \<lparr>st_data = data, st_dirty = False, st_closed = False\<rparr>" "d' = d"
      by (auto simp: OpenStore_def split: openFault.splits sum.splits)
    with Some decodeFile_exact(1) [of raw data] show ?thesis by (auto simp: store_inv_def diskMap_def storable_def)
  qed
qed

section \<open>Runs of a store\<close>

text \<open>
  A run of a store from its opening, with the set of all maps it has had in memory. Every sync and
  close may fail in any of its system calls; the lengths fit the 32-bit fields of the file.
\<close>

inductive kv_run :: "store \<Rightarrow> disk \<Rightarrow> (byte list \<rightharpoonup> byte list) set \<Rightarrow> bool" where
  run_open: "OpenStore fault sfault d0 = (Inr s, d) \<Longrightarrow> kv_run s d {map_of (st_data s)}"
| run_set: "kv_run s d H \<Longrightarrow> SetKey s k v = Inr s' \<Longrightarrow> storable (st_data s') \<Longrightarrow> kv_run s' d (insert (map_of (st_data s')) H)"
| run_delete: "kv_run s d H \<Longrightarrow> DeleteKey s k = Inr s' \<Longrightarrow> kv_run s' d (insert (map_of (st_data s')) H)"
| run_sync: "kv_run s d H \<Longrightarrow> Sync fault s d = (err, s', d') \<Longrightarrow> kv_run s' d' H"
| run_close: "kv_run s d H \<Longrightarrow> CloseStore fault s d = (err, s', d') \<Longrightarrow> kv_run s' d' H"
| run_drop: "kv_run s d H \<Longrightarrow> kv_run (CloseWithoutSync s) d H"

definition run_inv :: "store \<Rightarrow> disk \<Rightarrow> (byte list \<rightharpoonup> byte list) set \<Rightarrow> bool" where
  "run_inv s d H \<longleftrightarrow> store_inv s d \<and> storable (st_data s) \<and> map_of (st_data s) \<in> H \<and> (\<exists>m \<in> H. diskMap d = Some m)"

lemma storable_delete: "storable data \<Longrightarrow> storable (AList.delete key data)"
proof -
  assume a: "storable data"
  have "set (AList.delete key data) \<subseteq> set data" by (auto simp: AList.delete_eq)
  then show ?thesis using a length_delete_le [of key data] distinct_delete [of data key] by (auto simp: storable_def)
qed

lemma run_inv_update:
  assumes "run_inv s d H" "storable data"
  shows "run_inv (s\<lparr>st_data := data, st_dirty := True\<rparr>) d (insert (map_of data) H)"
  using assms by (auto simp: run_inv_def store_inv_def storable_def)

lemma run_inv_sync:
  assumes "run_inv s d H" "syncLocked fault s d = (err, s', d')"
  shows "run_inv s' d' H"
proof -
  have i: "store_inv s d" "storable (st_data s)" "map_of (st_data s) \<in> H" "\<exists>m \<in> H. diskMap d = Some m"
    using assms(1) by (auto simp: run_inv_def)
  note a = syncLocked_atomic [OF i(1,2) assms(2)]
  show ?thesis using i a(1-3) by (auto simp: run_inv_def)
qed

lemma run_inv_closed: "run_inv s d H \<Longrightarrow> run_inv (s\<lparr>st_closed := c\<rparr>) d H"
  by (simp add: run_inv_def store_inv_def)

lemma OpenStore_storable: "OpenStore fault sfault d = (Inr s, d') \<Longrightarrow> storable (st_data s)"
  using decodeFile_exact(1)
  by (auto simp: OpenStore_def syncLocked_def storable_def split: openFault.splits syncFault.splits option.splits prod.splits sum.splits)

lemma kv_run_inv: "kv_run s d H \<Longrightarrow> run_inv s d H"
proof (induction rule: kv_run.induct)
  case (run_open fault sfault d0 s d)
  then show ?case using OpenStore_inv OpenStore_storable by (fastforce simp: run_inv_def)
next
  case (run_set s d H k v s')
  then show ?case using run_inv_update [OF run_set.IH, of "AList.update k v (st_data s)"]
    by (auto simp: SetKey_def split: if_splits)
next
  case (run_delete s d H k s')
  have "storable (AList.delete k (st_data s))" using run_delete.IH by (simp add: run_inv_def storable_delete)
  then show ?case using run_inv_update [OF run_delete.IH] run_delete
    by (auto simp: DeleteKey_def insert_absorb run_inv_def split: if_splits)
next
  case (run_sync s d H fault err s' d')
  then show ?case using run_inv_sync [OF run_sync.IH] by (auto simp: Sync_def split: if_splits)
next
  case (run_close s d H fault err s' d')
  show ?case
  proof (cases "st_closed s")
    case False
    with run_close.hyps(2) obtain s'' where "syncLocked fault s d = (err, s'', d')" "s' = s''\<lparr>st_closed := True\<rparr>"
      by (auto simp: CloseStore_def split: prod.splits)
    then show ?thesis using run_inv_closed run_inv_sync [OF run_close.IH] by blast
  qed (use run_close in \<open>simp add: CloseStore_def\<close>)
next
  case (run_drop s d H)
  then show ?case by (simp add: CloseWithoutSync_def run_inv_closed)
qed

text \<open>Opening the file a run left behind.\<close>

lemma reopen_finds_old_map:
  assumes "kv_run s d H"
  shows "\<exists>s'. OpenStore NoOpenFault NoFault d = (Inr s', d) \<and> map_of (st_data s') \<in> H"
proof -
  from kv_run_inv [OF assms] obtain m where m: "m \<in> H" "diskMap d = Some m" by (auto simp: run_inv_def)
  then obtain raw es where "d = Some raw" "decodeFile raw = Inr es" "m = map_of es"
    by (auto simp: diskMap_def split: option.splits sum.splits)
  with m show ?thesis by (simp add: OpenStore_def)
qed

section \<open>Properties\<close>

text \<open>
  C12. The store survives failing system calls: after any run, in which every sync and close may
  fail at any of its steps, the file opens again and holds one of the whole maps the store has
  had, never a mixture.
\<close>

theorem reopened_store_is_whole:
  assumes "kv_run s d H"
  shows "\<exists>s'. OpenStore NoOpenFault NoFault d = (Inr s', d) \<and> map_of (st_data s') \<in> H"
  by (rule reopen_finds_old_map [OF assms])

theorem reopened_store_is_whole_witness:
  "\<exists>s d H s'. kv_run s d H \<and> map_of (st_data s) = [[1] \<mapsto> [2]] \<and>
     OpenStore NoOpenFault NoFault d = (Inr s', d) \<and> map_of (st_data s') \<in> H"
proof -
  let ?s0 = "\<lparr>st_data = [], st_dirty = False, st_closed = False\<rparr>"
  let ?s1 = "\<lparr>st_data = [([1], [2])], st_dirty = True, st_closed = False\<rparr>"
  let ?d = "Some (encodeFile [])"
  have "OpenStore NoOpenFault NoFault None = (Inr ?s0, ?d)" by (simp add: OpenStore_def syncLocked_def)
  from kv_run.run_open [OF this] have "kv_run ?s0 ?d {map_of []}" by simp
  from kv_run.run_set [OF this, of "[1]" "[2]" ?s1] have
    "kv_run ?s1 ?d {map_of [([1], [2])], map_of []}"
    by (simp add: SetKey_def storable_def small_entry_def)
  from kv_run.run_sync [OF this, of RenameFails "Some IOError" ?s1 ?d] have run:
    "kv_run ?s1 ?d {map_of [([1], [2])], map_of []}" by (simp add: Sync_def syncLocked_def)
  from reopened_store_is_whole [OF run] run show ?thesis by fastforce
qed



text \<open>
  Between opening and closing the store is a map: a set key is found, another key is untouched,
  a deleted key is gone.
\<close>

theorem store_is_a_map:
  assumes "SetKey s k v = Inr s1" "DeleteKey s1 k' = Inr s2"
  shows "lookupKey s2 x = (if x = k' then None else if x = k then Some v else lookupKey s x)"
  using assms kv.put_lookup [of s k v s1 x] kv.remove_lookup [of s1 k' s2 x] by (simp add: ok_def)

theorem store_is_a_map_witness:
  "\<exists>s1 s2. SetKey \<lparr>st_data = [([1], [1])], st_dirty = False, st_closed = False\<rparr> [2] [5] = Inr s1 \<and>
     DeleteKey s1 [1] = Inr s2 \<and> lookupKey s2 [2] = Some [5] \<and> lookupKey s2 [1] = None"
proof -
  let ?s = "\<lparr>st_data = [([1 :: byte], [1 :: byte])], st_dirty = False, st_closed = False\<rparr>"
  obtain s1 where 1: "SetKey ?s [2] [5] = Inr s1" "st_data s1 = [([1], [1]), ([2], [5])]" "\<not> st_closed s1" by (simp add: SetKey_def)
  obtain s2 where 2: "DeleteKey s1 [1] = Inr s2" using 1(2,3) by (auto simp: DeleteKey_def)
  show ?thesis using 1(1) 2 store_is_a_map [OF 1(1) 2] by auto
qed

end
