(* ===== verification/Stream_Frame.thy ===== *)
theory Stream_Frame
  imports Go_Bytes
begin

text \<open>
  Length-delimited envelopes over a byte stream:
  \<^verbatim>\<open>internal/adapters/streamframe/streamframe.go\<close>.

  The first part is the framing: \<open>frame\<close> on the sending side, \<open>recvLocked\<close> on the bytes
  that arrive on the other. The second part is the bounded queue between the senders and the one
  writer goroutine, as a step relation whose steps are the critical sections of the code, so that
  senders, writer and close may interleave.
\<close>

section \<open>Bounds and options\<close>

definition AbsoluteLimit :: int where "AbsoluteLimit = 16 * 2 ^ 20"

definition DefaultQueuedMessages :: int where "DefaultQueuedMessages = 8"

definition DefaultQueuedBytes :: "64 word" where "DefaultQueuedBytes = 32 * 2 ^ 20"

datatype frameError = ErrClosed | ErrBackpressure | ErrTooLarge | ErrZeroLength | EOF | UnexpectedEOF | WriteError | ErrShortWrite

record framerConfig =
  maxEnvelope :: int
  queueMessages :: int
  queueBytes :: "64 word"

definition WithMaxEnvelope :: "64 word \<Rightarrow> framerConfig \<Rightarrow> framerConfig" where
  "WithMaxEnvelope limit f =
     (if limit = 0 then f\<lparr>maxEnvelope := 0\<rparr>
      else if AbsoluteLimit < uint limit then f\<lparr>maxEnvelope := AbsoluteLimit\<rparr>
      else f\<lparr>maxEnvelope := uint limit\<rparr>)"

definition WithQueueBounds :: "int \<Rightarrow> 64 word \<Rightarrow> framerConfig \<Rightarrow> framerConfig" where
  "WithQueueBounds messages bytes f =
     (let g = (if 0 < messages then f\<lparr>queueMessages := messages\<rparr> else f) in
      if 0 < bytes then g\<lparr>queueBytes := bytes\<rparr> else g)"

text \<open>The configuration and the capacity of the queue that \<^verbatim>\<open>NewFramer\<close> ends up with.\<close>

definition NewFramer :: "(framerConfig \<Rightarrow> framerConfig) list \<Rightarrow> framerConfig \<times> int" where
  "NewFramer opts =
     (let f = fold (\<lambda>opt f. opt f) opts
            \<lparr>maxEnvelope = AbsoluteLimit, queueMessages = DefaultQueuedMessages, queueBytes = DefaultQueuedBytes\<rparr>
      in (f, if DefaultQueuedMessages < queueMessages f then queueMessages f else DefaultQueuedMessages))"

section \<open>Framing\<close>

definition frame :: "framerConfig \<Rightarrow> byte list \<Rightarrow> frameError + byte list" where
  "frame f payload =
     (if maxEnvelope f \<le> 0 then Inl ErrClosed
      else if payload = [] then Inl ErrZeroLength
      else if maxEnvelope f < int (length payload) then Inl ErrTooLarge
      else Inr (be32 (of_nat (length payload)) @ payload))"

definition negotiatedBound :: "framerConfig \<Rightarrow> nat" where
  "negotiatedBound f = (if maxEnvelope f \<le> 0 then 0 else nat (maxEnvelope f))"

text \<open>
  \<^verbatim>\<open>io.ReadFull\<close> on the bytes that are still to come: the bytes and the rest, or the
  error of a stream that ends too early.
\<close>

definition readFull :: "nat \<Rightarrow> byte list \<Rightarrow> frameError + (byte list \<times> byte list)" where
  "readFull n input =
     (if n \<le> length input then Inr (take n input, drop n input)
      else Inl (if input = [] then EOF else UnexpectedEOF))"

definition recvLocked :: "bool \<Rightarrow> nat \<Rightarrow> byte list \<Rightarrow> frameError + (byte list \<times> byte list)" where
  "recvLocked isClosed bound input =
     (case readFull 4 input of
        Inl err \<Rightarrow> Inl (if isClosed then EOF else err)
      | Inr (header, rest) \<Rightarrow>
          let len = unat (from_be32 header) in
          if len = 0 then Inl ErrZeroLength
          else if bound < len then Inl ErrTooLarge
          else (case readFull len rest of
              Inl err \<Rightarrow> Inl (if isClosed then EOF else err)
            | Inr (payload, rest') \<Rightarrow> Inr (payload, rest')))"

definition Recv :: "framerConfig \<Rightarrow> bool \<Rightarrow> byte list \<Rightarrow> frameError + (byte list \<times> byte list)" where
  "Recv f isClosed input = recvLocked isClosed (negotiatedBound f) input"

definition RecvBounded :: "framerConfig \<Rightarrow> nat \<Rightarrow> bool \<Rightarrow> byte list \<Rightarrow> frameError + (byte list \<times> byte list)" where
  "RecvBounded f limit isClosed input = recvLocked isClosed (min (negotiatedBound f) limit) input"

text \<open>A writer that takes some of the bytes at each call and may fail; what reaches it.\<close>

fun writeAll :: "(nat \<times> bool) list \<Rightarrow> byte list \<Rightarrow> byte list \<times> frameError option" where
  "writeAll outcomes [] = ([], None)"
| "writeAll [] data = ([], Some ErrShortWrite)"
| "writeAll ((n, failed) # outcomes) data =
     (let sent = take n data in
      if failed then (sent, Some WriteError)
      else if n = 0 then ([], Some ErrShortWrite)
      else (case writeAll outcomes (drop n data) of (later, err) \<Rightarrow> (sent @ later, err)))"

section \<open>Frames survive the stream\<close>

lemma frame_Inr:
  "frame f payload = Inr bs \<longleftrightarrow>
     0 < length payload \<and> int (length payload) \<le> maxEnvelope f \<and> bs = be32 (of_nat (length payload)) @ payload"
  by (cases payload) (auto simp: frame_def)

lemma recv_frame:
  assumes "frame f payload = Inr bs" "length payload \<le> bound" "maxEnvelope f \<le> AbsoluteLimit"
  shows "recvLocked isClosed bound (bs @ rest) = Inr (payload, rest)"
proof -
  have "length payload < 2 ^ 32" using assms(1,3) by (simp add: frame_Inr AbsoluteLimit_def)
  then have u: "unat (of_nat (length payload) :: 32 word) = length payload" by (simp add: unat_of_nat)
  have bs: "bs = be32 (of_nat (length payload)) @ payload" "payload \<noteq> []" using assms(1) by (auto simp: frame_Inr)
  have "readFull 4 (bs @ rest) = Inr (be32 (of_nat (length payload)), payload @ rest)" by (simp add: readFull_def bs)
  moreover have "from_be32 (be32 (of_nat (length payload))) = of_nat (length payload)" using from_be32_be32 [of _ "[]"] by simp
  moreover have "readFull (length payload) (payload @ rest) = Inr (payload, rest)" by (simp add: readFull_def)
  ultimately show ?thesis using u bs(2) assms(2) by (simp add: recvLocked_def Let_def)
qed

lemma recvLocked_Inr:
  assumes "recvLocked isClosed bound input = Inr (payload, rest)"
  shows "input = be32 (of_nat (length payload)) @ payload @ rest" "0 < length payload" "length payload \<le> bound"
proof -
  from assms have len: "4 \<le> length input" and nz: "unat (from_be32 (take 4 input)) \<noteq> 0" "unat (from_be32 (take 4 input)) \<le> bound"
    and r: "readFull (unat (from_be32 (take 4 input))) (drop 4 input) = Inr (payload, rest)"
    by (auto simp: recvLocked_def readFull_def [of 4] Let_def split: if_splits sum.splits)
  have p: "length payload = unat (from_be32 (take 4 input))" "payload @ rest = drop 4 input"
    using r by (auto simp: readFull_def simp del: drop_drop split: if_splits)
  have "take 4 input = be32 (of_nat (length payload))" using be32_from_be32 [of "take 4 input"] len p(1) by simp
  then show "input = be32 (of_nat (length payload)) @ payload @ rest" using p(2) append_take_drop_id [of 4 input] by metis
  show "0 < length payload" "length payload \<le> bound" using nz p(1) by auto
qed

text \<open>Receiving until the stream ends.\<close>

function recvAll :: "nat \<Rightarrow> byte list \<Rightarrow> byte list list \<times> frameError" where
  "recvAll bound input =
     (case recvLocked False bound input of
        Inl err \<Rightarrow> ([], err)
      | Inr (payload, rest) \<Rightarrow> (case recvAll bound rest of (ps, err) \<Rightarrow> (payload # ps, err)))"
  by pat_completeness auto
termination
proof (relation "measure (length \<circ> snd)")
  fix bound input x payload rest
  assume "recvLocked False bound input = Inr x" "(payload, rest) = x"
  then have "input = be32 (of_nat (length payload)) @ payload @ rest" using recvLocked_Inr(1) by metis
  then have "length input = 4 + length payload + length rest" by (metis length_append length_be(2) add.assoc)
  then show "((bound, rest), bound, input) \<in> measure (length \<circ> snd)" by simp
qed simp

declare recvAll.simps [simp del]

lemma recvAll_frames:
  assumes "\<forall>p \<in> set ps. \<exists>bs. frame f p = Inr bs" "maxEnvelope f \<le> AbsoluteLimit" "negotiatedBound f \<le> bound"
  shows "recvAll bound (concat (map (\<lambda>p. be32 (of_nat (length p)) @ p) ps)) = (ps, EOF)"
  using assms(1)
proof (induction ps)
  case Nil
  then show ?case by (subst recvAll.simps) (simp add: recvLocked_def readFull_def)
next
  case (Cons p ps)
  obtain bs where bs: "frame f p = Inr bs" using Cons.prems by auto
  have "length p \<le> bound" using bs assms(3) by (cases p) (auto simp: frame_Inr negotiatedBound_def split: if_splits)
  from recv_frame [OF bs this assms(2)] bs have
    "recvLocked False bound (concat (map (\<lambda>p. be32 (of_nat (length p)) @ p) (p # ps))) = Inr (p, concat (map (\<lambda>p. be32 (of_nat (length p)) @ p) ps))"
    by (simp add: frame_Inr)
  then show ?case using Cons by (subst recvAll.simps) simp
qed

lemma writeAll_prefix:
  "writeAll outcomes data = (sent, err) \<Longrightarrow> (\<exists>rest. data = sent @ rest) \<and> (err = None \<longrightarrow> sent = data)"
proof (induction outcomes data arbitrary: sent rule: writeAll.induct)
  case (3 n failed outcomes v va)
  let ?data = "v # va"
  show ?case
  proof (cases "failed \<or> n = 0")
    case True
    then show ?thesis using "3.prems" by (auto simp: Let_def intro: exI [of _ "drop n ?data"] split: if_splits)
  next
    case False
    then obtain later where m: "writeAll outcomes (drop n ?data) = (later, err)" "sent = take n ?data @ later"
      using "3.prems" by (auto simp: Let_def split: prod.splits)
    have "(\<exists>rest. drop n ?data = later @ rest) \<and> (err = None \<longrightarrow> later = drop n ?data)"
      using "3.IH" [OF refl _ _ m(1)] False by simp
    then show ?thesis using m(2) append_take_drop_id [of n ?data] by (metis append.assoc)
  qed
qed auto

section \<open>The queue and its writer\<close>

text \<open>A frame to write and the bytes it was charged against the budget.\<close>

record sendRequest =
  sr_data :: "byte list"
  sr_counted :: "64 word"

text \<open>Between two frames, after taking one off the queue, while writing it, and after the close.\<close>

datatype writerState = Idle | Holding sendRequest | Writing sendRequest | Stopped

text \<open>
  \<^verbatim>\<open>eg_senders\<close> are the calls of \<^verbatim>\<open>enqueueWait\<close> that registered and have not
  finished: the code counts them in \<^verbatim>\<open>egressSenders\<close>. One flag stands for
  \<^verbatim>\<open>egressClosing\<close> and the closed \<^verbatim>\<open>done\<close> channel, which \<^verbatim>\<open>Close\<close>
  changes together under the lock.
\<close>

record egressState =
  eg_closing :: bool
  eg_senders :: "byte list list"
  eg_queue :: "sendRequest list"
  eg_queuedBytes :: "64 word"
  eg_writer :: writerState

definition withCountedCharge :: "sendRequest \<Rightarrow> sendRequest" where
  "withCountedCharge req = req\<lparr>sr_counted := of_nat (length (sr_data req))\<rparr>"

text \<open>Admission without waiting, under the lock.\<close>

definition enqueueAsync :: "64 word \<Rightarrow> nat \<Rightarrow> byte list \<Rightarrow> egressState \<Rightarrow> frameError + egressState" where
  "enqueueAsync budget capacity data s =
     (if eg_closing s then Inl ErrClosed
      else if budget - eg_queuedBytes s < of_nat (length data) then Inl ErrBackpressure
      else if length (eg_queue s) < capacity
      then Inr (s\<lparr>eg_queue := eg_queue s @ [withCountedCharge \<lparr>sr_data = data, sr_counted = 0\<rparr>],
                  eg_queuedBytes := eg_queuedBytes s + of_nat (length data)\<rparr>)
      else Inl ErrBackpressure)"

text \<open>
  The steps. A send that waits first registers under the lock, then either finds room in the queue
  or sees the close; it may still enter the queue after the close. The writer drains and stops when
  no sender is left.
\<close>

inductive egress_step :: "64 word \<Rightarrow> nat \<Rightarrow> egressState \<Rightarrow> egressState \<Rightarrow> bool" for budget capacity where
  eg_async: "enqueueAsync budget capacity data s = Inr s' \<Longrightarrow> length data < 2 ^ 64 \<Longrightarrow> egress_step budget capacity s s'"
| eg_register: "\<not> eg_closing s \<Longrightarrow> egress_step budget capacity s (s\<lparr>eg_senders := data # eg_senders s\<rparr>)"
| eg_wait: "data \<in> set (eg_senders s) \<Longrightarrow> length (eg_queue s) < capacity \<Longrightarrow>
    egress_step budget capacity s (s\<lparr>eg_senders := remove1 data (eg_senders s),
      eg_queue := eg_queue s @ [\<lparr>sr_data = data, sr_counted = 0\<rparr>]\<rparr>)"
| eg_refuse: "data \<in> set (eg_senders s) \<Longrightarrow> eg_closing s \<Longrightarrow>
    egress_step budget capacity s (s\<lparr>eg_senders := remove1 data (eg_senders s)\<rparr>)"
| eg_take: "eg_writer s = Idle \<Longrightarrow> eg_queue s = req # rest \<Longrightarrow>
    egress_step budget capacity s (s\<lparr>eg_queue := rest, eg_writer := Holding req\<rparr>)"
| eg_release: "eg_writer s = Holding req \<Longrightarrow>
    egress_step budget capacity s (s\<lparr>eg_queuedBytes := eg_queuedBytes s - min (eg_queuedBytes s) (sr_counted req),
      eg_writer := Writing req\<rparr>)"
| eg_written: "eg_writer s = Writing req \<Longrightarrow> egress_step budget capacity s (s\<lparr>eg_writer := Idle\<rparr>)"
| eg_close: "egress_step budget capacity s (s\<lparr>eg_closing := True\<rparr>)"
| eg_drain: "eg_closing s \<Longrightarrow> eg_senders s = [] \<Longrightarrow> eg_writer s = Idle \<Longrightarrow>
    egress_step budget capacity s (s\<lparr>eg_queue := [], eg_writer := Stopped\<rparr>)"

definition egress_start :: egressState where
  "egress_start = \<lparr>eg_closing = False, eg_senders = [], eg_queue = [], eg_queuedBytes = 0, eg_writer = Idle\<rparr>"

inductive egress_reach :: "64 word \<Rightarrow> nat \<Rightarrow> egressState \<Rightarrow> bool" for budget capacity where
  reach_start: "egress_reach budget capacity egress_start"
| reach_step: "egress_reach budget capacity s \<Longrightarrow> egress_step budget capacity s s' \<Longrightarrow> egress_reach budget capacity s'"

inductive_cases egress_stepE: "egress_step budget capacity s s'"

text \<open>The charge that is still out: that of the queued requests and of the one the writer holds.\<close>

definition charged :: "egressState \<Rightarrow> nat" where
  "charged s = sum_list (map (\<lambda>r. unat (sr_counted r)) (eg_queue s)) +
     (case eg_writer s of Holding r \<Rightarrow> unat (sr_counted r) | _ \<Rightarrow> 0)"

definition egress_inv :: "64 word \<Rightarrow> nat \<Rightarrow> egressState \<Rightarrow> bool" where
  "egress_inv budget capacity s \<longleftrightarrow>
     length (eg_queue s) \<le> capacity \<and> eg_queuedBytes s \<le> budget \<and>
     (eg_writer s \<noteq> Stopped \<longrightarrow> unat (eg_queuedBytes s) = charged s) \<and>
     (eg_writer s = Stopped \<longrightarrow> eg_closing s \<and> eg_senders s = [] \<and> eg_queue s = [])"

lemma enqueueAsync_inv:
  assumes "egress_inv budget capacity s" "enqueueAsync budget capacity data s = Inr s'" "length data < 2 ^ 64"
  shows "egress_inv budget capacity s'"
proof -
  let ?n = "of_nat (length data) :: 64 word"
  have n: "unat ?n = length data" using assms(3) by (simp add: unat_of_nat)
  have room: "?n \<le> budget - eg_queuedBytes s" and cap: "length (eg_queue s) < capacity"
    and open': "\<not> eg_closing s"
    and s': "s' = s\<lparr>eg_queue := eg_queue s @ [\<lparr>sr_data = data, sr_counted = ?n\<rparr>], eg_queuedBytes := eg_queuedBytes s + ?n\<rparr>"
    using assms(2) by (auto simp: enqueueAsync_def withCountedCharge_def split: if_splits)
  have le: "eg_queuedBytes s \<le> budget" using assms(1) by (simp add: egress_inv_def)
  have "unat (eg_queuedBytes s) + length data \<le> unat budget"
    using room le n by (simp add: word_le_nat_alt unat_sub)
  then have sum: "unat (eg_queuedBytes s + ?n) = unat (eg_queuedBytes s) + length data"
  proof -
    have "unat budget < 2 ^ 64" using unsigned_less [of budget, where 'a = nat] by simp
    then show ?thesis using n \<open>unat (eg_queuedBytes s) + length data \<le> unat budget\<close> by (simp add: unat_word_ariths)
  qed
  then show ?thesis using assms(1) cap n open' \<open>unat (eg_queuedBytes s) + length data \<le> unat budget\<close>
    by (auto simp: egress_inv_def s' charged_def word_le_nat_alt split: writerState.splits)
qed

lemma egress_step_inv:
  assumes "egress_step budget capacity s s'" "egress_inv budget capacity s"
  shows "egress_inv budget capacity s'"
  using assms(1)
proof cases
  case (eg_async data)
  then show ?thesis using enqueueAsync_inv assms(2) by blast
next
  case (eg_release req)
  have eq: "unat (eg_queuedBytes s) = charged s" using assms(2) eg_release by (simp add: egress_inv_def)
  then have le: "sr_counted req \<le> eg_queuedBytes s" using eg_release by (simp add: charged_def word_le_nat_alt)
  then have "unat (eg_queuedBytes s - sr_counted req) = unat (eg_queuedBytes s) - unat (sr_counted req)" by (simp add: unat_sub)
  then show ?thesis using assms(2) eg_release eq le
    by (auto simp: egress_inv_def charged_def word_le_nat_alt min_def)
qed (use assms(2) in \<open>auto simp: egress_inv_def charged_def split: writerState.splits\<close>)

lemma egress_reach_inv: "egress_reach budget capacity s \<Longrightarrow> egress_inv budget capacity s"
proof (induction rule: egress_reach.induct)
  case reach_start
  then show ?case by (simp add: egress_inv_def egress_start_def charged_def)
next
  case (reach_step s s')
  then show ?case using egress_step_inv by blast
qed

section \<open>Properties\<close>

text \<open>
  C18. What one side sends is what the other receives: a stream made of the frames of accepted
  payloads is read back as exactly these payloads in order, whatever the splitting of the stream
  was, and then the end of the stream.
\<close>

theorem frames_received:
  assumes "\<forall>p \<in> set ps. \<exists>bs. frame f p = Inr bs" "maxEnvelope f \<le> AbsoluteLimit" "negotiatedBound f \<le> bound"
  shows "recvAll bound (concat (map (\<lambda>p. case frame f p of Inr bs \<Rightarrow> bs | Inl _ \<Rightarrow> []) ps)) = (ps, EOF)"
proof -
  have "p \<in> set ps \<Longrightarrow> frame f p = Inr (be32 (of_nat (length p)) @ p)" for p using assms(1) frame_Inr by blast
  then have "map (\<lambda>p. case frame f p of Inr bs \<Rightarrow> bs | Inl _ \<Rightarrow> []) ps = map (\<lambda>p. be32 (of_nat (length p)) @ p) ps" by simp
  then show ?thesis using recvAll_frames [OF assms] by (simp only:)
qed

theorem frames_received_witness:
  "recvAll 64 (concat (map (\<lambda>p. case frame \<lparr>maxEnvelope = 64, queueMessages = 8, queueBytes = 1000\<rparr> p of Inr bs \<Rightarrow> bs | Inl _ \<Rightarrow> [])
     [[1, 2, 3], [9]])) = ([[1, 2, 3], [9]], EOF)"
  by (rule frames_received) (simp_all add: frame_def AbsoluteLimit_def negotiatedBound_def)

text \<open>
  A received envelope is never empty and never above the bound, and it is exactly what the
  length prefix announces; the rest of the stream is left for the next call.
\<close>

theorem Recv_bounded:
  assumes "RecvBounded f limit isClosed input = Inr (payload, rest)"
  shows "0 < length payload \<and> length payload \<le> limit \<and> length payload \<le> negotiatedBound f \<and>
    input = be32 (of_nat (length payload)) @ payload @ rest"
  using recvLocked_Inr [of isClosed "min (negotiatedBound f) limit" input payload rest] assms by (simp add: RecvBounded_def)

theorem Recv_bounded_witness:
  "\<exists>payload rest. RecvBounded \<lparr>maxEnvelope = 64, queueMessages = 8, queueBytes = 1000\<rparr> 10 False [0, 0, 0, 2, 7, 8, 0] =
      Inr (payload, rest) \<and> 0 < length payload \<and> length payload \<le> 10"
proof -
  have r: "RecvBounded \<lparr>maxEnvelope = 64, queueMessages = 8, queueBytes = 1000\<rparr> 10 False [0, 0, 0, 2, 7, 8, 0] = Inr ([7, 8], [0])"
    by code_simp
  from Recv_bounded [OF r] r show ?thesis by blast
qed

text \<open>
  C24. In every interleaving of senders, writer and close, the queue stays within its capacity and the
  queued bytes within their budget, the charge that is out is exactly that of the requests queued or
  taken and not yet written, and a writer that stopped leaves no request behind.
\<close>

theorem queue_within_budget:
  assumes "egress_reach budget capacity s"
  shows "length (eg_queue s) \<le> capacity \<and> eg_queuedBytes s \<le> budget \<and>
    (eg_writer s \<noteq> Stopped \<longrightarrow> unat (eg_queuedBytes s) = charged s) \<and>
    (eg_writer s = Stopped \<longrightarrow> eg_closing s \<and> eg_senders s = [] \<and> eg_queue s = [])"
  using egress_reach_inv [OF assms] by (simp add: egress_inv_def)

theorem queue_within_budget_witness:
  "\<exists>s. egress_reach 100 8 s \<and> eg_queue s \<noteq> [] \<and> unat (eg_queuedBytes s) = charged s \<and> eg_queuedBytes s \<le> 100"
proof -
  obtain s where s: "enqueueAsync 100 8 [1, 2, 3] egress_start = Inr s" "eg_queue s \<noteq> []" "eg_writer s = Idle"
    by (simp add: enqueueAsync_def egress_start_def withCountedCharge_def)
  have "egress_reach 100 8 s"
    by (rule egress_reach.reach_step [OF egress_reach.reach_start egress_step.eg_async [OF s(1)]]) simp
  with queue_within_budget [OF this] s show ?thesis by auto
qed

text \<open>
  The bounds of a framer: whatever the options, an envelope limit above the absolute ceiling is
  lowered to it, and the queue holds at least eight messages, even when a smaller message bound
  was asked for.
\<close>

theorem NewFramer_capacity:
  "maxEnvelope (fst (NewFramer [WithQueueBounds messages bytes, WithMaxEnvelope limit])) \<le> AbsoluteLimit \<and>
    snd (NewFramer [WithQueueBounds messages bytes, WithMaxEnvelope limit]) = max DefaultQueuedMessages messages"
  by (auto simp: NewFramer_def WithQueueBounds_def WithMaxEnvelope_def Let_def AbsoluteLimit_def DefaultQueuedMessages_def)

end
