(* ===== verification/Go_Strings.thy ===== *)
theory Go_Strings
  imports Vev_Prelude "HOL-Library.Char_ord" "HOL-Library.Sublist"
begin

text \<open>
  What the sources use of Go's \<^verbatim>\<open>strings\<close> package, on ASCII text: a Go string is the list of
  its bytes, and on bytes below 128 the functions below are the library's.
\<close>

definition lowerChar :: "char \<Rightarrow> char" where
  "lowerChar c = (if CHR ''A'' \<le> c \<and> c \<le> CHR ''Z'' then char_of (of_char c + 32 :: nat) else c)"

definition toLower :: "string \<Rightarrow> string" where
  "toLower s = map lowerChar s"

definition isSpace :: "char \<Rightarrow> bool" where
  "isSpace c = (c = CHR '' '' \<or> 9 \<le> (of_char c :: nat) \<and> (of_char c :: nat) \<le> 13)"

definition trimSpace :: "string \<Rightarrow> string" where
  "trimSpace s = rev (dropWhile isSpace (rev (dropWhile isSpace s)))"

definition isASCII :: "string \<Rightarrow> bool" where
  "isASCII s = list_all (\<lambda>c. (of_char c :: nat) < 128) s"

lemma lowerChar_idem [simp]: "lowerChar (lowerChar c) = lowerChar c"
proof -
  have "CHR ''A'' \<le> c \<Longrightarrow> c \<le> CHR ''Z'' \<Longrightarrow> \<not> (char_of (of_char c + 32 :: nat) \<le> CHR ''Z'')"
    by (simp add: less_eq_char_def)
  then show ?thesis by (auto simp: lowerChar_def)
qed

lemma toLower_idem [simp]: "toLower (toLower s) = toLower s"
  by (simp add: toLower_def)

lemma dropWhile_hd: "s = [] \<or> \<not> P (hd s) \<Longrightarrow> dropWhile P s = s"
  by (cases s) auto

lemma trimSpace_id: "s = [] \<or> \<not> isSpace (hd s) \<and> \<not> isSpace (last s) \<Longrightarrow> trimSpace s = s"
  using dropWhile_hd [of s isSpace] dropWhile_hd [of "rev s" isSpace] by (auto simp: trimSpace_def hd_rev)

section \<open>Text as runes\<close>

text \<open>
  Where the sources look at text rune by rune, a string is the list of its runes. White space is
  the exact set of \<^verbatim>\<open>unicode.IsSpace\<close>. The Unicode case tables are a parameter, one record
  with the mapping of \<^verbatim>\<open>unicode.ToLower\<close> and the simple folding of
  \<^verbatim>\<open>strings.EqualFold\<close> on runes; \<open>asciiCase\<close> is their ASCII part.
\<close>

type_synonym rune = int

definition runes :: "string \<Rightarrow> rune list" where
  "runes s = map of_char s"

record caseTables =
  lowerRune :: "rune \<Rightarrow> rune"
  foldRune :: "rune \<Rightarrow> rune \<Rightarrow> bool"

definition asciiCase :: caseTables where
  "asciiCase = (let low = (\<lambda>r. if 65 \<le> r \<and> r \<le> 90 then r + 32 else r) in
     \<lparr>lowerRune = low, foldRune = (\<lambda>r s. low r = low s)\<rparr>)"

definition ToLower :: "caseTables \<Rightarrow> rune list \<Rightarrow> rune list" where
  "ToLower uc s = map (lowerRune uc) s"

definition EqualFold :: "caseTables \<Rightarrow> rune list \<Rightarrow> rune list \<Rightarrow> bool" where
  "EqualFold uc s t = list_all2 (foldRune uc) s t"

definition IsSpace :: "rune \<Rightarrow> bool" where
  "IsSpace r = (9 \<le> r \<and> r \<le> 13 \<or> r = 32 \<or> r = 0x85 \<or> r = 0xA0 \<or> r = 0x1680 \<or> 0x2000 \<le> r \<and> r \<le> 0x200A \<or>
     r = 0x2028 \<or> r = 0x2029 \<or> r = 0x202F \<or> r = 0x205F \<or> r = 0x3000)"

definition TrimLeft :: "rune list \<Rightarrow> rune list" where
  "TrimLeft s = dropWhile IsSpace s"

definition TrimSpace :: "rune list \<Rightarrow> rune list" where
  "TrimSpace s = rev (dropWhile IsSpace (rev (dropWhile IsSpace s)))"

function Fields :: "rune list \<Rightarrow> rune list list" where
  "Fields s = (let s' = dropWhile IsSpace s in
     if s' = [] then []
     else takeWhile (\<lambda>r. \<not> IsSpace r) s' # Fields (dropWhile (\<lambda>r. \<not> IsSpace r) s'))"
  by auto
termination
proof (relation "measure length", simp)
  fix s s' :: "rune list" assume s: "s' = dropWhile IsSpace s" "s' \<noteq> []"
  then have "\<not> IsSpace (hd s')" using hd_dropWhile [of IsSpace s] by simp
  then have "length (dropWhile (\<lambda>r. \<not> IsSpace r) s') < length s'" using s(2)
    by (cases s') (auto simp: le_imp_less_Suc length_dropWhile_le)
  also have "\<dots> \<le> length s" by (simp add: s(1) length_dropWhile_le)
  finally show "(dropWhile (\<lambda>r. \<not> IsSpace r) s', s) \<in> measure length" by simp
qed

declare Fields.simps [simp del]

text \<open>The fields of a text are non-empty and hold no white space.\<close>

lemma Fields_word: "w \<in> set (Fields s) \<Longrightarrow> w \<noteq> [] \<and> (\<forall>r \<in> set w. \<not> IsSpace r)"
proof (induction s rule: Fields.induct)
  case (1 s)
  let ?s = "dropWhile IsSpace s"
  have s: "?s \<noteq> []" using 1(2) unfolding Fields.simps [of s] Let_def by (metis empty_iff list.set(1))
  then have w: "w = takeWhile (\<lambda>r. \<not> IsSpace r) ?s \<or> w \<in> set (Fields (dropWhile (\<lambda>r. \<not> IsSpace r) ?s))"
    using 1(2) unfolding Fields.simps [of s] Let_def by (simp only: if_False list.set(2) insert_iff)
  have "takeWhile (\<lambda>r. \<not> IsSpace r) ?s \<noteq> []" using s hd_dropWhile [of IsSpace s] by (cases ?s) auto
  then show ?case using w 1(1) [OF refl s] set_takeWhileD by metis
qed

lemma Fields_single: "s \<noteq> [] \<Longrightarrow> \<forall>r \<in> set s. \<not> IsSpace r \<Longrightarrow> Fields s = [s]"
proof -
  assume s: "s \<noteq> []" "\<forall>r \<in> set s. \<not> IsSpace r"
  then have "dropWhile IsSpace s = s" by (cases s) auto
  moreover have "takeWhile (\<lambda>r. \<not> IsSpace r) s = s" using s(2) by (simp add: takeWhile_eq_all_conv)
  moreover have "dropWhile (\<lambda>r. \<not> IsSpace r) s = []" using s(2) by (simp add: dropWhile_eq_Nil_conv)
  moreover have "Fields [] = []" by (simp add: Fields.simps)
  ultimately show ?thesis using s(1) unfolding Fields.simps [of s] Let_def by metis
qed

end
