(* ===== verification/Ui_Place.thy ===== *)
theory Ui_Place
  imports Layout_Geometry Go_Strings
begin

text \<open>
  Anchored boxes: \<^verbatim>\<open>internal/domain/types.go\<close> (anchors and sizes),
  \<^verbatim>\<open>internal/usecase/ui/place.go\<close>, the text measures of
  \<^verbatim>\<open>internal/usecase/ui/modal.go\<close> and \<^verbatim>\<open>internal/usecase/ui/toast.go\<close>, and the
  toast column of \<^verbatim>\<open>internal/usecase/ui/toast_queue.go\<close>.

  The width of a rune comes from the terminal library \<^verbatim>\<open>vev-vt\<close>; it is the argument
  \<open>runeWidth\<close> of the definitions that measure text.
\<close>

section \<open>Anchors and sizes\<close>

text \<open>The code's \<^verbatim>\<open>uint8\<close> values above the last constant are \<open>AnchorOther\<close>.\<close>

datatype anchor = AnchorCenter | AnchorTopLeft | AnchorTop | AnchorTopRight | AnchorLeft | AnchorRight
  | AnchorBottomLeft | AnchorBottom | AnchorBottomRight | AnchorOther

definition anchorValid :: "anchor \<Rightarrow> bool" where
  "anchorValid a = (a \<noteq> AnchorOther)"

fun anchorString :: "anchor \<Rightarrow> string" where
  "anchorString AnchorCenter = ''center''"
| "anchorString AnchorTopLeft = ''top-left''"
| "anchorString AnchorTop = ''top''"
| "anchorString AnchorTopRight = ''top-right''"
| "anchorString AnchorLeft = ''left''"
| "anchorString AnchorRight = ''right''"
| "anchorString AnchorBottomLeft = ''bottom-left''"
| "anchorString AnchorBottom = ''bottom''"
| "anchorString AnchorBottomRight = ''bottom-right''"
| "anchorString AnchorOther = ''unknown''"

text \<open>The switch of \<^verbatim>\<open>ParseAnchor\<close> on the trimmed and lowered name: the anchor and the flag.\<close>

definition ParseAnchorName :: "string \<Rightarrow> anchor \<times> bool" where
  "ParseAnchorName s =
     (if s = ''center'' then (AnchorCenter, True)
      else if s = ''top-left'' then (AnchorTopLeft, True)
      else if s = ''top'' then (AnchorTop, True)
      else if s = ''top-right'' then (AnchorTopRight, True)
      else if s = ''left'' then (AnchorLeft, True)
      else if s = ''right'' then (AnchorRight, True)
      else if s = ''bottom-left'' then (AnchorBottomLeft, True)
      else if s = ''bottom'' then (AnchorBottom, True)
      else if s = ''bottom-right'' then (AnchorBottomRight, True)
      else (AnchorCenter, False))"

definition ParseAnchor :: "string \<Rightarrow> anchor \<times> bool" where
  "ParseAnchor s = ParseAnchorName (toLower (trimSpace s))"

lemma ParseAnchor_String: "anchorValid a \<Longrightarrow> ParseAnchor (anchorString a) = (a, True)"
  by (cases a) (simp_all add: anchorValid_def, code_simp+)

record size =
  Cols :: int
  Rows :: int

definition sizeValid :: "size \<Rightarrow> bool" where
  "sizeValid sz = (0 < Cols sz \<and> 0 < Rows sz)"

section \<open>Placing a box\<close>

definition clamp :: "int \<Rightarrow> int \<Rightarrow> int \<Rightarrow> int" where
  "clamp n low high = (if n < low then low else if high < n then high else n)"

record margins =
  mTop :: int
  mRight :: int
  mBottom :: int
  mLeft :: int

text \<open>The corner before clamping, from the margins that are already at least zero.\<close>

definition anchoredCorner :: "size \<Rightarrow> int \<Rightarrow> int \<Rightarrow> anchor \<Rightarrow> margins \<Rightarrow> int \<times> int" where
  "anchoredCorner base width height a m =
     (let x = go_div (Cols base - width) 2; y = go_div (Rows base - height) 2;
          right = Cols base - mRight m - width; bottom = Rows base - mBottom m - height in
      case a of
        AnchorTopLeft \<Rightarrow> (mLeft m, mTop m)
      | AnchorTop \<Rightarrow> (x, mTop m)
      | AnchorTopRight \<Rightarrow> (right, mTop m)
      | AnchorLeft \<Rightarrow> (mLeft m, y)
      | AnchorRight \<Rightarrow> (right, y)
      | AnchorBottomLeft \<Rightarrow> (mLeft m, bottom)
      | AnchorBottom \<Rightarrow> (x, bottom)
      | AnchorBottomRight \<Rightarrow> (right, bottom)
      | AnchorCenter \<Rightarrow> (x, y)
      | AnchorOther \<Rightarrow> (x, y))"

definition Place :: "size \<Rightarrow> size \<Rightarrow> anchor \<Rightarrow> margins \<Rightarrow> rect" where
  "Place base content a m =
     (if \<not> sizeValid base then zero_rect
      else
        let width = clamp (Cols content) 0 (Cols base);
            height = clamp (Rows content) 0 (Rows base);
            m' = \<lparr>mTop = max 0 (mTop m), mRight = max 0 (mRight m), mBottom = max 0 (mBottom m), mLeft = max 0 (mLeft m)\<rparr>
        in case anchoredCorner base width height a m' of (x, y) \<Rightarrow>
          \<lparr>rX = clamp x 0 (Cols base - width), rY = clamp y 0 (Rows base - height), rWidth = width, rHeight = height\<rparr>)"

text \<open>A rectangle that lies inside the cells of \<open>base\<close>.\<close>

definition inside :: "size \<Rightarrow> rect \<Rightarrow> bool" where
  "inside base r \<longleftrightarrow> 0 \<le> rX r \<and> 0 \<le> rY r \<and> 0 \<le> rWidth r \<and> 0 \<le> rHeight r \<and>
     rX r + rWidth r \<le> Cols base \<and> rY r + rHeight r \<le> Rows base"

lemma clamp_bounds: "low \<le> high \<Longrightarrow> low \<le> clamp n low high \<and> clamp n low high \<le> high"
  by (simp add: clamp_def)

lemma Place_inside:
  assumes "sizeValid base"
  shows "inside base (Place base content a m)"
proof -
  define w where "w = clamp (Cols content) 0 (Cols base)"
  define h where "h = clamp (Rows content) 0 (Rows base)"
  have w: "0 \<le> w" "w \<le> Cols base" and h: "0 \<le> h" "h \<le> Rows base"
    using assms clamp_bounds [of 0 "Cols base"] clamp_bounds [of 0 "Rows base"] by (auto simp: sizeValid_def w_def h_def)
  obtain x y where xy: "Place base content a m =
      \<lparr>rX = clamp x 0 (Cols base - w), rY = clamp y 0 (Rows base - h), rWidth = w, rHeight = h\<rparr>"
    using assms by (force simp: Place_def Let_def w_def h_def case_prod_unfold)
  show ?thesis
    using w h clamp_bounds [of 0 "Cols base - w" x] clamp_bounds [of 0 "Rows base - h" y]
    by (simp add: xy inside_def)
qed

section \<open>Measuring and clipping text\<close>

definition textWidth :: "(rune \<Rightarrow> int) \<Rightarrow> rune list \<Rightarrow> int" where
  "textWidth runeWidth str = fold (\<lambda>r width. width + runeWidth r) str 0"

definition ellipsis :: "rune list" where "ellipsis = [8230]"

text \<open>The loop of \<^verbatim>\<open>truncateText\<close>: runes of width zero are skipped, the first that does not fit ends it.\<close>

fun clipRunes :: "(rune \<Rightarrow> int) \<Rightarrow> int \<Rightarrow> int \<Rightarrow> rune list \<Rightarrow> rune list" where
  "clipRunes runeWidth limit width [] = []"
| "clipRunes runeWidth limit width (r # rs) =
     (if runeWidth r = 0 then clipRunes runeWidth limit width rs
      else if limit < width + runeWidth r then []
      else r # clipRunes runeWidth limit (width + runeWidth r) rs)"

definition truncateText :: "(rune \<Rightarrow> int) \<Rightarrow> rune list \<Rightarrow> int \<Rightarrow> rune list" where
  "truncateText runeWidth str maxWidth =
     (if maxWidth \<le> 0 then []
      else if textWidth runeWidth str \<le> maxWidth then str
      else if maxWidth < textWidth runeWidth ellipsis then []
      else clipRunes runeWidth (maxWidth - textWidth runeWidth ellipsis) 0 str @ ellipsis)"

lemma textWidth_sum: "textWidth runeWidth str = sum_list (map runeWidth str)"
proof -
  have "fold (\<lambda>r width. width + runeWidth r) str n = n + sum_list (map runeWidth str)" for n
    by (induction str arbitrary: n) auto
  then show ?thesis by (simp add: textWidth_def)
qed

lemma clipRunes_width:
  "width \<le> limit \<Longrightarrow> width + sum_list (map runeWidth (clipRunes runeWidth limit width rs)) \<le> limit"
proof (induction rs arbitrary: width)
  case (Cons r rs)
  show ?case using Cons.IH [of width] Cons.IH [of "width + runeWidth r"] Cons.prems by (auto simp: algebra_simps)
qed simp

text \<open>The clipped text is a part of the original that lost nothing but invisible runes before the cut.\<close>

lemma clipRunes_prefix:
  "\<exists>later. filter (\<lambda>r. runeWidth r \<noteq> 0) rs = clipRunes runeWidth limit width rs @ later"
  by (induction rs arbitrary: width) auto

lemma truncateText_width: "textWidth runeWidth (truncateText runeWidth str maxWidth) \<le> max 0 maxWidth"
proof (cases "truncateText runeWidth str maxWidth = clipRunes runeWidth (maxWidth - textWidth runeWidth ellipsis) 0 str @ ellipsis
    \<and> textWidth runeWidth ellipsis \<le> maxWidth")
  case True
  have "sum_list (map runeWidth (clipRunes runeWidth (maxWidth - textWidth runeWidth ellipsis) 0 str))
      \<le> maxWidth - textWidth runeWidth ellipsis"
    using clipRunes_width [of 0 "maxWidth - textWidth runeWidth ellipsis" runeWidth str] True by simp
  then show ?thesis using True by (simp add: textWidth_sum)
next
  case False
  then show ?thesis by (auto simp: truncateText_def textWidth_sum)
qed

section \<open>Toast boxes\<close>

record toast =
  Message :: "rune list"
  Anchor :: anchor
  MinWidth :: int
  MaxWidth :: int
  PaddingX :: int
  PaddingY :: int

definition defaultToastMargin :: int where "defaultToastMargin = 2"

definition defaultToastPaddingX :: int where "defaultToastPaddingX = 1"

definition defaultToastMaxWidth :: int where "defaultToastMaxWidth = 60"

definition ToastBounds :: "(rune \<Rightarrow> int) \<Rightarrow> size \<Rightarrow> toast \<Rightarrow> rect" where
  "ToastBounds runeWidth base t =
     (if Cols base \<le> 0 \<or> Rows base \<le> 0 then zero_rect
      else
        let paddingX = (if PaddingX t = 0 then defaultToastPaddingX else PaddingX t);
            maxWidth = (if MaxWidth t \<le> 0 then defaultToastMaxWidth else MaxWidth t);
            width = textWidth runeWidth (Message t) + paddingX * 2 + 2;
            width = max width (MinWidth t);
            width = clamp width 0 maxWidth;
            width = clamp width 0 (Cols base);
            height = 1 + PaddingY t * 2 + 2;
            height = clamp height 0 (Rows base)
        in Place base \<lparr>Cols = width, Rows = height\<rparr> (Anchor t)
             \<lparr>mTop = defaultToastMargin, mRight = defaultToastMargin, mBottom = defaultToastMargin, mLeft = defaultToastMargin\<rparr>)"

definition growsUp :: "anchor \<Rightarrow> bool" where
  "growsUp a = (a = AnchorBottomLeft \<or> a = AnchorBottom \<or> a = AnchorBottomRight)"

text \<open>The loop of \<^verbatim>\<open>ToastStackBounds\<close> with the running offset.\<close>

fun stackFrom :: "(rune \<Rightarrow> int) \<Rightarrow> size \<Rightarrow> int \<Rightarrow> toast list \<Rightarrow> rect list" where
  "stackFrom runeWidth base offset [] = []"
| "stackFrom runeWidth base offset (t # ts) =
     (let r = ToastBounds runeWidth base t in
      if rWidth r \<le> 0 \<or> rHeight r \<le> 0 then []
      else
        let r' = r\<lparr>rY := if growsUp (Anchor t) then rY r - offset else rY r + offset\<rparr> in
        if rY r' < 0 \<or> Rows base < rY r' + rHeight r' then []
        else r' # stackFrom runeWidth base (offset + rHeight r') ts)"

definition ToastStackBounds :: "(rune \<Rightarrow> int) \<Rightarrow> size \<Rightarrow> toast list \<Rightarrow> rect list" where
  "ToastStackBounds runeWidth base toasts = stackFrom runeWidth base 0 toasts"

lemma ToastBounds_inside: "sizeValid base \<Longrightarrow> inside base (ToastBounds runeWidth base t)"
  by (auto simp: ToastBounds_def Let_def sizeValid_def intro!: Place_inside)

text \<open>Every box of the column lies inside the base.\<close>

lemma stackFrom_inside:
  "sizeValid base \<Longrightarrow> r \<in> set (stackFrom runeWidth base offset ts) \<Longrightarrow> inside base r \<and> 0 < rWidth r \<and> 0 < rHeight r"
proof (induction ts arbitrary: offset)
  case (Cons t ts)
  have "inside base (ToastBounds runeWidth base t)" using ToastBounds_inside [OF Cons.prems(1)] .
  then show ?case using Cons by (auto simp: Let_def inside_def split: if_splits)
qed simp

text \<open>
  The row and the height of a toast box depend on its anchor and vertical padding only, so the
  toasts of one column have the same.
\<close>

lemma ToastBounds_row:
  "Anchor t = Anchor t' \<Longrightarrow> PaddingY t = PaddingY t' \<Longrightarrow>
     rY (ToastBounds runeWidth base t) = rY (ToastBounds runeWidth base t') \<and>
     rHeight (ToastBounds runeWidth base t) = rHeight (ToastBounds runeWidth base t')"
  by (auto simp: ToastBounds_def Place_def anchoredCorner_def Let_def split: anchor.split)

definition apart :: "rect \<Rightarrow> rect \<Rightarrow> bool" where
  "apart r s \<longleftrightarrow> rY r + rHeight r \<le> rY s \<or> rY s + rHeight s \<le> rY r"

lemma apart_cells: "apart r s \<Longrightarrow> \<not> (in_rect p r \<and> in_rect p s)"
  by (auto simp: apart_def in_rect_def)

lemma stackFrom_beyond:
  assumes "s \<in> set (stackFrom runeWidth base offset ts)"
    "\<forall>t' \<in> set ts. Anchor t' = Anchor t \<and> PaddingY t' = PaddingY t"
  shows "if growsUp (Anchor t) then rY s + rHeight s \<le> rY (ToastBounds runeWidth base t) + rHeight (ToastBounds runeWidth base t) - offset
    else rY (ToastBounds runeWidth base t) + offset \<le> rY s"
  using assms
proof (induction ts arbitrary: offset)
  case (Cons t' ts)
  have row: "rY (ToastBounds runeWidth base t') = rY (ToastBounds runeWidth base t)"
    "rHeight (ToastBounds runeWidth base t') = rHeight (ToastBounds runeWidth base t)"
    using Cons.prems(2) ToastBounds_row [of t' t runeWidth base] by auto
  let ?h = "rHeight (ToastBounds runeWidth base t)"
  have "s \<in> set (stackFrom runeWidth base (offset + ?h) ts) \<and> 0 < ?h \<or>
      rHeight s = ?h \<and> rY s = (if growsUp (Anchor t) then rY (ToastBounds runeWidth base t) - offset else rY (ToastBounds runeWidth base t) + offset)"
    using Cons.prems row by (auto simp: Let_def split: if_splits)
  then show ?case using Cons.IH [of "offset + ?h"] Cons.prems(2) by (auto split: if_splits)
qed simp

lemma stackFrom_apart:
  assumes "\<forall>t \<in> set ts. Anchor t = a \<and> PaddingY t = p"
  shows "sorted_wrt apart (stackFrom runeWidth base offset ts)"
  using assms
proof (induction ts arbitrary: offset)
  case (Cons t ts)
  let ?h = "rHeight (ToastBounds runeWidth base t)"
  have "\<forall>s \<in> set (stackFrom runeWidth base (offset + ?h) ts).
      if growsUp (Anchor t) then rY s + rHeight s \<le> rY (ToastBounds runeWidth base t) + ?h - (offset + ?h)
      else rY (ToastBounds runeWidth base t) + (offset + ?h) \<le> rY s"
    using stackFrom_beyond [of _ runeWidth base "offset + ?h" ts t] Cons.prems by auto
  then show ?case using Cons.IH [of "offset + ?h"] Cons.prems by (auto simp: Let_def apart_def)
qed simp

section \<open>Properties\<close>

text \<open>
  A placed box is inside its base: for a positive base, whatever the content size, the anchor
  and the margins, negative ones included.
\<close>

theorem Place_contained:
  assumes "sizeValid base"
  shows "inside base (Place base content a m)"
  by (rule Place_inside [OF assms])

theorem Place_contained_witness:
  "inside \<lparr>Cols = 80, Rows = 24\<rparr> (Place \<lparr>Cols = 80, Rows = 24\<rparr> \<lparr>Cols = 200, Rows = -4\<rparr> AnchorBottomRight
     \<lparr>mTop = -3, mRight = 100, mBottom = 7, mLeft = 0\<rparr>)"
  by (rule Place_contained) (simp add: sizeValid_def)

text \<open>
  The toast column does not overlap: every box is inside the screen, and two toasts with the
  same anchor and vertical padding share no cell.
\<close>

theorem toast_column_disjoint:
  assumes "sizeValid base" "\<forall>t \<in> set toasts. Anchor t = a \<and> PaddingY t = p"
  shows "list_all (inside base) (ToastStackBounds runeWidth base toasts) \<and>
    sorted_wrt (\<lambda>r s. \<nexists>cell. in_rect cell r \<and> in_rect cell s) (ToastStackBounds runeWidth base toasts)"
proof -
  have "sorted_wrt apart (ToastStackBounds runeWidth base toasts)"
    unfolding ToastStackBounds_def by (rule stackFrom_apart [OF assms(2)])
  then have "sorted_wrt (\<lambda>r s. \<nexists>cell. in_rect cell r \<and> in_rect cell s) (ToastStackBounds runeWidth base toasts)"
    by (rule sorted_wrt_mono_rel [rotated]) (use apart_cells in blast)
  moreover have "list_all (inside base) (ToastStackBounds runeWidth base toasts)"
    using stackFrom_inside [OF assms(1)] by (auto simp: list_all_iff ToastStackBounds_def)
  ultimately show ?thesis by blast
qed

theorem toast_column_disjoint_witness:
  "sorted_wrt (\<lambda>r s. \<nexists>cell. in_rect cell r \<and> in_rect cell s)
     (ToastStackBounds (\<lambda>_. 1) \<lparr>Cols = 80, Rows = 24\<rparr>
       (replicate 3 \<lparr>Message = [104, 105], Anchor = AnchorBottom, MinWidth = 0, MaxWidth = 0, PaddingX = 0, PaddingY = 0\<rparr>))"
  using toast_column_disjoint [of "\<lparr>Cols = 80, Rows = 24\<rparr>"
      "replicate 3 \<lparr>Message = [104, 105], Anchor = AnchorBottom, MinWidth = 0, MaxWidth = 0, PaddingX = 0, PaddingY = 0\<rparr>" AnchorBottom 0 "\<lambda>_. 1"]
  by (simp add: sizeValid_def)

text \<open>
  The column of toasts of different heights at a middle anchor overlaps: a three-row and a
  five-row toast share cells.
\<close>

definition shortToast :: toast where
  "shortToast = \<lparr>Message = [104], Anchor = AnchorLeft, MinWidth = 0, MaxWidth = 0, PaddingX = 0, PaddingY = 0\<rparr>"

lemma middle_column_overlaps:
  "\<exists>r s cell. ToastStackBounds (\<lambda>_. 1) \<lparr>Cols = 80, Rows = 24\<rparr> [shortToast, shortToast\<lparr>PaddingY := 1\<rparr>] = [r, s] \<and>
     in_rect cell r \<and> in_rect cell s"
proof -
  have "ToastStackBounds (\<lambda>_. 1) \<lparr>Cols = 80, Rows = 24\<rparr> [shortToast, shortToast\<lparr>PaddingY := 1\<rparr>] =
      [\<lparr>rX = 2, rY = 10, rWidth = 5, rHeight = 3\<rparr>, \<lparr>rX = 2, rY = 12, rWidth = 5, rHeight = 5\<rparr>]"
    by code_simp
  moreover have "in_rect (2, 12) \<lparr>rX = 2, rY = 10, rWidth = 5, rHeight = 3\<rparr>" "in_rect (2, 12) \<lparr>rX = 2, rY = 12, rWidth = 5, rHeight = 5\<rparr>"
    by (simp_all add: in_rect_def)
  ultimately show ?thesis by blast
qed

text \<open>Clipped text never takes more cells than it is given, whatever the rune widths.\<close>

theorem truncateText_fits:
  "textWidth runeWidth (truncateText runeWidth str maxWidth) \<le> max 0 maxWidth"
  by (rule truncateText_width)

end
