(* ===== verification/Toast_Queue.thy ===== *)
theory Toast_Queue
  imports Go_Strings
begin

text \<open>
  The bounded toast queue of \<^verbatim>\<open>internal/usecase/ui/toast_queue.go\<close>. Instants and durations
  are integers (nanoseconds); all times come from the caller, as in the code. The caller's payload
  is the type parameter.
\<close>

record 'a queuedToast =
  qID :: string
  qValue :: 'a
  Duration :: int
  ShownAt :: int

record 'a toastQueue =
  MaxVisible :: int
  MaxPending :: int
  visible :: "'a queuedToast list"
  pending :: "'a queuedToast list"

definition NewToastQueue :: "int \<Rightarrow> int \<Rightarrow> 'a toastQueue" where
  "NewToastQueue maxVisible maxPending =
     \<lparr>MaxVisible = (if maxVisible \<le> 0 then 3 else maxVisible),
      MaxPending = (if maxPending \<le> 0 then 32 else maxPending), visible = [], pending = []\<rparr>"

definition indexOf :: "string \<Rightarrow> 'a queuedToast list \<Rightarrow> nat option" where
  "indexOf i ts = (if i = [] then None else first_index (\<lambda>t. qID t = i) ts)"

definition indexVisible :: "'a toastQueue \<Rightarrow> string \<Rightarrow> nat option" where
  "indexVisible q i = indexOf i (visible q)"

definition indexPending :: "'a toastQueue \<Rightarrow> string \<Rightarrow> nat option" where
  "indexPending q i = indexOf i (pending q)"

definition dueAt :: "'a queuedToast \<Rightarrow> int" where
  "dueAt t = ShownAt t + Duration t"

text \<open>The scan of \<^verbatim>\<open>firstDue\<close>: the best index so far and its instant.\<close>

fun firstDueFrom :: "int \<Rightarrow> nat \<Rightarrow> (nat \<times> int) option \<Rightarrow> 'a queuedToast list \<Rightarrow> (nat \<times> int) option" where
  "firstDueFrom now i best [] = best"
| "firstDueFrom now i best (t # ts) =
     firstDueFrom now (Suc i)
       (if Duration t \<le> 0 then best
        else if now < dueAt t then best
        else (case best of
            None \<Rightarrow> Some (i, dueAt t)
          | Some (j, first) \<Rightarrow> if dueAt t \<le> first then Some (i, dueAt t) else best)) ts"

definition firstDue :: "int \<Rightarrow> 'a toastQueue \<Rightarrow> (nat \<times> int) option" where
  "firstDue now q = firstDueFrom now 0 None (visible q)"

function promote :: "int \<Rightarrow> 'a toastQueue \<Rightarrow> 'a toastQueue" where
  "promote tm q =
     (if int (length (visible q)) < MaxVisible q \<and> pending q \<noteq> [] then
        promote tm (q\<lparr>pending := tl (pending q), visible := (hd (pending q))\<lparr>ShownAt := tm\<rparr> # visible q\<rparr>)
      else q)"
  by auto
termination by (relation "measure (\<lambda>(tm, q). length (pending q))") auto

declare promote.simps [simp del]

text \<open>An entry is due at \<open>now\<close>.\<close>

definition isDue :: "int \<Rightarrow> 'a queuedToast \<Rightarrow> bool" where
  "isDue now t \<longleftrightarrow> 0 < Duration t \<and> dueAt t \<le> now"

lemma firstDueFrom_Some:
  "firstDueFrom now i best ts = Some (j, d) \<Longrightarrow>
     best = Some (j, d) \<or> i \<le> j \<and> j < i + length ts \<and> isDue now (ts ! (j - i)) \<and> d = dueAt (ts ! (j - i))"
proof (induction now i best ts rule: firstDueFrom.induct)
  case (2 now i best t ts)
  have later: "Suc i \<le> j \<Longrightarrow> (t # ts) ! (j - i) = ts ! (j - Suc i)" by (simp add: nth_Cons')
  from 2 later show ?case
    by (auto simp: isDue_def split: if_splits option.splits prod.splits)
qed simp

lemma firstDue_Some:
  "firstDue now q = Some (j, d) \<Longrightarrow> j < length (visible q) \<and> isDue now (visible q ! j) \<and> d = dueAt (visible q ! j)"
  using firstDueFrom_Some [of now 0 None "visible q" j d] by (auto simp: firstDue_def)

lemma promote_length: "length (visible (promote tm q)) + length (pending (promote tm q)) = length (visible q) + length (pending q)"
proof (induction tm q rule: promote.induct)
  case (1 tm q)
  then show ?case by (subst (1 2) promote.simps) auto
qed

function expire :: "int \<Rightarrow> 'a toastQueue \<Rightarrow> 'a toastQueue" where
  "expire now q =
     (case firstDue now q of
        None \<Rightarrow> q
      | Some (i, due) \<Rightarrow> expire now (promote due (q\<lparr>visible := remove_at i (visible q)\<rparr>)))"
  by auto
termination
  by (relation "measure (\<lambda>(now, q). length (visible q) + length (pending q))")
    (auto simp: promote_length length_remove_at dest!: firstDue_Some)

declare expire.simps [simp del]

definition PushToast :: "int \<Rightarrow> 'a queuedToast \<Rightarrow> 'a toastQueue \<Rightarrow> 'a toastQueue" where
  "PushToast now t q0 =
     (let q = expire now q0; t = t\<lparr>ShownAt := now\<rparr> in
      case indexVisible q (qID t) of
        Some i \<Rightarrow> q\<lparr>visible := t # remove_at i (visible q)\<rparr>
      | None \<Rightarrow>
        (case indexPending q (qID t) of
           Some i \<Rightarrow> q\<lparr>pending := (pending q)[i := t]\<rparr>
         | None \<Rightarrow>
           if int (length (visible q)) < MaxVisible q then q\<lparr>visible := t # visible q\<rparr>
           else
             let waiting = (if MaxPending q \<le> int (length (pending q)) then tl (pending q) else pending q) in
             q\<lparr>pending := waiting @ [t]\<rparr>))"

definition GetToast :: "'a toastQueue \<Rightarrow> string \<Rightarrow> 'a queuedToast option" where
  "GetToast q i =
     (case indexVisible q i of
        Some j \<Rightarrow> Some (visible q ! j)
      | None \<Rightarrow> (case indexPending q i of Some j \<Rightarrow> Some (pending q ! j) | None \<Rightarrow> None))"

definition Visible :: "int \<Rightarrow> 'a toastQueue \<Rightarrow> 'a toastQueue \<times> 'a queuedToast list" where
  "Visible now q = (let q' = expire now q in (q', visible q'))"

definition Peek :: "'a toastQueue \<Rightarrow> 'a queuedToast list" where
  "Peek q = visible q"

definition Pending :: "'a toastQueue \<Rightarrow> nat" where
  "Pending q = length (pending q)"

fun nextDeadlineFrom :: "int option \<Rightarrow> 'a queuedToast list \<Rightarrow> int option" where
  "nextDeadlineFrom next [] = next"
| "nextDeadlineFrom next (t # ts) =
     nextDeadlineFrom
       (if Duration t \<le> 0 then next
        else (case next of
            None \<Rightarrow> Some (dueAt t)
          | Some n \<Rightarrow> if dueAt t < n then Some (dueAt t) else next)) ts"

definition NextDeadline :: "'a toastQueue \<Rightarrow> int option" where
  "NextDeadline q = nextDeadlineFrom None (visible q)"

definition Dismiss :: "int \<Rightarrow> string \<Rightarrow> 'a toastQueue \<Rightarrow> 'a toastQueue \<times> bool" where
  "Dismiss now i q =
     (let (q', removed) =
        (case indexVisible q i of
           Some j \<Rightarrow> (q\<lparr>visible := remove_at j (visible q)\<rparr>, True)
         | None \<Rightarrow>
           (case indexPending q i of
              Some j \<Rightarrow> (q\<lparr>pending := remove_at j (pending q)\<rparr>, True)
            | None \<Rightarrow> (q, False)))
      in (promote now (expire now q'), removed))"

section \<open>Well-formed queues\<close>

text \<open>
  What a queue holds, oldest first, without the instants at which entries became visible, and
  its identities.
\<close>

definition entries :: "'a toastQueue \<Rightarrow> 'a queuedToast list" where
  "entries q = map (ShownAt_update (\<lambda>_. 0)) (rev (visible q) @ pending q)"

definition named :: "string list \<Rightarrow> string list" where
  "named is = filter (\<lambda>i. i \<noteq> []) is"

definition bounded :: "'a toastQueue \<Rightarrow> bool" where
  "bounded q \<longleftrightarrow> 0 < MaxVisible q \<and> 0 < MaxPending q \<and> int (length (visible q)) \<le> MaxVisible q \<and>
     int (length (pending q)) \<le> MaxPending q \<and> distinct (named (map qID (entries q)))"

definition queue_ok :: "'a toastQueue \<Rightarrow> bool" where
  "queue_ok q \<longleftrightarrow> bounded q \<and> (pending q \<noteq> [] \<longrightarrow> int (length (visible q)) = MaxVisible q)"

lemma entries_ids: "map qID (entries q) = map qID (rev (visible q)) @ map qID (pending q)"
  by (simp add: entries_def comp_def)

lemma named_simps [simp]: "named [] = []" "named (i # is) = (if i = [] then named is else i # named is)"
  "named (is @ js) = named is @ named js" "set (named is) = set is - {[]}" "named (rev is) = rev (named is)"
  by (auto simp: named_def rev_filter)

lemma subseq_remove_at: "subseq (remove_at i xs) xs"
proof (cases "i < length xs")
  case True
  then have "xs = take i xs @ xs ! i # drop (Suc i) xs" by (rule id_take_nth_drop)
  moreover have "subseq (take i xs @ drop (Suc i) xs) (take i xs @ xs ! i # drop (Suc i) xs)"
    by (intro list_emb_append_mono) auto
  ultimately show ?thesis by (simp add: remove_at_def)
qed (simp add: remove_at_def)

lemma subseq_revI: "subseq xs ys \<Longrightarrow> subseq (rev xs) (rev ys)"
  by (induction rule: list_emb.induct) (auto intro: list_emb_append_mono list_emb_append2)

lemma distinct_subseqI: "subseq xs ys \<Longrightarrow> distinct ys \<Longrightarrow> distinct xs"
  by (induction rule: list_emb.induct) (auto dest: list_emb_set)

lemma distinct_subseq_named: "subseq is js \<Longrightarrow> distinct (named js) \<Longrightarrow> distinct (named is)"
  unfolding named_def by (metis distinct_subseqI subseq_filter)

subsection \<open>Promotion and expiry\<close>

text \<open>Promotion moves the oldest waiting entries into the free slots and touches nothing else.\<close>

lemma promote_spec:
  "promote tm q = (let k = min (nat (MaxVisible q - int (length (visible q)))) (length (pending q)) in
     q\<lparr>visible := rev (map (ShownAt_update (\<lambda>_. tm)) (take k (pending q))) @ visible q, pending := drop k (pending q)\<rparr>)"
proof (induction tm q rule: promote.induct)
  case (1 tm q)
  show ?case
  proof (cases "int (length (visible q)) < MaxVisible q \<and> pending q \<noteq> []")
    case True
    then obtain p ps where p: "pending q = p # ps" by (cases "pending q") auto
    define k where "k = min (nat (MaxVisible q - int (Suc (length (visible q))))) (length ps)"
    have k: "min (nat (MaxVisible q - int (length (visible q)))) (length (pending q)) = Suc k"
      using True by (auto simp: k_def p min_def)
    show ?thesis
      using 1 [OF True] True unfolding promote.simps [of tm q] k by (simp add: p k_def Let_def)
  next
    case False
    then have "min (nat (MaxVisible q - int (length (visible q)))) (length (pending q)) = 0" by auto
    moreover have "promote tm q = q" using False by (subst promote.simps) auto
    ultimately show ?thesis by simp
  qed
qed

lemma promote_entries [simp]: "entries (promote tm q) = entries q"
  by (simp add: promote_spec entries_def Let_def rev_map [symmetric] comp_def flip: map_append [of _ "take _ _" "drop _ _"])

lemma promote_opts [simp]: "MaxVisible (promote tm q) = MaxVisible q" "MaxPending (promote tm q) = MaxPending q"
  by (simp_all add: promote_spec Let_def)

lemma promote_ok: "bounded q \<Longrightarrow> queue_ok (promote tm q)"
proof -
  assume b: "bounded q"
  then have "distinct (named (map qID (entries (promote tm q))))" by (simp add: bounded_def)
  moreover have "int (length (visible (promote tm q))) \<le> MaxVisible q" "int (length (pending (promote tm q))) \<le> MaxPending q"
    "pending (promote tm q) \<noteq> [] \<Longrightarrow> int (length (visible (promote tm q))) = MaxVisible q"
    using b by (auto simp: promote_spec bounded_def Let_def min_def)
  ultimately show ?thesis using b by (auto simp: queue_ok_def bounded_def)
qed

lemma promote_full: "queue_ok q \<Longrightarrow> promote tm q = q"
  by (auto simp: queue_ok_def promote.simps [of tm q])

lemma entries_remove_visible: "subseq (entries (q\<lparr>visible := remove_at i (visible q)\<rparr>)) (entries q)"
proof -
  have "subseq (rev (remove_at i (visible q))) (rev (visible q))" using subseq_remove_at by (rule subseq_revI)
  then show ?thesis by (auto simp: entries_def simp del: map_append intro!: subseq_map list_emb_append_mono)
qed

lemma bounded_remove_visible: "bounded q \<Longrightarrow> bounded (q\<lparr>visible := remove_at i (visible q)\<rparr>)"
proof -
  assume b: "bounded q"
  have "length (remove_at i (visible q)) \<le> length (visible q)" by (simp add: remove_at_def)
  moreover have "distinct (named (map qID (entries (q\<lparr>visible := remove_at i (visible q)\<rparr>))))"
    using distinct_subseq_named [OF subseq_map [OF entries_remove_visible]] b unfolding bounded_def by blast
  ultimately show ?thesis using b by (auto simp: bounded_def)
qed

lemma bounded_remove_pending: "bounded q \<Longrightarrow> bounded (q\<lparr>pending := remove_at i (pending q)\<rparr>)"
proof -
  assume b: "bounded q"
  have "length (remove_at i (pending q)) \<le> length (pending q)" by (simp add: remove_at_def)
  moreover have "subseq (entries (q\<lparr>pending := remove_at i (pending q)\<rparr>)) (entries q)"
    by (auto simp: entries_def subseq_remove_at simp del: map_append intro!: subseq_map list_emb_append_mono)
  then have "distinct (named (map qID (entries (q\<lparr>pending := remove_at i (pending q)\<rparr>))))"
    using distinct_subseq_named [OF subseq_map] b unfolding bounded_def by blast
  ultimately show ?thesis using b by (auto simp: bounded_def)
qed

lemma expire_ok: "bounded q \<Longrightarrow> bounded (expire now q) \<and> (queue_ok q \<longrightarrow> queue_ok (expire now q))"
proof (induction now q rule: expire.induct)
  case (1 now q)
  show ?case
  proof (cases "firstDue now q")
    case (Some p)
    obtain i due where p: "p = (i, due)" by (cases p)
    have ok: "queue_ok (promote due (q\<lparr>visible := remove_at i (visible q)\<rparr>))"
      using bounded_remove_visible [OF 1(2)] by (rule promote_ok)
    then have "bounded (promote due (q\<lparr>visible := remove_at i (visible q)\<rparr>))" by (simp add: queue_ok_def)
    then show ?thesis using 1(1) [OF Some p [symmetric]] ok Some p by (simp add: expire.simps [of now q])
  qed (use 1(2) in \<open>simp add: expire.simps [of now q]\<close>)
qed

lemma expire_opts [simp]: "MaxVisible (expire now q) = MaxVisible q" "MaxPending (expire now q) = MaxPending q"
proof -
  have "MaxVisible (expire now q) = MaxVisible q \<and> MaxPending (expire now q) = MaxPending q"
  proof (induction now q rule: expire.induct)
    case (1 now q)
    then show ?case by (cases "firstDue now q") (auto simp: expire.simps [of now q])
  qed
  then show "MaxVisible (expire now q) = MaxVisible q" "MaxPending (expire now q) = MaxPending q" by auto
qed

text \<open>Expiry removes entries and reorders none: the toasts leave in the order they came.\<close>

lemma expire_fifo: "subseq (entries (expire now q)) (entries q)"
proof (induction now q rule: expire.induct)
  case (1 now q)
  show ?case
  proof (cases "firstDue now q")
    case (Some p)
    obtain i due where p: "p = (i, due)" by (cases p)
    have "subseq (entries (expire now q)) (entries (q\<lparr>visible := remove_at i (visible q)\<rparr>))"
      using 1 [OF Some p [symmetric]] Some p by (simp add: expire.simps [of now q])
    then show ?thesis using entries_remove_visible subseq_order.trans by blast
  qed (simp add: expire.simps [of now q])
qed

lemma firstDueFrom_None: "firstDueFrom now i best ts = None \<longleftrightarrow> best = None \<and> (\<forall>t \<in> set ts. \<not> isDue now t)"
  by (induction now i best ts rule: firstDueFrom.induct) (auto simp: isDue_def split: option.splits prod.splits if_splits)

lemma firstDue_None: "firstDue now q = None \<longleftrightarrow> (\<forall>t \<in> set (visible q). \<not> isDue now t)"
  by (simp add: firstDue_def firstDueFrom_None)

lemma expire_done: "t \<in> set (visible (expire now q)) \<Longrightarrow> \<not> isDue now t"
proof (induction now q rule: expire.induct)
  case (1 now q)
  then show ?case
    by (cases "firstDue now q") (auto simp: expire.simps [of now q] firstDue_None)
qed

text \<open>Entries without a lifetime are never retired by time.\<close>

lemma expire_keeps_forever:
  "filter (\<lambda>t. Duration t \<le> 0) (entries (expire now q)) = filter (\<lambda>t. Duration t \<le> 0) (entries q)"
proof (induction now q rule: expire.induct)
  case (1 now q)
  show ?case
  proof (cases "firstDue now q")
    case (Some p)
    obtain i due where p: "p = (i, due)" by (cases p)
    have i: "i < length (visible q)" "0 < Duration (visible q ! i)"
      using firstDue_Some [of now q i due] Some p by (auto simp: isDue_def)
    have "visible q = take i (visible q) @ visible q ! i # drop (Suc i) (visible q)" using i(1) by (rule id_take_nth_drop)
    then have "rev (map (ShownAt_update (\<lambda>_. 0)) (visible q)) =
        rev (map (ShownAt_update (\<lambda>_. 0)) (drop (Suc i) (visible q))) @ (visible q ! i)\<lparr>ShownAt := 0\<rparr> # rev (map (ShownAt_update (\<lambda>_. 0)) (take i (visible q)))"
      by (metis append.assoc append_Cons append_Nil list.simps(9) map_append rev.simps(2) rev_append)
    then have "filter (\<lambda>t. Duration t \<le> 0) (entries (q\<lparr>visible := remove_at i (visible q)\<rparr>)) = filter (\<lambda>t. Duration t \<le> 0) (entries q)"
      using i(2) by (simp add: entries_def remove_at_def rev_map [symmetric])
    then show ?thesis using 1 [OF Some p [symmetric]] Some p by (simp add: expire.simps [of now q])
  qed (simp add: expire.simps [of now q])
qed

subsection \<open>Lookup by identity\<close>

lemma indexOf_Some: "indexOf i ts = Some j \<Longrightarrow> i \<noteq> [] \<and> j < length ts \<and> qID (ts ! j) = i"
  by (auto simp: indexOf_def dest: first_index_Some split: if_splits)

lemma indexOf_None: "indexOf i ts = None \<longleftrightarrow> i = [] \<or> i \<notin> qID ` set ts"
  by (auto simp: indexOf_def first_index_None)

lemma GetToast_None: "GetToast q i = None \<longleftrightarrow> i \<notin> set (named (map qID (entries q)))"
proof -
  have "GetToast q i = None \<longleftrightarrow> indexOf i (visible q) = None \<and> indexOf i (pending q) = None"
    by (auto simp: GetToast_def indexVisible_def indexPending_def split: option.splits)
  then show ?thesis by (auto simp: indexOf_None entries_ids)
qed

lemma GetToast_id: "GetToast q i = Some t \<Longrightarrow> qID t = i"
  by (auto simp: GetToast_def indexVisible_def indexPending_def dest!: indexOf_Some split: option.splits)

lemma distinct_named_remove:
  assumes "distinct (named (map qID ts))" "j < length ts"
  shows "qID (ts ! j) \<notin> set (named (map qID (remove_at j ts)))"
proof (cases "qID (ts ! j) = []")
  case False
  have "ts = take j ts @ ts ! j # drop (Suc j) ts" using assms(2) by (rule id_take_nth_drop)
  then have "named (map qID ts) = named (map qID (take j ts)) @ qID (ts ! j) # named (map qID (drop (Suc j) ts))"
    using False by (metis (no_types, lifting) list.simps(9) map_append named_simps(2) named_simps(3))
  then show ?thesis using assms(1) by (simp add: remove_at_def)
qed simp

lemma remove_at_ids: "set (named (map qID (remove_at j ts))) \<subseteq> set (named (map qID ts))"
  using set_take_subset [of j ts] set_drop_subset [of "Suc j" ts] by (auto simp: remove_at_def)

lemma bounded_ids:
  "bounded q \<Longrightarrow> distinct (named (map qID (visible q))) \<and> distinct (named (map qID (pending q))) \<and>
     set (named (map qID (visible q))) \<inter> set (named (map qID (pending q))) = {}"
  by (simp add: bounded_def entries_ids rev_map [symmetric] del: named_simps(4))

subsection \<open>Pushing\<close>

lemma PushToast_ok:
  assumes "queue_ok q"
  shows "queue_ok (PushToast now t q)"
proof -
  define e where "e = expire now q"
  have e: "queue_ok e" "bounded e" using expire_ok [of q now] assms by (auto simp: queue_ok_def e_def)
  note ids = bounded_ids [OF e(2)]
  have lim: "0 < MaxVisible e" "0 < MaxPending e" "int (length (visible e)) \<le> MaxVisible e"
    "int (length (pending e)) \<le> MaxPending e" "pending e \<noteq> [] \<Longrightarrow> int (length (visible e)) = MaxVisible e"
    using e by (auto simp: queue_ok_def bounded_def)
  show ?thesis
  proof (cases "indexVisible e (qID t)")
    case (Some i)
    then have i: "i < length (visible e)" "qID (visible e ! i) = qID t" "qID t \<noteq> []"
      by (auto simp: indexVisible_def dest: indexOf_Some)
    have "length (remove_at i (visible e)) = length (visible e) - 1" using i(1) by (rule length_remove_at)
    moreover have "qID t \<in> set (named (map qID (visible e)))" using i by (auto intro!: image_eqI [of _ _ "visible e ! i"])
    moreover have "distinct (named (map qID (remove_at i (visible e))))"
      using distinct_subseq_named [OF subseq_map [OF subseq_remove_at]] ids by blast
    ultimately show ?thesis
      using Some lim i distinct_named_remove [of "visible e" i] remove_at_ids [of i "visible e"] ids
      by (auto simp: PushToast_def e_def [symmetric] Let_def queue_ok_def bounded_def entries_ids rev_map [symmetric])
  next
    case vis: None
    show ?thesis
    proof (cases "indexPending e (qID t)")
      case (Some i)
      then have i: "i < length (pending e)" "qID (pending e ! i) = qID t" by (auto simp: indexPending_def dest: indexOf_Some)
      then have "map qID ((pending e)[i := t\<lparr>ShownAt := now\<rparr>]) = map qID (pending e)"
        by (metis list_update_id map_update queuedToast.select_convs(1) queuedToast.surjective queuedToast.update_convs(4))
      then show ?thesis
        using vis Some lim e i by (auto simp: PushToast_def e_def [symmetric] Let_def queue_ok_def bounded_def entries_ids)
    next
      case None
      then have new: "qID t \<notin> set (named (map qID (visible e)))" "qID t \<notin> set (named (map qID (pending e)))"
        using vis by (auto simp: indexVisible_def indexPending_def indexOf_None)
      define w where "w = (if MaxPending e \<le> int (length (pending e)) then tl (pending e) else pending e)"
      have w: "distinct (named (map qID w))" "set (named (map qID w)) \<subseteq> set (named (map qID (pending e)))"
        using ids by (cases "pending e"; auto simp: w_def split: if_splits)+
      have len: "int (length w) < MaxPending e" using lim by (auto simp: w_def)
      have push: "PushToast now t q = (if int (length (visible e)) < MaxVisible e then e\<lparr>visible := t\<lparr>ShownAt := now\<rparr> # visible e\<rparr>
          else e\<lparr>pending := w @ [t\<lparr>ShownAt := now\<rparr>]\<rparr>)"
        using vis None by (simp add: PushToast_def e_def [symmetric] Let_def w_def)
      show ?thesis
      proof (cases "int (length (visible e)) < MaxVisible e")
        case True
        then have "pending e = []" using lim(5) by auto
        then show ?thesis using True lim new ids by (auto simp: push queue_ok_def bounded_def entries_ids rev_map [symmetric])
      next
        case False
        have "distinct (named (rev (map qID (visible e))) @ named (map qID w) @ named [qID t])"
          using new ids w by auto
        then show ?thesis using False lim len by (simp add: push queue_ok_def bounded_def entries_ids rev_map [symmetric] del: named_simps(2,5))
      qed
    qed
  qed
qed

text \<open>A pushed toast with an identity is in the queue, as it was given, shown from \<open>now\<close>.\<close>

lemma PushToast_Get:
  assumes "qID t \<noteq> []"
  shows "GetToast (PushToast now t q) (qID t) = Some (t\<lparr>ShownAt := now\<rparr>)"
proof -
  define e where "e = expire now q"
  define t' where "t' = t\<lparr>ShownAt := now\<rparr>"
  have first: "indexOf (qID t) (t' # ts) = Some 0" for ts using assms by (simp add: indexOf_def t'_def)
  have upd: "indexOf (qID t) ts = Some i \<Longrightarrow> indexOf (qID t) (ts[i := t']) = Some i" for ts i
    using assms by (induction ts arbitrary: i) (auto simp: indexOf_def t'_def split: if_splits)
  have app: "indexOf (qID t) ts = None \<Longrightarrow> indexOf (qID t) (ts @ [t']) = Some (length ts)" for ts
    using assms by (induction ts) (auto simp: indexOf_def t'_def split: if_splits)
  have tl: "indexOf (qID t) ts = None \<Longrightarrow> indexOf (qID t) (tl ts) = None" for ts
    by (cases ts) (auto simp: indexOf_None)
  have len: "indexOf (qID t) ts = Some i \<Longrightarrow> i < length ts" for ts i by (auto dest: indexOf_Some)
  have idt: "qID t' = qID t" by (simp add: t'_def)
  have push: "PushToast now t q = (case indexOf (qID t) (visible e) of
        Some i \<Rightarrow> e\<lparr>visible := t' # remove_at i (visible e)\<rparr>
      | None \<Rightarrow> (case indexOf (qID t) (pending e) of
           Some i \<Rightarrow> e\<lparr>pending := (pending e)[i := t']\<rparr>
         | None \<Rightarrow> if int (length (visible e)) < MaxVisible e then e\<lparr>visible := t' # visible e\<rparr>
           else e\<lparr>pending := (if MaxPending e \<le> int (length (pending e)) then tl (pending e) else pending e) @ [t']\<rparr>))"
    unfolding PushToast_def e_def [symmetric] t'_def [symmetric] Let_def indexVisible_def indexPending_def idt by (rule refl)
  show ?thesis
  proof (cases "indexOf (qID t) (visible e)")
    case None
    define w where "w = (if MaxPending e \<le> int (length (pending e)) then tl (pending e) else pending e)"
    have "indexOf (qID t) (pending e) = None \<Longrightarrow> indexOf (qID t) w = None" using tl by (auto simp: w_def)
    then have w: "indexOf (qID t) (pending e) = None \<Longrightarrow> indexOf (qID t) (w @ [t']) = Some (length w)"
      using app by blast
    show ?thesis
      using None first upd w unfolding push w_def [symmetric]
      by (cases "indexOf (qID t) (pending e)") (auto simp: GetToast_def indexVisible_def indexPending_def t'_def dest: len)
  qed (use first in \<open>simp add: push GetToast_def indexVisible_def t'_def\<close>)
qed

subsection \<open>Dismissing\<close>

lemma promote_named: "set (named (map qID (entries (promote tm q)))) = set (named (map qID (entries q)))"
  by simp

lemma expire_named: "set (named (map qID (entries (expire now q)))) \<subseteq> set (named (map qID (entries q)))"
proof -
  have "set (entries (expire now q)) \<subseteq> set (entries q)" using expire_fifo [of now q] by (auto dest: list_emb_set)
  then show ?thesis by auto
qed

lemma Dismiss_ok:
  assumes "queue_ok q"
  shows "queue_ok (fst (Dismiss now i q))"
proof -
  have "bounded q" using assms by (simp add: queue_ok_def)
  then have "bounded (promote now (expire now q'))" if "bounded q'" for q' :: "'a toastQueue"
    using promote_ok expire_ok that by (auto simp: queue_ok_def)
  moreover have "queue_ok (promote now (expire now q'))" if "bounded q'" for q' :: "'a toastQueue"
    using promote_ok [of "expire now q'"] expire_ok [OF that] by blast
  ultimately show ?thesis
    using \<open>bounded q\<close> bounded_remove_visible [of q] bounded_remove_pending [of q]
    by (auto simp: Dismiss_def split: option.split)
qed

text \<open>Dismissing reports whether the identity was there, and it is gone afterwards.\<close>

lemma Dismiss_removed: "snd (Dismiss now i q) \<longleftrightarrow> GetToast q i \<noteq> None"
  by (auto simp: Dismiss_def GetToast_def split: option.splits)

lemma Dismiss_gone:
  assumes "queue_ok q"
  shows "GetToast (fst (Dismiss now i q)) i = None"
proof -
  have b: "bounded q" using assms by (simp add: queue_ok_def)
  note ids = bounded_ids [OF b]
  have step: "i \<notin> set (named (map qID (entries q'))) \<Longrightarrow> GetToast (promote now (expire now q')) i = None" for q' :: "'a toastQueue"
    using expire_named [of now q'] by (auto simp: GetToast_None simp del: named_simps(4))
  show ?thesis
  proof (cases "indexVisible q i")
    case (Some j)
    then have j: "j < length (visible q)" "qID (visible q ! j) = i" "i \<noteq> []" by (auto simp: indexVisible_def dest: indexOf_Some)
    then have "i \<in> set (named (map qID (visible q)))" by (auto intro!: image_eqI [of _ _ "visible q ! j"])
    then have "i \<notin> set (named (map qID (pending q)))" using ids by (auto simp del: named_simps(4))
    moreover have "i \<notin> set (named (map qID (remove_at j (visible q))))"
      using distinct_named_remove [of "visible q" j] ids j by auto
    ultimately have "i \<notin> set (named (map qID (entries (q\<lparr>visible := remove_at j (visible q)\<rparr>))))"
      by (simp add: entries_ids rev_map [symmetric])
    then show ?thesis using Some step by (simp add: Dismiss_def)
  next
    case vis: None
    then have v: "i \<notin> set (named (map qID (visible q)))" by (auto simp: indexVisible_def indexOf_None)
    show ?thesis
    proof (cases "indexPending q i")
      case (Some j)
      then have j: "j < length (pending q)" "qID (pending q ! j) = i" by (auto simp: indexPending_def dest: indexOf_Some)
      then have "i \<notin> set (named (map qID (remove_at j (pending q))))"
        using distinct_named_remove [of "pending q" j] ids by auto
      then have "i \<notin> set (named (map qID (entries (q\<lparr>pending := remove_at j (pending q)\<rparr>))))"
        using v by (simp add: entries_ids rev_map [symmetric])
      then show ?thesis using Some vis step by (simp add: Dismiss_def)
    next
      case None
      then have "i \<notin> set (named (map qID (entries q)))"
        using v by (auto simp: indexPending_def indexOf_None entries_ids)
      then show ?thesis using None vis step by (simp add: Dismiss_def)
    qed
  qed
qed

subsection \<open>The next deadline\<close>

lemma nextDeadlineFrom_None: "nextDeadlineFrom next ts = None \<longleftrightarrow> next = None \<and> (\<forall>t \<in> set ts. Duration t \<le> 0)"
  by (induction ts arbitrary: "next") (auto split: option.splits)

lemma nextDeadlineFrom_Some:
  "nextDeadlineFrom next ts = Some d \<Longrightarrow>
     (next = Some d \<or> (\<exists>t \<in> set ts. 0 < Duration t \<and> d = dueAt t)) \<and>
     (\<forall>n. next = Some n \<longrightarrow> d \<le> n) \<and> (\<forall>t \<in> set ts. 0 < Duration t \<longrightarrow> d \<le> dueAt t)"
proof (induction ts arbitrary: "next")
  case (Cons t ts)
  define n' where "n' = (if Duration t \<le> 0 then next else (case next of
            None \<Rightarrow> Some (dueAt t)
          | Some n \<Rightarrow> if dueAt t < n then Some (dueAt t) else next))"
  from Cons.prems have "nextDeadlineFrom n' ts = Some d" by (simp add: n'_def)
  note IH = Cons.IH [OF this]
  have n: "n' = next \<or> 0 < Duration t \<and> n' = Some (dueAt t)" "\<And>n. next = Some n \<Longrightarrow> \<exists>m. n' = Some m \<and> m \<le> n"
    "0 < Duration t \<Longrightarrow> \<exists>m. n' = Some m \<and> m \<le> dueAt t"
    by (auto simp: n'_def split: option.splits)
  have "next = Some d \<or> (\<exists>u \<in> set (t # ts). 0 < Duration u \<and> d = dueAt u)" using IH n(1) by auto
  moreover have "\<forall>n. next = Some n \<longrightarrow> d \<le> n" using IH n(2) by fastforce
  moreover have "\<forall>u \<in> set (t # ts). 0 < Duration u \<longrightarrow> d \<le> dueAt u" using IH n(3) by fastforce
  ultimately show ?case by blast
qed simp

text \<open>Nothing changes before the deadline, and an entry leaves at it.\<close>

lemma NextDeadline_exact:
  assumes "NextDeadline q = Some d"
  shows "now < d \<Longrightarrow> expire now q = q" "firstDue d q \<noteq> None"
proof -
  have d: "\<exists>t \<in> set (visible q). 0 < Duration t \<and> d = dueAt t" "\<forall>t \<in> set (visible q). 0 < Duration t \<longrightarrow> d \<le> dueAt t"
    using nextDeadlineFrom_Some [of None "visible q" d] assms by (auto simp: NextDeadline_def)
  have "now < d \<Longrightarrow> firstDue now q = None" using d(2) by (auto simp: firstDue_None isDue_def)
  then show "now < d \<Longrightarrow> expire now q = q" by (subst expire.simps) simp
  show "firstDue d q \<noteq> None" using d(1) by (auto simp: firstDue_None isDue_def)
qed

lemma NextDeadline_None: "NextDeadline q = None \<Longrightarrow> expire now q = q"
proof -
  assume "NextDeadline q = None"
  then have "firstDue now q = None" by (auto simp: NextDeadline_def nextDeadlineFrom_None firstDue_None isDue_def)
  then show ?thesis by (subst expire.simps) simp
qed

section \<open>Reachable queues\<close>

text \<open>Any sequence of calls on a new queue.\<close>

inductive reachable_queue :: "'a toastQueue \<Rightarrow> bool" where
  new: "reachable_queue (NewToastQueue maxVisible maxPending)"
| push: "reachable_queue q \<Longrightarrow> reachable_queue (PushToast now t q)"
| shown: "reachable_queue q \<Longrightarrow> reachable_queue (fst (Visible now q))"
| dismiss: "reachable_queue q \<Longrightarrow> reachable_queue (fst (Dismiss now i q))"

lemma reachable_queue_ok: "reachable_queue q \<Longrightarrow> queue_ok q"
proof (induction rule: reachable_queue.induct)
  case (new maxVisible maxPending)
  show ?case by (simp add: NewToastQueue_def queue_ok_def bounded_def entries_def)
next
  case (shown q now)
  then show ?case using expire_ok [of q now] by (simp add: Visible_def Let_def queue_ok_def)
qed (simp_all add: PushToast_ok Dismiss_ok)

section \<open>Properties\<close>

text \<open>
  C36. Whatever is called on a toast queue and at whatever instants, it shows at most its number of
  slots, keeps at most its number of waiting toasts, lets a toast wait only while every slot is
  taken, and never holds two toasts with one identity.
\<close>

theorem toast_queue_invariant:
  assumes "reachable_queue q"
  shows "int (length (visible q)) \<le> MaxVisible q \<and> int (length (pending q)) \<le> MaxPending q \<and>
    (pending q \<noteq> [] \<longrightarrow> int (length (visible q)) = MaxVisible q) \<and>
    distinct (named (map qID (visible q @ pending q)))"
  using reachable_queue_ok [OF assms]
  by (auto simp: queue_ok_def bounded_def entries_ids rev_map [symmetric] simp del: named_simps(2))

definition burst :: "nat toastQueue" where
  "burst = fold (\<lambda>i q. PushToast 0 \<lparr>qID = [i], qValue = 0, Duration = 5, ShownAt = 0\<rparr> q) ''abcd'' (NewToastQueue 0 0)"

lemma burst_reachable: "reachable_queue burst"
  by (simp add: burst_def push new)

theorem toast_queue_invariant_witness:
  "int (length (visible burst)) \<le> 3 \<and> distinct (named (map qID (visible burst @ pending burst)))"
proof -
  have "MaxVisible burst = 3" by code_simp
  with toast_queue_invariant [OF burst_reachable] show ?thesis by simp
qed

text \<open>
  Expiry ends, leaves no visible toast that is due, keeps the order of the toasts, and drops
  only toasts with a lifetime.
\<close>

theorem expire_retires_due:
  "(\<nexists>t. t \<in> set (visible (expire now q)) \<and> isDue now t) \<and> subseq (entries (expire now q)) (entries q) \<and>
    filter (\<lambda>t. Duration t \<le> 0) (entries (expire now q)) = filter (\<lambda>t. Duration t \<le> 0) (entries q)"
  using expire_done expire_fifo expire_keeps_forever by blast

text \<open>
  A toast that was pushed under an identity is found under it, shown from the instant of the
  push; after it is dismissed the identity is unknown.
\<close>

theorem push_then_dismiss:
  assumes "reachable_queue q" "qID t \<noteq> []"
  shows "GetToast (PushToast now t q) (qID t) = Some (t\<lparr>ShownAt := now\<rparr>) \<and>
    snd (Dismiss later (qID t) (PushToast now t q)) \<and>
    GetToast (fst (Dismiss later (qID t) (PushToast now t q))) (qID t) = None"
proof -
  have ok: "queue_ok (PushToast now t q)" using reachable_queue_ok [OF assms(1)] by (rule PushToast_ok)
  show ?thesis using PushToast_Get [OF assms(2), of now q] Dismiss_gone [OF ok] by (simp add: Dismiss_removed)
qed

theorem push_then_dismiss_witness:
  "snd (Dismiss 9 ''x'' (PushToast 1 \<lparr>qID = ''x'', qValue = 7, Duration = 5, ShownAt = 0\<rparr> burst))"
  using push_then_dismiss [OF burst_reachable, of "\<lparr>qID = ''x'', qValue = 7, Duration = 5, ShownAt = 0\<rparr>" 1 9] by simp

text \<open>
  The next deadline is exact: before it no call for the visible toasts changes the queue, at it
  a toast is due, and with no deadline none ever is.
\<close>

theorem next_deadline_exact:
  "case NextDeadline q of
     Some d \<Rightarrow> (\<nexists>now. now < d \<and> Visible now q \<noteq> (q, Peek q)) \<and> firstDue d q \<noteq> None
   | None \<Rightarrow> \<nexists>now. Visible now q \<noteq> (q, Peek q)"
  using NextDeadline_exact [of q] NextDeadline_None [of q]
  by (cases "NextDeadline q") (auto simp: Visible_def Peek_def Let_def)

end
