(* ===== verification/Fuzzy_Match.thy ===== *)
theory Fuzzy_Match
  imports Go_Strings "HOL-Library.List_Lexorder" "HOL-Library.Product_Lexorder"
begin

text \<open>
  Scoring one folded text against a folded query: \<^verbatim>\<open>internal/usecase/fuzzy/fuzzy.go\<close>.
  The code passes the query twice, as a string and as its runes; both are kept as arguments.
\<close>

datatype matchKind = Exact | Prefix | Subsequence

record score =
  Kind :: matchKind
  Positions :: "nat list"
  Span :: int
  First :: nat

definition rangePositions :: "nat \<Rightarrow> nat list" where
  "rangePositions n = [0..<n]"

text \<open>The scan of \<^verbatim>\<open>subsequencePositions\<close> from index \<open>idx\<close>, for the part of the needle still to find.\<close>

fun scanFrom :: "nat \<Rightarrow> rune list \<Rightarrow> rune list \<Rightarrow> nat list option" where
  "scanFrom idx [] needle = None"
| "scanFrom idx (r # rs) [] = None"
| "scanFrom idx (r # rs) (n # ns) =
     (if r \<noteq> n then scanFrom (Suc idx) rs (n # ns)
      else if ns = [] then Some [idx]
      else map_option (Cons idx) (scanFrom (Suc idx) rs ns))"

definition subsequencePositions :: "rune list \<Rightarrow> rune list \<Rightarrow> nat list option" where
  "subsequencePositions haystack needle = (if needle = [] then Some [] else scanFrom 0 haystack needle)"

definition Match :: "rune list \<Rightarrow> rune list \<Rightarrow> rune list \<Rightarrow> score option" where
  "Match str query needle =
     (if needle = [] then Some \<lparr>Kind = Exact, Positions = [], Span = 0, First = 0\<rparr>
      else
        map_option (\<lambda>(k, ps). \<lparr>Kind = k, Positions = ps, Span = int (last ps) - int (hd ps) + 1, First = hd ps\<rparr>)
          (if str = query then Some (Exact, rangePositions (length needle))
           else if prefix query str then Some (Prefix, rangePositions (length needle))
           else map_option (Pair Subsequence) (subsequencePositions str needle)))"

definition Less :: "int \<Rightarrow> score \<Rightarrow> int \<Rightarrow> score \<Rightarrow> bool" where
  "Less leftRank left rightRank right =
     (if leftRank \<noteq> rightRank then leftRank < rightRank
      else if Span left \<noteq> Span right then Span left < Span right
      else First left < First right)"

text \<open>
  An embedding of the needle: strictly increasing indices of the text at which the needle's runes
  stand.
\<close>

definition embeds :: "nat list \<Rightarrow> rune list \<Rightarrow> rune list \<Rightarrow> bool" where
  "embeds ps needle str \<longleftrightarrow>
     sorted_wrt (<) ps \<and> (\<forall>p \<in> set ps. p < length str) \<and> map (\<lambda>p. str ! p) ps = needle"

lemma embeds_Cons:
  "embeds ps needle rs \<Longrightarrow> embeds (map Suc ps) needle (r # rs)"
  by (auto simp: embeds_def sorted_wrt_map comp_def)

lemma embeds_shift:
  assumes "embeds ps needle (r # rs)" "0 \<notin> set ps"
  shows "\<exists>qs. ps = map Suc qs \<and> embeds qs needle rs"
proof -
  have "map Suc (map (\<lambda>p. p - 1) ps) = ps" using assms(2) by (auto intro!: map_idI simp: comp_def) (metis gr0I Suc_pred One_nat_def)
  then obtain qs where qs: "ps = map Suc qs" by metis
  then have "embeds qs needle rs" using assms(1) by (auto simp: embeds_def sorted_wrt_map comp_def)
  then show ?thesis using qs by blast
qed

lemma scanFrom_Suc: "scanFrom (Suc i) rs ns = map_option (map Suc) (scanFrom i rs ns)"
  by (induction i rs ns rule: scanFrom.induct) (auto simp: option.map_comp comp_def)

text \<open>The positions found embed the needle, and no embedding has an earlier position anywhere.\<close>

lemma scanFrom_embeds: "needle \<noteq> [] \<Longrightarrow> scanFrom 0 str needle = Some ps \<Longrightarrow> embeds ps needle str"
proof (induction str arbitrary: needle ps)
  case (Cons r rs)
  obtain n ns where n: "needle = n # ns" using Cons.prems by (cases needle) auto
  show ?case
  proof (cases "r = n \<and> ns \<noteq> []")
    case True
    then obtain qs where qs: "scanFrom 0 rs ns = Some qs" "ps = 0 # map Suc qs" using Cons.prems n by (auto simp: scanFrom_Suc)
    have "embeds qs ns rs" using Cons.IH [OF _ qs(1)] True by simp
    then show ?thesis using True n qs(2) by (auto simp: embeds_def sorted_wrt_map comp_def)
  next
    case False
    show ?thesis
    proof (cases "r = n")
      case True
      then show ?thesis using False Cons.prems n by (auto simp: embeds_def)
    next
      case neq: False
      then obtain qs where "scanFrom 0 rs needle = Some qs" "ps = map Suc qs" using Cons.prems n by (auto simp: scanFrom_Suc)
      then show ?thesis using Cons.IH [OF Cons.prems(1)] embeds_Cons by blast
    qed
  qed
qed simp

lemma scanFrom_leftmost:
  "needle \<noteq> [] \<Longrightarrow> embeds qs needle str \<Longrightarrow> \<exists>ps. scanFrom 0 str needle = Some ps \<and> list_all2 (\<le>) ps qs"
proof (induction str arbitrary: needle qs)
  case (Cons r rs)
  obtain n ns where n: "needle = n # ns" using Cons.prems by (cases needle) auto
  obtain q qs' where q: "qs = q # qs'" using Cons.prems n by (cases qs) (auto simp: embeds_def)
  have later: "0 \<notin> set qs'" using Cons.prems q by (auto simp: embeds_def)
  show ?case
  proof (cases "r = n")
    case True
    have "embeds qs' ns (r # rs)" using Cons.prems n q by (auto simp: embeds_def)
    from embeds_shift [OF this later] obtain us where us: "qs' = map Suc us" "embeds us ns rs" by blast
    show ?thesis
    proof (cases "ns = []")
      case True
      then have "qs' = []" using us by (auto simp: embeds_def)
      then show ?thesis using True \<open>r = n\<close> n q by simp
    next
      case False
      then obtain ps where "scanFrom 0 rs ns = Some ps" "list_all2 (\<le>) ps us" using Cons.IH [OF _ us(2)] by blast
      then show ?thesis using False \<open>r = n\<close> n q us(1) by (auto simp: scanFrom_Suc list_all2_map1 list_all2_map2)
    qed
  next
    case False
    then have "0 \<notin> set qs" using Cons.prems n q later by (cases q) (auto simp: embeds_def)
    from embeds_shift [OF Cons.prems(2) this] obtain us where us: "qs = map Suc us" "embeds us needle rs" by blast
    from Cons.IH [OF Cons.prems(1) us(2)] obtain ps where "scanFrom 0 rs needle = Some ps" "list_all2 (\<le>) ps us" by blast
    then show ?thesis using False n us(1) by (auto simp: scanFrom_Suc list_all2_map1 list_all2_map2)
  qed
qed (auto simp: embeds_def)

lemma embeds_range: "prefix needle str \<Longrightarrow> embeds (rangePositions (length needle)) needle str"
  by (auto simp: embeds_def rangePositions_def prefix_def nth_append intro!: nth_equalityI)

text \<open>What a match promises: the positions spell the query, leftmost for the subsequence kind.\<close>

lemma Match_embeds:
  assumes "Match str needle needle = Some s"
  shows "embeds (Positions s) needle str" "needle \<noteq> [] \<Longrightarrow> First s = hd (Positions s) \<and> Span s = int (last (Positions s)) - int (hd (Positions s)) + 1"
    "Kind s = Exact \<longleftrightarrow> needle = [] \<or> str = needle" "Kind s = Prefix \<longleftrightarrow> needle \<noteq> [] \<and> strict_prefix needle str"
proof -
  have "embeds [] [] str" by (simp add: embeds_def)
  then show "embeds (Positions s) needle str"
    using assms embeds_range [of needle str] scanFrom_embeds [of needle str]
    by (auto simp: Match_def subsequencePositions_def split: if_splits)
qed (use assms in \<open>auto simp: Match_def strict_prefix_def split: if_splits\<close>)

lemma Match_complete:
  assumes "embeds qs needle str"
  shows "\<exists>s. Match str needle needle = Some s \<and> list_all2 (\<le>) (Positions s) qs"
proof (cases "needle = []")
  case True
  then show ?thesis using assms by (auto simp: Match_def embeds_def)
next
  case False
  show ?thesis
  proof (cases "prefix needle str")
    case True
    have len: "length qs = length needle" using assms by (auto simp: embeds_def dest: arg_cong [where f = length])
    have "i < length qs \<Longrightarrow> i \<le> qs ! i" for i
      using assms unfolding embeds_def
      by (induction i) (auto, metis Suc_leI Suc_lessD le_trans lessI not_less_eq_eq sorted_wrt_nth_less)
    then show ?thesis using False True len by (auto simp: Match_def rangePositions_def list_all2_conv_all_nth)
  next
    case np: False
    then show ?thesis using scanFrom_leftmost [OF False assms] False by (auto simp: Match_def subsequencePositions_def)
  qed
qed

lemma embeds_subseq: "(\<exists>ps. embeds ps needle str) \<longleftrightarrow> subseq needle str"
proof
  assume "subseq needle str"
  then show "\<exists>ps. embeds ps needle str"
  proof (induction rule: list_emb.induct)
    case (list_emb_Nil ys)
    then show ?case by (auto simp: embeds_def intro: exI [of _ "[]"])
  next
    case (list_emb_Cons xs ys y)
    then show ?case using embeds_Cons by blast
  next
    case (list_emb_Cons2 x y xs ys)
    then obtain ps where "embeds ps xs ys" by blast
    then have "embeds (0 # map Suc ps) (x # xs) (y # ys)" using list_emb_Cons2 by (auto simp: embeds_def sorted_wrt_map comp_def)
    then show ?case by blast
  qed
next
  have "embeds ps needle str \<Longrightarrow> subseq needle str" for ps
  proof (induction str arbitrary: ps needle)
    case (Cons r rs)
    show ?case
    proof (cases "0 \<in> set ps")
      case True
      then obtain qs where qs: "ps = 0 # qs" "0 \<notin> set qs"
        using Cons.prems by (cases ps) (auto simp: embeds_def)
      then have "embeds qs (tl needle) (r # rs)" "needle = r # tl needle" using Cons.prems by (auto simp: embeds_def)
      then show ?thesis using embeds_shift [OF _ qs(2)] Cons.IH by (metis subseq_Cons2_iff)
    next
      case False
      then show ?thesis using embeds_shift [OF Cons.prems] Cons.IH by blast
    qed
  qed (auto simp: embeds_def)
  then show "\<exists>ps. embeds ps needle str \<Longrightarrow> subseq needle str" by blast
qed

text \<open>The order of scores is the lexicographic order of rank, span and first position.\<close>

lemma Less_lex: "Less r s r' s' \<longleftrightarrow> (r, Span s, First s) < (r', Span s', First s')"
  by (auto simp: Less_def)

section \<open>Properties\<close>

text \<open>
  A query matches exactly the texts that contain it as a subsequence.
\<close>

theorem Match_iff_subseq: "Match str query query \<noteq> None \<longleftrightarrow> subseq query str"
proof -
  have "Match str query query \<noteq> None \<longleftrightarrow> (\<exists>ps. embeds ps query str)"
    using Match_embeds(1) Match_complete by fastforce
  then show ?thesis by (simp add: embeds_subseq)
qed

text \<open>
  The positions of a match spell the query in order, and they are the leftmost ones: no other
  way to find the query in the text has any of its positions earlier.
\<close>

theorem Match_positions_leftmost:
  assumes "Match str query query = Some s"
  shows "embeds (Positions s) query str \<and> (\<forall>ps. embeds ps query str \<longrightarrow> list_all2 (\<le>) (Positions s) ps)"
  using Match_embeds(1) [OF assms] Match_complete assms by fastforce

theorem Match_positions_leftmost_witness:
  "\<exists>s. Match (runes ''switch'') (runes ''sc'') (runes ''sc'') = Some s \<and> embeds (Positions s) (runes ''sc'') (runes ''switch'')"
proof -
  have "Match (runes ''switch'') (runes ''sc'') (runes ''sc'') = Some \<lparr>Kind = Subsequence, Positions = [0, 4], Span = 5, First = 0\<rparr>"
    by code_simp
  from Match_positions_leftmost [OF this] this show ?thesis by blast
qed

end
