(* ===== verification/Palette_Fuzzy.thy ===== *)
theory Palette_Fuzzy
  imports Fuzzy_Match "HOL-Library.Word"
begin

text \<open>
  The palette's rows and their ranking: \<^verbatim>\<open>internal/usecase/palette/result.go\<close>,
  \<^verbatim>\<open>fuzzy.go\<close> and \<^verbatim>\<open>action.go\<close> of the same package, with the data they carry
  from \<^verbatim>\<open>internal/usecase/command\<close>, \<^verbatim>\<open>internal/domain\<close> and
  \<^verbatim>\<open>internal/protocol\<close>. Texts are lists of runes; a result is a datatype whose
  constructor is the code's \<^verbatim>\<open>kind\<close> with the payload that kind uses.
\<close>

section \<open>Data\<close>

datatype arguments = ArgumentsNone | ArgumentsOptional | ArgumentsRequired

text \<open>The fields of a command the palette reads.\<close>

record command =
  Slug :: "rune list"
  Code :: "rune list"
  Desc :: "rune list"
  Arguments :: arguments

type_synonym lifecycleID = "128 word"

record exactSessionTarget =
  LifecycleID :: lifecycleID
  SessionName :: "rune list"

record remoteSessionKey =
  rkHost :: "rune list"
  rkName :: "rune list"
  rkLifecycleID :: lifecycleID
  rkDisplayOrigin :: "rune list"

datatype tabSelectorKind = NoTabSelector | TabSelectorByStableID | TabSelectorByOrdinal

record tabSelector =
  tsKind :: tabSelectorKind
  tsStableID :: "rune list"
  tsOrdinal :: "16 word"
  tsRawName :: "rune list"
  tsExpectedCount :: "16 word"

record remoteSessionTarget =
  rtEndpoint :: "rune list"
  rtDisplayOrigin :: "rune list"
  rtLifecycleID :: lifecycleID
  rtSessionName :: "rune list"
  rtLiveTabID :: "rune list"
  rtStoppedTab :: tabSelector
  rtStopped :: bool

record routeRef =
  refKey :: "64 word"
  refGeneration :: "64 word"

record routeNavigationAction =
  navCauseActionID :: "64 word"
  navSnapshotGeneration :: "64 word"
  navKey :: "64 word"
  navGeneration :: "64 word"

record sessionPayload =
  spDisplay :: "rune list"
  spCreatedAt :: int
  spTarget :: exactSessionTarget

record remoteSessionPayload =
  rpKey :: remoteSessionKey
  rpTarget :: remoteSessionTarget
  rpUnavailableReason :: "rune list"

record importedSessionPayload =
  ipSourceKey :: "rune list"
  ipEntryKey :: "rune list"
  ipName :: "rune list"
  ipDisplayOrigin :: "rune list"
  ipState :: "rune list"
  ipReason :: "rune list"

record routePayload =
  rtName :: "rune list"
  rtLabel :: "rune list"
  rtAction :: routeNavigationAction

datatype createSessionDestinationKind = CreateSessionOnServingDaemon | CreateSessionOnLocalRoute | CreateSessionOnRemoteHost

record createSessionDestinationPayload =
  cdName :: "rune list"
  cdKind :: createSessionDestinationKind
  cdDisplayOrigin :: "rune list"
  cdEndpoint :: "rune list"
  cdRoute :: routeRef
  cdSnapshotGen :: "64 word"

datatype result =
    CommandResult command
  | ActiveSession sessionPayload
  | StoppedSession sessionPayload
  | RemoteSession remoteSessionPayload
  | RecentRoute routePayload
  | CreateSessionDestination createSessionDestinationPayload
  | ImportedSession importedSessionPayload

text \<open>The numeric value of \<^verbatim>\<open>Kind()\<close>, by which ties are ordered.\<close>

fun resultKind :: "result \<Rightarrow> nat" where
  "resultKind (CommandResult _) = 0"
| "resultKind (ActiveSession _) = 1"
| "resultKind (StoppedSession _) = 2"
| "resultKind (RemoteSession _) = 3"
| "resultKind (RecentRoute _) = 4"
| "resultKind (CreateSessionDestination _) = 5"
| "resultKind (ImportedSession _) = 6"

section \<open>Labels\<close>

text \<open>The part after the last at sign, when something follows it.\<close>

definition RemoteDisplayOrigin :: "rune list \<Rightarrow> rune list" where
  "RemoteDisplayOrigin endpoint =
     (let tail = rev (takeWhile (\<lambda>r. r \<noteq> 64) (rev endpoint)) in
      if 64 \<in> set endpoint \<and> tail \<noteq> [] then tail else endpoint)"

definition SessionDisplay :: "rune list \<Rightarrow> rune list \<Rightarrow> rune list" where
  "SessionDisplay name origin = (if origin = [] then name else name @ runes ''@'' @ RemoteDisplayOrigin origin)"

definition remoteSessionDisplay :: "remoteSessionKey \<Rightarrow> rune list" where
  "remoteSessionDisplay k =
     (let origin = (if rkDisplayOrigin k = [] then RemoteDisplayOrigin (rkHost k) else rkDisplayOrigin k) in
      SessionDisplay (rkName k) origin)"

definition newSessionPayload :: "exactSessionTarget \<Rightarrow> int \<Rightarrow> rune list \<Rightarrow> sessionPayload" where
  "newSessionPayload target createdAt displayOrigin =
     \<lparr>spDisplay = SessionDisplay (SessionName target) displayOrigin, spCreatedAt = createdAt, spTarget = target\<rparr>"

definition NewActiveSessionResult :: "exactSessionTarget \<Rightarrow> int \<Rightarrow> rune list \<Rightarrow> result" where
  "NewActiveSessionResult target createdAt displayOrigin = ActiveSession (newSessionPayload target createdAt displayOrigin)"

definition NewStoppedSessionResult :: "exactSessionTarget \<Rightarrow> int \<Rightarrow> rune list \<Rightarrow> result" where
  "NewStoppedSessionResult target createdAt displayOrigin = StoppedSession (newSessionPayload target createdAt displayOrigin)"

definition qualifiedName :: "importedSessionPayload \<Rightarrow> rune list" where
  "qualifiedName p = SessionDisplay (ipName p) (ipDisplayOrigin p)"

definition importedDisplay :: "importedSessionPayload \<Rightarrow> rune list" where
  "importedDisplay p =
     (let base = qualifiedName p; tag = (if ipState p = [] \<or> ipState p = runes ''up'' then [] else ipState p) in
      if ipReason p \<noteq> [] then
        if tag = [] then base @ runes '' ('' @ ipReason p @ runes '')''
        else base @ runes '' ('' @ tag @ runes '': '' @ ipReason p @ runes '')''
      else if tag = [] then base
      else base @ runes '' ('' @ tag @ runes '')'')"

definition activeSessionDisplayPrefix :: "rune list" where
  "activeSessionDisplayPrefix = runes ''Switch to session ''"

definition stoppedSessionDisplayPrefix :: "rune list" where
  "stoppedSessionDisplayPrefix = runes ''Resume session ''"

text \<open>The quotation marks are U+201C and U+201D, the ellipsis U+2026.\<close>

definition createSessionDestinationDisplay :: "createSessionDestinationPayload \<Rightarrow> rune list" where
  "createSessionDestinationDisplay d =
     (if cdName d = [] then
        if cdKind d = CreateSessionOnLocalRoute then runes ''Create session locally'' @ [0x2026]
        else runes ''Create session on '' @ cdDisplayOrigin d @ [0x2026]
      else
        let label = runes ''Create session '' @ [0x201C] @ cdName d @ [0x201D] in
        if cdKind d \<noteq> CreateSessionOnLocalRoute then label @ runes '' on '' @ cdDisplayOrigin d else label)"

fun sessionDisplayPrefix :: "result \<Rightarrow> rune list" where
  "sessionDisplayPrefix (StoppedSession _) = stoppedSessionDisplayPrefix"
| "sessionDisplayPrefix _ = activeSessionDisplayPrefix"

fun DisplayText :: "result \<Rightarrow> rune list" where
  "DisplayText (CommandResult c) = Code c"
| "DisplayText (RemoteSession p) = activeSessionDisplayPrefix @ remoteSessionDisplay (rpKey p)"
| "DisplayText (ImportedSession p) = activeSessionDisplayPrefix @ importedDisplay p"
| "DisplayText (RecentRoute p) = activeSessionDisplayPrefix @ rtLabel p"
| "DisplayText (CreateSessionDestination p) = createSessionDestinationDisplay p"
| "DisplayText (ActiveSession p) = sessionDisplayPrefix (ActiveSession p) @ spDisplay p"
| "DisplayText (StoppedSession p) = sessionDisplayPrefix (StoppedSession p) @ spDisplay p"

definition SearchText :: "result \<Rightarrow> rune list" where
  "SearchText r = DisplayText r"

text \<open>Identity, label and the offset of both in the displayed text.\<close>

fun searchTerms :: "result \<Rightarrow> (rune list \<times> rune list \<times> nat) option" where
  "searchTerms (CommandResult c) = Some (Code c, Code c, 0)"
| "searchTerms (ActiveSession p) = Some (SessionName (spTarget p), spDisplay p, length (sessionDisplayPrefix (ActiveSession p)))"
| "searchTerms (StoppedSession p) = Some (SessionName (spTarget p), spDisplay p, length (sessionDisplayPrefix (StoppedSession p)))"
| "searchTerms (RemoteSession p) = Some (rkName (rpKey p), remoteSessionDisplay (rpKey p), length activeSessionDisplayPrefix)"
| "searchTerms (ImportedSession p) = Some (ipName p, importedDisplay p, length activeSessionDisplayPrefix)"
| "searchTerms (RecentRoute p) = Some (rtName p, rtLabel p, length activeSessionDisplayPrefix)"
| "searchTerms (CreateSessionDestination p) = None"

fun resultCommand :: "result \<Rightarrow> command option" where
  "resultCommand (CommandResult c) = Some c"
| "resultCommand _ = None"

definition withCreateSessionName :: "rune list \<Rightarrow> result \<Rightarrow> result" where
  "withCreateSessionName name r =
     (case r of CreateSessionDestination p \<Rightarrow> CreateSessionDestination (p\<lparr>cdName := name\<rparr>) | _ \<Rightarrow> r)"

fun sameTarget :: "result \<Rightarrow> result \<Rightarrow> bool" where
  "sameTarget (CommandResult c) (CommandResult c') = (Slug c = Slug c')"
| "sameTarget (ActiveSession p) (ActiveSession p') = (spTarget p = spTarget p')"
| "sameTarget (StoppedSession p) (StoppedSession p') = (spTarget p = spTarget p')"
| "sameTarget (RemoteSession p) (RemoteSession p') = (rpKey p = rpKey p' \<and> rpTarget p = rpTarget p')"
| "sameTarget (ImportedSession p) (ImportedSession p') = (ipSourceKey p = ipSourceKey p' \<and> ipEntryKey p = ipEntryKey p')"
| "sameTarget (RecentRoute p) (RecentRoute p') = (rtAction p = rtAction p')"
| "sameTarget (CreateSessionDestination p) (CreateSessionDestination p') =
     (cdKind p = cdKind p' \<and> cdEndpoint p = cdEndpoint p' \<and> cdRoute p = cdRoute p' \<and> cdSnapshotGen p = cdSnapshotGen p')"
| "sameTarget _ _ = False"

section \<open>Scoring\<close>

record match =
  mResult :: result
  mPositions :: "nat list"
  mRank :: int
  mSpan :: int
  mFirst :: nat
  mOrder :: nat
  mSearch :: "rune list"

record fieldScore =
  fsPositions :: "nat list"
  fsRank :: int
  fsSpan :: int
  fsFirst :: nat

definition newMatch :: "caseTables \<Rightarrow> result \<Rightarrow> nat \<Rightarrow> match" where
  "newMatch uc r order =
     \<lparr>mResult = r, mPositions = [], mRank = 0, mSpan = 0, mFirst = 0, mOrder = order, mSearch = ToLower uc (SearchText r)\<rparr>"

definition scoreField ::
    "caseTables \<Rightarrow> rune list \<Rightarrow> rune list \<Rightarrow> rune list \<Rightarrow> nat \<Rightarrow> int \<Rightarrow> int \<Rightarrow> int \<Rightarrow> fieldScore option" where
  "scoreField uc str needle needleRunes displayOffset exactRank prefixRank subsequenceRank =
     (case Match (ToLower uc str) needle needleRunes of
        None \<Rightarrow> None
      | Some m \<Rightarrow> Some
          \<lparr>fsPositions = map (\<lambda>p. p + displayOffset) (Positions m),
           fsRank = (case Kind m of Exact \<Rightarrow> exactRank | Prefix \<Rightarrow> prefixRank | Subsequence \<Rightarrow> subsequenceRank),
           fsSpan = Span m, fsFirst = First m\<rparr>)"

text \<open>A \<^verbatim>\<open>fuzzy.Score\<close> literal with span and first position only.\<close>

definition bareScore :: "int \<Rightarrow> nat \<Rightarrow> score" where
  "bareScore sp first = \<lparr>Kind = Exact, Positions = [], Span = sp, First = first\<rparr>"

definition betterThan :: "fieldScore \<Rightarrow> fieldScore \<Rightarrow> bool" where
  "betterThan s other = Less (fsRank s) (bareScore (fsSpan s) (fsFirst s)) (fsRank other) (bareScore (fsSpan other) (fsFirst other))"

definition applyScore :: "fieldScore \<Rightarrow> match \<Rightarrow> match" where
  "applyScore s m = m\<lparr>mPositions := fsPositions s, mRank := fsRank s, mSpan := fsSpan s, mFirst := fsFirst s\<rparr>"

text \<open>The better of the scores of identity and label.\<close>

definition scoreTerms :: "caseTables \<Rightarrow> result \<Rightarrow> rune list \<Rightarrow> rune list \<Rightarrow> fieldScore option" where
  "scoreTerms uc r needle needleRunes =
     (case searchTerms r of
        None \<Rightarrow> None
      | Some (identity, label, offset) \<Rightarrow>
          let exactRank = (if resultKind r = 0 then 0 else 1);
              best = scoreField uc identity needle needleRunes offset exactRank 2 3
          in if label = identity then best
             else (case scoreField uc label needle needleRunes offset exactRank 2 3 of
                 None \<Rightarrow> best
               | Some candidate \<Rightarrow>
                   (case best of
                      None \<Rightarrow> Some candidate
                    | Some b \<Rightarrow> if betterThan candidate b then Some candidate else best)))"

definition scoreResult :: "caseTables \<Rightarrow> result \<Rightarrow> rune list \<Rightarrow> rune list \<Rightarrow> nat \<Rightarrow> match option" where
  "scoreResult uc r needle needleRunes order =
     (let m = newMatch uc r order in
      case scoreTerms uc r needle needleRunes of
        Some best \<Rightarrow> Some (applyScore best m)
      | None \<Rightarrow>
        (case scoreField uc (mSearch m) needle needleRunes 0 4 4 4 of
           Some fallback \<Rightarrow> Some (applyScore fallback m)
         | None \<Rightarrow>
           (case resultCommand r of
              None \<Rightarrow> None
            | Some cmd \<Rightarrow>
              (case Match (ToLower uc (Desc cmd)) needle needleRunes of
                 None \<Rightarrow> None
               | Some matched \<Rightarrow> Some (m\<lparr>mRank := 5, mSpan := Span matched, mFirst := First matched\<rparr>)))))"

text \<open>The comparison of the stable sort.\<close>

definition matchLess :: "match \<Rightarrow> match \<Rightarrow> bool" where
  "matchLess a b =
     (let aScore = bareScore (mSpan a) (mFirst a); bScore = bareScore (mSpan b) (mFirst b) in
      if Less (mRank a) aScore (mRank b) bScore then True
      else if Less (mRank b) bScore (mRank a) aScore then False
      else if resultKind (mResult a) \<noteq> resultKind (mResult b) then resultKind (mResult a) < resultKind (mResult b)
      else if mSearch a \<noteq> mSearch b then mSearch a < mSearch b
      else mOrder a < mOrder b)"

definition scoredResults :: "caseTables \<Rightarrow> result list \<Rightarrow> rune list \<Rightarrow> match list" where
  "scoredResults uc results needle =
     List.map_filter (\<lambda>(i, r). scoreResult uc r needle needle i) (enumerate 0 results)"

definition Fuzzy :: "caseTables \<Rightarrow> result list \<Rightarrow> rune list \<Rightarrow> match list" where
  "Fuzzy uc results query =
     (let needle = ToLower uc query in
      if query = [] then map (\<lambda>(i, r). newMatch uc r i) (enumerate 0 results)
      else stable_sort_by matchLess (scoredResults uc results needle))"

section \<open>Typed commands\<close>

record action =
  aCommand :: command
  aArgs :: "rune list list"

text \<open>The first row of a command the condition accepts.\<close>

fun findCommand :: "(command \<Rightarrow> bool) \<Rightarrow> result list \<Rightarrow> (result \<times> command) option" where
  "findCommand P [] = None"
| "findCommand P (r # rs) =
     (case resultCommand r of
        Some c \<Rightarrow> if P c then Some (r, c) else findCommand P rs
      | None \<Rightarrow> findCommand P rs)"

definition ParseAction :: "caseTables \<Rightarrow> result list \<Rightarrow> rune list \<Rightarrow> action option" where
  "ParseAction uc results input =
     (case Fields input of
        [] \<Rightarrow> None
      | token # args \<Rightarrow>
        (case findCommand (\<lambda>c. EqualFold uc token (Code c)) results of
           None \<Rightarrow> None
         | Some (_, cmd) \<Rightarrow>
             (case Arguments cmd of
                ArgumentsNone \<Rightarrow> if args \<noteq> [] then None else Some \<lparr>aCommand = cmd, aArgs = args\<rparr>
              | ArgumentsRequired \<Rightarrow> if args = [] then None else Some \<lparr>aCommand = cmd, aArgs = args\<rparr>
              | ArgumentsOptional \<Rightarrow> Some \<lparr>aCommand = cmd, aArgs = args\<rparr>)))"

text \<open>
  \<^verbatim>\<open>strings.Fields\<close> never returns nil, so the first half of the code's guard never fires
  and is not a condition of the model.
\<close>

definition ExactCommandResult :: "caseTables \<Rightarrow> result list \<Rightarrow> rune list \<Rightarrow> result option" where
  "ExactCommandResult uc results input =
     (if \<exists>r \<in> set (TrimSpace input). r \<in> {32, 9, 10, 13} then None
      else map_option fst (findCommand (\<lambda>c. EqualFold uc (TrimSpace input) (Code c)) results))"

definition argumentResult :: "caseTables \<Rightarrow> result list \<Rightarrow> rune list \<Rightarrow> (result \<times> command) option" where
  "argumentResult uc results input =
     (case Fields input of
        [] \<Rightarrow> None
      | token # _ \<Rightarrow> findCommand (\<lambda>c. Arguments c \<noteq> ArgumentsNone \<and> EqualFold uc token (Code c)) results)"

definition ArgumentCommand :: "caseTables \<Rightarrow> result list \<Rightarrow> rune list \<Rightarrow> command option" where
  "ArgumentCommand uc results input = map_option snd (argumentResult uc results input)"

section \<open>Which rows match\<close>

lemma ToLower_length [simp]: "length (ToLower uc s) = length s"
  by (simp add: ToLower_def)

lemma scoreField_None: "scoreField uc str needle needle off a b c = None \<longleftrightarrow> \<not> subseq needle (ToLower uc str)"
proof -
  have "Match (ToLower uc str) needle needle = None \<longleftrightarrow> \<not> subseq needle (ToLower uc str)"
    using Match_embeds(1) Match_complete embeds_subseq by (metis option.exhaust option.distinct(1))
  then show ?thesis by (auto simp: scoreField_def split: option.split)
qed

lemma scoreField_embeds:
  assumes "scoreField uc str needle needle off a b c = Some s"
  shows "\<exists>ps. fsPositions s = map (\<lambda>p. p + off) ps \<and> embeds ps needle (ToLower uc str)"
  using assms Match_embeds(1) by (auto simp: scoreField_def split: option.splits)

lemma scoreField_Some: "scoreField uc str needle needle off a b c = Some s \<Longrightarrow> subseq needle (ToLower uc str)"
  using scoreField_None [of uc str needle off a b c] by simp

text \<open>What a row can be found by.\<close>

definition searchable :: "caseTables \<Rightarrow> rune list \<Rightarrow> result \<Rightarrow> bool" where
  "searchable uc needle r \<longleftrightarrow>
     (case searchTerms r of Some (identity, label, _) \<Rightarrow> subseq needle (ToLower uc identity) \<or> subseq needle (ToLower uc label) | None \<Rightarrow> False) \<or>
     subseq needle (ToLower uc (ToLower uc (SearchText r))) \<or>
     (case resultCommand r of Some c \<Rightarrow> subseq needle (ToLower uc (Desc c)) | None \<Rightarrow> False)"

lemma scoreTerms_None:
  "scoreTerms uc r needle needle = None \<longleftrightarrow>
     (case searchTerms r of Some (identity, label, _) \<Rightarrow> \<not> subseq needle (ToLower uc identity) \<and> \<not> subseq needle (ToLower uc label) | None \<Rightarrow> True)"
  by (auto simp: scoreTerms_def Let_def scoreField_None split: option.splits prod.splits dest: scoreField_Some)

lemma scoreResult_None: "scoreResult uc r needle needle i = None \<longleftrightarrow> \<not> searchable uc needle r"
proof -
  have d: "Match (ToLower uc str) needle needle = None \<longleftrightarrow> \<not> subseq needle (ToLower uc str)" for str
    using Match_embeds(1) Match_complete embeds_subseq by (metis option.exhaust option.distinct(1))
  have "scoreResult uc r needle needle i = None \<longleftrightarrow>
      scoreTerms uc r needle needle = None \<and> scoreField uc (mSearch (newMatch uc r i)) needle needle 0 4 4 4 = None \<and>
      (case resultCommand r of Some c \<Rightarrow> Match (ToLower uc (Desc c)) needle needle = None | None \<Rightarrow> True)"
    by (auto simp: scoreResult_def Let_def split: option.split)
  then show ?thesis
    by (simp add: scoreTerms_None scoreField_None d searchable_def newMatch_def split: option.split)
qed

lemma scoreResult_result: "scoreResult uc r needle needle' i = Some m \<Longrightarrow> mResult m = r \<and> mOrder m = i"
  by (auto simp: scoreResult_def Let_def applyScore_def newMatch_def split: option.splits)

lemma set_map_filter: "set (List.map_filter f xs) = {y. \<exists>x \<in> set xs. f x = Some y}"
  by (force simp: List.map_filter_def)

lemma set_scoredResults:
  "m \<in> set (scoredResults uc results needle) \<longleftrightarrow>
     (\<exists>i < length results. scoreResult uc (results ! i) needle needle i = Some m)"
proof -
  have "(\<exists>x \<in> set (enumerate 0 results). P x) \<longleftrightarrow> (\<exists>i < length results. P (i, results ! i))" for P
    by (auto simp: in_set_enumerate_eq Bex_def)
  then show ?thesis by (simp add: scoredResults_def set_map_filter)
qed

section \<open>The order of the rows\<close>

definition matchKey :: "match \<Rightarrow> int \<times> int \<times> nat \<times> nat \<times> rune list \<times> nat" where
  "matchKey m = (mRank m, mSpan m, mFirst m, resultKind (mResult m), mSearch m, mOrder m)"

lemma matchLess_key: "matchLess a b \<longleftrightarrow> matchKey a < matchKey b"
  by (auto simp: matchLess_def Let_def Less_lex bareScore_def matchKey_def)

lemma matchLess_weak: "weak_order_on S matchLess"
  by (auto simp: weak_order_on_def matchLess_key)

lemma Fuzzy_sorted: "query \<noteq> [] \<Longrightarrow> sorted (map matchKey (Fuzzy uc results query))"
proof -
  assume "query \<noteq> []"
  moreover have "sorted_wrt (\<lambda>a b. \<not> matchLess b a) (stable_sort_by matchLess xs)" for xs
    using matchLess_weak by (rule sorted_stable_sort_by)
  ultimately show ?thesis by (simp add: Fuzzy_def Let_def matchLess_key sorted_map not_less)
qed

lemma set_Fuzzy: "query \<noteq> [] \<Longrightarrow> set (Fuzzy uc results query) = set (scoredResults uc results (ToLower uc query))"
  by (simp add: Fuzzy_def Let_def)

section \<open>Highlights\<close>

text \<open>Each kind of row shows its label behind its prefix, and the label starts with the identity.\<close>

definition labelled :: "result \<Rightarrow> bool" where
  "labelled r \<longleftrightarrow> (case r of
      RecentRoute p \<Rightarrow> prefix (rtName p) (rtLabel p)
    | ActiveSession p \<Rightarrow> prefix (SessionName (spTarget p)) (spDisplay p)
    | StoppedSession p \<Rightarrow> prefix (SessionName (spTarget p)) (spDisplay p)
    | _ \<Rightarrow> True)"

lemma prefix_SessionDisplay: "prefix name (SessionDisplay name origin)"
  by (simp add: SessionDisplay_def)

lemma prefix_importedDisplay: "prefix (ipName p) (importedDisplay p)"
  using prefix_SessionDisplay [of "ipName p" "ipDisplayOrigin p"]
  by (auto simp: importedDisplay_def qualifiedName_def Let_def intro: prefix_prefix)

lemma new_session_labelled:
  "labelled (NewActiveSessionResult target createdAt origin)" "labelled (NewStoppedSessionResult target createdAt origin)"
  by (simp_all add: labelled_def NewActiveSessionResult_def NewStoppedSessionResult_def newSessionPayload_def prefix_SessionDisplay)

lemma searchTerms_shown:
  assumes "labelled r" "searchTerms r = Some (identity, label, off)"
  shows "prefix identity label \<and> (\<exists>before. length before = off \<and> DisplayText r = before @ label)"
  using assms prefix_SessionDisplay prefix_importedDisplay
  by (cases r) (auto simp: labelled_def remoteSessionDisplay_def Let_def)

lemma embeds_offset:
  assumes "embeds ps needle (ToLower uc part)" "prefix part label" "shown = before @ label"
  shows "embeds (map (\<lambda>p. p + length before) ps) needle (ToLower uc shown)"
proof -
  obtain more' where l: "label = part @ more'" using assms(2) by (auto simp: prefix_def)
  have "p < length part \<Longrightarrow> ToLower uc shown ! (p + length before) = ToLower uc part ! p" for p
    by (simp add: assms(3) l ToLower_def nth_append)
  then show ?thesis using assms(1) by (auto simp: embeds_def sorted_wrt_map comp_def assms(3) l intro!: map_cong)
qed

lemma scoreTerms_cases:
  assumes "scoreTerms uc r needle needle = Some s"
  shows "\<exists>identity label off str. searchTerms r = Some (identity, label, off) \<and> (str = identity \<or> str = label) \<and>
    (\<exists>rank. scoreField uc str needle needle off rank 2 3 = Some s)"
proof -
  obtain identity label off where t: "searchTerms r = Some (identity, label, off)"
    using assms by (auto simp: scoreTerms_def split: option.splits)
  have "(\<exists>rank. scoreField uc identity needle needle off rank 2 3 = Some s) \<or> (\<exists>rank. scoreField uc label needle needle off rank 2 3 = Some s)"
    using assms by (auto simp: scoreTerms_def t Let_def split: option.splits if_splits)
  then show ?thesis using t by blast
qed

lemma scoreTerms_highlight:
  assumes "labelled r" "scoreTerms uc r needle needle = Some s"
  shows "embeds (fsPositions s) needle (ToLower uc (DisplayText r))"
proof -
  obtain identity label off str rank where t: "searchTerms r = Some (identity, label, off)" "str = identity \<or> str = label"
    "scoreField uc str needle needle off rank 2 3 = Some s"
    using scoreTerms_cases [OF assms(2)] by blast
  obtain ps where ps: "fsPositions s = map (\<lambda>p. p + off) ps" "embeds ps needle (ToLower uc str)"
    using scoreField_embeds [OF t(3)] by blast
  obtain before where b: "length before = off" "DisplayText r = before @ label" "prefix str label"
    using searchTerms_shown [OF assms(1) t(1)] t(2) by auto
  show ?thesis using embeds_offset [OF ps(2) b(3,2)] ps(1) b(1) by simp
qed

text \<open>The marked runes spell the query in the displayed text, except for a match by description, which marks none.\<close>

lemma scoreResult_highlight:
  assumes "labelled r" "\<And>c. lowerRune uc (lowerRune uc c) = lowerRune uc c" "scoreResult uc r needle needle i = Some m"
  shows "embeds (mPositions m) needle (ToLower uc (DisplayText r)) \<or> mPositions m = [] \<and> mRank m = 5"
proof (cases "scoreTerms uc r needle needle")
  case (Some s)
  then have "mPositions m = fsPositions s" using assms(3) by (auto simp: scoreResult_def Let_def applyScore_def)
  then show ?thesis using scoreTerms_highlight [OF assms(1) Some] by simp
next
  case None
  have idem: "ToLower uc (mSearch (newMatch uc r i)) = ToLower uc (DisplayText r)"
    using assms(2) by (simp add: newMatch_def SearchText_def ToLower_def)
  show ?thesis
  proof (cases "scoreField uc (mSearch (newMatch uc r i)) needle needle 0 4 4 4")
    case (Some s)
    then have "mPositions m = fsPositions s" using assms(3) None by (auto simp: scoreResult_def Let_def applyScore_def)
    then show ?thesis using scoreField_embeds [OF Some] unfolding idem by auto
  next
    case none: None
    then show ?thesis using assms(3) None
      by (auto simp: scoreResult_def Let_def newMatch_def split: option.splits)
  qed
qed

section \<open>The exact command\<close>

text \<open>Rank zero is for a command whose code is the whole query.\<close>

lemma scoreField_rank:
  "scoreField uc str needle needle off a b c = Some s \<Longrightarrow> needle \<noteq> [] \<Longrightarrow>
     fsRank s = (if ToLower uc str = needle then a else if strict_prefix needle (ToLower uc str) then b else c)"
  using Match_embeds(3,4) [of "ToLower uc str" needle]
  by (auto simp: scoreField_def split: option.splits matchKind.splits)

lemma scoreResult_rank:
  assumes "scoreResult uc r needle needle i = Some m" "needle \<noteq> []"
  shows "0 \<le> mRank m \<and> (mRank m = 0 \<longleftrightarrow> (\<exists>c. r = CommandResult c \<and> ToLower uc (Code c) = needle))"
proof (cases r)
  case (CommandResult c)
  have t: "scoreTerms uc r needle needle = scoreField uc (Code c) needle needle 0 0 2 3"
    by (simp add: scoreTerms_def CommandResult Let_def)
  show ?thesis
  proof (cases "scoreField uc (Code c) needle needle 0 0 2 3")
    case (Some s)
    then have "mRank m = fsRank s" using assms(1) t by (auto simp: scoreResult_def Let_def applyScore_def)
    then show ?thesis using scoreField_rank [OF Some assms(2)] CommandResult by auto
  next
    case None
    then have "\<not> subseq needle (ToLower uc (Code c))" by (simp add: scoreField_None)
    then have "ToLower uc (Code c) \<noteq> needle" by auto
    moreover have "4 \<le> mRank m"
      using assms None t scoreField_rank [of uc _ needle 0 4 4 4]
      by (auto simp: scoreResult_def Let_def applyScore_def newMatch_def split: option.splits if_splits)
    ultimately show ?thesis using CommandResult by auto
  qed
next
  case other: (CreateSessionDestination p)
  have "4 \<le> mRank m" using assms scoreField_rank [of uc _ needle 0 4 4 4] other
    by (auto simp: scoreResult_def scoreTerms_def Let_def applyScore_def newMatch_def split: option.splits if_splits)
  then show ?thesis using other by auto
qed (use assms scoreField_rank [of uc _ needle _ 1 2 3] scoreField_rank [of uc _ needle 0 4 4 4] in
    \<open>auto simp: scoreResult_def scoreTerms_def Let_def applyScore_def newMatch_def split: option.splits if_splits\<close>)

lemma exact_command_hd:
  assumes "query \<noteq> []" "CommandResult c \<in> set results" "ToLower uc (Code c) = ToLower uc query"
  shows "\<exists>m ms c'. Fuzzy uc results query = m # ms \<and> mResult m = CommandResult c' \<and> ToLower uc (Code c') = ToLower uc query"
proof -
  let ?n = "ToLower uc query"
  have n: "?n \<noteq> []" using assms(1) by (simp add: ToLower_def)
  obtain i where i: "i < length results" "results ! i = CommandResult c" using assms(2) by (auto simp: in_set_conv_nth)
  have "searchable uc ?n (CommandResult c)" using assms(3) by (simp add: searchable_def)
  then obtain m0 where m0: "scoreResult uc (CommandResult c) ?n ?n i = Some m0" using scoreResult_None by blast
  have r0: "mRank m0 = 0" using scoreResult_rank [OF m0 n] assms(3) by auto
  have in0: "m0 \<in> set (Fuzzy uc results query)" using m0 i by (auto simp: set_Fuzzy [OF assms(1)] set_scoredResults)
  then obtain m ms where F: "Fuzzy uc results query = m # ms" by (cases "Fuzzy uc results query") auto
  have "matchKey m \<le> matchKey m0" using Fuzzy_sorted [OF assms(1), of uc results] in0 F by auto
  then have le: "mRank m \<le> 0" using r0 by (auto simp: matchKey_def less_eq_prod_def)
  have "m \<in> set (scoredResults uc results ?n)" using set_Fuzzy [OF assms(1), of uc results] F by auto
  then obtain j where j: "scoreResult uc (results ! j) ?n ?n j = Some m" by (auto simp: set_scoredResults)
  have "mRank m = 0" using scoreResult_rank [OF j n] le by auto
  then show ?thesis using scoreResult_rank [OF j n] scoreResult_result [OF j] F by auto
qed

section \<open>Properties\<close>


definition splitCommand :: command where
  "splitCommand = \<lparr>Slug = runes ''split-right'', Code = runes ''SPR'', Desc = runes ''Split the pane'', Arguments = ArgumentsNone\<rparr>"

definition workSession :: result where
  "workSession = NewActiveSessionResult \<lparr>LifecycleID = 1, SessionName = runes ''spare''\<rparr> 0 []"


text \<open>
  Typing the whole code of a command, in either case, puts that command on top, above every
  session whose name also matches.
\<close>

theorem exact_command_first:
  assumes "query \<noteq> []" "CommandResult c \<in> set results" "ToLower uc (Code c) = ToLower uc query"
  shows "\<exists>m ms c'. Fuzzy uc results query = m # ms \<and> mResult m = CommandResult c' \<and> ToLower uc (Code c') = ToLower uc query"
  by (rule exact_command_hd [OF assms])

theorem exact_command_first_witness:
  "\<exists>m ms c'. Fuzzy asciiCase [workSession, CommandResult splitCommand] (runes ''spr'') = m # ms \<and>
     mResult m = CommandResult c' \<and> ToLower asciiCase (Code c') = ToLower asciiCase (runes ''spr'')"
  by (rule exact_command_first [where c = splitCommand])
    (simp_all add: splitCommand_def runes_def ToLower_def asciiCase_def)

text \<open>
  The highlighted runes spell the query: for a row whose label starts with its name, the
  positions of a match are increasing indices of the displayed text at which the query's runes
  stand; a match by description highlights nothing.
\<close>

theorem highlights_spell_query:
  assumes "query \<noteq> []" "m \<in> set (Fuzzy uc results query)" "labelled (mResult m)"
    and "\<And>c. lowerRune uc (lowerRune uc c) = lowerRune uc c"
  shows "embeds (mPositions m) (ToLower uc query) (ToLower uc (DisplayText (mResult m))) \<or> mPositions m = []"
proof -
  let ?n = "ToLower uc query"
  obtain i where i: "scoreResult uc (results ! i) ?n ?n i = Some m"
    using assms(2) set_Fuzzy [OF assms(1), of uc results] by (auto simp: set_scoredResults)
  have "mResult m = results ! i" using scoreResult_result [OF i] by simp
  then show ?thesis using scoreResult_highlight [OF _ assms(4) i] assms(3) by auto
qed

theorem highlights_spell_query_witness:
  "\<exists>m \<in> set (Fuzzy asciiCase [workSession] (runes ''SPR'')).
     embeds (mPositions m) (runes ''spr'') (ToLower asciiCase (DisplayText workSession)) \<or> mPositions m = []"
proof -
  have "searchable asciiCase (ToLower asciiCase (runes ''SPR'')) workSession" by code_simp
  then obtain m where m: "m \<in> set (Fuzzy asciiCase [workSession] (runes ''SPR''))" "mResult m = workSession"
    using scoreResult_None [of asciiCase workSession "ToLower asciiCase (runes ''SPR'')" 0] scoreResult_result
    by (force simp: set_Fuzzy runes_def set_scoredResults)
  have "embeds (mPositions m) (ToLower asciiCase (runes ''SPR'')) (ToLower asciiCase (DisplayText (mResult m))) \<or> mPositions m = []"
    by (rule highlights_spell_query [OF _ m(1)])
      (simp_all add: m(2) new_session_labelled workSession_def runes_def asciiCase_def)
  moreover have "ToLower asciiCase (runes ''SPR'') = runes ''spr''" by code_simp
  ultimately show ?thesis using m by auto
qed

end
