(* ===== verification/Palette_Model.thy ===== *)
theory Palette_Model
  imports Palette_Fuzzy
begin

text \<open>
  The palette's list state: \<^verbatim>\<open>internal/usecase/palette/model.go\<close>, with the input line of
  \<^verbatim>\<open>internal/usecase/ui/textinput.go\<close> and the session-name rule of
  \<^verbatim>\<open>internal/domain/session_name.go\<close>. Drawing is left out but for the scroll position,
  which the code adjusts while it draws.
\<close>

section \<open>Input line and names\<close>

type_synonym textInput = "rune list"

definition InsertRune :: "rune \<Rightarrow> textInput \<Rightarrow> textInput" where
  "InsertRune r t = t @ [r]"

definition BackspaceRune :: "textInput \<Rightarrow> textInput" where
  "BackspaceRune t = (if t = [] then t else butlast t)"

text \<open>\<^verbatim>\<open>[A-Za-z0-9][A-Za-z0-9._-]{0,63}\<close>, the whole text.\<close>

definition nameStart :: "rune \<Rightarrow> bool" where
  "nameStart r = (65 \<le> r \<and> r \<le> 90 \<or> 97 \<le> r \<and> r \<le> 122 \<or> 48 \<le> r \<and> r \<le> 57)"

definition nameRune :: "rune \<Rightarrow> bool" where
  "nameRune r = (nameStart r \<or> r = 46 \<or> r = 95 \<or> r = 45)"

fun ValidateSessionName :: "rune list \<Rightarrow> bool" where
  "ValidateSessionName [] = False"
| "ValidateSessionName (r # rs) = (nameStart r \<and> list_all nameRune rs \<and> length rs \<le> 63)"

section \<open>State\<close>

record model =
  results :: "result list"
  argumentResults :: "result list"
  createDestinations :: "result list"
  input :: textInput
  matches :: "match list"
  selected :: int
  scroll :: int
  destinationMode :: bool
  selectionMade :: bool

definition splitResults :: "result list \<Rightarrow> result list \<times> result list" where
  "splitResults rs = (filter (\<lambda>r. resultKind r \<noteq> 5) rs, filter (\<lambda>r. resultKind r = 5) rs)"

definition requiredArgumentResults :: "result list \<Rightarrow> result list" where
  "requiredArgumentResults rs =
     filter (\<lambda>r. case resultCommand r of Some c \<Rightarrow> Arguments c \<noteq> ArgumentsNone | None \<Rightarrow> False) rs"

text \<open>The method \<^verbatim>\<open>clamp\<close> of the model.\<close>

definition clampModel :: "model \<Rightarrow> model" where
  "clampModel m =
     (if matches m = [] then m\<lparr>selected := -1, scroll := 0\<rparr>
      else
        let m = (if selected m < 0 then m\<lparr>selected := 0\<rparr> else m);
            m = (if int (length (matches m)) \<le> selected m then m\<lparr>selected := int (length (matches m)) - 1\<rparr> else m);
            m = (if scroll m < 0 then m\<lparr>scroll := 0\<rparr> else m)
        in if selected m < scroll m then m\<lparr>scroll := selected m\<rparr> else m)"

definition codeIs :: "rune list \<Rightarrow> match \<Rightarrow> bool" where
  "codeIs code mt = (case resultCommand (mResult mt) of Some c \<Rightarrow> Code c = code | None \<Rightarrow> False)"

text \<open>A result that is no command has the empty code of a zero command.\<close>

definition prependMatch :: "caseTables \<Rightarrow> result \<Rightarrow> model \<Rightarrow> model" where
  "prependMatch uc r m =
     (let code = (case resultCommand r of Some c \<Rightarrow> Code c | None \<Rightarrow> []) in
      case first_index (codeIs code) (matches m) of
        Some i \<Rightarrow> m\<lparr>matches := (matches m ! i) # remove_at i (matches m)\<rparr>
      | None \<Rightarrow> m\<lparr>matches := newMatch uc r 0 # matches m\<rparr>)"

definition completionParts :: "rune list \<Rightarrow> rune list \<times> rune list \<times> bool" where
  "completionParts query =
     (let token = takeWhile (\<lambda>r. \<not> IsSpace r) query; rest = dropWhile (\<lambda>r. \<not> IsSpace r) query in
      if rest = [] then (query, [], False) else (token, dropWhile IsSpace rest, True))"

definition cnsDestinationMatches :: "caseTables \<Rightarrow> rune list \<Rightarrow> model \<Rightarrow> match list option" where
  "cnsDestinationMatches uc query m =
     (if length (createDestinations m) < 2 then None
      else
        let fields = Fields query in
        if fields = [] \<or> 2 < length fields then None
        else (case ArgumentCommand uc (results m) query of
            None \<Rightarrow> None
          | Some cmd \<Rightarrow>
              if Slug cmd \<noteq> runes ''new-session'' then None
              else if length fields = 2 \<and> \<not> ValidateSessionName (fields ! 1) then None
              else
                let name = (if length fields = 2 then fields ! 1 else []) in
                Some (map (\<lambda>d. newMatch uc (withCreateSessionName name d) 0) (createDestinations m))))"

text \<open>The rows of the ordinary mode.\<close>

definition ordinaryMatches :: "caseTables \<Rightarrow> model \<Rightarrow> model" where
  "ordinaryMatches uc m0 =
     (let query = input m0; m = m0\<lparr>matches := Fuzzy uc (results m0) query\<rparr> in
      case ExactCommandResult uc (results m) query of
        Some r \<Rightarrow> prependMatch uc r m
      | None \<Rightarrow>
        (case argumentResult uc (results m) query of
           Some (r, _) \<Rightarrow> prependMatch uc r m
         | None \<Rightarrow>
           if matches m = [] then
             (case completionParts query of (token, _, hasSeparator) \<Rightarrow>
                if hasSeparator then m\<lparr>matches := Fuzzy uc (argumentResults m) token\<rparr> else m)
           else m))"

definition refresh :: "caseTables \<Rightarrow> model \<Rightarrow> model" where
  "refresh uc m =
     (case cnsDestinationMatches uc (input m) m of
        Some destinations \<Rightarrow>
          clampModel (m\<lparr>destinationMode := True,
            selectionMade := (if destinationMode m then selectionMade m else False), matches := destinations\<rparr>)
      | None \<Rightarrow> clampModel (ordinaryMatches uc (m\<lparr>destinationMode := False, selectionMade := True\<rparr>)))"

section \<open>Operations\<close>

definition NewModel :: "caseTables \<Rightarrow> result list \<Rightarrow> model" where
  "NewModel uc rs =
     (let (ordinary, destinations) = splitResults rs in
      refresh uc \<lparr>results = ordinary, argumentResults = requiredArgumentResults ordinary, createDestinations = destinations,
        input = [], matches = [], selected = 0, scroll = 0, destinationMode = False, selectionMade = False\<rparr>)"

definition Selected :: "model \<Rightarrow> result option" where
  "Selected m =
     (if \<not> selectionMade m \<or> selected m < 0 \<or> int (length (matches m)) \<le> selected m then None
      else Some (mResult (matches m ! nat (selected m))))"

definition restart :: "model \<Rightarrow> model" where
  "restart m = m\<lparr>selected := 0, scroll := 0, selectionMade := False\<rparr>"

definition Insert :: "caseTables \<Rightarrow> rune \<Rightarrow> model \<Rightarrow> model" where
  "Insert uc r m = refresh uc (restart (m\<lparr>input := InsertRune r (input m)\<rparr>))"

definition Backspace :: "caseTables \<Rightarrow> model \<Rightarrow> model" where
  "Backspace uc m = (if input m = [] then m else refresh uc (restart (m\<lparr>input := BackspaceRune (input m)\<rparr>)))"

definition Up :: "model \<Rightarrow> model" where
  "Up m =
     (if matches m = [] then m
      else if \<not> selectionMade m then clampModel (m\<lparr>selected := int (length (matches m)) - 1, selectionMade := True\<rparr>)
      else if 0 < selected m then clampModel (m\<lparr>selected := selected m - 1\<rparr>)
      else m)"

definition Down :: "model \<Rightarrow> model" where
  "Down m =
     (if matches m = [] then m
      else if \<not> selectionMade m then clampModel (m\<lparr>selected := 0, selectionMade := True\<rparr>)
      else if selected m + 1 < int (length (matches m)) then clampModel (m\<lparr>selected := selected m + 1\<rparr>)
      else m)"

text \<open>The text a completion would set, or nothing when there is none.\<close>

definition completion :: "command \<Rightarrow> rune list \<Rightarrow> rune list option" where
  "completion cmd query0 =
     (if Arguments cmd = ArgumentsNone then if Code cmd = query0 then None else Some (Code cmd)
      else
        let query = TrimLeft query0 in
        case completionParts query of (token, args, hasSeparator) \<Rightarrow>
          if token = Code cmd \<and> hasSeparator \<and> args \<noteq> [] then None
          else let completed = Code cmd @ [32] @ args in if completed = query then None else Some completed)"

definition CompleteSelected :: "caseTables \<Rightarrow> model \<Rightarrow> model \<times> bool" where
  "CompleteSelected uc m =
     (case Selected m of
        None \<Rightarrow> (m, False)
      | Some r \<Rightarrow>
        (case resultCommand r of
           None \<Rightarrow> (m, False)
         | Some cmd \<Rightarrow>
           (case completion cmd (input m) of
              None \<Rightarrow> (m, False)
            | Some completed \<Rightarrow> (refresh uc (restart (m\<lparr>input := completed\<rparr>)), True))))"

definition ReplaceResults :: "caseTables \<Rightarrow> result list \<Rightarrow> model \<Rightarrow> model" where
  "ReplaceResults uc rs m0 =
     (let wasDestinationMode = destinationMode m0; wasSelectionMade = selectionMade m0;
          (ordinary, destinations) = splitResults rs;
          m = refresh uc (m0\<lparr>results := ordinary, createDestinations := destinations,
                argumentResults := requiredArgumentResults ordinary\<rparr>)
      in case Selected m0 of
           None \<Rightarrow>
             if destinationMode m \<or> wasDestinationMode \<and> \<not> wasSelectionMade then m\<lparr>selectionMade := False\<rparr> else m
         | Some sel \<Rightarrow>
             (case first_index (\<lambda>mt. sameTarget (mResult mt) sel) (matches m) of
                Some i \<Rightarrow> clampModel (m\<lparr>selected := int i, selectionMade := True\<rparr>)
              | None \<Rightarrow>
                if resultKind sel = 5 \<or> destinationMode m
                then clampModel (m\<lparr>selectionMade := False, selected := 0, scroll := 0\<rparr>) else m))"

text \<open>The scroll position after drawing a frame of the given size, and the rows drawn.\<close>

definition renderScroll :: "int \<Rightarrow> int \<Rightarrow> model \<Rightarrow> model" where
  "renderScroll cols rows m =
     (let visible = rows - 1 in
      if cols \<le> 0 \<or> visible \<le> 0 \<or> matches m = [] then m
      else
        let m = (if selected m < scroll m then m\<lparr>scroll := selected m\<rparr> else m)
        in if scroll m + visible \<le> selected m then m\<lparr>scroll := selected m - visible + 1\<rparr> else m)"

definition renderedRows :: "int \<Rightarrow> int \<Rightarrow> model \<Rightarrow> int list" where
  "renderedRows cols rows m0 =
     (let m = renderScroll cols rows m0; visible = rows - 1 in
      if cols \<le> 0 \<or> visible \<le> 0 then []
      else filter (\<lambda>idx. idx < int (length (matches m))) (map (\<lambda>y. scroll m + int y) [0..<nat visible]))"

section \<open>Well-formed selection\<close>

definition model_ok :: "model \<Rightarrow> bool" where
  "model_ok m \<longleftrightarrow>
     (if matches m = [] then selected m = -1 \<and> scroll m = 0
      else 0 \<le> selected m \<and> selected m < int (length (matches m)) \<and> 0 \<le> scroll m \<and> scroll m \<le> selected m)"

lemma clampModel_ok: "model_ok (clampModel m)"
  by (auto simp: clampModel_def model_ok_def Let_def Suc_le_eq)

lemma clampModel_fields [simp]:
  "matches (clampModel m) = matches m" "input (clampModel m) = input m" "results (clampModel m) = results m"
  "selectionMade (clampModel m) = selectionMade m" "destinationMode (clampModel m) = destinationMode m"
  "createDestinations (clampModel m) = createDestinations m" "argumentResults (clampModel m) = argumentResults m"
  by (simp_all add: clampModel_def Let_def)

lemma clampModel_id: "0 \<le> selected m \<Longrightarrow> selected m < int (length (matches m)) \<Longrightarrow> selected (clampModel m) = selected m"
  by (auto simp: clampModel_def Let_def)

lemma refresh_ok: "model_ok (refresh uc m)"
  by (simp add: refresh_def clampModel_ok split: option.split)

lemma Selected_ok: "model_ok m \<Longrightarrow> Selected m \<noteq> None \<longleftrightarrow> selectionMade m \<and> matches m \<noteq> []"
  by (auto simp: model_ok_def Selected_def split: if_splits)

lemma renderScroll_ok: "model_ok m \<Longrightarrow> model_ok (renderScroll cols rows m)"
  by (auto simp: model_ok_def renderScroll_def Let_def)

lemma ReplaceResults_ok: "model_ok (ReplaceResults uc rs m)"
proof -
  have keep: "model_ok m \<Longrightarrow> model_ok (m\<lparr>selectionMade := b\<rparr>)" for m b by (simp add: model_ok_def)
  show ?thesis
    by (auto simp: ReplaceResults_def Let_def clampModel_ok refresh_ok keep split: option.split prod.split)
qed

inductive reachable_palette :: "caseTables \<Rightarrow> model \<Rightarrow> bool" for uc where
  palette_new: "reachable_palette uc (NewModel uc rs)"
| palette_insert: "reachable_palette uc m \<Longrightarrow> reachable_palette uc (Insert uc r m)"
| palette_backspace: "reachable_palette uc m \<Longrightarrow> reachable_palette uc (Backspace uc m)"
| palette_up: "reachable_palette uc m \<Longrightarrow> reachable_palette uc (Up m)"
| palette_down: "reachable_palette uc m \<Longrightarrow> reachable_palette uc (Down m)"
| palette_complete: "reachable_palette uc m \<Longrightarrow> reachable_palette uc (fst (CompleteSelected uc m))"
| palette_replace: "reachable_palette uc m \<Longrightarrow> reachable_palette uc (ReplaceResults uc rs m)"
| palette_render: "reachable_palette uc m \<Longrightarrow> reachable_palette uc (renderScroll cols rows m)"

lemma reachable_palette_ok: "reachable_palette uc m \<Longrightarrow> model_ok m"
proof (induction rule: reachable_palette.induct)
  case (palette_new rs)
  show ?case by (simp add: NewModel_def refresh_ok split: prod.split)
next
  case (palette_complete m)
  then show ?case by (simp add: CompleteSelected_def refresh_ok split: option.split)
qed (auto simp: Insert_def Backspace_def Up_def Down_def refresh_ok clampModel_ok ReplaceResults_ok renderScroll_ok)

text \<open>The selected row is always among those drawn.\<close>

lemma selected_drawn:
  assumes "model_ok m" "0 < cols" "1 < rows" "matches m \<noteq> []"
  shows "selected m \<in> set (renderedRows cols rows m)"
proof -
  define r where "r = renderScroll cols rows m"
  have r: "selected r = selected m" "matches r = matches m" by (simp_all add: r_def renderScroll_def Let_def)
  have s: "scroll r \<le> selected m" "selected m < scroll r + (rows - 1)"
    using assms by (auto simp: r_def renderScroll_def Let_def model_ok_def)
  have "selected m = scroll r + int (nat (selected m - scroll r))" "nat (selected m - scroll r) < nat (rows - 1)" using s by auto
  then have "selected m \<in> set (map (\<lambda>y. scroll r + int y) [0..<nat (rows - 1)])"
    by (auto simp: image_iff intro!: bexI [of _ "nat (selected m - scroll r)"])
  then show ?thesis using assms r by (simp add: renderedRows_def r_def [symmetric] Let_def model_ok_def)
qed

section \<open>What is selected\<close>

lemma findCommand_Some:
  "findCommand P rs = Some (r, c) \<Longrightarrow> r \<in> set rs \<and> resultCommand r = Some c \<and> P c"
  by (induction rs) (auto split: option.splits if_splits)

lemma findCommand_None: "findCommand P rs = None \<longleftrightarrow> (\<forall>r \<in> set rs. \<forall>c. resultCommand r = Some c \<longrightarrow> \<not> P c)"
  by (induction rs) (auto split: option.splits)

lemma prependMatch_hd:
  assumes "resultCommand r = Some c"
  shows "\<exists>mt ms. matches (prependMatch uc r m) = mt # ms \<and> codeIs (Code c) mt"
  using assms first_index_Some [of "codeIs (Code c)" "matches m"]
  by (auto simp: prependMatch_def codeIs_def newMatch_def split: option.splits)

lemma prependMatch_fields [simp]:
  "selected (prependMatch uc r m) = selected m" "selectionMade (prependMatch uc r m) = selectionMade m"
  "scroll (prependMatch uc r m) = scroll m" "input (prependMatch uc r m) = input m"
  "results (prependMatch uc r m) = results m" "destinationMode (prependMatch uc r m) = destinationMode m"
  "argumentResults (prependMatch uc r m) = argumentResults m" "createDestinations (prependMatch uc r m) = createDestinations m"
  by (simp_all add: prependMatch_def Let_def split: option.split)

text \<open>Putting a row first keeps the other rows in their order.\<close>

lemma prependMatch_keeps: "set (matches m) \<subseteq> set (matches (prependMatch uc r m))"
proof -
  have rem: "i < length xs \<Longrightarrow> set xs \<subseteq> insert (xs ! i) (set (remove_at i xs))" for i and xs :: "match list"
    by (metis mset_remove_at set_mset_add_mset_insert set_mset_mset subset_refl)
  show ?thesis
  proof (cases "first_index (codeIs (case resultCommand r of Some c \<Rightarrow> Code c | None \<Rightarrow> [])) (matches m)")
    case (Some i)
    then have "i < length (matches m)" using first_index_Some by blast
    then show ?thesis using Some rem by (simp add: prependMatch_def Let_def)
  qed (auto simp: prependMatch_def Let_def)
qed

lemma ordinaryMatches_fields [simp]:
  "selected (ordinaryMatches uc m) = selected m" "selectionMade (ordinaryMatches uc m) = selectionMade m"
  "input (ordinaryMatches uc m) = input m" "results (ordinaryMatches uc m) = results m"
  "destinationMode (ordinaryMatches uc m) = destinationMode m"
  by (simp_all add: ordinaryMatches_def Let_def split: option.split prod.split)

lemma refresh_fields [simp]:
  "input (refresh uc m) = input m" "results (refresh uc m) = results m"
  by (simp_all add: refresh_def split: option.split)

text \<open>In the destination mode nothing is selected until a key chooses a row.\<close>

lemma refresh_destination: "\<not> selectionMade m \<Longrightarrow> destinationMode (refresh uc m) \<Longrightarrow> Selected (refresh uc m) = None"
  by (auto simp: refresh_def Selected_def split: option.splits)

lemma refresh_exact:
  assumes "\<not> destinationMode (refresh uc m)" "selected m = 0" "ExactCommandResult uc (results m) (input m) = Some r"
  shows "\<exists>row c. Selected (refresh uc m) = Some row \<and> resultCommand row = Some c \<and> EqualFold uc (TrimSpace (input m)) (Code c)"
proof -
  have none: "cnsDestinationMatches uc (input m) m = None" using assms(1) by (auto simp: refresh_def split: option.splits)
  obtain c where c: "resultCommand r = Some c" "EqualFold uc (TrimSpace (input m)) (Code c)"
    using assms(3) by (auto simp: ExactCommandResult_def split: if_splits dest!: findCommand_Some)
  define n where "n = ordinaryMatches uc (m\<lparr>destinationMode := False, selectionMade := True\<rparr>)"
  have "\<exists>mt ms. matches n = mt # ms \<and> codeIs (Code c) mt"
    using assms(3) prependMatch_hd [OF c(1)] by (simp add: n_def ordinaryMatches_def Let_def)
  then obtain mt ms where mt: "matches n = mt # ms" "codeIs (Code c) mt" by blast
  have n: "selected n = 0" "selectionMade n" using assms(2) by (simp_all add: n_def)
  have "refresh uc m = clampModel n" by (simp add: refresh_def none n_def)
  then have "Selected (refresh uc m) = Some (mResult mt)" using n mt clampModel_id [of n] by (simp add: Selected_def)
  then show ?thesis using mt(2) c(2) by (auto simp: codeIs_def split: option.splits)
qed

text \<open>A replacement of the rows keeps the selected target while it is still there.\<close>

lemma sameTarget_refl: "sameTarget r r"
  by (cases r) auto

lemma ReplaceResults_keeps:
  assumes "Selected m = Some sel" "mt \<in> set (matches (ReplaceResults uc rs m))" "sameTarget (mResult mt) sel"
  shows "\<exists>row. Selected (ReplaceResults uc rs m) = Some row \<and> sameTarget row sel"
proof -
  obtain ordinary destinations where sp: "splitResults rs = (ordinary, destinations)" by (cases "splitResults rs")
  define n where "n = refresh uc (m\<lparr>results := ordinary, createDestinations := destinations,
                argumentResults := requiredArgumentResults ordinary\<rparr>)"
  have rep: "ReplaceResults uc rs m = (case first_index (\<lambda>mt. sameTarget (mResult mt) sel) (matches n) of
        Some i \<Rightarrow> clampModel (n\<lparr>selected := int i, selectionMade := True\<rparr>)
      | None \<Rightarrow> if resultKind sel = 5 \<or> destinationMode n
                then clampModel (n\<lparr>selectionMade := False, selected := 0, scroll := 0\<rparr>) else n)"
    unfolding ReplaceResults_def Let_def sp prod.case n_def [symmetric] assms(1) option.case by (rule refl)
  have "matches (ReplaceResults uc rs m) = matches n" by (simp add: rep split: option.split)
  then obtain i where i: "first_index (\<lambda>mt. sameTarget (mResult mt) sel) (matches n) = Some i"
    using assms(2,3) first_index_None by fastforce
  have len: "i < length (matches n)" "sameTarget (mResult (matches n ! i)) sel" using first_index_Some [OF i] by auto
  have "selected (clampModel (n\<lparr>selected := int i, selectionMade := True\<rparr>)) = int i" using len(1) by (subst clampModel_id) auto
  then show ?thesis using len by (simp add: rep i Selected_def)
qed

section \<open>Properties\<close>

text \<open>
  C38. After any sequence of keys, result replacements and draws, the selected row of the palette
  exists whenever there is a row, the scroll position is at or above it, and a frame with room for
  a row shows it.
\<close>

theorem palette_selection_valid:
  assumes "reachable_palette uc m"
  shows "(matches m = [] \<longrightarrow> selected m = -1) \<and>
    (matches m \<noteq> [] \<longrightarrow> 0 \<le> selected m \<and> selected m < int (length (matches m)) \<and> scroll m \<le> selected m \<and>
      (0 < cols \<and> 1 < rows \<longrightarrow> selected m \<in> set (renderedRows cols rows m)))"
proof -
  have ok: "model_ok m" by (rule reachable_palette_ok [OF assms])
  then show ?thesis using selected_drawn [OF ok] by (auto simp: model_ok_def)
qed

theorem palette_selection_valid_witness:
  "matches (NewModel asciiCase [CommandResult splitCommand]) \<noteq> [] \<and>
    selected (NewModel asciiCase [CommandResult splitCommand]) \<in>
      set (renderedRows 80 24 (NewModel asciiCase [CommandResult splitCommand]))"
proof -
  have "matches (NewModel asciiCase [CommandResult splitCommand]) \<noteq> []" by code_simp
  with palette_selection_valid [OF palette_new [of asciiCase "[CommandResult splitCommand]"], of 80 24] show ?thesis by simp
qed

text \<open>
  Enter acts on what was typed: after an edit that leaves an exact command in the line, that
  command is the selected row; and a row that creates a session is never selected by typing alone.
\<close>

theorem typing_selects:
  "let m' = Insert uc r m in (destinationMode m' \<longrightarrow> Selected m' = None) \<and>
    (\<not> destinationMode m' \<and> ExactCommandResult uc (results m') (input m') \<noteq> None \<longrightarrow>
      (\<exists>row c. Selected m' = Some row \<and> resultCommand row = Some c \<and> EqualFold uc (TrimSpace (input m')) (Code c)))"
proof -
  let ?m = "restart (m\<lparr>input := InsertRune r (input m)\<rparr>)"
  have "\<not> selectionMade ?m" "selected ?m = 0" by (simp_all add: restart_def)
  then show ?thesis
    using refresh_destination [of ?m uc] refresh_exact [of uc ?m] by (auto simp: Insert_def Let_def)
qed

theorem typing_selects_witness:
  "\<exists>row c. Selected (Insert asciiCase 114 (Insert asciiCase 112 (Insert asciiCase 115 (NewModel asciiCase [workSession, CommandResult splitCommand])))) =
      Some row \<and> resultCommand row = Some c \<and> EqualFold asciiCase (runes ''spr'') (Code c)"
proof -
  let ?m = "Insert asciiCase 112 (Insert asciiCase 115 (NewModel asciiCase [workSession, CommandResult splitCommand]))"
  have "\<not> destinationMode (Insert asciiCase 114 ?m)"
    "ExactCommandResult asciiCase (results (Insert asciiCase 114 ?m)) (input (Insert asciiCase 114 ?m)) \<noteq> None"
    "TrimSpace (input (Insert asciiCase 114 ?m)) = runes ''spr''"
    by code_simp+
  with typing_selects [of asciiCase 114 ?m] show ?thesis by (simp add: Let_def)
qed

text \<open>
  When the rows are replaced while the palette is open, the selection stays on the same target
  as long as a row for it is listed.
\<close>

theorem replacement_keeps_selection:
  assumes "Selected m = Some sel" "mt \<in> set (matches (ReplaceResults uc rs m))" "sameTarget (mResult mt) sel"
  shows "\<exists>row. Selected (ReplaceResults uc rs m) = Some row \<and> sameTarget row sel"
  by (rule ReplaceResults_keeps [OF assms])

theorem replacement_keeps_selection_witness:
  "\<exists>row. Selected (ReplaceResults asciiCase [workSession, CommandResult splitCommand] (NewModel asciiCase [CommandResult splitCommand])) = Some row \<and>
     sameTarget row (CommandResult splitCommand)"
proof -
  let ?m = "NewModel asciiCase [CommandResult splitCommand]"
  have sel: "Selected ?m = Some (CommandResult splitCommand)" by code_simp
  have "map mResult (matches (ReplaceResults asciiCase [workSession, CommandResult splitCommand] ?m)) = [workSession, CommandResult splitCommand]"
    by code_simp
  then have "CommandResult splitCommand \<in> mResult ` set (matches (ReplaceResults asciiCase [workSession, CommandResult splitCommand] ?m))"
    by (metis list.set_intros(1) list.set_intros(2) set_map)
  then obtain mt where "mt \<in> set (matches (ReplaceResults asciiCase [workSession, CommandResult splitCommand] ?m))"
    "mResult mt = CommandResult splitCommand" by auto
  with replacement_keeps_selection [OF sel] sameTarget_refl show ?thesis by metis
qed

end
