(* ===== verification/Go_Utf8.thy ===== *)
theory Go_Utf8
  imports Go_Bytes Go_Strings
begin

text \<open>
  What the sources use of Go's \<^verbatim>\<open>unicode/utf8\<close> and \<^verbatim>\<open>bytes\<close> packages: decoding one rune with
  the library's accept ranges, encoding one, and searching a byte slice.
\<close>

section \<open>Runes\<close>

definition RuneError :: rune where "RuneError = 0xFFFD"

definition ValidRune :: "rune \<Rightarrow> bool" where
  "ValidRune r = (0 \<le> r \<and> r < 0xD800 \<or> 0xDFFF < r \<and> r \<le> 0x10FFFF)"

text \<open>The length announced by a lead byte (zero for a byte that starts no rune) and the range of the second byte.\<close>

definition leadSize :: "byte \<Rightarrow> nat" where
  "leadSize b = (let n = uint b in
     if n < 0x80 then 1 else if n < 0xC2 then 0 else if n < 0xE0 then 2 else if n < 0xF0 then 3 else if n < 0xF5 then 4 else 0)"

definition acceptLow :: "byte \<Rightarrow> int" where
  "acceptLow b = (if uint b = 0xE0 then 0xA0 else if uint b = 0xF0 then 0x90 else 0x80)"

definition acceptHigh :: "byte \<Rightarrow> int" where
  "acceptHigh b = (if uint b = 0xED then 0x9F else if uint b = 0xF4 then 0x8F else 0xBF)"

definition secondOk :: "byte \<Rightarrow> byte \<Rightarrow> bool" where
  "secondOk b c = (acceptLow b \<le> uint c \<and> uint c \<le> acceptHigh b)"

definition contByte :: "byte \<Rightarrow> bool" where
  "contByte c = (0x80 \<le> uint c \<and> uint c \<le> 0xBF)"

definition byteOf :: "int \<Rightarrow> byte" where
  "byteOf x = word_of_int x"

definition low6 :: "byte \<Rightarrow> int" where
  "low6 c = uint c mod 64"

text \<open>\<^verbatim>\<open>utf8.DecodeRune\<close>: the rune and the bytes it took.\<close>

fun DecodeRune :: "byte list \<Rightarrow> rune \<times> nat" where
  "DecodeRune [] = (RuneError, 0)"
| "DecodeRune (b # bs) =
     (if leadSize b = 1 then (uint b, 1)
      else if leadSize b = 2 then
        (case bs of
           c # _ \<Rightarrow> if secondOk b c then (uint b mod 32 * 64 + low6 c, 2) else (RuneError, 1)
         | _ \<Rightarrow> (RuneError, 1))
      else if leadSize b = 3 then
        (case bs of
           c # d # _ \<Rightarrow> if secondOk b c \<and> contByte d then (uint b mod 16 * 4096 + low6 c * 64 + low6 d, 3) else (RuneError, 1)
         | _ \<Rightarrow> (RuneError, 1))
      else if leadSize b = 4 then
        (case bs of
           c # d # e # _ \<Rightarrow>
             if secondOk b c \<and> contByte d \<and> contByte e
             then (uint b mod 8 * 262144 + low6 c * 4096 + low6 d * 64 + low6 e, 4) else (RuneError, 1)
         | _ \<Rightarrow> (RuneError, 1))
      else (RuneError, 1))"

text \<open>\<^verbatim>\<open>utf8.FullRune\<close>: the bytes begin with a whole rune or with an error.\<close>

fun FullRune :: "byte list \<Rightarrow> bool" where
  "FullRune [] = False"
| "FullRune (b # bs) =
     (if leadSize b \<le> Suc (length bs) then True
      else (case bs of
          [] \<Rightarrow> False
        | c # ds \<Rightarrow> if \<not> secondOk b c then True else (case ds of [] \<Rightarrow> False | d # _ \<Rightarrow> \<not> contByte d)))"

text \<open>\<^verbatim>\<open>utf8.AppendRune\<close> on an empty slice.\<close>

definition AppendRune :: "rune \<Rightarrow> byte list" where
  "AppendRune r0 =
     (let r = (if ValidRune r0 then r0 else RuneError) in
      if r < 0x80 then [byteOf r]
      else if r < 0x800 then [byteOf (0xC0 + r div 64), byteOf (0x80 + r mod 64)]
      else if r < 0x10000 then [byteOf (0xE0 + r div 4096), byteOf (0x80 + r div 64 mod 64), byteOf (0x80 + r mod 64)]
      else [byteOf (0xF0 + r div 262144), byteOf (0x80 + r div 4096 mod 64), byteOf (0x80 + r div 64 mod 64),
            byteOf (0x80 + r mod 64)])"

text \<open>The bytes of a string, and \<^verbatim>\<open>utf8.RuneCountInString\<close> on them.\<close>

definition asciiBytes :: "string \<Rightarrow> byte list" where
  "asciiBytes s = map of_char s"

lemma DecodeRune_size: "snd (DecodeRune bs) \<le> length bs" "bs \<noteq> [] \<Longrightarrow> 0 < snd (DecodeRune bs)"
  by (cases bs; auto split: list.splits)+

function RuneCount :: "byte list \<Rightarrow> nat" where
  "RuneCount [] = 0"
| "RuneCount (b # bs) = Suc (RuneCount (drop (snd (DecodeRune (b # bs))) (b # bs)))"
  by pat_completeness auto
termination
  using DecodeRune_size(2) by (relation "measure length") (simp_all del: DecodeRune.simps add: diff_less)

text \<open>A whole rune is decoded the same whatever follows.\<close>

lemma DecodeRune_append: "1 < snd (DecodeRune bs) \<Longrightarrow> DecodeRune (bs @ cs) = DecodeRune bs"
  by (cases bs) (auto split: list.splits if_splits)

lemma FullRune_append: "FullRune bs \<Longrightarrow> FullRune (bs @ cs)"
  by (cases bs) (auto split: list.splits if_splits)

lemma DecodeRune_full: "FullRune bs \<Longrightarrow> DecodeRune (bs @ cs) = DecodeRune bs"
  by (cases bs) (auto simp: neq_Nil_conv Suc_le_length_iff split: list.splits if_splits)

text \<open>Encoding and decoding one rune.\<close>

lemma uint_byteOf [simp]: "0 \<le> x \<Longrightarrow> x < 256 \<Longrightarrow> uint (byteOf x) = x"
  by (simp add: byteOf_def uint_word_of_int_eq take_bit_int_eq_self)

lemma drop_marker: "0 \<le> x \<Longrightarrow> x < m \<Longrightarrow> (k * m + x) mod m = (x :: int)"
  by simp

lemma DecodeRune_AppendRune:
  assumes "ValidRune r"
  shows "DecodeRune (AppendRune r @ rest) = (r, length (AppendRune r))"
proof -
  have r: "0 \<le> r" "r \<le> 0x10FFFF" "\<not> (0xD800 \<le> r \<and> r \<le> 0xDFFF)" using assms by (auto simp: ValidRune_def)
  define q1 q2 q3 where "q1 = r div 64" and "q2 = r div 4096" and "q3 = r div 262144"
  define m0 m1 m2 where "m0 = r mod 64" and "m1 = q1 mod 64" and "m2 = q2 mod 64"
  have m: "0 \<le> m0" "m0 < 64" "0 \<le> m1" "m1 < 64" "0 \<le> m2" "m2 < 64" by (simp_all add: m0_def m1_def m2_def)
  have d: "r div 4096 = r div 64 div 64" "r div 262144 = r div 4096 div 64"
    using zdiv_zmult2_eq [of 64 r 64] zdiv_zmult2_eq [of 64 r 4096] by simp_all
  have q: "r = q1 * 64 + m0" "q1 = q2 * 64 + m1" "q2 = q3 * 64 + m2"
    unfolding m0_def m1_def m2_def q1_def q2_def q3_def d(2) unfolding d(1) by (simp_all only: div_mult_mod_eq)
  have pos: "0 \<le> q1" "0 \<le> q2" "0 \<le> q3" using r by (simp_all add: q1_def q2_def q3_def)
  have fold: "r div 64 = q1" "r div 4096 = q2" "r div 262144 = q3" "r mod 64 = m0" "q1 mod 64 = m1" "q2 mod 64 = m2"
    by (fact q1_def [symmetric] q2_def [symmetric] q3_def [symmetric] m0_def [symmetric] m1_def [symmetric] m2_def [symmetric])+
  have low: "(0x80 + m0) mod 64 = m0" "(0x80 + m1) mod 64 = m1" "(0x80 + m2) mod 64 = m2"
    using drop_marker [of m0 64 2] drop_marker [of m1 64 2] drop_marker [of m2 64 2] m by simp_all
  consider (one) "r < 0x80" | (two) "0x80 \<le> r" "r < 0x800" | (three) "0x800 \<le> r" "r < 0x10000" | (four) "0x10000 \<le> r" by linarith
  then show ?thesis
  proof cases
    case one
    then show ?thesis using assms r by (simp add: AppendRune_def leadSize_def)
  next
    case two
    then have "2 \<le> q1" "q1 < 32" using q m by linarith+
    moreover from this have "(0xC0 + q1) mod 32 = q1" using drop_marker [of q1 32 6] by simp
    moreover have "q1 * 64 + m0 = r" using q by linarith
    ultimately show ?thesis using assms two m low
      by (simp add: AppendRune_def fold leadSize_def secondOk_def acceptLow_def acceptHigh_def low6_def)
  next
    case three
    then have "q2 < 16" using q m by linarith
    moreover from this have "(0xE0 + q2) mod 16 = q2" using pos drop_marker [of q2 16 14] by simp
    moreover have "q2 = 0 \<longrightarrow> 32 \<le> m1" "q2 = 13 \<longrightarrow> m1 \<le> 31" using three q m r by linarith+
    moreover have "q2 * 4096 + m1 * 64 + m0 = r" using q by linarith
    ultimately show ?thesis using assms three pos m low
      by (simp add: AppendRune_def fold leadSize_def secondOk_def acceptLow_def acceptHigh_def contByte_def low6_def)
  next
    case four
    then have "q3 < 5" using q m r by linarith
    moreover from this have "(0xF0 + q3) mod 8 = q3" using pos drop_marker [of q3 8 30] by simp
    moreover have "q3 = 0 \<longrightarrow> 16 \<le> m2" "q3 = 4 \<longrightarrow> m2 \<le> 15" using four q m r by linarith+
    moreover have "q3 * 262144 + m2 * 4096 + m1 * 64 + m0 = r" using q by linarith
    ultimately show ?thesis using assms four pos m low
      by (simp add: AppendRune_def fold leadSize_def secondOk_def acceptLow_def acceptHigh_def contByte_def low6_def)
  qed
qed

section \<open>Searching\<close>

text \<open>\<^verbatim>\<open>bytes.Index\<close>: where the pattern occurs first.\<close>

fun bytesIndex :: "byte list \<Rightarrow> byte list \<Rightarrow> nat option" where
  "bytesIndex pat [] = (if pat = [] then Some 0 else None)"
| "bytesIndex pat (b # bs) = (if prefix pat (b # bs) then Some 0 else map_option Suc (bytesIndex pat bs))"

lemma bytesIndex_Some:
  "bytesIndex pat data = Some i \<Longrightarrow> i + length pat \<le> length data \<and> take (length pat) (drop i data) = pat"
proof (induction data arbitrary: i)
  case (Cons b bs)
  show ?case
  proof (cases "prefix pat (b # bs)")
    case True
    then have "length pat \<le> length (b # bs)" "take (length pat) (b # bs) = pat"
      by (rule prefix_length_le, metis append_eq_conv_conj prefix_def)
    then show ?thesis using True Cons.prems by simp
  qed (use Cons in auto)
qed (auto split: if_splits)

lemma bytesIndex_split: "bytesIndex pat data = Some i \<Longrightarrow> data = take i data @ pat @ drop (i + length pat) data"
  using bytesIndex_Some [of pat data i] by (metis append_take_drop_id drop_drop add.commute)

lemma bytesIndex_None: "bytesIndex pat data = None \<longleftrightarrow> (\<nexists>before after. data = before @ pat @ after)"
proof (induction data)
  case (Cons b bs)
  have "(\<exists>before after. b # bs = before @ pat @ after) \<longleftrightarrow> prefix pat (b # bs) \<or> (\<exists>before after. bs = before @ pat @ after)"
    by (auto simp: prefix_def Cons_eq_append_conv)
  then show ?case using Cons by auto
qed auto

lemma bytesIndex_first: "bytesIndex pat data = Some i \<Longrightarrow> data = before @ pat @ after \<Longrightarrow> i \<le> length before"
proof (induction data arbitrary: i before)
  case (Cons b bs)
  show ?case
  proof (cases before)
    case Nil
    then have "prefix pat (b # bs)" using Cons.prems by (simp add: prefix_def)
    then show ?thesis using Cons.prems(1) Nil by simp
  next
    case (Cons c before')
    then show ?thesis using Cons.IH [of _ before'] Cons.prems by (auto split: if_splits)
  qed
qed (auto split: if_splits)

lemma bytesIndex_append: "bytesIndex pat xs = Some i \<Longrightarrow> bytesIndex pat (xs @ ys) = Some i"
proof (induction xs arbitrary: i)
  case Nil
  then show ?case by (cases ys) (auto split: if_splits)
next
  case (Cons x xs)
  show ?case
  proof (cases "prefix pat (x # xs)")
    case True
    then have "prefix pat (x # xs @ ys)" by (metis append_Cons prefix_prefix)
    then show ?thesis using True Cons.prems by simp
  next
    case False
    then obtain z where z: "bytesIndex pat xs = Some z" "i = Suc z" using Cons.prems by auto
    have "length pat \<le> length (x # xs)" using bytesIndex_Some [OF z(1)] by simp
    then have "\<not> prefix pat ((x # xs) @ ys)" using False prefix_length_prefix [of pat "(x # xs) @ ys" "x # xs"] by (auto simp: prefix_def)
    then show ?thesis using Cons.IH [OF z(1)] z(2) by simp
  qed
qed

lemma bytesIndex_drop: "bytesIndex pat xs = Some i \<Longrightarrow> s \<le> i \<Longrightarrow> bytesIndex pat (drop s xs) = Some (i - s)"
proof (induction s arbitrary: xs i)
  case (Suc s)
  then show ?case by (cases xs) (auto split: if_splits)
qed simp

lemma bytesIndex_before:
  assumes "bytesIndex pat (u @ v) = Some i" "length u < i + length pat"
  shows "bytesIndex pat u = None"
proof (rule ccontr)
  assume "bytesIndex pat u \<noteq> None"
  then obtain j where j: "bytesIndex pat u = Some j" by blast
  then have "j = i" using bytesIndex_append [OF j, of v] assms(1) by simp
  then show False using bytesIndex_Some [OF j] assms(2) by simp
qed

lemma bytesIndex_None_drop: "bytesIndex pat xs = None \<Longrightarrow> bytesIndex pat (drop s xs) = None"
  unfolding bytesIndex_None by (metis append.assoc append_take_drop_id)

end
