(* ===== verification/Byte_Stage.thy ===== *)
theory Byte_Stage
  imports Go_Bytes
begin

text \<open>
  The contract of a stage of the input path: a stage takes the bytes of one read, hands on pieces
  and may hold bytes back, and loses, repeats or reorders none of them. Its clients rely on these
  laws alone; the paste coalescer, the mouse scanner and the key router provide them.
\<close>

text \<open>The reads of a stream, one after the other.\<close>

fun feedAll :: "('d \<Rightarrow> 's \<Rightarrow> 's \<times> 'o list) \<Rightarrow> 'd list \<Rightarrow> 's \<Rightarrow> 's \<times> 'o list" where
  "feedAll step [] s = (s, [])"
| "feedAll step (d # ds) s = (case step d s of (s1, out1) \<Rightarrow> case feedAll step ds s1 of (s2, out2) \<Rightarrow> (s2, out1 @ out2))"

locale byte_stage =
  fixes step :: "byte list \<Rightarrow> 's \<Rightarrow> 's \<times> 'o list"
    and heldBytes :: "'s \<Rightarrow> byte list"
    and rawBytes :: "'o \<Rightarrow> byte list"
    and stage_ok :: "'s \<Rightarrow> bool"
  assumes step_bytes: "stage_ok s \<Longrightarrow> step d s = (s', outs) \<Longrightarrow> concat (map rawBytes outs) @ heldBytes s' = heldBytes s @ d"
    and step_ok: "stage_ok s \<Longrightarrow> step d s = (s', outs) \<Longrightarrow> stage_ok s'"
begin

lemma stream_bytes:
  assumes "stage_ok s" "feedAll step ds s = (s', outs)"
  shows "concat (map rawBytes outs) @ heldBytes s' = heldBytes s @ concat ds \<and> stage_ok s'"
  using assms
proof (induction ds arbitrary: s outs)
  case (Cons d ds)
  obtain s1 out1 out2 where s: "step d s = (s1, out1)" "feedAll step ds s1 = (s', out2)" "outs = out1 @ out2"
    using Cons.prems(2) by (auto split: prod.splits)
  have "concat (map rawBytes out2) @ heldBytes s' = heldBytes s1 @ concat ds \<and> stage_ok s'"
    by (rule Cons.IH [OF step_ok [OF Cons.prems(1) s(1)] s(2)])
  moreover have "concat (map rawBytes out1) @ heldBytes s1 = heldBytes s @ d" by (rule step_bytes [OF Cons.prems(1) s(1)])
  ultimately show ?case using s(3) by simp
qed simp

end

text \<open>Two stages in a row: every piece of the first is a read of the second.\<close>

definition pipe ::
  "(byte list \<Rightarrow> 's \<Rightarrow> 's \<times> byte list list) \<Rightarrow> (byte list \<Rightarrow> 't \<Rightarrow> 't \<times> 'o list) \<Rightarrow> byte list \<Rightarrow> 's \<times> 't \<Rightarrow> ('s \<times> 't) \<times> 'o list" where
  "pipe step1 step2 d st =
     (case step1 d (fst st) of (s, pieces) \<Rightarrow> case feedAll step2 pieces (snd st) of (t, outs) \<Rightarrow> ((s, t), outs))"

locale piped_stages =
  first: byte_stage step1 held1 "\<lambda>piece. piece" ok1 + second: byte_stage step2 held2 raw2 ok2
  for step1 :: "byte list \<Rightarrow> 's \<Rightarrow> 's \<times> byte list list" and held1 and ok1
    and step2 :: "byte list \<Rightarrow> 't \<Rightarrow> 't \<times> 'o list" and held2 and raw2 and ok2
begin

lemma pipe_bytes:
  assumes "ok1 (fst st) \<and> ok2 (snd st)" "pipe step1 step2 d st = (st', outs)"
  shows "concat (map raw2 outs) @ held2 (snd st') @ held1 (fst st') = held2 (snd st) @ held1 (fst st) @ d \<and> ok1 (fst st') \<and> ok2 (snd st')"
proof -
  obtain s pieces t where p: "step1 d (fst st) = (s, pieces)" "feedAll step2 pieces (snd st) = (t, outs)" "st' = (s, t)"
    using assms(2) by (auto simp: pipe_def split: prod.splits)
  have a: "concat pieces @ held1 s = held1 (fst st) @ d \<and> ok1 s"
    using first.step_bytes [OF _ p(1)] first.step_ok [OF _ p(1)] assms(1) by simp
  have b: "concat (map raw2 outs) @ held2 t = held2 (snd st) @ concat pieces \<and> ok2 t"
    using second.stream_bytes [OF _ p(2)] assms(1) by blast
  have "concat (map raw2 outs) @ held2 t @ held1 s = (concat (map raw2 outs) @ held2 t) @ held1 s" by simp
  also have "\<dots> = held2 (snd st) @ concat pieces @ held1 s" using b by simp
  also have "\<dots> = held2 (snd st) @ held1 (fst st) @ d" using a by simp
  finally show ?thesis unfolding p(3) fst_conv snd_conv using conjunct2 [OF a] conjunct2 [OF b] by (intro conjI)
qed

end

sublocale piped_stages \<subseteq> both: byte_stage "pipe step1 step2" "\<lambda>st. held2 (snd st) @ held1 (fst st)" raw2 "\<lambda>st. ok1 (fst st) \<and> ok2 (snd st)"
proof
  fix s d s' outs
  assume "ok1 (fst s) \<and> ok2 (snd s)" "pipe step1 step2 d s = (s', outs)"
  note p = pipe_bytes [OF this]
  show "concat (map raw2 outs) @ held2 (snd s') @ held1 (fst s') = (held2 (snd s) @ held1 (fst s)) @ d"
    unfolding append_assoc by (rule conjunct1 [OF p])
  show "ok1 (fst s') \<and> ok2 (snd s')" by (rule conjunct2 [OF p])
qed

end
