(* ===== verification/Paste_Coalescer.thy ===== *)
theory Paste_Coalescer
  imports Go_Utf8 Byte_Stage
begin

text \<open>
  Reframing of bracketed pastes on the client: \<^verbatim>\<open>internal/usecase/client/paste_coalescer.go\<close>
  with the markers of \<^verbatim>\<open>internal/ports/paste.go\<close>. Every operation returns the new state and
  the chunks it emits. A timer is armed or not: a goroutine whose timer was stopped or replaced finds
  that it is not the current one and does nothing, so only an armed timer has an effect.
\<close>

section \<open>State machine\<close>

definition BracketedPasteOpenMarker :: "byte list" where
  "BracketedPasteOpenMarker = [0x1B, 0x5B, 0x32, 0x30, 0x30, 0x7E]"

definition BracketedPasteCloseMarker :: "byte list" where
  "BracketedPasteCloseMarker = [0x1B, 0x5B, 0x32, 0x30, 0x31, 0x7E]"

definition maxPasteBuffer :: nat where "maxPasteBuffer = 2 * 2 ^ 20"

record coalescer =
  buffering :: bool
  buf :: "byte list"
  held :: "byte list"
  flushTimer :: bool
  safetyTimer :: bool
  closed :: bool

definition newPasteCoalescer :: coalescer where
  "newPasteCoalescer = \<lparr>buffering = False, buf = [], held = [], flushTimer = False, safetyTimer = False, closed = False\<rparr>"

text \<open>The longest proper part of the opening marker the data ends with.\<close>

fun longestPrefix :: "byte list \<Rightarrow> nat \<Rightarrow> nat" where
  "longestPrefix data 0 = 0"
| "longestPrefix data (Suc n) =
     (if drop (length data - Suc n) data = take (Suc n) BracketedPasteOpenMarker then Suc n else longestPrefix data n)"

definition trailingOpenPrefixLen :: "byte list \<Rightarrow> nat" where
  "trailingOpenPrefixLen data = longestPrefix data (min (length BracketedPasteOpenMarker - 1) (length data))"

definition startFlushTimer :: "coalescer \<Rightarrow> coalescer" where
  "startFlushTimer c = (if closed c then c\<lparr>flushTimer := False\<rparr> else c\<lparr>flushTimer := True\<rparr>)"

definition startSafetyTimer :: "coalescer \<Rightarrow> coalescer" where
  "startSafetyTimer c = (if closed c then c\<lparr>safetyTimer := False\<rparr> else c\<lparr>safetyTimer := True\<rparr>)"

definition resetBuffering :: "coalescer \<Rightarrow> coalescer" where
  "resetBuffering c = c\<lparr>buffering := False, buf := [], safetyTimer := False\<rparr>"

definition searchStart :: "coalescer \<Rightarrow> nat" where
  "searchStart c = (let overlap = length BracketedPasteCloseMarker - 1 in
     if overlap < length (buf c) then length (buf c) - overlap else 0)"

text \<open>
  The loop: \<open>process\<close> is an iteration from its head, \<open>scan\<close> its part below the buffering
  branch.
\<close>

function process :: "byte list \<Rightarrow> coalescer \<Rightarrow> coalescer \<times> byte list list"
  and scan :: "byte list \<Rightarrow> coalescer \<Rightarrow> coalescer \<times> byte list list" where
  "process data c =
     (if buffering c then
        let searchFrom = searchStart c; whole = buf c @ data in
        case bytesIndex BracketedPasteCloseMarker (drop searchFrom whole) of
          None \<Rightarrow>
            if maxPasteBuffer < length whole then (resetBuffering c, [whole])
            else (c\<lparr>buf := whole\<rparr>, [])
        | Some idx \<Rightarrow>
            let pasteEnd = searchFrom + idx + length BracketedPasteCloseMarker;
                (c', out) = scan (drop pasteEnd whole) (resetBuffering c)
            in (c', take pasteEnd whole # out)
      else scan data c)"
| "scan data c =
     (if data = [] then (c, [])
      else
        case bytesIndex BracketedPasteOpenMarker data of
          Some idx \<Rightarrow>
            let (c', out) = process (drop idx data) (startSafetyTimer (c\<lparr>buffering := True\<rparr>))
            in (c', (if 0 < idx then [take idx data] else []) @ out)
        | None \<Rightarrow>
            let p = trailingOpenPrefixLen data in
            if 0 < p then
              (startFlushTimer (c\<lparr>held := drop (length data - p) data\<rparr>),
               if p < length data then [take (length data - p) data] else [])
            else (c, [data]))"
  by pat_completeness auto
termination
proof (relation "measure (case_sum
    (\<lambda>(data, c). 3 * (length data + length (buf c)) + (if buffering c then 0 else 2))
    (\<lambda>(data, c). 3 * (length data + length (buf c)) + 1))", goal_cases)
  case (2 data c searchFrom whole idx pasteEnd)
  have "idx + 6 \<le> length (drop searchFrom whole)"
    using bytesIndex_Some [OF 2(4)] by (simp add: BracketedPasteCloseMarker_def)
  moreover have "pasteEnd = searchFrom + idx + 6" using 2(5) by (simp add: BracketedPasteCloseMarker_def)
  ultimately show ?case using 2(1,3) by (simp add: resetBuffering_def)
next
  case (4 data c idx)
  then show ?case by (simp add: startSafetyTimer_def)
qed auto

declare process.simps [simp del] scan.simps [simp del]

definition Scan :: "byte list \<Rightarrow> coalescer \<Rightarrow> coalescer \<times> byte list list" where
  "Scan data c =
     (if data = [] then (c, [])
      else if held c \<noteq> [] then process (held c @ data) (c\<lparr>flushTimer := False, held := []\<rparr>)
      else process data c)"

definition Buffering :: "coalescer \<Rightarrow> bool" where
  "Buffering c = (buffering c \<or> held c \<noteq> [])"

definition EndBatch :: "coalescer \<Rightarrow> (coalescer \<times> byte list list) \<times> bool" where
  "EndBatch c =
     (if closed c \<or> buffering c then ((c, []), False)
      else ((c\<lparr>flushTimer := False, held := []\<rparr>, if held c \<noteq> [] then [held c] else []), True))"

definition CloseAndTakeHeld :: "coalescer \<Rightarrow> coalescer \<times> byte list" where
  "CloseAndTakeHeld c =
     (c\<lparr>closed := True, flushTimer := False, safetyTimer := False, held := [], buf := [], buffering := False\<rparr>, held c @ buf c)"

text \<open>The goroutines of \<^verbatim>\<open>startFlushTimer\<close> and \<^verbatim>\<open>startSafetyTimer\<close> when their timer fires.\<close>

definition flushFires :: "coalescer \<Rightarrow> coalescer \<times> byte list list" where
  "flushFires c =
     (if \<not> flushTimer c \<or> held c = [] then (c, [])
      else (c\<lparr>flushTimer := False, held := []\<rparr>, [held c]))"

definition safetyFires :: "coalescer \<Rightarrow> coalescer \<times> byte list list" where
  "safetyFires c =
     (if \<not> safetyTimer c \<or> \<not> buffering c then (c, [])
      else (c\<lparr>buffering := False, buf := [], safetyTimer := False\<rparr>, if buf c \<noteq> [] then [buf c] else []))"

section \<open>No byte is lost\<close>

text \<open>What the coalescer withholds, and the shape of its states.\<close>

definition withheld :: "coalescer \<Rightarrow> byte list" where
  "withheld c = held c @ buf c"

definition coalescer_ok :: "coalescer \<Rightarrow> bool" where
  "coalescer_ok c \<longleftrightarrow> (\<not> buffering c \<longrightarrow> buf c = []) \<and> (buffering c \<longrightarrow> held c = []) \<and>
     length (buf c) \<le> maxPasteBuffer \<and> length (held c) < 6"

lemma longestPrefix_le: "longestPrefix data n \<le> n"
  by (induction n) auto

lemma trailing_lt: "trailingOpenPrefixLen data < 6 \<and> trailingOpenPrefixLen data \<le> length data"
  using longestPrefix_le [of data "min (length BracketedPasteOpenMarker - 1) (length data)"]
  unfolding trailingOpenPrefixLen_def by (simp add: BracketedPasteOpenMarker_def)

definition settled :: "coalescer \<Rightarrow> bool" where
  "settled c \<longleftrightarrow> held c = [] \<and> (\<not> buffering c \<longrightarrow> buf c = [])"

lemma process_lossless:
  "settled c \<Longrightarrow> process data c = (c', out) \<Longrightarrow> concat out @ withheld c' = buf c @ data \<and> coalescer_ok c'"
  "settled c \<Longrightarrow> \<not> buffering c \<Longrightarrow> scan data c = (c', out) \<Longrightarrow> concat out @ withheld c' = data \<and> coalescer_ok c'"
proof (induction data c and data c arbitrary: c' out and c' out rule: process_scan.induct)
  case (1 data c)
  show ?case
  proof (cases "buffering c")
    case False
    then show ?thesis using 1(2) [OF False 1(3) False] 1(3,4) by (simp add: process.simps [of data c] settled_def)
  next
    case True
    let ?whole = "buf c @ data" and ?s = "searchStart c"
    have r: "settled (resetBuffering c)" "\<not> buffering (resetBuffering c)" using 1(3) by (simp_all add: settled_def resetBuffering_def)
    show ?thesis
    proof (cases "bytesIndex BracketedPasteCloseMarker (drop ?s ?whole)")
      case None
      then show ?thesis using 1(3,4) True r
        by (auto simp: process.simps [of data c] Let_def withheld_def settled_def coalescer_ok_def resetBuffering_def split: if_splits)
    next
      case (Some idx)
      let ?e = "?s + idx + length BracketedPasteCloseMarker"
      obtain out' where o: "scan (drop ?e ?whole) (resetBuffering c) = (c', out')" "out = take ?e ?whole # out'"
        using 1(4) True Some by (auto simp: process.simps [of data c] Let_def simp del: drop_append split: prod.splits)
      have "concat out' @ withheld c' = drop ?e ?whole \<and> coalescer_ok c'"
        using 1(1) [OF True refl refl Some refl r o(1)] .
      then show ?thesis using o(2) append_take_drop_id [of ?e ?whole] by (simp del: drop_append take_append)
    qed
  qed
next
  case (2 data c)
  show ?case
  proof (cases "data = [] \<or> bytesIndex BracketedPasteOpenMarker data = None")
    case True
    define p where "p = trailingOpenPrefixLen data"
    have "p < 6" "p \<le> length data" using trailing_lt by (auto simp: p_def)
    then show ?thesis using 2(2-4) True append_take_drop_id [of "length data - p" data]
      by (auto simp: scan.simps [of data c] p_def [symmetric] Let_def withheld_def settled_def coalescer_ok_def startFlushTimer_def split: if_splits)
  next
    case False
    then obtain idx where idx: "bytesIndex BracketedPasteOpenMarker data = Some idx" and ne: "data \<noteq> []" by auto
    let ?c = "startSafetyTimer (c\<lparr>buffering := True\<rparr>)"
    obtain out' where o: "process (drop idx data) ?c = (c', out')" "out = (if 0 < idx then [take idx data] else []) @ out'"
      using 2(4) ne idx by (auto simp: scan.simps [of data c] split: prod.splits)
    have s: "settled ?c" "buf ?c = []" using 2(2,3) by (auto simp: settled_def startSafetyTimer_def)
    have "concat out' @ withheld c' = drop idx data \<and> coalescer_ok c'" using 2(1) [OF ne idx s(1) o(1)] s(2) by simp
    then show ?thesis using o(2) append_take_drop_id [of idx data] by (auto split: if_splits)
  qed
qed

lemma ok_settled: "coalescer_ok c \<Longrightarrow> settled (c\<lparr>flushTimer := b, held := []\<rparr>)"
  by (simp add: coalescer_ok_def settled_def)

lemma Scan_lossless:
  assumes "coalescer_ok c" "Scan data c = (c', out)"
  shows "concat out @ withheld c' = withheld c @ data \<and> coalescer_ok c'"
proof (cases "data = []")
  case False
  show ?thesis
  proof (cases "held c = []")
    case True
    then have "settled c" "process data c = (c', out)" using assms False by (auto simp: Scan_def coalescer_ok_def settled_def)
    from process_lossless(1) [OF this] True show ?thesis by (simp add: withheld_def)
  next
    case held: False
    then have b: "\<not> buffering c" "buf c = []" using assms(1) by (auto simp: coalescer_ok_def)
    have "process (held c @ data) (c\<lparr>flushTimer := False, held := []\<rparr>) = (c', out)" using assms(2) held False by (simp add: Scan_def)
    from process_lossless(1) [OF ok_settled [OF assms(1)] this] b show ?thesis by (simp add: withheld_def)
  qed
qed (use assms in \<open>simp add: Scan_def\<close>)

text \<open>
  Everything that can happen to a coalescer, with the bytes it was given and the bytes it handed
  on: emitted chunks and the bytes taken at a close.
\<close>

inductive coalescer_run :: "coalescer \<Rightarrow> byte list \<Rightarrow> byte list \<Rightarrow> bool" where
  run_new: "coalescer_run newPasteCoalescer [] []"
| run_scan: "coalescer_run c given passed \<Longrightarrow> Scan data c = (c', out) \<Longrightarrow> coalescer_run c' (given @ data) (passed @ concat out)"
| run_flush: "coalescer_run c given passed \<Longrightarrow> flushFires c = (c', out) \<Longrightarrow> coalescer_run c' given (passed @ concat out)"
| run_safety: "coalescer_run c given passed \<Longrightarrow> safetyFires c = (c', out) \<Longrightarrow> coalescer_run c' given (passed @ concat out)"
| run_end: "coalescer_run c given passed \<Longrightarrow> EndBatch c = ((c', out), fin) \<Longrightarrow> coalescer_run c' given (passed @ concat out)"
| run_close: "coalescer_run c given passed \<Longrightarrow> CloseAndTakeHeld c = (c', taken) \<Longrightarrow> coalescer_run c' given (passed @ taken)"

lemma coalescer_run_inv: "coalescer_run c given passed \<Longrightarrow> passed @ withheld c = given \<and> coalescer_ok c"
proof (induction rule: coalescer_run.induct)
  case run_new
  show ?case by (simp add: newPasteCoalescer_def withheld_def coalescer_ok_def)
next
  case (run_scan c given passed data c' out)
  then show ?case using Scan_lossless [of c data c' out] by auto
next
  case (run_flush c given passed c' out)
  then show ?case by (auto simp: flushFires_def withheld_def coalescer_ok_def split: if_splits)
next
  case (run_safety c given passed c' out)
  then show ?case by (auto simp: safetyFires_def withheld_def coalescer_ok_def split: if_splits)
next
  case (run_end c given passed c' out fin)
  then show ?case by (auto simp: EndBatch_def withheld_def coalescer_ok_def split: if_splits)
next
  case (run_close c given passed c' taken)
  then show ?case by (auto simp: CloseAndTakeHeld_def withheld_def coalescer_ok_def)
qed

section \<open>A paste is handed on in one piece\<close>

abbreviation "openMark \<equiv> BracketedPasteOpenMarker"
abbreviation "closeMark \<equiv> BracketedPasteCloseMarker"

lemma marker_length [simp]: "length openMark = 6" "length closeMark = 6"
  by (simp_all add: BracketedPasteOpenMarker_def BracketedPasteCloseMarker_def)

text \<open>The longest tail that can still become an opening marker.\<close>

lemma longestPrefix_match:
  "n \<le> length data \<Longrightarrow> drop (length data - longestPrefix data n) data = take (longestPrefix data n) openMark"
  by (induction n) auto

lemma longestPrefix_max:
  "k \<le> n \<Longrightarrow> n \<le> length data \<Longrightarrow> drop (length data - k) data = take k openMark \<Longrightarrow> k \<le> longestPrefix data n"
proof (induction n)
  case (Suc n)
  then show ?case by (cases "k = Suc n") (auto simp: le_Suc_eq)
qed simp

lemma trailing_max:
  assumes "data = before @ s" "strict_prefix s openMark"
  shows "length s \<le> trailingOpenPrefixLen data"
proof -
  have s: "length s < 6" "s = take (length s) openMark"
    using prefix_length_less [OF assms(2)] assms(2) by (simp, metis append_eq_conv_conj prefix_def strict_prefix_def)
  have "drop (length data - length s) data = take (length s) openMark" using assms(1) s(2) by simp
  then show ?thesis
    unfolding trailingOpenPrefixLen_def using longestPrefix_max [of "length s" "min (6 - 1) (length data)" data] s(1) assms(1)
    by simp
qed

lemma trailing_match:
  "drop (length data - trailingOpenPrefixLen data) data = take (trailingOpenPrefixLen data) openMark"
  unfolding trailingOpenPrefixLen_def by (rule longestPrefix_match) simp

text \<open>
  The states along a stream \<open>pre @ paste @ post\<close>: before the opening marker is complete, with
  the longest possible start of it withheld, and inside the paste.
\<close>

definition waiting :: "byte list \<Rightarrow> coalescer \<Rightarrow> bool" where
  "waiting x c \<longleftrightarrow> \<not> buffering c \<and> buf c = [] \<and> (\<exists>before. x = before @ held c) \<and> strict_prefix (held c) openMark \<and>
     (\<forall>before s. x = before @ s \<longrightarrow> strict_prefix s openMark \<longrightarrow> length s \<le> length (held c))"

definition paste :: "byte list \<Rightarrow> byte list" where
  "paste body = openMark @ body @ closeMark"

definition framed :: "byte list \<Rightarrow> byte list \<Rightarrow> bool" where
  "framed pre body \<longleftrightarrow> bytesIndex openMark (pre @ openMark) = Some (length pre) \<and>
     bytesIndex closeMark (paste body) = Some (6 + length body) \<and> length (paste body) \<le> maxPasteBuffer"

lemma scan_waiting:
  assumes "\<not> buffering c" "buf c = []" "held c = []" "bytesIndex openMark data = None"
    "\<forall>before s. x = before @ s \<longrightarrow> strict_prefix s openMark \<longrightarrow> length s \<le> length data"
    "x = before @ data"
  shows "waiting x (fst (scan data c))"
proof -
  define p where "p = trailingOpenPrefixLen data"
  have p: "p < 6" "p \<le> length data" "drop (length data - p) data = take p openMark"
    using trailing_lt trailing_match by (auto simp: p_def)
  have sp: "strict_prefix (take p openMark) openMark" using p(1)
    by (metis append_take_drop_id marker_length(1) length_take less_irrefl min.absorb2 less_imp_le_nat prefixI strict_prefix_def)
  have h: "held (fst (scan data c)) = take p openMark" "\<not> buffering (fst (scan data c))" "buf (fst (scan data c)) = []"
    using assms(1-4) p(2,3) by (auto simp: scan.simps [of data c] p_def [symmetric] Let_def startFlushTimer_def)
  have "\<exists>b. x = b @ take p openMark" using assms(6) p(3) append_take_drop_id [of "length data - p" data] by (metis append.assoc)
  moreover have "length s \<le> p" if s: "x = b @ s" "strict_prefix s openMark" for b s
  proof -
    have "length s \<le> length data" using assms(5) s by blast
    then have "\<exists>b'. data = b' @ s" using s(1) assms(6) by (auto simp: append_eq_append_conv2)
    then show ?thesis using trailing_max s(2) by (auto simp: p_def)
  qed
  ultimately show ?thesis using h p(1) sp by (auto simp: waiting_def)
qed

lemma process_paste:
  assumes "framed pre body" "buffering c" "length (buf c) < length (paste body)" "buf c @ data = w"
  shows "strict_prefix w (paste body) \<Longrightarrow> process data c = (c\<lparr>buf := w\<rparr>, [])"
    "prefix (paste body) w \<Longrightarrow> \<exists>c' out. process data c = (c', paste body # out)"
proof -
  have idx: "bytesIndex closeMark (paste body) = Some (6 + length body)" and len: "length (paste body) \<le> maxPasteBuffer"
    using assms(1) by (auto simp: framed_def)
  have plen: "length (paste body) = 12 + length body" by (simp add: paste_def)
  have p: "process data c = (case bytesIndex closeMark (drop (searchStart c) w) of
          None \<Rightarrow> if maxPasteBuffer < length w then (resetBuffering c, [w]) else (c\<lparr>buf := w\<rparr>, [])
        | Some i \<Rightarrow> (case scan (drop (searchStart c + i + 6) w) (resetBuffering c) of
            (c', out) \<Rightarrow> (c', take (searchStart c + i + 6) w # out)))"
    unfolding process.simps [of data c] assms(4) Let_def marker_length using assms(2) by (simp only: if_True)
  {
    assume sp: "strict_prefix w (paste body)"
    then obtain v where v: "paste body = w @ v" "v \<noteq> []" by (auto simp: strict_prefix_def prefix_def)
    then have lw: "length w < 12 + length body" using plen by (metis length_append length_greater_0_conv less_add_same_cancel1)
    have "bytesIndex closeMark w = None"
      by (rule bytesIndex_before [of closeMark w v "6 + length body"]) (use idx v lw in auto)
    then show "process data c = (c\<lparr>buf := w\<rparr>, [])" using p lw len plen by (simp add: bytesIndex_None_drop)
  }
  assume "prefix (paste body) w"
  then obtain v where v: "w = paste body @ v" by (auto simp: prefix_def)
  have s: "searchStart c \<le> 6 + length body" using assms(3) plen by (auto simp: searchStart_def)
  have "bytesIndex closeMark w = Some (6 + length body)" using bytesIndex_append [OF idx] v by simp
  then have i: "bytesIndex closeMark (drop (searchStart c) w) = Some (6 + length body - searchStart c)"
    using bytesIndex_drop s by blast
  have "take (searchStart c + (6 + length body - searchStart c) + 6) w = paste body" using s plen v by simp
  then show "\<exists>c' out. process data c = (c', paste body # out)" unfolding p i by (simp split: prod.split)
qed

definition phase :: "byte list \<Rightarrow> byte list \<Rightarrow> byte list \<Rightarrow> coalescer \<Rightarrow> bool" where
  "phase pre body x c \<longleftrightarrow>
     strict_prefix x (pre @ openMark) \<and> waiting x c \<or>
     (\<exists>w. x = pre @ w \<and> strict_prefix w (paste body) \<and> buffering c \<and> held c = [] \<and> buf c = w)"

lemma phase_scan:
  assumes "framed pre body" "\<not> buffering c" "buf c = []" "held c = []" "x = before @ data" "data \<noteq> []" "length before \<le> length pre"
    "\<forall>b s. x = b @ s \<longrightarrow> strict_prefix s openMark \<longrightarrow> length s \<le> length data" "x @ rest = pre @ paste body @ post"
  shows "paste body \<in> set (snd (scan data c)) \<or> phase pre body x (fst (scan data c))"
proof (cases "length x < length pre + 6")
  case True
  have "prefix x (pre @ paste body @ post)" using assms(9) by (metis prefixI)
  moreover have "prefix (pre @ openMark) (pre @ paste body @ post)" by (simp add: paste_def)
  ultimately have "strict_prefix x (pre @ openMark)"
    using True prefix_length_prefix [of x _ "pre @ openMark"] by (auto simp: strict_prefix_def)
  moreover from this obtain v where v: "pre @ openMark = x @ v" by (auto simp: strict_prefix_def prefix_def)
  have "bytesIndex openMark (x @ v) = Some (length pre)" using assms(1) v by (simp add: framed_def)
  then have "bytesIndex openMark x = None" by (rule bytesIndex_before) (use True in simp)
  then have "bytesIndex openMark data = None" using assms(5) bytesIndex_None_drop [of openMark x "length before"] by simp
  then have "waiting x (fst (scan data c))" using scan_waiting [OF assms(2-4) _ assms(8,5)] by blast
  ultimately show ?thesis by (simp add: phase_def)
next
  case False
  obtain w where w: "x = pre @ w" "w @ rest = paste body @ post"
    using False assms(9) by (auto simp: append_eq_append_conv2)
  have ow: "prefix openMark w" using False w
    by (metis append.assoc length_append marker_length(1) not_less add_le_cancel_left paste_def prefixI prefix_length_prefix)
  have "bytesIndex openMark x = Some (length pre)"
    using ow w(1) bytesIndex_append [of openMark "pre @ openMark" "length pre"] assms(1) by (auto simp: prefix_def framed_def)
  then have idx: "bytesIndex openMark data = Some (length pre - length before)"
    using bytesIndex_drop [of openMark x "length pre" "length before"] assms(5,7) by simp
  have dw: "drop (length pre - length before) data = w"
    using w(1) assms(5,7) by (metis append_eq_conv_conj drop_append drop_eq_Nil append_Nil)
  let ?c = "startSafetyTimer (c\<lparr>buffering := True\<rparr>)"
  have c: "buffering ?c" "buf ?c = []" "held ?c = []" using assms(3,4) by (simp_all add: startSafetyTimer_def)
  have sc: "scan data c = (case process w ?c of (c', out) \<Rightarrow> (c', (if 0 < length pre - length before then [take (length pre - length before) data] else []) @ out))"
    using assms(6) idx dw by (simp add: scan.simps [of data c])
  have "prefix w (paste body @ post)" "prefix (paste body) (paste body @ post)" using w(2) by (metis prefixI)+
  then have "strict_prefix w (paste body) \<or> prefix (paste body) w"
    by (metis prefix_same_cases strict_prefix_def)
  then show ?thesis
  proof
    assume sp: "strict_prefix w (paste body)"
    have "process w ?c = (?c\<lparr>buf := w\<rparr>, [])"
      using process_paste(1) [OF assms(1) c(1) _ _ sp, of w] c(2) by (simp add: paste_def)
    then show ?thesis using sc w(1) sp c by (auto simp: phase_def)
  next
    assume "prefix (paste body) w"
    then obtain c' out where "process w ?c = (c', paste body # out)"
      using process_paste(2) [OF assms(1) c(1), of w w] c(2) by (auto simp: paste_def)
    then show ?thesis using sc by simp
  qed
qed

lemma phase_step:
  assumes "framed pre body" "phase pre body x c" "d \<noteq> []" "x @ d @ rest = pre @ paste body @ post"
  shows "paste body \<in> set (snd (Scan d c)) \<or> phase pre body (x @ d) (fst (Scan d c))"
  using assms(2) unfolding phase_def [of pre body x c]
proof
  assume w: "strict_prefix x (pre @ openMark) \<and> waiting x c"
  then obtain before where b: "x = before @ held c" by (auto simp: waiting_def)
  define c0 where "c0 = (if held c = [] then c else c\<lparr>flushTimer := False, held := []\<rparr>)"
  have c0: "\<not> buffering c0" "buf c0 = []" "held c0 = []" using w by (auto simp: c0_def waiting_def)
  have sc: "Scan d c = scan (held c @ d) c0"
    using assms(3) c0 by (auto simp: Scan_def c0_def process.simps [of _ c] process.simps [of _ "c\<lparr>flushTimer := False, held := []\<rparr>"])
  have lenb: "length before \<le> length pre"
  proof (cases "length x \<le> length pre")
    case False
    then obtain s where s: "x = pre @ s" "strict_prefix s openMark"
      using w by (auto simp: strict_prefix_def prefix_def append_eq_append_conv2)
    then have "length s \<le> length (held c)" using w by (auto simp: waiting_def)
    moreover have "length before + length (held c) = length pre + length s" using s(1) b by (metis length_append)
    ultimately show ?thesis by linarith
  qed (use b in auto)
  have longest: "length s \<le> length (held c @ d)" if s: "x @ d = b' @ s" "strict_prefix s openMark" for b' s
  proof (rule ccontr)
    assume "\<not> length s \<le> length (held c @ d)"
    then obtain s' where s': "s = s' @ d" "x = b' @ s'" using s(1) by (auto simp: append_eq_append_conv2)
    have "strict_prefix s' openMark" using s(2) s'(1) assms(3) by (auto simp: strict_prefix_def prefix_def)
    then have "length s' \<le> length (held c)" using w s'(2) by (auto simp: waiting_def)
    then show False using \<open>\<not> length s \<le> length (held c @ d)\<close> s'(1) by simp
  qed
  show ?thesis
    unfolding sc by (rule phase_scan [OF assms(1) c0, of _ before _ rest post]) (use b lenb longest assms(3,4) in auto)
next
  assume "\<exists>w. x = pre @ w \<and> strict_prefix w (paste body) \<and> buffering c \<and> held c = [] \<and> buf c = w"
  then obtain w where w: "x = pre @ w" "strict_prefix w (paste body)" "buffering c" "held c = []" "buf c = w" by blast
  have sc: "Scan d c = process d c" using assms(3) w(4) by (simp add: Scan_def)
  have lt: "length (buf c) < length (paste body)" using w(2,5) prefix_length_less by blast
  have "(w @ d) @ rest = paste body @ post" using assms(4) w(1) by simp
  then have "strict_prefix (w @ d) (paste body) \<or> prefix (paste body) (w @ d)"
    by (metis prefixI prefix_same_cases strict_prefix_def)
  then show ?thesis
  proof
    assume sp: "strict_prefix (w @ d) (paste body)"
    have "process d c = (c\<lparr>buf := w @ d\<rparr>, [])" using process_paste(1) [OF assms(1) w(3) lt _ sp] w(5) by blast
    then show ?thesis using sc w sp by (auto simp: phase_def)
  next
    assume "prefix (paste body) (w @ d)"
    then obtain c' out where "process d c = (c', paste body # out)" using process_paste(2) [OF assms(1) w(3) lt] w(5) by blast
    then show ?thesis using sc by simp
  qed
qed

text \<open>The reads of a stream, one after the other; the coalescer keeps the contract of a stage.\<close>

abbreviation feed :: "byte list list \<Rightarrow> coalescer \<Rightarrow> coalescer \<times> byte list list" where
  "feed \<equiv> feedAll Scan"

interpretation coalesce: byte_stage Scan withheld "\<lambda>chunk. chunk" coalescer_ok
  using Scan_lossless by unfold_locales auto

lemma feed_phase:
  assumes "framed pre body"
  shows "phase pre body x c \<Longrightarrow> x @ concat ds = pre @ paste body @ post \<Longrightarrow> paste body \<in> set (snd (feed ds c))"
proof (induction ds arbitrary: x c)
  case Nil
  then have "length x = length pre + length (paste body) + length post" by simp
  moreover have "length x < length pre + length (paste body)"
    using Nil.prems(1) by (auto simp: phase_def paste_def dest!: prefix_length_less)
  ultimately show ?case by simp
next
  case (Cons d ds)
  show ?case
  proof (cases "d = []")
    case True
    then show ?thesis using Cons by (auto simp: Scan_def split: prod.split)
  next
    case False
    have "paste body \<in> set (snd (Scan d c)) \<or> phase pre body (x @ d) (fst (Scan d c))"
      using phase_step [OF assms Cons.prems(1) False] Cons.prems(2) by simp
    then show ?thesis using Cons.IH [of "x @ d" "fst (Scan d c)"] Cons.prems(2) by (auto split: prod.split)
  qed
qed

lemma phase_new: "phase pre body [] newPasteCoalescer"
  by (auto simp: phase_def waiting_def newPasteCoalescer_def strict_prefix_def BracketedPasteOpenMarker_def)

section \<open>Properties\<close>

text \<open>
  The coalescer loses, repeats and reorders no input byte: in every interleaving of reads,
  timers, batch ends and closes, what it passed on followed by what it withholds is exactly what it
  was given, and it withholds at most the paste limit.
\<close>

theorem coalescer_lossless:
  assumes "coalescer_run c given passed"
  shows "passed @ withheld c = given \<and> length (withheld c) < maxPasteBuffer + 6"
  using coalescer_run_inv [OF assms] by (auto simp: coalescer_ok_def withheld_def)

theorem coalescer_lossless_witness:
  "\<exists>c passed. coalescer_run c [0x61, 0x1B] passed \<and> passed @ withheld c = [0x61, 0x1B] \<and> withheld c = [0x1B]"
proof -
  have s: "Scan [0x61, 0x1B] newPasteCoalescer = (newPasteCoalescer\<lparr>held := [0x1B], flushTimer := True\<rparr>, [[0x61]])"
    by code_simp
  have "coalescer_run (newPasteCoalescer\<lparr>held := [0x1B], flushTimer := True\<rparr>) ([] @ [0x61, 0x1B]) ([] @ concat [[0x61]])"
    by (rule coalescer_run.run_scan [OF coalescer_run.run_new s])
  then show ?thesis using coalescer_lossless by (fastforce simp: withheld_def newPasteCoalescer_def)
qed

text \<open>
  A bracketed paste that arrives cut into any pieces, even inside its markers, is emitted in
  one piece: for a stream whose first opening marker starts the paste and whose body holds no
  closing marker, every way to split the stream into reads gives the whole paste as one chunk.
\<close>

theorem split_paste_in_one_piece:
  assumes "concat reads = pre @ paste body @ post" "framed pre body"
  shows "paste body \<in> set (snd (feed reads newPasteCoalescer))"
  using feed_phase [OF assms(2) phase_new] assms(1) by simp

theorem split_paste_in_one_piece_witness:
  "paste [0x68, 0x69] \<in> set (snd (feed [[0x61, 0x1B], [0x5B, 0x32, 0x30, 0x30], [0x7E, 0x68], [0x69, 0x1B, 0x5B],
      [0x32, 0x30, 0x31, 0x7E, 0x62]] newPasteCoalescer))"
  by (rule split_paste_in_one_piece [of _ "[0x61]" "[0x68, 0x69]" "[0x62]"])
    (simp_all add: paste_def framed_def BracketedPasteOpenMarker_def BracketedPasteCloseMarker_def maxPasteBuffer_def)

end
