(* ===== verification/Kitty_Key.thy ===== *)
theory Kitty_Key
  imports Paste_Coalescer
begin

text \<open>
  Key events of the kitty keyboard protocol: \<^verbatim>\<open>internal/usecase/keys/kittykey/kittykey.go\<close>.
  Decoding of \<^verbatim>\<open>CSI ... u\<close> sequences, re-encoding for a receiver's flags, and the rewriting of a
  whole input. The Unicode upper-case mapping is the argument \<open>toUpper\<close>.
\<close>

section \<open>Flags and events\<close>

definition FlagDisambiguate :: int where "FlagDisambiguate = 1"
definition FlagReportEvents :: int where "FlagReportEvents = 2"
definition FlagAlternateKeys :: int where "FlagAlternateKeys = 4"
definition FlagAllKeys :: int where "FlagAllKeys = 8"
definition FlagText :: int where "FlagText = 16"
definition OuterFlags :: int where "OuterFlags = 5"
definition RequestFlags :: int where "RequestFlags = 31"

definition ModShift :: int where "ModShift = 1"
definition ModAlt :: int where "ModAlt = 2"
definition ModCtrl :: int where "ModCtrl = 4"
definition modLocks :: int where "modLocks = 192"

definition KeyEscape :: rune where "KeyEscape = 27"
definition KeyEnter :: rune where "KeyEnter = 13"
definition KeyTab :: rune where "KeyTab = 9"
definition KeyBackspace :: rune where "KeyBackspace = 127"

lemmas kitty_consts = FlagDisambiguate_def FlagReportEvents_def FlagAlternateKeys_def FlagAllKeys_def FlagText_def
  OuterFlags_def RequestFlags_def ModShift_def ModAlt_def ModCtrl_def modLocks_def
  KeyEscape_def KeyEnter_def KeyTab_def KeyBackspace_def

record event =
  evCode :: rune
  evShifted :: rune
  evBase :: rune
  evMods :: int
  evRelease :: bool

record fullKey =
  fkEvent :: event
  fkLocks :: int
  fkText :: "rune list"

text \<open>The top-row digit of a key, base layout first.\<close>

definition Digit :: "event \<Rightarrow> int option" where
  "Digit e = (if 49 \<le> evBase e \<and> evBase e \<le> 57 then Some (evBase e - 48)
     else if 49 \<le> evCode e \<and> evCode e \<le> 57 then Some (evCode e - 48) else None)"

definition maxSeq :: nat where "maxSeq = 64"

section \<open>Decoding\<close>

fun splitByte :: "byte \<Rightarrow> byte list \<Rightarrow> byte list list" where
  "splitByte sep [] = [[]]"
| "splitByte sep (b # bs) = (if b = sep then [] # splitByte sep bs
     else (case splitByte sep bs of f # fs \<Rightarrow> (b # f) # fs | [] \<Rightarrow> [[b]]))"

definition isDigit :: "byte \<Rightarrow> bool" where
  "isDigit c = (0x30 \<le> c \<and> c \<le> 0x39)"

fun atoiFrom :: "int \<Rightarrow> byte list \<Rightarrow> int option" where
  "atoiFrom n [] = Some n"
| "atoiFrom n (c # cs) = (if isDigit c then atoiFrom (n * 10 + (uint c - 48)) cs else None)"

definition atoi :: "byte list \<Rightarrow> int option" where
  "atoi b = (if b = [] \<or> 7 < length b then None else atoiFrom 0 b)"

definition eventPress :: int where "eventPress = 1"
definition eventRelease :: int where "eventRelease = 3"

definition parseMods :: "byte list \<Rightarrow> (int \<times> int) option" where
  "parseMods field =
     (let sub = splitByte 0x3A field in
      if 2 < length sub then None
      else (case atoi (sub ! 0) of
          None \<Rightarrow> None
        | Some encoded \<Rightarrow>
            if encoded < 1 then None
            else if length sub = 2 \<and> sub ! 1 \<noteq> [] then
              (case atoi (sub ! 1) of
                 None \<Rightarrow> None
               | Some ev \<Rightarrow> if ev < eventPress \<or> eventRelease < ev then None else Some (encoded - 1, ev))
            else Some (encoded - 1, eventPress)))"

text \<open>An optional numeric subfield: zero when absent or empty.\<close>

definition subfield :: "nat \<Rightarrow> byte list list \<Rightarrow> int option" where
  "subfield i fs = (if i < length fs \<and> fs ! i \<noteq> [] then atoi (fs ! i) else Some 0)"

fun textRunes :: "byte list list \<Rightarrow> rune list option" where
  "textRunes [] = Some []"
| "textRunes (f # fs) =
     (case atoi f of
        None \<Rightarrow> None
      | Some r \<Rightarrow> map_option (\<lambda>rs. if 0x20 \<le> r \<and> (r < 0x7F \<or> 0x9F < r) \<and> ValidRune r then r # rs else rs) (textRunes fs))"

definition parseParams :: "byte list \<Rightarrow> fullKey option" where
  "parseParams params =
     (let fs = splitByte 0x3B params; keys = splitByte 0x3A (fs ! 0) in
      if 3 < length fs \<or> 3 < length keys then None
      else (case atoi (keys ! 0) of None \<Rightarrow> None | Some code \<Rightarrow>
        (case subfield 1 keys of None \<Rightarrow> None | Some shifted \<Rightarrow>
        (case subfield 2 keys of None \<Rightarrow> None | Some base \<Rightarrow>
        (case (if 1 < length fs \<and> fs ! 1 \<noteq> [] then parseMods (fs ! 1) else Some (0, eventPress)) of
           None \<Rightarrow> None
         | Some (mods, ev) \<Rightarrow>
        (case (if 2 < length fs \<and> fs ! 2 \<noteq> [] then textRunes (splitByte 0x3A (fs ! 2)) else Some []) of
           None \<Rightarrow> None
         | Some txt \<Rightarrow> Some
            \<lparr>fkEvent = \<lparr>evCode = code, evShifted = shifted, evBase = base, evMods = mods AND NOT modLocks,
               evRelease = (ev = eventRelease)\<rparr>,
             fkLocks = mods AND modLocks, fkText = txt\<rparr>))))))"

datatype parseResult = Parsed event nat | Partial | NotKey

definition isParam :: "byte \<Rightarrow> bool" where
  "isParam b = (isDigit b \<or> b = 0x3B \<or> b = 0x3A)"

text \<open>The loop over the parameter bytes from index \<open>i\<close>, with those read so far.\<close>

fun parseFrom :: "nat \<Rightarrow> byte list \<Rightarrow> byte list \<Rightarrow> parseResult" where
  "parseFrom i params [] = (if i < maxSeq then Partial else NotKey)"
| "parseFrom i params (b # bs) =
     (if maxSeq \<le> i then NotKey
      else if isParam b then parseFrom (Suc i) (params @ [b]) bs
      else if b \<noteq> 0x75 \<or> i = 2 then NotKey
      else (case parseParams params of
          None \<Rightarrow> NotKey
        | Some key \<Rightarrow> if evCode (fkEvent key) = 0 then NotKey else Parsed (fkEvent key) (Suc i)))"

definition Parse :: "byte list \<Rightarrow> parseResult" where
  "Parse data =
     (if length data < 2 \<or> data ! 0 \<noteq> 0x1B \<or> data ! 1 \<noteq> 0x5B
      then if data = [0x1B] then Partial else NotKey
      else parseFrom 2 [] (drop 2 data))"

section \<open>Encoding\<close>

fun decNat :: "nat \<Rightarrow> byte list" where
  "decNat n = (if n < 10 then [of_nat (48 + n)] else decNat (n div 10) @ [of_nat (48 + n mod 10)])"

declare decNat.simps [simp del]

text \<open>\<^verbatim>\<open>strconv.AppendInt\<close> in base ten.\<close>

definition AppendInt :: "int \<Rightarrow> byte list" where
  "AppendInt n = (if n < 0 then 0x2D # decNat (nat (- n)) else decNat (nat n))"

definition hasFlag :: "int \<Rightarrow> int \<Rightarrow> bool" where
  "hasFlag flags flag = (flags AND flag \<noteq> 0)"

definition encodeCSIu :: "event \<Rightarrow> int \<Rightarrow> byte list" where
  "encodeCSIu ev flags =
     (let alternates =
            (if hasFlag flags FlagAlternateKeys \<and> (evShifted ev \<noteq> 0 \<or> evBase ev \<noteq> 0) then
               [0x3A] @ (if evShifted ev \<noteq> 0 then AppendInt (evShifted ev) else []) @
               (if evBase ev \<noteq> 0 then [0x3A] @ AppendInt (evBase ev) else [])
             else []);
          release = (evRelease ev \<and> hasFlag flags FlagReportEvents);
          mods = (if evMods ev \<noteq> 0 \<or> release then
               [0x3B] @ AppendInt (evMods ev + 1) @ (if release then [0x3A, 0x33] else [])
             else [])
      in [0x1B, 0x5B] @ AppendInt (evCode ev) @ alternates @ mods @ [0x75])"

definition ctrlByte :: "rune \<Rightarrow> byte option" where
  "ctrlByte r =
     (if 97 \<le> r \<and> r \<le> 122 then Some (byteOf (r - 97 + 1))
      else if 65 \<le> r \<and> r \<le> 90 then Some (byteOf (r - 65 + 1))
      else if r = 32 \<or> r = 64 \<or> r = 50 then Some 0x00
      else if r = 91 \<or> r = 51 then Some 0x1B
      else if r = 92 \<or> r = 52 then Some 0x1C
      else if r = 93 \<or> r = 53 then Some 0x1D
      else if r = 94 \<or> r = 54 \<or> r = 126 then Some 0x1E
      else if r = 95 \<or> r = 47 \<or> r = 55 \<or> r = 45 then Some 0x1F
      else if r = 56 \<or> r = 63 then Some 0x7F
      else None)"

definition legacyText :: "(rune \<Rightarrow> rune) \<Rightarrow> event \<Rightarrow> byte list" where
  "legacyText toUpper ev =
     (let r = (if hasFlag (evMods ev) ModShift then if evShifted ev \<noteq> 0 then evShifted ev else toUpper (evCode ev) else evCode ev) in
      if hasFlag (evMods ev) ModCtrl then
        (case ctrlByte r of
           Some c \<Rightarrow> [c]
         | None \<Rightarrow> (case ctrlByte (evBase ev) of Some c \<Rightarrow> [c] | None \<Rightarrow> AppendRune r))
      else AppendRune r)"

text \<open>The keypad table; a cursor or tilde key is written without its leading escape.\<close>

definition keypadText :: "(rune \<times> string) list" where
  "keypadText =
     [(57399, ''0''), (57400, ''1''), (57401, ''2''), (57402, ''3''), (57403, ''4''), (57404, ''5''), (57405, ''6''),
      (57406, ''7''), (57407, ''8''), (57408, ''9''), (57409, ''.''), (57410, ''/''), (57411, ''*''), (57412, ''-''),
      (57413, ''+''), (57415, ''=''), (57416, '','')]"

definition keypadKeys :: "(rune \<times> string) list" where
  "keypadKeys =
     [(57417, ''[D''), (57418, ''[C''), (57419, ''[A''), (57420, ''[B''), (57421, ''[5~''), (57422, ''[6~''), (57423, ''[H''),
      (57424, ''[F''), (57425, ''[2~''), (57426, ''[3~''), (57427, ''[E'')]"

definition keypadLegacy :: "rune \<Rightarrow> byte list option" where
  "keypadLegacy code =
     (if code = 57414 then Some [0x0D]
      else (case map_of keypadText code of
          Some s \<Rightarrow> Some (asciiBytes s)
        | None \<Rightarrow> map_option (\<lambda>s. 0x1B # asciiBytes s) (map_of keypadKeys code)))"

definition modifiedCSI :: "byte list \<Rightarrow> int \<Rightarrow> byte list" where
  "modifiedCSI sequence mods =
     (let m = AppendInt (mods + 1); final = last sequence in
      if final = 0x7E then butlast sequence @ [0x3B] @ m @ [0x7E]
      else [0x1B, 0x5B, 0x31, 0x3B] @ m @ [final])"

text \<open>The body of a key before the escape of Alt: a final sequence, no form, or a body.\<close>

datatype legacyBody = Final "byte list" | NoForm | Body "byte list"

definition legacyKey :: "(rune \<Rightarrow> rune) \<Rightarrow> event \<Rightarrow> legacyBody" where
  "legacyKey toUpper ev =
     (if evCode ev = KeyEscape then Body [0x1B]
      else if evCode ev = KeyEnter then Body [0x0D]
      else if evCode ev = KeyTab then Body (if hasFlag (evMods ev) ModShift then [0x1B, 0x5B, 0x5A] else [0x09])
      else if evCode ev = KeyBackspace then Body (if hasFlag (evMods ev) ModCtrl then [0x08] else [0x7F])
      else (case keypadLegacy (evCode ev) of
          Some sequence \<Rightarrow>
            if evMods ev AND NOT ModShift \<noteq> 0 \<and> 2 < length sequence \<and> sequence ! 0 = 0x1B then Final (modifiedCSI sequence (evMods ev))
            else Body sequence
        | None \<Rightarrow>
            if evCode ev < 0x20 \<or> 0xE000 \<le> evCode ev \<and> evCode ev \<le> 0xF8FF \<or> \<not> ValidRune (evCode ev) then NoForm
            else Body (legacyText toUpper ev)))"

definition encodeLegacy :: "(rune \<Rightarrow> rune) \<Rightarrow> event \<Rightarrow> byte list" where
  "encodeLegacy toUpper ev =
     (if evMods ev AND NOT 7 \<noteq> 0 then []
      else (case legacyKey toUpper ev of
          Final bs \<Rightarrow> bs
        | NoForm \<Rightarrow> []
        | Body body \<Rightarrow> if hasFlag (evMods ev) ModAlt then 0x1B # body else body))"

definition encodeKey :: "(rune \<Rightarrow> rune) \<Rightarrow> event \<Rightarrow> int \<Rightarrow> byte list" where
  "encodeKey toUpper ev flags =
     (if evRelease ev \<and> \<not> hasFlag flags FlagReportEvents then []
      else if hasFlag flags FlagDisambiguate \<or> hasFlag flags FlagAllKeys then encodeCSIu ev flags
      else encodeLegacy toUpper ev)"

record functionKey =
  fnFinal :: byte
  fnMods :: "byte list"

fun functionKeyFrom :: "nat \<Rightarrow> byte list \<Rightarrow> byte list \<Rightarrow> (functionKey \<times> nat) option" where
  "functionKeyFrom i params [] = None"
| "functionKeyFrom i params (b # bs) =
     (if maxSeq \<le> i then None
      else if isParam b then functionKeyFrom (Suc i) (params @ [b]) bs
      else if b \<noteq> 0x50 \<and> b \<noteq> 0x51 \<and> b \<noteq> 0x53 then None
      else if params \<noteq> [] \<and> (length params < 3 \<or> params ! 0 \<noteq> 0x31 \<or> params ! 1 \<noteq> 0x3B) then None
      else Some (\<lparr>fnFinal = b, fnMods = params\<rparr>, Suc i))"

definition parseFunctionKey :: "byte list \<Rightarrow> (functionKey \<times> nat) option" where
  "parseFunctionKey data = functionKeyFrom 2 [] (drop 2 data)"

definition encodeFunctionKey :: "functionKey \<Rightarrow> int \<Rightarrow> byte list" where
  "encodeFunctionKey f flags =
     (if fnMods f = [] \<and> \<not> hasFlag flags FlagDisambiguate then [0x1B, 0x4F, fnFinal f]
      else [0x1B, 0x5B] @ fnMods f @ [fnFinal f])"

section \<open>Bounds of a decoded sequence\<close>

lemma parseFrom_bounds:
  "parseFrom i params data = Parsed ev n \<Longrightarrow> i < n \<and> n \<le> i + length data \<and> n \<le> maxSeq \<and> 0 < n - i"
  by (induction i params data rule: parseFrom.induct) (auto split: if_splits option.splits)

lemma Parse_bounds: "Parse data = Parsed ev n \<Longrightarrow> 3 \<le> n \<and> n \<le> length data \<and> n \<le> maxSeq \<and> data ! 0 = 0x1B \<and> data ! 1 = 0x5B"
  using parseFrom_bounds [of 2 "[]" "drop 2 data" ev n] by (auto simp: Parse_def split: if_splits)

lemma functionKeyFrom_bounds: "functionKeyFrom i params data = Some (f, n) \<Longrightarrow> i < n \<and> n \<le> i + length data"
  by (induction i params data rule: functionKeyFrom.induct) (auto split: if_splits)

lemma parseFunctionKey_bounds: "parseFunctionKey data = Some (f, n) \<Longrightarrow> 3 \<le> n"
  using functionKeyFrom_bounds [of 2 "[]" "drop 2 data" f n] by (simp add: parseFunctionKey_def)

text \<open>Once a sequence is decided, later bytes change nothing.\<close>

lemma parseFrom_append: "parseFrom i params data \<noteq> Partial \<Longrightarrow> parseFrom i params (data @ later) = parseFrom i params data"
proof (induction i params data rule: parseFrom.induct)
  case (1 i params)
  then show ?case by (cases later) (auto split: if_splits)
qed (auto split: if_splits)

lemma Parse_append: "data \<noteq> [] \<Longrightarrow> Parse data \<noteq> Partial \<Longrightarrow> Parse (data @ later) = Parse data"
proof -
  assume ne: "data \<noteq> []" and np: "Parse data \<noteq> Partial"
  obtain a ds where d: "data = a # ds" using ne by (cases data) auto
  show ?thesis
  proof (cases ds)
    case Nil
    then show ?thesis using np d by (auto simp: Parse_def split: if_splits)
  next
    case (Cons b es)
    then show ?thesis using np d parseFrom_append [of 2 "[]" es later] by (auto simp: Parse_def)
  qed
qed

section \<open>Rewriting an input\<close>

function Translate :: "(rune \<Rightarrow> rune) \<Rightarrow> int \<Rightarrow> byte list \<Rightarrow> byte list" where
  "Translate toUpper flags data =
     (if length data < 3 then data
      else if data ! 0 \<noteq> 0x1B \<or> data ! 1 \<noteq> 0x5B then hd data # Translate toUpper flags (tl data)
      else if prefix BracketedPasteOpenMarker data then
        (case bytesIndex BracketedPasteCloseMarker data of
           None \<Rightarrow> data
         | Some pasteEnd \<Rightarrow> take (pasteEnd + 6) data @ Translate toUpper flags (drop (pasteEnd + 6) data))
      else (case Parse data of
          Parsed ev n \<Rightarrow> encodeKey toUpper ev flags @ Translate toUpper flags (drop n data)
        | _ \<Rightarrow>
          (case parseFunctionKey data of
             Some (f, n) \<Rightarrow> encodeFunctionKey f flags @ Translate toUpper flags (drop n data)
           | None \<Rightarrow> hd data # Translate toUpper flags (tl data))))"
  by pat_completeness auto
termination
  by (relation "measure (\<lambda>(_, _, data). length data)") (auto dest!: Parse_bounds parseFunctionKey_bounds)

declare Translate.simps [simp del]

section \<open>Numbers and fields\<close>

lemma splitByte_ne: "splitByte sep xs \<noteq> []"
  by (induction xs) (auto split: list.splits)

lemma splitByte_single: "sep \<notin> set xs \<Longrightarrow> splitByte sep xs = [xs]"
  by (induction xs) auto

lemma splitByte_cons: "sep \<notin> set xs \<Longrightarrow> splitByte sep (xs @ sep # ys) = xs # splitByte sep ys"
  by (induction xs) auto

lemma atoiFrom_append: "atoiFrom n (xs @ [c]) = (case atoiFrom n xs of None \<Rightarrow> None | Some m \<Rightarrow> atoiFrom m [c])"
  by (induction xs arbitrary: n) auto

lemma digit_byte:
  assumes "d < 10"
  shows "isDigit (of_nat (48 + d))" "uint (of_nat (48 + d) :: byte) = 48 + int d"
proof -
  show u: "uint (of_nat (48 + d) :: byte) = 48 + int d"
    using assms unat_of_nat [where 'a = 8, of "48 + d"] by (simp add: uint_nat del: of_nat_add)
  then show "isDigit (of_nat (48 + d))" using assms by (simp add: isDigit_def word_le_def)
qed

lemma decNat_digits: "\<forall>c \<in> set (decNat n). isDigit c"
proof (induction n rule: decNat.induct)
  case (1 n)
  then show ?case using digit_byte(1) [of n] digit_byte(1) [of "n mod 10"] by (subst decNat.simps) (auto simp del: of_nat_add)
qed

lemma decNat_value: "atoiFrom 0 (decNat n) = Some (int n)"
proof (induction n rule: decNat.induct)
  case (1 n)
  show ?case
  proof (cases "n < 10")
    case True
    then show ?thesis using digit_byte [of n] by (subst decNat.simps) (simp del: of_nat_add)
  next
    case False
    have "int (n div 10) * 10 + int (n mod 10) = int n"
      by (metis div_mult_mod_eq of_nat_add of_nat_mult of_nat_numeral)
    then show ?thesis using False 1 digit_byte [of "n mod 10"]
      by (subst decNat.simps) (simp add: atoiFrom_append del: of_nat_add)
  qed
qed

lemma decNat_length: "n < 10 ^ k \<Longrightarrow> 0 < k \<Longrightarrow> length (decNat n) \<le> k"
proof (induction n arbitrary: k rule: decNat.induct)
  case (1 n)
  show ?case
  proof (cases "n < 10")
    case False
    then obtain j where j: "k = Suc j" "0 < j" using 1 by (cases k) (auto, metis gr0I power_0 mult.right_neutral)
    then have "n div 10 < 10 ^ j" using 1 by (simp add: less_mult_imp_div_less mult.commute)
    then show ?thesis using False 1 j by (subst decNat.simps) simp
  qed (use 1 in \<open>subst decNat.simps, simp\<close>)
qed

lemma decNat_nonempty: "decNat n \<noteq> []"
  by (subst decNat.simps) simp

definition fits :: "int \<Rightarrow> bool" where
  "fits n = (0 \<le> n \<and> n < 10000000)"

lemma AppendInt_fits:
  assumes "fits n"
  shows "atoi (AppendInt n) = Some n" "\<forall>c \<in> set (AppendInt n). isDigit c" "AppendInt n \<noteq> []" "length (AppendInt n) \<le> 7"
proof -
  have n: "nat n < 10 ^ 7" "\<not> n < 0" using assms by (auto simp: fits_def)
  have l: "length (decNat (nat n)) \<le> 7" using decNat_length [OF n(1)] by simp
  show "atoi (AppendInt n) = Some n" using n l decNat_value [of "nat n"] decNat_nonempty [of "nat n"]
    by (simp add: AppendInt_def atoi_def)
  show "\<forall>c \<in> set (AppendInt n). isDigit c" "AppendInt n \<noteq> []" "length (AppendInt n) \<le> 7"
    using n l decNat_digits decNat_nonempty by (auto simp: AppendInt_def)
qed

lemma no_separators: "\<forall>c \<in> set xs. isDigit c \<Longrightarrow> 0x3A \<notin> set xs \<and> 0x3B \<notin> set xs"
  by (force simp: isDigit_def)

lemma AppendInt_no_separators: "fits n \<Longrightarrow> 0x3A \<notin> set (AppendInt n)" "fits n \<Longrightarrow> 0x3B \<notin> set (AppendInt n)"
  using no_separators AppendInt_fits(2) by blast+

lemmas number_facts = AppendInt_fits AppendInt_no_separators

section \<open>Round trip\<close>

definition event_ok :: "event \<Rightarrow> bool" where
  "event_ok ev = (0 < evCode ev \<and> fits (evCode ev) \<and> fits (evShifted ev) \<and> fits (evBase ev) \<and> 0 \<le> evMods ev \<and> evMods ev < 64)"

text \<open>The three parts of an encoded key between the introducer and the final byte.\<close>

definition keysField :: "event \<Rightarrow> byte list" where
  "keysField ev = AppendInt (evCode ev) @
     (if evShifted ev \<noteq> 0 \<or> evBase ev \<noteq> 0 then
        [0x3A] @ (if evShifted ev \<noteq> 0 then AppendInt (evShifted ev) else []) @
        (if evBase ev \<noteq> 0 then [0x3A] @ AppendInt (evBase ev) else [])
      else [])"

definition modsField :: "event \<Rightarrow> byte list" where
  "modsField ev = AppendInt (evMods ev + 1) @ (if evRelease ev then [0x3A, 0x33] else [])"

definition paramsField :: "event \<Rightarrow> byte list" where
  "paramsField ev = keysField ev @ (if evMods ev \<noteq> 0 \<or> evRelease ev then [0x3B] @ modsField ev else [])"

lemma encodeCSIu_params:
  assumes "hasFlag flags FlagAlternateKeys" "evRelease ev \<longrightarrow> hasFlag flags FlagReportEvents"
  shows "encodeCSIu ev flags = [0x1B, 0x5B] @ paramsField ev @ [0x75]"
  using assms by (auto simp: encodeCSIu_def paramsField_def keysField_def modsField_def Let_def)

lemma fits_mods: "event_ok ev \<Longrightarrow> fits (evMods ev + 1)"
  by (simp add: event_ok_def fits_def)

lemma mods_unlocked:
  assumes "event_ok ev" shows "evMods ev AND NOT modLocks = evMods ev"
proof (rule bit_eqI)
  fix n
  have m: "take_bit 6 (evMods ev) = evMods ev" using assms by (intro take_bit_int_eq_self) (auto simp: event_ok_def)
  have "bit (evMods ev) n \<Longrightarrow> n < 6" using m by (metis bit_take_bit_iff)
  moreover have "n < 6 \<Longrightarrow> bit (NOT modLocks) n"
    using less_Suc_eq by (auto simp: numeral_eq_Suc bit_iff_odd modLocks_def)
  ultimately show "bit (evMods ev AND NOT modLocks) n = bit (evMods ev) n"
    by (auto simp: bit_and_iff)
qed

lemma mods_no_locks:
  assumes "event_ok ev" shows "evMods ev AND modLocks = 0"
proof -
  have "evMods ev AND modLocks = (evMods ev AND NOT modLocks) AND modLocks" by (simp only: mods_unlocked [OF assms])
  then show ?thesis by (simp add: and.assoc)
qed

lemma keysField_split:
  assumes "event_ok ev"
  shows "splitByte 0x3A (keysField ev) =
     AppendInt (evCode ev) #
       (if evShifted ev \<noteq> 0 \<or> evBase ev \<noteq> 0 then
          (if evShifted ev \<noteq> 0 then AppendInt (evShifted ev) else []) # (if evBase ev \<noteq> 0 then [AppendInt (evBase ev)] else [])
        else [])"
  using assms by (simp add: keysField_def splitByte_cons splitByte_single number_facts event_ok_def)

lemma three_value: "atoi [0x33] = Some 3"
  by (simp add: atoi_def isDigit_def)

lemma modsField_parse: "event_ok ev \<Longrightarrow> parseMods (modsField ev) = Some (evMods ev, if evRelease ev then 3 else 1)"
  using number_facts [OF fits_mods] splitByte_cons [of "0x3A" "AppendInt (evMods ev + 1)" "[0x33]"]
    splitByte_single [of "0x3A" "AppendInt (evMods ev + 1)"]
  by (simp add: modsField_def parseMods_def eventPress_def eventRelease_def three_value event_ok_def Let_def)

lemma keysField_no_semicolon: "event_ok ev \<Longrightarrow> 0x3B \<notin> set (keysField ev)"
  using number_facts unfolding event_ok_def by (auto simp: keysField_def)

lemma modsField_no_semicolon: "event_ok ev \<Longrightarrow> 0x3B \<notin> set (modsField ev)"
  using number_facts(6) [OF fits_mods] by (auto simp: modsField_def)

lemma paramsField_parse:
  assumes "event_ok ev"
  shows "parseParams (paramsField ev) = Some \<lparr>fkEvent = ev, fkLocks = 0, fkText = []\<rparr>"
proof -
  have s: "splitByte 0x3B (paramsField ev) = keysField ev # (if evMods ev \<noteq> 0 \<or> evRelease ev then [modsField ev] else [])"
    using keysField_no_semicolon [OF assms] modsField_no_semicolon [OF assms]
    by (simp add: paramsField_def splitByte_cons splitByte_single)
  have ne: "modsField ev \<noteq> []" using number_facts(3) [OF fits_mods [OF assms]] by (simp add: modsField_def)
  have fit: "fits (evCode ev)" "fits (evShifted ev)" "fits (evBase ev)" using assms by (auto simp: event_ok_def)
  show ?thesis
    using fit keysField_split [OF assms] modsField_parse [OF assms] mods_unlocked [OF assms] mods_no_locks [OF assms] ne
    by (cases "evMods ev = 0"; cases "evRelease ev")
      (auto simp: parseParams_def s Let_def subfield_def number_facts eventPress_def eventRelease_def intro!: event.equality)
qed

lemma paramsField_bytes:
  assumes "event_ok ev"
  shows "\<forall>c \<in> set (paramsField ev). isParam c" "paramsField ev \<noteq> []" "length (paramsField ev) < 40"
proof -
  have fit: "fits (evCode ev)" "fits (evShifted ev)" "fits (evBase ev)" "fits (evMods ev + 1)"
    using assms fits_mods by (auto simp: event_ok_def)
  note f = number_facts(2) [OF fit(1)] number_facts(2) [OF fit(2)] number_facts(2) [OF fit(3)] number_facts(2) [OF fit(4)]
    number_facts(4) [OF fit(1)] number_facts(4) [OF fit(2)] number_facts(4) [OF fit(3)] number_facts(4) [OF fit(4)]
  show "\<forall>c \<in> set (paramsField ev). isParam c" using f by (auto simp: paramsField_def keysField_def modsField_def isParam_def isDigit_def)
  show "paramsField ev \<noteq> []" using number_facts(3) [OF fit(1)] by (simp add: paramsField_def keysField_def)
  show "length (paramsField ev) < 40" using f by (simp add: paramsField_def keysField_def modsField_def)
qed

lemma parseFrom_params:
  "\<forall>c \<in> set ps. isParam c \<Longrightarrow> i + length ps < maxSeq \<Longrightarrow>
   parseFrom i params (ps @ 0x75 # rest) = parseFrom (i + length ps) (params @ ps) (0x75 # rest)"
proof (induction ps arbitrary: i params)
  case (Cons a ps)
  then show ?case using Cons.IH [of "Suc i" "params @ [a]"] by (simp del: parseFrom.simps(2) add: parseFrom.simps(2) [of i params a])
qed simp

lemma Parse_encoded:
  assumes "event_ok ev"
  shows "Parse ([0x1B, 0x5B] @ paramsField ev @ [0x75] @ rest) = Parsed ev (length (paramsField ev) + 3)"
proof -
  note p = paramsField_bytes [OF assms]
  note k = paramsField_parse [OF assms]
  have "evCode ev \<noteq> 0" using assms by (simp add: event_ok_def)
  then show ?thesis
    using p k parseFrom_params [OF p(1), of 2 "[]" rest]
    by (simp add: Parse_def maxSeq_def isParam_def isDigit_def)
qed

section \<open>Item-wise rewriting\<close>

text \<open>What a client sends: typed bytes, whole pastes and encoded keys.\<close>

datatype item = Typed "byte list" | Pasted "byte list" | Key event

definition item_ok :: "item \<Rightarrow> bool" where
  "item_ok x = (case x of
     Typed bs \<Rightarrow> 0x1B \<notin> set bs
   | Pasted body \<Rightarrow> bytesIndex closeMark (paste body) = Some (6 + length body)
   | Key ev \<Rightarrow> event_ok ev)"

text \<open>The bytes on the wire, keys with every enhancement flag, and those a receiver with \<open>flags\<close> gets.\<close>

definition wire :: "item \<Rightarrow> byte list" where
  "wire x = (case x of Typed bs \<Rightarrow> bs | Pasted body \<Rightarrow> paste body | Key ev \<Rightarrow> encodeCSIu ev RequestFlags)"

definition received :: "(rune \<Rightarrow> rune) \<Rightarrow> int \<Rightarrow> item \<Rightarrow> byte list" where
  "received toUpper flags x = (case x of Typed bs \<Rightarrow> bs | Pasted body \<Rightarrow> paste body | Key ev \<Rightarrow> encodeKey toUpper ev flags)"

lemma Translate_short: "length data < 3 \<Longrightarrow> Translate toUpper flags data = data"
  by (simp add: Translate.simps)

lemma Translate_plain: "c \<noteq> 0x1B \<Longrightarrow> Translate toUpper flags (c # data) = c # Translate toUpper flags data"
  by (cases "length (c # data) < 3") (simp_all add: Translate_short, simp add: Translate.simps [of _ _ "c # data"])

lemma Translate_typed: "0x1B \<notin> set bs \<Longrightarrow> Translate toUpper flags (bs @ data) = bs @ Translate toUpper flags data"
  by (induction bs) (auto simp: Translate_plain)

lemma Translate_paste:
  assumes "bytesIndex closeMark (paste body) = Some (6 + length body)"
  shows "Translate toUpper flags (paste body @ data) = paste body @ Translate toUpper flags data"
proof -
  have l: "length (paste body) = 6 + length body + 6" by (simp add: paste_def)
  have i: "bytesIndex closeMark (paste body @ data) = Some (6 + length body)" by (rule bytesIndex_append [OF assms])
  have p: "prefix openMark (paste body @ data)" by (simp add: paste_def)
  have h: "(paste body @ data) ! 0 = 0x1B" "(paste body @ data) ! 1 = 0x5B" by (simp_all add: paste_def BracketedPasteOpenMarker_def)
  show ?thesis unfolding Translate.simps [of _ _ "paste body @ data"] using l i p h by simp
qed

lemma Parse_open_marker: "Parse (openMark @ data) = NotKey"
  by (simp add: Parse_def BracketedPasteOpenMarker_def maxSeq_def isParam_def isDigit_def)

lemma Translate_parsed:
  assumes "Parse data = Parsed ev n"
  shows "Translate toUpper flags data = encodeKey toUpper ev flags @ Translate toUpper flags (drop n data)"
proof -
  have "\<not> prefix openMark data" using assms Parse_open_marker by (auto simp: prefix_def)
  then show ?thesis using Parse_bounds [OF assms] assms by (subst Translate.simps) (auto simp: Let_def)
qed

lemma Translate_key:
  assumes "event_ok ev"
  shows "Translate toUpper flags (encodeCSIu ev RequestFlags @ data) = encodeKey toUpper ev flags @ Translate toUpper flags data"
proof -
  have e: "encodeCSIu ev RequestFlags = [0x1B, 0x5B] @ paramsField ev @ [0x75]"
    by (rule encodeCSIu_params) (simp_all add: kitty_consts hasFlag_def)
  have d: "drop (length (paramsField ev) + 3) ([0x1B, 0x5B] @ paramsField ev @ [0x75] @ data) = data"
    by (simp add: numeral_3_eq_3)
  show ?thesis unfolding e using Translate_parsed [OF Parse_encoded [OF assms, of data], unfolded d] by simp
qed

lemma Translate_item:
  "item_ok x \<Longrightarrow> Translate toUpper flags (wire x @ data) = received toUpper flags x @ Translate toUpper flags data"
  by (cases x) (simp_all add: item_ok_def wire_def received_def Translate_typed Translate_paste Translate_key)

section \<open>Properties\<close>

text \<open>
  C26. Decoding inverts encoding: a key event with seven-digit codes and the six modifiers, encoded
  for a receiver that asked for alternate keys (and for releases, when it is one), is decoded to
  the same event and to its exact length, whatever bytes follow.
\<close>

theorem kitty_key_roundtrip:
  assumes "event_ok ev" "hasFlag flags FlagAlternateKeys" "evRelease ev \<longrightarrow> hasFlag flags FlagReportEvents"
  shows "Parse (encodeCSIu ev flags @ rest) = Parsed ev (length (encodeCSIu ev flags))"
  using Parse_encoded [OF assms(1), of rest] by (simp add: encodeCSIu_params [OF assms(2,3)])

theorem kitty_key_roundtrip_witness:
  "Parse (encodeCSIu \<lparr>evCode = 97, evShifted = 65, evBase = 0, evMods = 5, evRelease = True\<rparr> 31 @ [0x78]) =
     Parsed \<lparr>evCode = 97, evShifted = 65, evBase = 0, evMods = 5, evRelease = True\<rparr>
       (length (encodeCSIu \<lparr>evCode = 97, evShifted = 65, evBase = 0, evMods = 5, evRelease = True\<rparr> 31))"
  by (rule kitty_key_roundtrip) (simp_all add: event_ok_def fits_def hasFlag_def kitty_consts)

text \<open>
  C27. Rewriting is item-wise: a stream of typed bytes, whole pastes and key events is rewritten for
  a receiver's flags by re-encoding each key alone; typed bytes and the bodies of pastes, even
  those that look like keys, arrive byte for byte, in the same order.
\<close>

theorem Translate_itemwise:
  assumes "\<forall>x \<in> set xs. item_ok x"
  shows "Translate toUpper flags (concat (map wire xs)) = concat (map (received toUpper flags) xs)"
  using assms by (induction xs) (simp_all add: Translate_short Translate_item)

theorem Translate_itemwise_witness:
  "Translate (\<lambda>r. r) 0 (concat (map wire [Typed [0x61], Pasted (encodeCSIu \<lparr>evCode = 97, evShifted = 0, evBase = 0, evMods = 4, evRelease = False\<rparr> 31),
       Key \<lparr>evCode = 97, evShifted = 0, evBase = 0, evMods = 4, evRelease = False\<rparr>])) =
     concat (map (received (\<lambda>r. r) 0) [Typed [0x61], Pasted (encodeCSIu \<lparr>evCode = 97, evShifted = 0, evBase = 0, evMods = 4, evRelease = False\<rparr> 31),
       Key \<lparr>evCode = 97, evShifted = 0, evBase = 0, evMods = 4, evRelease = False\<rparr>])"
proof (rule Translate_itemwise)
  have "bytesIndex closeMark (paste (encodeCSIu \<lparr>evCode = 97, evShifted = 0, evBase = 0, evMods = 4, evRelease = False\<rparr> 31)) =
      Some (6 + length (encodeCSIu \<lparr>evCode = 97, evShifted = 0, evBase = 0, evMods = 4, evRelease = False\<rparr> 31))"
    by code_simp
  then show "\<forall>x \<in> set [Typed [0x61], Pasted (encodeCSIu \<lparr>evCode = 97, evShifted = 0, evBase = 0, evMods = 4, evRelease = False\<rparr> 31),
       Key \<lparr>evCode = 97, evShifted = 0, evBase = 0, evMods = 4, evRelease = False\<rparr>]. item_ok x"
    by (simp add: item_ok_def event_ok_def fits_def)
qed

end
