(* ===== verification/Key_Bindings.thy ===== *)
theory Key_Bindings
  imports Go_Utf8
begin

text \<open>
  The key bindings: \<^verbatim>\<open>internal/usecase/keys/bindings.go\<close> and \<^verbatim>\<open>keyspec.go\<close>. An action is
  bound to runes typed with Alt and to Alt-arrows; the configuration overrides the defaults in file
  order. The nine tab and the nine recent-session actions are two indexed constructors, and the
  warnings of a configuration are values.
\<close>

section \<open>Actions and bindings\<close>

datatype Action =
    ActionOpenPalette | ActionSwitchTab nat | ActionJumpAttention
  | ActionFocusPaneLeft | ActionFocusPaneRight | ActionFocusPaneUp | ActionFocusPaneDown
  | ActionToggleFloatingPane
  | ActionGrowPaneWidth | ActionShrinkPaneWidth | ActionGrowPaneHeight | ActionShrinkPaneHeight | ActionEqualizePanes
  | ActionConsumeOrExpelPaneLeft | ActionConsumeOrExpelPaneRight
  | ActionSwitchRecent nat

record Bindings =
  altRunes :: "rune \<Rightarrow> Action option"
  altArrows :: "byte \<Rightarrow> Action option"

definition topRowDigitAliases :: "rune list list" where
  "topRowDigitAliases =
     [[49, 38], [50, 0xE9], [51, 34], [52, 39], [53, 40], [54, 45, 0xA7], [55, 0xE8], [56, 95, 33], [57, 0xE7]]"

fun digitIndexFrom :: "nat \<Rightarrow> rune list list \<Rightarrow> rune \<Rightarrow> nat option" where
  "digitIndexFrom i [] key = None"
| "digitIndexFrom i (aliases # rest) key = (if key \<in> set aliases then Some i else digitIndexFrom (Suc i) rest key)"

definition topRowDigitIndex :: "rune \<Rightarrow> nat option" where
  "topRowDigitIndex key = digitIndexFrom 0 topRowDigitAliases key"

fun bindAll :: "Action \<Rightarrow> rune list \<Rightarrow> (rune \<Rightarrow> Action option) \<Rightarrow> rune \<Rightarrow> Action option" where
  "bindAll a [] m = m"
| "bindAll a (key # ks) m = bindAll a ks (m(key \<mapsto> a))"

fun bindDigits :: "nat \<Rightarrow> rune list list \<Rightarrow> (rune \<Rightarrow> Action option) \<Rightarrow> rune \<Rightarrow> Action option" where
  "bindDigits i [] m = m"
| "bindDigits i (aliases # rest) m = bindDigits (Suc i) rest (bindAll (ActionSwitchTab (Suc i)) aliases m)"

definition DefaultBindings :: Bindings where
  "DefaultBindings =
     \<lparr>altRunes = bindDigits 0 topRowDigitAliases
        (map_of [(32, ActionOpenPalette), (97, ActionJumpAttention), (102, ActionToggleFloatingPane), (104, ActionFocusPaneLeft),
          (106, ActionFocusPaneDown), (107, ActionFocusPaneUp), (108, ActionFocusPaneRight)]),
      altArrows = map_of [(0x41, ActionFocusPaneUp), (0x42, ActionFocusPaneDown), (0x43, ActionFocusPaneRight), (0x44, ActionFocusPaneLeft)]\<rparr>"

definition unbind :: "Action \<Rightarrow> ('k \<Rightarrow> Action option) \<Rightarrow> 'k \<Rightarrow> Action option" where
  "unbind action m = (\<lambda>key. if m key = Some action then None else m key)"

definition removeAction :: "Action \<Rightarrow> Bindings \<Rightarrow> Bindings" where
  "removeAction action b = b\<lparr>altRunes := unbind action (altRunes b), altArrows := unbind action (altArrows b)\<rparr>"

text \<open>A key specification; the zero byte stands for no arrow.\<close>

record KeySpec =
  specRunes :: "rune list"
  specArrow :: byte

definition bindSpec :: "Action \<Rightarrow> KeySpec \<Rightarrow> Bindings \<Rightarrow> Bindings" where
  "bindSpec action spec b =
     (let b' = b\<lparr>altRunes := bindAll action (specRunes spec) (altRunes b)\<rparr> in
      if specArrow spec \<noteq> 0 then b'\<lparr>altArrows := (altArrows b')(specArrow spec \<mapsto> action)\<rparr> else b')"

definition restore :: "Action \<Rightarrow> ('k \<Rightarrow> Action option) \<Rightarrow> ('k \<Rightarrow> Action option) \<Rightarrow> 'k \<Rightarrow> Action option" where
  "restore action defaults m = (\<lambda>key. if defaults key = Some action \<and> m key = None then Some action else m key)"

definition restoreDefaultAction :: "Action \<Rightarrow> Bindings \<Rightarrow> Bindings" where
  "restoreDefaultAction action b =
     b\<lparr>altRunes := restore action (altRunes DefaultBindings) (altRunes b),
       altArrows := restore action (altArrows DefaultBindings) (altArrows b)\<rparr>"

definition boundToOther :: "Action \<Rightarrow> Action option \<Rightarrow> Action option" where
  "boundToOther action bound = (case bound of Some a \<Rightarrow> if a \<noteq> action then Some a else None | None \<Rightarrow> None)"

fun firstConflict :: "Action \<Rightarrow> rune list \<Rightarrow> (rune \<Rightarrow> Action option) \<Rightarrow> Action option" where
  "firstConflict action [] m = None"
| "firstConflict action (key # ks) m = (case boundToOther action (m key) of Some a \<Rightarrow> Some a | None \<Rightarrow> firstConflict action ks m)"

definition conflictingAction :: "KeySpec \<Rightarrow> Action \<Rightarrow> Bindings \<Rightarrow> Action option" where
  "conflictingAction spec action b =
     (case firstConflict action (specRunes spec) (altRunes b) of
        Some a \<Rightarrow> Some a
      | None \<Rightarrow> if specArrow spec \<noteq> 0 then boundToOther action (altArrows b (specArrow spec)) else None)"

text \<open>A nil bindings pointer means the defaults.\<close>

definition orDefault :: "Bindings option \<Rightarrow> Bindings" where
  "orDefault b = (case b of Some b' \<Rightarrow> b' | None \<Rightarrow> DefaultBindings)"

definition actionForAltRune :: "Bindings option \<Rightarrow> rune \<Rightarrow> Action option" where
  "actionForAltRune b key = altRunes (orDefault b) key"

definition actionForAltArrow :: "Bindings option \<Rightarrow> byte \<Rightarrow> Action option" where
  "actionForAltArrow b final = altArrows (orDefault b) final"

section \<open>Key specifications\<close>

datatype specError = MissingAlt | BadKey | BadDigit

definition ParseKeySpec :: "string \<Rightarrow> specError + KeySpec" where
  "ParseKeySpec spec =
     (if \<not> prefix ''alt+'' spec then Inl MissingAlt
      else let key = drop 4 spec in
        if key = ''space'' then Inr \<lparr>specRunes = [32], specArrow = 0\<rparr>
        else if key = ''left'' then Inr \<lparr>specRunes = [], specArrow = 0x44\<rparr>
        else if key = ''right'' then Inr \<lparr>specRunes = [], specArrow = 0x43\<rparr>
        else if key = ''up'' then Inr \<lparr>specRunes = [], specArrow = 0x41\<rparr>
        else if key = ''down'' then Inr \<lparr>specRunes = [], specArrow = 0x42\<rparr>
        else if RuneCount (asciiBytes key) \<noteq> 1 then Inl BadKey
        else let r = fst (DecodeRune (asciiBytes key)) in
          (case topRowDigitIndex r of
             Some idx \<Rightarrow> Inr \<lparr>specRunes = topRowDigitAliases ! idx, specArrow = 0\<rparr>
           | None \<Rightarrow> if 48 \<le> r \<and> r \<le> 57 then Inl BadDigit else Inr \<lparr>specRunes = [r], specArrow = 0\<rparr>))"

definition actionNames :: "(Action \<times> string) list" where
  "actionNames =
     [(ActionOpenPalette, ''open-palette''), (ActionToggleFloatingPane, ''toggle-floating-pane''),
      (ActionJumpAttention, ''jump-attention''),
      (ActionFocusPaneLeft, ''focus-pane-left''), (ActionFocusPaneRight, ''focus-pane-right''),
      (ActionFocusPaneUp, ''focus-pane-up''), (ActionFocusPaneDown, ''focus-pane-down''),
      (ActionSwitchTab 1, ''switch-tab-1''), (ActionSwitchTab 2, ''switch-tab-2''), (ActionSwitchTab 3, ''switch-tab-3''),
      (ActionSwitchTab 4, ''switch-tab-4''), (ActionSwitchTab 5, ''switch-tab-5''), (ActionSwitchTab 6, ''switch-tab-6''),
      (ActionSwitchTab 7, ''switch-tab-7''), (ActionSwitchTab 8, ''switch-tab-8''), (ActionSwitchTab 9, ''switch-tab-9''),
      (ActionGrowPaneWidth, ''grow-pane-width''), (ActionShrinkPaneWidth, ''shrink-pane-width''),
      (ActionGrowPaneHeight, ''grow-pane-height''), (ActionShrinkPaneHeight, ''shrink-pane-height''),
      (ActionEqualizePanes, ''equalize-panes''), (ActionConsumeOrExpelPaneLeft, ''consume-or-expel-pane-left''),
      (ActionConsumeOrExpelPaneRight, ''consume-or-expel-pane-right'')]"

definition ActionName :: "Action \<Rightarrow> string" where
  "ActionName a = (case map_of actionNames a of Some name \<Rightarrow> name | None \<Rightarrow> ''unknown'')"

definition ActionByName :: "string \<Rightarrow> Action option" where
  "ActionByName name = map_of (map (\<lambda>(a, n). (n, a)) actionNames) name"

section \<open>Configured bindings\<close>

record ConfigEntry =
  entryKey :: string
  entryValue :: string

datatype Warning = UnknownAction string | InvalidKey string specError | DuplicateKey string string

record bindingOverride =
  ovName :: string
  ovAction :: Action
  ovSpec :: KeySpec

text \<open>The first loop: the valid overrides, in order, and a warning for every other entry.\<close>

fun readOverrides :: "ConfigEntry list \<Rightarrow> bindingOverride list \<times> Warning list" where
  "readOverrides [] = ([], [])"
| "readOverrides (e # es) =
     (let (desired, warnings) = readOverrides es in
      case ActionByName (entryKey e) of
        None \<Rightarrow> (desired, UnknownAction (entryKey e) # warnings)
      | Some action \<Rightarrow>
          (case ParseKeySpec (entryValue e) of
             Inl err \<Rightarrow> (desired, InvalidKey (entryKey e) err # warnings)
           | Inr spec \<Rightarrow> (\<lparr>ovName = entryKey e, ovAction = action, ovSpec = spec\<rparr> # desired, warnings)))"

fun applyOverrides :: "bindingOverride list \<Rightarrow> Bindings \<Rightarrow> Bindings \<times> Warning list" where
  "applyOverrides [] b = (b, [])"
| "applyOverrides (ov # ovs) b =
     (case conflictingAction (ovSpec ov) (ovAction ov) b of
        Some conflict \<Rightarrow>
          (let (b', ws) = applyOverrides ovs (restoreDefaultAction (ovAction ov) b) in
           (b', DuplicateKey (ovName ov) (ActionName conflict) # ws))
      | None \<Rightarrow> applyOverrides ovs (bindSpec (ovAction ov) (ovSpec ov) b))"

definition BuildBindingEntries :: "ConfigEntry list \<Rightarrow> Bindings \<times> Warning list" where
  "BuildBindingEntries overrides =
     (let (desired, warnings) = readOverrides overrides;
          cleared = foldl (\<lambda>b ov. removeAction (ovAction ov) b) DefaultBindings desired;
          (b, ws) = applyOverrides desired cleared
      in (b, warnings @ ws))"

section \<open>Keys already bound stay bound\<close>

lemma bindAll_lookup: "bindAll a ks m key = (if key \<in> set ks then Some a else m key)"
  by (induction ks arbitrary: m) auto

lemma firstConflict_None: "firstConflict a ks m = None \<longleftrightarrow> (\<forall>key \<in> set ks. m key = None \<or> m key = Some a)"
  by (induction ks) (auto simp: boundToOther_def split: option.splits)

lemma conflict_None:
  "conflictingAction spec a b = None \<longleftrightarrow>
     (\<forall>key \<in> set (specRunes spec). altRunes b key \<in> {None, Some a}) \<and>
     (specArrow spec \<noteq> 0 \<longrightarrow> altArrows b (specArrow spec) \<in> {None, Some a})"
proof -
  have "boundToOther a bound = None \<longleftrightarrow> bound \<in> {None, Some a}" for bound
    by (auto simp: boundToOther_def split: option.splits)
  moreover have "conflictingAction spec a b = None \<longleftrightarrow> firstConflict a (specRunes spec) (altRunes b) = None \<and>
      (specArrow spec \<noteq> 0 \<longrightarrow> boundToOther a (altArrows b (specArrow spec)) = None)"
    by (simp add: conflictingAction_def split: option.split)
  ultimately show ?thesis by (simp add: firstConflict_None)
qed

definition grows :: "Bindings \<Rightarrow> Bindings \<Rightarrow> bool" where
  "grows b b' \<longleftrightarrow> altRunes b \<subseteq>\<^sub>m altRunes b' \<and> altArrows b \<subseteq>\<^sub>m altArrows b'"

lemma grows_trans: "grows b c \<Longrightarrow> grows c d \<Longrightarrow> grows b d"
  unfolding grows_def by (meson map_le_trans)

lemma bindSpec_grows: "conflictingAction spec a b = None \<Longrightarrow> grows b (bindSpec a spec b)"
  unfolding conflict_None by (auto simp: grows_def bindSpec_def bindAll_lookup map_le_def Let_def)

lemma restore_grows: "grows b (restoreDefaultAction a b)"
  by (auto simp: grows_def restoreDefaultAction_def restore_def map_le_def)

lemma applyOverrides_grows: "grows b (fst (applyOverrides ovs b))"
proof (induction ovs arbitrary: b)
  case Nil
  then show ?case by (simp add: grows_def)
next
  case (Cons ov ovs)
  show ?case
  proof (cases "conflictingAction (ovSpec ov) (ovAction ov) b")
    case None
    then show ?thesis using grows_trans [OF bindSpec_grows [OF None] Cons.IH] by simp
  next
    case (Some a)
    then show ?thesis using grows_trans [OF restore_grows Cons.IH] by (simp add: split_def Let_def)
  qed
qed

section \<open>What an override achieves\<close>

definition holds :: "Action \<Rightarrow> KeySpec \<Rightarrow> Bindings \<Rightarrow> bool" where
  "holds a spec b \<longleftrightarrow> (\<forall>key \<in> set (specRunes spec). altRunes b key = Some a) \<and>
     (specArrow spec \<noteq> 0 \<longrightarrow> altArrows b (specArrow spec) = Some a)"

lemma holds_grows: "holds a spec b \<Longrightarrow> grows b b' \<Longrightarrow> holds a spec b'"
  unfolding holds_def grows_def map_le_def by (metis domI)

lemma bindSpec_holds: "holds a spec (bindSpec a spec b)"
  by (auto simp: holds_def bindSpec_def bindAll_lookup Let_def)

lemma applyOverrides_decides:
  "ov \<in> set ovs \<Longrightarrow> holds (ovAction ov) (ovSpec ov) (fst (applyOverrides ovs b)) \<or>
     (\<exists>other. DuplicateKey (ovName ov) other \<in> set (snd (applyOverrides ovs b)))"
proof (induction ovs arbitrary: b)
  case (Cons o' ovs)
  show ?case
  proof (cases "conflictingAction (ovSpec o') (ovAction o') b")
    case None
    show ?thesis
    proof (cases "ov = o'")
      case True
      then show ?thesis using None holds_grows [OF bindSpec_holds applyOverrides_grows] by simp
    next
      case False
      then show ?thesis using None Cons by simp
    qed
  next
    case (Some a)
    then show ?thesis using Cons by (cases "ov = o'") (auto simp: split_def Let_def)
  qed
qed simp

lemma applyOverrides_first:
  assumes "conflictingAction (ovSpec ov) (ovAction ov) b = None"
  shows "holds (ovAction ov) (ovSpec ov) (fst (applyOverrides (ov # ovs) b))"
  using assms holds_grows [OF bindSpec_holds applyOverrides_grows] by simp

lemma cleared_lookup:
  "altRunes (foldl (\<lambda>b ov. removeAction (ovAction ov) b) b ovs) key =
     (if altRunes b key \<in> (Some \<circ> ovAction) ` set ovs then None else altRunes b key)"
  "altArrows (foldl (\<lambda>b ov. removeAction (ovAction ov) b) b ovs) final =
     (if altArrows b final \<in> (Some \<circ> ovAction) ` set ovs then None else altArrows b final)"
  by (induction ovs arbitrary: b) (auto simp: removeAction_def unbind_def)

text \<open>A key only ever gets the action of some override.\<close>

definition only_from :: "Action set \<Rightarrow> Bindings \<Rightarrow> Bindings \<Rightarrow> bool" where
  "only_from A b b' \<longleftrightarrow> (\<forall>key a. altRunes b' key = Some a \<longrightarrow> a \<in> A \<or> altRunes b key = Some a) \<and>
     (\<forall>final a. altArrows b' final = Some a \<longrightarrow> a \<in> A \<or> altArrows b final = Some a)"

lemma applyOverrides_only: "only_from (ovAction ` set ovs) b (fst (applyOverrides ovs b))"
proof (induction ovs arbitrary: b)
  case (Cons ov ovs)
  have "only_from {ovAction ov} b (bindSpec (ovAction ov) (ovSpec ov) b)" "only_from {ovAction ov} b (restoreDefaultAction (ovAction ov) b)"
    by (auto simp: only_from_def bindSpec_def bindAll_lookup restoreDefaultAction_def restore_def Let_def split: if_splits)
  then show ?case
    using Cons [of "bindSpec (ovAction ov) (ovSpec ov) b"] Cons [of "restoreDefaultAction (ovAction ov) b"]
    by (auto simp: only_from_def split_def Let_def split: option.splits) blast+
qed (simp add: only_from_def)

lemma BuildBindingEntries_fst:
  "fst (BuildBindingEntries es) = fst (applyOverrides (fst (readOverrides es))
     (foldl (\<lambda>b ov. removeAction (ovAction ov) b) DefaultBindings (fst (readOverrides es))))"
  by (simp add: BuildBindingEntries_def split_def Let_def)

lemma named_actions: "list_all (\<lambda>(a, n). ActionByName n = Some a \<and> ActionName a = n) actionNames"
  by code_simp

lemma desired_readOverrides:
  "e \<in> set es \<Longrightarrow> ActionByName (entryKey e) = Some a \<Longrightarrow> ParseKeySpec (entryValue e) = Inr spec \<Longrightarrow>
   \<lparr>ovName = entryKey e, ovAction = a, ovSpec = spec\<rparr> \<in> set (fst (readOverrides es))"
  by (induction es) (auto simp: split_def Let_def split: option.splits sum.splits)

lemma refused_readOverrides:
  "e \<in> set es \<Longrightarrow> ActionByName (entryKey e) = None \<Longrightarrow> UnknownAction (entryKey e) \<in> set (snd (readOverrides es))"
  "e \<in> set es \<Longrightarrow> ActionByName (entryKey e) = Some a \<Longrightarrow> ParseKeySpec (entryValue e) = Inl err \<Longrightarrow>
   InvalidKey (entryKey e) err \<in> set (snd (readOverrides es))"
  by (induction es) (auto simp: split_def Let_def split: option.splits sum.splits)

lemma readOverrides_actions:
  "ov \<in> set (fst (readOverrides es)) \<Longrightarrow> \<exists>e \<in> set es. ActionByName (entryKey e) = Some (ovAction ov)"
  by (induction es) (auto simp: split_def Let_def split: option.splits sum.splits)

lemma BuildBindingEntries_snd:
  "set (snd (BuildBindingEntries es)) = set (snd (readOverrides es)) \<union> set (snd (applyOverrides (fst (readOverrides es))
     (foldl (\<lambda>b ov. removeAction (ovAction ov) b) DefaultBindings (fst (readOverrides es)))))"
  by (simp add: BuildBindingEntries_def split_def Let_def)

section \<open>Properties\<close>

text \<open>
  No configured binding is lost in silence: every entry of the configuration either holds in
  the resulting bindings, all its keys bound to its action, or is named by a warning: an unknown
  action, an invalid key, or a key another action has.
\<close>

theorem entry_holds_or_warns:
  assumes "e \<in> set es"
  shows "(\<exists>a spec. ActionByName (entryKey e) = Some a \<and> ParseKeySpec (entryValue e) = Inr spec \<and> holds a spec (fst (BuildBindingEntries es))) \<or>
    UnknownAction (entryKey e) \<in> set (snd (BuildBindingEntries es)) \<or>
    (\<exists>err. InvalidKey (entryKey e) err \<in> set (snd (BuildBindingEntries es))) \<or>
    (\<exists>other. DuplicateKey (entryKey e) other \<in> set (snd (BuildBindingEntries es)))"
proof (cases "ActionByName (entryKey e)")
  case None
  then show ?thesis using refused_readOverrides(1) [OF assms] by (simp add: BuildBindingEntries_snd)
next
  case (Some a)
  show ?thesis
  proof (cases "ParseKeySpec (entryValue e)")
    case (Inl err)
    then show ?thesis using refused_readOverrides(2) [OF assms Some] by (auto simp: BuildBindingEntries_snd)
  next
    case (Inr spec)
    then show ?thesis using Some applyOverrides_decides [OF desired_readOverrides [OF assms Some Inr]]
      by (auto simp: BuildBindingEntries_snd BuildBindingEntries_fst)
  qed
qed

theorem entry_holds_or_warns_witness:
  "(\<exists>a spec. ActionByName ''open-palette'' = Some a \<and> ParseKeySpec ''alt+p'' = Inr spec \<and>
      holds a spec (fst (BuildBindingEntries [\<lparr>entryKey = ''open-palette'', entryValue = ''alt+p''\<rparr>]))) \<and>
   snd (BuildBindingEntries [\<lparr>entryKey = ''open-palette'', entryValue = ''alt+p''\<rparr>]) = []"
proof -
  have "snd (BuildBindingEntries [\<lparr>entryKey = ''open-palette'', entryValue = ''alt+p''\<rparr>]) = []" by code_simp
  then show ?thesis
    using entry_holds_or_warns [of "\<lparr>entryKey = ''open-palette'', entryValue = ''alt+p''\<rparr>" "[\<lparr>entryKey = ''open-palette'', entryValue = ''alt+p''\<rparr>]"]
    by simp
qed

text \<open>
  An action that no entry of the configuration names keeps exactly its default keys, whatever
  the other entries ask for.
\<close>

theorem unnamed_action_keeps_keys:
  assumes "\<forall>e \<in> set es. ActionByName (entryKey e) \<noteq> Some a"
  shows "(altRunes (fst (BuildBindingEntries es)) key = Some a \<longleftrightarrow> altRunes DefaultBindings key = Some a) \<and>
    (altArrows (fst (BuildBindingEntries es)) final = Some a \<longleftrightarrow> altArrows DefaultBindings final = Some a)"
proof -
  define ovs where "ovs = fst (readOverrides es)"
  define c where "c = foldl (\<lambda>b ov. removeAction (ovAction ov) b) DefaultBindings ovs"
  have a: "a \<notin> ovAction ` set ovs" using assms readOverrides_actions by (fastforce simp: ovs_def)
  have c: "altRunes c key = Some a \<longleftrightarrow> altRunes DefaultBindings key = Some a" "altArrows c final = Some a \<longleftrightarrow> altArrows DefaultBindings final = Some a"
    using a cleared_lookup [of DefaultBindings ovs] by (auto simp: c_def)
  have f: "fst (BuildBindingEntries es) = fst (applyOverrides ovs c)" by (simp add: BuildBindingEntries_fst ovs_def c_def)
  show ?thesis unfolding f c [symmetric]
    using a applyOverrides_only [of ovs c] applyOverrides_grows [of c ovs]
    by (auto simp: only_from_def grows_def map_le_def dom_def)
qed

theorem unnamed_action_keeps_keys_witness:
  "altRunes (fst (BuildBindingEntries [\<lparr>entryKey = ''open-palette'', entryValue = ''alt+f''\<rparr>])) 102 = Some ActionToggleFloatingPane"
proof -
  have "\<forall>e \<in> set [\<lparr>entryKey = ''open-palette'', entryValue = ''alt+f''\<rparr>]. ActionByName (entryKey e) \<noteq> Some ActionToggleFloatingPane"
    by code_simp
  moreover have "altRunes DefaultBindings 102 = Some ActionToggleFloatingPane" by code_simp
  ultimately show ?thesis using unnamed_action_keeps_keys by blast
qed

text \<open>
  A refused override does not always leave its action the default key: the key may have been given
  to an earlier override, and the action is left with none.
\<close>

lemma refused_override_loses_default:
  "let b = fst (BuildBindingEntries [\<lparr>entryKey = ''open-palette'', entryValue = ''alt+a''\<rparr>, \<lparr>entryKey = ''jump-attention'', entryValue = ''alt+f''\<rparr>])
   in altRunes b 97 = Some ActionOpenPalette \<and> altRunes b 102 = Some ActionToggleFloatingPane \<and>
      altRunes DefaultBindings 97 = Some ActionJumpAttention"
  by code_simp

end
