(* ===== verification/Key_Router.thy ===== *)
theory Key_Router
  imports Kitty_Key Key_Bindings
begin

text \<open>
  The key router: \<^verbatim>\<open>internal/usecase/keys/tokenizer.go\<close> and \<^verbatim>\<open>router.go\<close>. It splits the
  input of one attachment into intercepted bindings and bytes for the program in the pane, and holds
  an undecided escape until the next read or its timer. A handler is a number; a timer is the
  number of timers made before it, so a stale one can be told from the current one. The Unicode
  upper-case mapping is the argument \<open>toUpper\<close>.
\<close>

section \<open>Lexing one escape\<close>

datatype escToken =
    escIncomplete
  | escPaste (raw: "byte list")
  | escAltArrow (raw: "byte list") (arrow: byte)
  | escControlPrefix (raw: "byte list") (tokRune: rune)
  | escAltRune (raw: "byte list") (tokRune: rune)
  | escKittyKey (raw: "byte list") (tokKey: event)
  | escBare (raw: "byte list")

definition altArrowLen :: nat where "altArrowLen = 6"

definition altArrowFinal :: "byte list \<Rightarrow> byte option" where
  "altArrowFinal data =
     (if length data < altArrowLen then None
      else if data ! 1 \<noteq> 0x5B \<or> data ! 2 \<noteq> 0x31 \<or> data ! 3 \<noteq> 0x3B \<or> data ! 4 \<noteq> 0x33 \<and> data ! 4 \<noteq> 0x39 then None
      else if data ! 5 \<in> {0x41, 0x42, 0x43, 0x44} then Some (data ! 5) else None)"

definition matchesPrefix :: "byte list \<Rightarrow> byte list \<Rightarrow> bool" where
  "matchesPrefix data want = (length data \<le> length want \<and> data = take (length data) want)"

definition isAltArrowPrefix :: "byte list \<Rightarrow> bool" where
  "isAltArrowPrefix data =
     (if length data < 2 \<or> altArrowLen \<le> length data then False
      else matchesPrefix data [0x1B, 0x5B, 0x31, 0x3B, 0x33] \<or> matchesPrefix data [0x1B, 0x5B, 0x31, 0x3B, 0x39])"

definition partialUTF8Rune :: "byte list \<Rightarrow> bool" where
  "partialUTF8Rune data = (if data = [] \<or> FullRune data then False else DecodeRune data = (RuneError, 1))"

text \<open>The part of the lexer after pastes, arrows and kitty keys.\<close>

definition scanPlain :: "byte list \<Rightarrow> escToken" where
  "scanPlain data =
     (if data ! 1 = 0x5B \<or> data ! 1 = 0x4F then escControlPrefix (take 2 data) (uint (data ! 1))
      else if partialUTF8Rune (tl data) then escIncomplete
      else (case DecodeRune (tl data) of
          (key, width) \<Rightarrow> if key \<noteq> RuneError \<or> 1 < width then escAltRune (take (1 + width) data) key else escBare (take 1 data)))"

definition scanKey :: "bool \<Rightarrow> byte list \<Rightarrow> escToken" where
  "scanKey kitty data =
     (case altArrowFinal data of
        Some final \<Rightarrow> escAltArrow (take altArrowLen data) final
      | None \<Rightarrow>
          if isAltArrowPrefix data then escIncomplete
          else if kitty then
            (case Parse data of Parsed ev n \<Rightarrow> escKittyKey (take n data) ev | Partial \<Rightarrow> escIncomplete | NotKey \<Rightarrow> scanPlain data)
          else scanPlain data)"

definition scanEscape :: "bool \<Rightarrow> byte list \<Rightarrow> escToken" where
  "scanEscape kitty data =
     (if length data = 1 then escIncomplete
      else if prefix BracketedPasteOpenMarker data then
        (case bytesIndex BracketedPasteCloseMarker data of
           Some rel \<Rightarrow> escPaste (take (rel + length BracketedPasteCloseMarker) data)
         | None \<Rightarrow> scanKey kitty data)
      else scanKey kitty data)"

section \<open>Router state and outputs\<close>

type_synonym handler = nat

record router =
  handlerDefault :: handler
  bindings :: "Bindings option"
  kitty :: bool
  pending :: bool
  pendingAlt :: "byte list"
  pendingHandler :: handler
  timer :: "nat option"
  timersMade :: nat

definition NewRouter :: "handler \<Rightarrow> Bindings option \<Rightarrow> router" where
  "NewRouter h b = \<lparr>handlerDefault = h, bindings = b, kitty = False, pending = False, pendingAlt = [], pendingHandler = 0,
     timer = None, timersMade = 0\<rparr>"

datatype routed = Forwarded "byte list" | Acted Action "byte list"

type_synonym outputs = "(handler \<times> routed) list"

definition SetKittyKeyboard :: "bool \<Rightarrow> router \<Rightarrow> router" where
  "SetKittyKeyboard enabled r = r\<lparr>kitty := enabled\<rparr>"

definition kittyKeyAction :: "(rune \<Rightarrow> rune) \<Rightarrow> Bindings option \<Rightarrow> event \<Rightarrow> Action option" where
  "kittyKeyAction toUpper b ev =
     (if evRelease ev then None
      else if evMods ev = ModAlt then
        (case actionForAltRune b (evCode ev) of
           Some a \<Rightarrow> Some a
         | None \<Rightarrow> if evBase ev \<noteq> 0 then actionForAltRune b (evBase ev) else None)
      else if evMods ev = ModAlt OR ModShift then
        actionForAltRune b (if evShifted ev = 0 then toUpper (evCode ev) else evShifted ev)
      else if evMods ev = ModCtrl then map_option (\<lambda>digit. ActionSwitchRecent (nat digit)) (Digit ev)
      else None)"

definition tokenAction :: "(rune \<Rightarrow> rune) \<Rightarrow> router \<Rightarrow> escToken \<Rightarrow> Action option" where
  "tokenAction toUpper r tok =
     (case tok of
        escAltArrow _ final \<Rightarrow> actionForAltArrow (bindings r) final
      | escAltRune _ key \<Rightarrow> actionForAltRune (bindings r) key
      | escKittyKey _ ev \<Rightarrow> kittyKeyAction toUpper (bindings r) ev
      | _ \<Rightarrow> None)"

definition retainESC :: "handler \<Rightarrow> byte list \<Rightarrow> router \<Rightarrow> router" where
  "retainESC h altBytes r = r\<lparr>pending := True, pendingAlt := altBytes, pendingHandler := h,
     timer := Some (timersMade r), timersMade := Suc (timersMade r)\<rparr>"

definition stopTimer :: "router \<Rightarrow> router" where
  "stopTimer r = r\<lparr>timer := None\<rparr>"

text \<open>A timer fires: only the current one of a pending escape delivers it.\<close>

definition timerFires :: "nat \<Rightarrow> router \<Rightarrow> router \<times> outputs" where
  "timerFires t r =
     (if pending r \<and> timer r = Some t
      then (r\<lparr>pending := False, pendingAlt := [], pendingHandler := 0, timer := None\<rparr>, [(pendingHandler r, Forwarded (0x1B # pendingAlt r))])
      else (r, []))"

definition flush :: "handler \<Rightarrow> byte list \<Rightarrow> outputs" where
  "flush h acc = (if acc = [] then [] else [(h, Forwarded acc)])"

definition passes :: "escToken \<Rightarrow> bool" where
  "passes tok = (case tok of escPaste _ \<Rightarrow> True | escAltArrow _ _ \<Rightarrow> True | escControlPrefix _ _ \<Rightarrow> True | escKittyKey _ _ \<Rightarrow> True | _ \<Rightarrow> False)"

text \<open>Bounds of a token, for the termination of the routing loop.\<close>

lemma scanPlain_raw:
  assumes "1 < length data" "scanPlain data \<noteq> escIncomplete"
  shows "\<exists>n. raw (scanPlain data) = take n data \<and> 0 < n \<and> n \<le> length data"
proof (cases "data ! 1 = 0x5B \<or> data ! 1 = 0x4F")
  case True
  then show ?thesis using assms by (intro exI [of _ 2]) (simp add: scanPlain_def)
next
  case False
  have "snd (DecodeRune (tl data)) \<le> length (tl data)" by (rule DecodeRune_size)
  then show ?thesis using assms False
    by (cases "DecodeRune (tl data)"; intro exI [of _ "case scanPlain data of escAltRune _ _ \<Rightarrow> 1 + snd (DecodeRune (tl data)) | _ \<Rightarrow> 1"])
      (auto simp: scanPlain_def)
qed

lemma scanEscape_raw:
  assumes "data \<noteq> []" "scanEscape k data \<noteq> escIncomplete"
  shows "\<exists>n. raw (scanEscape k data) = take n data \<and> 0 < n \<and> n \<le> length data"
proof -
  have l: "1 < length data" using assms by (cases data) (auto simp: scanEscape_def)
  have plain: "scanPlain data = tok \<Longrightarrow> tok \<noteq> escIncomplete \<Longrightarrow> ?thesis" if "scanEscape k data = tok" for tok
    using scanPlain_raw [OF l] that by auto
  have arrow: "altArrowFinal data = Some f \<Longrightarrow> altArrowLen \<le> length data" for f
    by (auto simp: altArrowFinal_def split: if_splits)
  consider (paste) rel where "bytesIndex closeMark data = Some rel" "scanEscape k data = escPaste (take (rel + 6) data)"
    | (key) "scanEscape k data = scanKey k data"
    using l by (cases "prefix openMark data"; cases "bytesIndex closeMark data") (simp_all add: scanEscape_def)
  then show ?thesis
  proof cases
    case paste
    then show ?thesis using bytesIndex_Some [OF paste(1)] by auto
  next
    case key
    then show ?thesis
      using plain arrow Parse_bounds assms(2)
      by (fastforce simp: scanKey_def altArrowLen_def split: option.splits if_splits parseResult.splits)
  qed
qed

lemma raw_pos [simp]: "scanEscape k (b # bs) \<noteq> escIncomplete \<Longrightarrow> raw (scanEscape k (b # bs)) \<noteq> []"
  using scanEscape_raw [of "b # bs" k] by auto

function route :: "(rune \<Rightarrow> rune) \<Rightarrow> handler \<Rightarrow> byte list \<Rightarrow> byte list \<Rightarrow> router \<Rightarrow> router \<times> outputs" where
  "route toUpper h acc [] r = (r, flush h acc)"
| "route toUpper h acc (b # bs) r =
     (if b \<noteq> 0x1B then route toUpper h (acc @ [b]) bs r
      else let tok = scanEscape (kitty r) (b # bs) in
        if tok = escIncomplete then (retainESC h bs r, flush h acc)
        else (case tokenAction toUpper r tok of
            Some action \<Rightarrow>
              (case route toUpper h [] (drop (length (raw tok)) (b # bs)) r of
                 (r', outs) \<Rightarrow> (r', flush h acc @ (h, Acted action (raw tok)) # outs))
          | None \<Rightarrow>
              if passes tok then route toUpper h (acc @ raw tok) (drop (length (raw tok)) (b # bs)) r
              else route toUpper h (acc @ [0x1B]) bs r))"
  by pat_completeness auto
termination
  by (relation "measure (\<lambda>(_, _, _, data, _). length data)") (use raw_pos in auto)

declare route.simps(2) [simp del]

text \<open>What follows a retained escape; the number of bytes of \<open>data\<close> taken comes last.\<close>

definition routeAfterPendingESC :: "(rune \<Rightarrow> rune) \<Rightarrow> byte list \<Rightarrow> nat \<Rightarrow> handler \<Rightarrow> router \<Rightarrow> router \<times> outputs \<times> nat" where
  "routeAfterPendingESC toUpper data pendingAltLen h r =
     (let tok = scanEscape (kitty r) (0x1B # data) in
      if tok = escIncomplete then (retainESC h data r, [], length data)
      else (case tokenAction toUpper r tok of
          Some action \<Rightarrow> (r, [(h, Acted action (raw tok))], length (raw tok) - 1)
        | None \<Rightarrow>
            if is_escKittyKey tok then (r, [(h, Forwarded (raw tok))], length (raw tok) - 1)
            else let width = snd (DecodeRune data) in
              if 1 < width then (r, [(h, Forwarded (0x1B # take width data))], width)
              else if 0 < pendingAltLen then (r, [(h, Forwarded (0x1B # take pendingAltLen data))], pendingAltLen)
              else if data ! 0 = 0x5B \<or> data ! 0 = 0x4F then (r, [(h, Forwarded [0x1B, data ! 0])], 1)
              else (r, [(h, Forwarded [0x1B])], 0)))"

definition RouteWithHandler :: "(rune \<Rightarrow> rune) \<Rightarrow> byte list \<Rightarrow> handler option \<Rightarrow> router \<Rightarrow> router \<times> outputs" where
  "RouteWithHandler toUpper data handler r =
     (if data = [] then (r, [])
      else let h = (case handler of None \<Rightarrow> handlerDefault r | Some h \<Rightarrow> h) in
        if pending r then
          (let r' = (stopTimer r)\<lparr>pending := False, pendingAlt := [], pendingHandler := 0\<rparr>;
               (r'', outs, consumed) = routeAfterPendingESC toUpper (pendingAlt r @ data) (length (pendingAlt r)) (pendingHandler r) r';
               rest = (if length (pendingAlt r) < consumed then drop (consumed - length (pendingAlt r)) data else data);
               (r''', outs') = route toUpper h [] rest r''
           in (r''', outs @ outs'))
        else route toUpper h [] data r)"

definition Route :: "(rune \<Rightarrow> rune) \<Rightarrow> byte list \<Rightarrow> router \<Rightarrow> router \<times> outputs" where
  "Route toUpper data r = RouteWithHandler toUpper data (Some (handlerDefault r)) r"

section \<open>What an undecided escape can become\<close>

definition undecided :: "byte list \<Rightarrow> bool" where
  "undecided p \<longleftrightarrow> (\<exists>k. scanEscape k (0x1B # p) = escIncomplete)"

definition partialRune :: "byte list \<Rightarrow> bool" where
  "partialRune p \<longleftrightarrow> p \<noteq> [] \<and> \<not> FullRune p"

definition partialCSI :: "byte list \<Rightarrow> bool" where
  "partialCSI p \<longleftrightarrow> (\<exists>ps. p = 0x5B # ps \<and> (\<forall>c \<in> set ps. isParam c))"

lemma parseFrom_Partial: "parseFrom i params data = Partial \<Longrightarrow> \<forall>c \<in> set data. isParam c"
  by (induction i params data rule: parseFrom.induct) (auto split: if_splits option.splits)

lemma parseFrom_beyond:
  "parseFrom i params (ps @ data) = Parsed ev n \<Longrightarrow> \<forall>c \<in> set ps. isParam c \<Longrightarrow> i + length ps < n"
proof (induction ps arbitrary: i params)
  case Nil
  then show ?case using parseFrom_bounds by auto
next
  case (Cons c ps)
  then show ?case using Cons.IH [of "Suc i" "params @ [c]"] by (auto split: if_splits)
qed

lemma arrow_prefix_CSI: "isAltArrowPrefix (0x1B # p) \<Longrightarrow> partialCSI p"
proof -
  assume a: "isAltArrowPrefix (0x1B # p)"
  have "partialCSI (take (Suc n) [0x5B, 0x31, 0x3B, x])" if "isParam x" for n x
    using that by (cases n; cases "n - 1"; cases "n - 2") (auto simp: partialCSI_def isParam_def isDigit_def take_Cons' split: nat.splits)
  moreover obtain x n where "p = take (Suc n) [0x5B, 0x31, 0x3B, x]" "x = 0x33 \<or> x = 0x39"
    using a by (cases "length p") (auto simp: isAltArrowPrefix_def matchesPrefix_def split: if_splits)
  ultimately show ?thesis by (auto simp: isParam_def isDigit_def)
qed

lemma undecided_cases: "undecided p \<Longrightarrow> p = [] \<or> partialCSI p \<or> partialRune p"
proof -
  assume "undecided p"
  then obtain k where k: "scanEscape k (0x1B # p) = escIncomplete" by (auto simp: undecided_def)
  have pl: "scanPlain (0x1B # p) = escIncomplete \<Longrightarrow> partialRune p"
    by (auto simp: scanPlain_def partialRune_def partialUTF8Rune_def split: if_splits prod.splits)
  have pa: "Parse (0x1B # p) = Partial \<Longrightarrow> p = [] \<or> partialCSI p"
    by (cases p) (auto simp: Parse_def partialCSI_def dest!: parseFrom_Partial split: if_splits)
  have key: "scanKey k (0x1B # p) = escIncomplete \<Longrightarrow> p = [] \<or> partialCSI p \<or> partialRune p"
    using pl pa arrow_prefix_CSI by (auto simp: scanKey_def split: option.splits if_splits parseResult.splits)
  then show ?thesis using k by (auto simp: scanEscape_def split: if_splits option.splits)
qed

lemma rune_beyond:
  assumes "partialRune p"
  shows "DecodeRune (p @ data) = (RuneError, 1) \<or> 1 < snd (DecodeRune (p @ data)) \<and> length p < snd (DecodeRune (p @ data))"
proof -
  obtain b bs where p: "p = b # bs" using assms by (cases p) (auto simp: partialRune_def)
  have lead: "Suc (length bs) < leadSize b" using assms by (auto simp: p partialRune_def split: if_splits)
  have "leadSize b \<in> {0, 1, 2, 3, 4}" by (simp add: leadSize_def Let_def)
  then consider "leadSize b = 2" | "leadSize b = 3" | "leadSize b = 4" using lead by auto
  then have "snd (DecodeRune (b # cs)) = leadSize b \<or> DecodeRune (b # cs) = (RuneError, 1)" for cs
    by cases (simp_all split: list.split)
  then have "snd (DecodeRune (p @ data)) = leadSize b \<or> DecodeRune (p @ data) = (RuneError, 1)" by (simp add: p del: DecodeRune.simps)
  then show ?thesis using lead by (auto simp: p simp del: DecodeRune.simps)
qed

lemma partialRune_lead: "partialRune p \<Longrightarrow> p ! 0 \<noteq> 0x5B \<and> p ! 0 \<noteq> 0x4F \<and> p ! 0 \<noteq> 0x1B \<and> p \<noteq> []"
  by (cases p) (auto simp: partialRune_def leadSize_def split: if_splits)

lemma bracket_rune: "snd (DecodeRune (0x5B # data)) = 1"
  by (simp add: leadSize_def)

lemma open_marker_second: "prefix openMark data \<Longrightarrow> data ! 1 = 0x5B"
  by (auto simp: BracketedPasteOpenMarker_def prefix_def)

lemma scan_rune:
  assumes "data \<noteq> []" "data ! 0 \<noteq> 0x5B" "data ! 0 \<noteq> 0x4F"
  shows "scanEscape k (0x1B # data) = scanPlain (0x1B # data)"
proof -
  have "\<not> prefix openMark (0x1B # data)" using open_marker_second [of "0x1B # data"] assms by auto
  moreover have "altArrowFinal (0x1B # data) = None" using assms by (simp add: altArrowFinal_def)
  moreover have "\<not> isAltArrowPrefix (0x1B # data)" using assms arrow_prefix_CSI [of data] by (auto simp: partialCSI_def)
  moreover have "Parse (0x1B # data) = NotKey" using assms by (simp add: Parse_def)
  ultimately show ?thesis using assms by (simp add: scanEscape_def scanKey_def)
qed

text \<open>A token that acts, or a whole kitty key, covers every byte that was held back.\<close>

definition takesAll :: "escToken \<Rightarrow> bool" where
  "takesAll tok \<longleftrightarrow> is_escAltArrow tok \<or> is_escAltRune tok \<or> is_escKittyKey tok"

lemma action_takesAll: "tokenAction u r tok = Some a \<Longrightarrow> takesAll tok"
  by (cases tok) (auto simp: tokenAction_def takesAll_def)

lemma scanPlain_takesAll:
  "takesAll (scanPlain data) \<Longrightarrow> \<exists>key. scanPlain data = escAltRune (take (1 + snd (DecodeRune (tl data))) data) key \<and>
     data ! 1 \<noteq> 0x5B \<and> data ! 1 \<noteq> 0x4F \<and> DecodeRune (tl data) \<noteq> (RuneError, 1)"
  by (auto simp: scanPlain_def takesAll_def split: if_splits prod.splits)

lemma takesAll_covers:
  assumes "undecided p" "takesAll (scanEscape k (0x1B # p @ data))" "data \<noteq> []"
  shows "length p < length (raw (scanEscape k (0x1B # p @ data)))"
proof -
  let ?d = "0x1B # p @ data"
  have ne: "scanEscape k ?d \<noteq> escIncomplete" using assms(2) by (auto simp: takesAll_def)
  consider (none) "p = []" | (csi) "partialCSI p" | (rune) "partialRune p" using undecided_cases [OF assms(1)] by blast
  then show ?thesis
  proof cases
    case none
    then show ?thesis using raw_pos [OF ne] by simp
  next
    case csi
    then obtain ps where ps: "p = 0x5B # ps" "\<forall>c \<in> set ps. isParam c" by (auto simp: partialCSI_def)
    have np: "\<not> takesAll (scanPlain ?d)" using ps scanPlain_takesAll [of ?d] by auto
    have k: "scanEscape k ?d = scanKey k ?d" using assms(2) by (auto simp: scanEscape_def takesAll_def split: if_splits option.splits)
    have arrow: "length ps < 4" if "altArrowFinal ?d = Some f" for f
    proof (rule ccontr)
      assume "\<not> length ps < 4"
      then have "isParam (ps ! 3)" "?d ! 5 = ps ! 3" using ps by (auto simp: nth_append)
      then show False using that by (auto simp: altArrowFinal_def isParam_def isDigit_def split: if_splits)
    qed
    have key: "2 + length ps < n" if "Parse ?d = Parsed ev n" for ev n
      using that ps parseFrom_beyond [of 2 "[]" ps data ev n] by (simp add: Parse_def)
    have len: "altArrowFinal ?d = Some f \<Longrightarrow> 6 \<le> length ?d" "Parse ?d = Parsed ev n \<Longrightarrow> n \<le> length ?d" for f ev n
      using Parse_bounds [of ?d] by (auto simp: altArrowFinal_def altArrowLen_def split: if_splits)
    show ?thesis
    proof (cases "altArrowFinal ?d")
      case (Some f)
      then show ?thesis using arrow [OF Some] len(1) [OF Some] k ps by (simp add: scanKey_def altArrowLen_def)
    next
      case None
      then obtain ev n where "Parse ?d = Parsed ev n" "scanKey k ?d = escKittyKey (take n ?d) ev"
        using np assms(2) k by (auto simp: scanKey_def takesAll_def split: if_splits parseResult.splits)
      then show ?thesis using key len(2) k ps by fastforce
    qed
  next
    case rune
    note lead = partialRune_lead [OF rune]
    have "scanEscape k ?d = scanPlain ?d" by (rule scan_rune) (use lead in \<open>auto simp: nth_append\<close>)
    then show ?thesis
      using assms(2) scanPlain_takesAll [of ?d] rune_beyond [OF rune, of data] DecodeRune_size(1) [of "p @ data"] by auto
  qed
qed

lemma decode_covers:
  assumes "undecided p" "1 < snd (DecodeRune (p @ data))"
  shows "length p \<le> snd (DecodeRune (p @ data))"
  using undecided_cases [OF assms(1)] assms(2) rune_beyond [of p data] bracket_rune by (auto simp: partialCSI_def)

section \<open>Outputs against inputs\<close>

text \<open>
  The input as bytes tagged with the handler of their read. \<open>consumes\<close> takes the bytes of every output off
  the front of it, and insists that an output goes to the handler its first byte came with.
\<close>

fun rawOf :: "routed \<Rightarrow> byte list" where
  "rawOf (Forwarded bs) = bs"
| "rawOf (Acted a bs) = bs"

definition tagged :: "handler \<Rightarrow> byte list \<Rightarrow> (handler \<times> byte) list" where
  "tagged h data = map (Pair h) data"

fun consumes :: "outputs \<Rightarrow> (handler \<times> byte) list \<Rightarrow> (handler \<times> byte) list option" where
  "consumes [] t = Some t"
| "consumes ((h, o') # os) t =
     (let n = length (rawOf o') in
      if rawOf o' \<noteq> [] \<and> n \<le> length t \<and> map snd (take n t) = rawOf o' \<and> fst (hd t) = h then consumes os (drop n t) else None)"

definition retained :: "router \<Rightarrow> (handler \<times> byte) list \<Rightarrow> bool" where
  "retained r rest \<longleftrightarrow>
     (if pending r then map snd rest = 0x1B # pendingAlt r \<and> fst (hd rest) = pendingHandler r \<and> undecided (pendingAlt r)
      else rest = [])"

lemma consumes_append: "consumes (os @ os') t = Option.bind (consumes os t) (consumes os')"
  by (induction os t rule: consumes.induct) (auto simp: Let_def)

lemma consumes_more: "consumes os t = Some rest \<Longrightarrow> consumes os (t @ t') = Some (rest @ t')"
proof (induction os t arbitrary: rest rule: consumes.induct)
  case (2 h o' os t)
  let ?n = "length (rawOf o')"
  from 2 have c: "rawOf o' \<noteq> []" "?n \<le> length t" "map snd (take ?n t) = rawOf o'" "fst (hd t) = h" "consumes os (drop ?n t) = Some rest"
    by (simp_all add: Let_def split: if_splits)
  have "t \<noteq> []" using c(1,2) by auto
  then show ?case using c 2(1) [OF refl _ c(5)] by (simp add: Let_def)
qed simp

lemma consumes_tagged: "rawOf o' \<noteq> [] \<Longrightarrow> consumes ((h, o') # os) (tagged h (rawOf o' @ data)) = consumes os (tagged h data)"
  by (cases "rawOf o'") (auto simp: tagged_def Let_def comp_def)

lemma consumes_flush: "consumes (flush h acc @ os) (tagged h (acc @ data)) = consumes os (tagged h data)"
proof (cases "acc = []")
  case False
  then show ?thesis using consumes_tagged [of "Forwarded acc" h os data] by (simp add: flush_def)
qed (simp add: flush_def)

lemma retained_retainESC: "undecided bs \<Longrightarrow> retained (retainESC h bs r) (tagged h (0x1B # bs))"
  by (simp add: retained_def retainESC_def tagged_def comp_def)

lemma raw_split:
  "data \<noteq> [] \<Longrightarrow> scanEscape k data \<noteq> escIncomplete \<Longrightarrow> raw (scanEscape k data) @ drop (length (raw (scanEscape k data))) data = data"
  using scanEscape_raw [of data k] by (auto simp: min_def)

lemma route_consumes:
  "\<not> pending r \<Longrightarrow> route u h acc data r = (r', outs) \<Longrightarrow> \<exists>rest. consumes outs (tagged h (acc @ data)) = Some rest \<and> retained r' rest"
proof (induction u h acc data r arbitrary: r' outs rule: route.induct)
  case (1 u h acc r)
  then show ?case using consumes_flush [of h acc "[]" "[]"] by (simp add: retained_def tagged_def)
next
  case (2 u h acc b bs r)
  let ?tok = "scanEscape (kitty r) (b # bs)"
  show ?case
  proof (cases "b = 0x1B")
    case False
    then show ?thesis using 2 by (simp add: route.simps(2))
  next
    case esc: True
    show ?thesis
    proof (cases "?tok = escIncomplete")
      case True
      then have r: "r' = retainESC h bs r" "outs = flush h acc" using 2 esc by (simp_all add: route.simps(2) Let_def)
      have "undecided bs" using True esc by (auto simp: undecided_def)
      then show ?thesis using r esc consumes_flush [of h acc "[]" "b # bs"] retained_retainESC [of bs h r] by simp
    next
      case tok: False
      have split: "raw ?tok @ drop (length (raw ?tok)) (b # bs) = b # bs" by (rule raw_split) (use tok in auto)
      show ?thesis
      proof (cases "tokenAction u r ?tok")
        case (Some a)
        obtain r2 outs2 where r2: "route u h [] (drop (length (raw ?tok)) (b # bs)) r = (r2, outs2)" by fastforce
        then have o: "r' = r2" "outs = flush h acc @ (h, Acted a (raw ?tok)) # outs2"
          using 2 esc tok Some by (simp_all add: route.simps(2) Let_def)
        obtain rest where rest: "consumes outs2 (tagged h ([] @ drop (length (raw ?tok)) (b # bs))) = Some rest" "retained r2 rest"
          using 2(4) [OF _ refl tok Some _ r2] esc 2(5) by blast
        have "consumes outs (tagged h (acc @ b # bs)) = consumes ((h, Acted a (raw ?tok)) # outs2) (tagged h (raw ?tok @ drop (length (raw ?tok)) (b # bs)))"
          unfolding o(2) consumes_flush split by simp
        also have "\<dots> = Some rest"
          using consumes_tagged [of "Acted a (raw ?tok)" h outs2 "drop (length (raw ?tok)) (b # bs)"] tok rest(1) by (simp del: consumes.simps)
        finally show ?thesis using rest(2) o(1) by blast
      next
        case None
        show ?thesis
        proof (cases "passes ?tok")
          case True
          then have "route u h (acc @ raw ?tok) (drop (length (raw ?tok)) (b # bs)) r = (r', outs)"
            using 2(6) esc tok None by (simp add: route.simps(2) Let_def)
          then show ?thesis using 2(2) [OF _ refl tok None True 2(5)] esc split by (metis append.assoc)
        next
          case False
          then have "route u h (acc @ [0x1B]) bs r = (r', outs)" using 2(6) esc tok None by (simp add: route.simps(2) Let_def)
          then show ?thesis using 2(3) [OF _ refl tok None False 2(5)] esc by fastforce
        qed
      qed
    qed
  qed
qed

lemma after_pending:
  assumes "undecided p" "data \<noteq> []" "\<not> pending r" "routeAfterPendingESC u (p @ data) (length p) hp r = (r', outs, n)"
  shows "length p \<le> n \<and> n \<le> length (p @ data) \<and>
    (r' = retainESC hp (p @ data) r \<and> undecided (p @ data) \<and> n = length (p @ data) \<and> outs = [] \<or>
     r' = r \<and> (\<exists>o'. outs = [(hp, o')] \<and> rawOf o' = 0x1B # take n (p @ data)))"
proof -
  let ?tok = "scanEscape (kitty r) (0x1B # p @ data)"
  show ?thesis
  proof (cases "?tok = escIncomplete")
    case True
    then show ?thesis using assms(4) by (auto simp: routeAfterPendingESC_def undecided_def)
  next
    case tok: False
    obtain m where m: "raw ?tok = take m (0x1B # p @ data)" "0 < m" "m \<le> length (0x1B # p @ data)"
      using scanEscape_raw [OF _ tok] by auto
    have all: ?thesis if "takesAll ?tok" "r' = r" "outs = [(hp, o')]" "rawOf o' = raw ?tok" "n = length (raw ?tok) - 1" for o'
      using takesAll_covers [OF assms(1) that(1) assms(2)] that(2-) m by (cases m) auto
    have hd: "(p @ data) ! 0 # take 0 (tl (p @ data)) = take 1 (p @ data)" using assms(2) by (cases p; cases data) auto
    show ?thesis
    proof (cases "tokenAction u r ?tok")
      case (Some a)
      then have "r' = r" "outs = [(hp, Acted a (raw ?tok))]" "n = length (raw ?tok) - 1"
        using assms(4) tok by (auto simp: routeAfterPendingESC_def Let_def)
      then show ?thesis using all [OF action_takesAll [OF Some]] by (metis rawOf.simps(2))
    next
      case None
      show ?thesis
      proof (cases "is_escKittyKey ?tok")
        case True
        then have "r' = r" "outs = [(hp, Forwarded (raw ?tok))]" "n = length (raw ?tok) - 1"
          using None assms(4) tok by (auto simp: routeAfterPendingESC_def Let_def)
        then show ?thesis using all True by (metis rawOf.simps(1) takesAll_def)
      next
        case False
        then show ?thesis using assms tok None hd decode_covers [OF assms(1), of data] DecodeRune_size(1) [of "p @ data"]
          by (auto simp: routeAfterPendingESC_def Let_def Suc_le_eq simp del: DecodeRune.simps split: if_splits)
      qed
    qed
  qed
qed

definition handlerOf :: "handler option \<Rightarrow> router \<Rightarrow> handler" where
  "handlerOf ho r = (case ho of None \<Rightarrow> handlerDefault r | Some h \<Rightarrow> h)"

lemma consumes_pending:
  assumes "map snd rest = 0x1B # p" "fst (hd rest) = hp" "rawOf o' = 0x1B # take n (p @ data)" "length p \<le> n"
  shows "consumes ((hp, o') # os) (rest @ tagged h data) = consumes os (tagged h (drop (n - length p) data))"
proof -
  obtain t ts where t: "rest = t # ts" "snd t = 0x1B" "map snd ts = p" using assms(1) by (cases rest) auto
  have l: "length ts = length p" using t(3) by auto
  have e: "map snd (take (length (rawOf o')) (rest @ tagged h data)) = rawOf o'"
    unfolding assms(3) using t l by (auto simp: tagged_def take_map comp_def min_def)
  have d: "drop (length (rawOf o')) (rest @ tagged h data) = tagged h (drop (n - length p) data)"
    unfolding assms(3) using t l assms(4) by (auto simp: tagged_def drop_map min_def)
  have "length (rawOf o') \<le> length (rest @ tagged h data)" unfolding assms(3) using t l by (simp add: tagged_def)
  then show ?thesis using e d assms(2,3) t by (simp add: Let_def)
qed

lemma RouteWithHandler_consumes:
  assumes "retained r rest" "RouteWithHandler u data ho r = (r', outs)"
  shows "\<exists>rest'. consumes outs (rest @ tagged (handlerOf ho r) data) = Some rest' \<and> retained r' rest'"
proof (cases "data = [] \<or> \<not> pending r")
  case True
  show ?thesis
  proof (cases "data = []")
    case True
    then show ?thesis using assms by (simp add: RouteWithHandler_def tagged_def)
  next
    case ne: False
    then have "route u (handlerOf ho r) [] data r = (r', outs)" "rest = []"
      using True assms by (simp_all add: RouteWithHandler_def handlerOf_def retained_def Let_def)
    then show ?thesis using True ne route_consumes by fastforce
  qed
next
  case False
  define r0 where "r0 = (stopTimer r)\<lparr>pending := False, pendingAlt := [], pendingHandler := 0\<rparr>"
  let ?p = "pendingAlt r" let ?h = "handlerOf ho r"
  have ret: "map snd rest = 0x1B # ?p" "fst (hd rest) = pendingHandler r" "undecided ?p" using assms(1) False by (auto simp: retained_def)
  obtain r1 o1 n where a: "routeAfterPendingESC u (?p @ data) (length ?p) (pendingHandler r) r0 = (r1, o1, n)" by (metis prod_cases3)
  note af = after_pending [OF ret(3) _ _ a]
  have af': "length ?p \<le> n" "r1 = retainESC (pendingHandler r) (?p @ data) r0 \<and> undecided (?p @ data) \<and> n = length (?p @ data) \<and> o1 = [] \<or>
     r1 = r0 \<and> (\<exists>o'. o1 = [(pendingHandler r, o')] \<and> rawOf o' = 0x1B # take n (?p @ data))"
    using af False by (auto simp: r0_def stopTimer_def)
  have d: "(if length ?p < n then drop (n - length ?p) data else data) = drop (n - length ?p) data" by simp
  obtain r2 o2 where b: "route u ?h [] (drop (n - length ?p) data) r1 = (r2, o2)" by fastforce
  have res: "r' = r2" "outs = o1 @ o2"
    using assms(2) False a b d by (simp_all add: RouteWithHandler_def handlerOf_def r0_def [symmetric] Let_def)
  from af'(2) show ?thesis
  proof
    assume "r1 = retainESC (pendingHandler r) (?p @ data) r0 \<and> undecided (?p @ data) \<and> n = length (?p @ data) \<and> o1 = []"
    then have "r' = retainESC (pendingHandler r) (?p @ data) r0" "outs = []" "undecided (?p @ data)"
      using res b by (simp_all add: flush_def)
    then show ?thesis using ret by (cases rest) (auto simp: retained_def retainESC_def tagged_def comp_def)
  next
    assume "r1 = r0 \<and> (\<exists>o'. o1 = [(pendingHandler r, o')] \<and> rawOf o' = 0x1B # take n (?p @ data))"
    then obtain o' where o': "r1 = r0" "o1 = [(pendingHandler r, o')]" "rawOf o' = 0x1B # take n (?p @ data)" by blast
    have "consumes outs (rest @ tagged ?h data) = consumes o2 (tagged ?h (drop (n - length ?p) data))"
      unfolding res(2) o'(2) using consumes_pending [OF ret(1,2) o'(3) af'(1)] by simp
    moreover have "\<not> pending r1" by (simp add: o'(1) r0_def)
    ultimately show ?thesis using route_consumes [OF _ b] res(1) by simp
  qed
qed

text \<open>The router keeps the contract of a stage of the input path.\<close>

definition retainedBytes :: "router \<Rightarrow> byte list" where
  "retainedBytes r = (if pending r then 0x1B # pendingAlt r else [])"

definition router_ok :: "router \<Rightarrow> bool" where
  "router_ok r \<longleftrightarrow> (pending r \<longrightarrow> undecided (pendingAlt r))"

lemma consumes_bytes: "consumes outs t = Some rest \<Longrightarrow> map snd t = concat (map (\<lambda>x. rawOf (snd x)) outs) @ map snd rest"
proof (induction outs t arbitrary: rest rule: consumes.induct)
  case (2 h o' os t)
  let ?n = "length (rawOf o')"
  from 2 have "map snd (take ?n t) = rawOf o'" "map snd (drop ?n t) = concat (map (\<lambda>x. rawOf (snd x)) os) @ map snd rest"
    by (auto simp: Let_def split: if_splits)
  then show ?case using append_take_drop_id [of ?n t] by (metis append.assoc concat.simps(2) list.simps(9) map_append snd_conv)
qed simp

lemma retained_bytes: "retained r rest \<Longrightarrow> map snd rest = retainedBytes r \<and> router_ok r"
  by (simp add: retained_def retainedBytes_def router_ok_def)

lemma RouteWithHandler_stage:
  assumes "router_ok r" "RouteWithHandler u data ho r = (r', outs)"
  shows "concat (map (\<lambda>x. rawOf (snd x)) outs) @ retainedBytes r' = retainedBytes r @ data \<and> router_ok r'"
proof -
  have "retained r (tagged (pendingHandler r) (retainedBytes r))"
    using assms(1) by (simp add: retained_def retainedBytes_def router_ok_def tagged_def comp_def)
  from RouteWithHandler_consumes [OF this assms(2)] obtain rest where
    rest: "consumes outs (tagged (pendingHandler r) (retainedBytes r) @ tagged (handlerOf ho r) data) = Some rest" "retained r' rest" by blast
  then show ?thesis using consumes_bytes [OF rest(1)] retained_bytes [OF rest(2)] by (simp add: tagged_def comp_def)
qed

interpretation keys: byte_stage "\<lambda>data r. RouteWithHandler u data ho r" retainedBytes "\<lambda>x. rawOf (snd x)" router_ok for u ho
  using RouteWithHandler_stage by unfold_locales blast+

section \<open>Runs of the router\<close>

text \<open>Reads, timers (stale ones too) and changes of the settings, in any order.\<close>

inductive router_run :: "(rune \<Rightarrow> rune) \<Rightarrow> router \<Rightarrow> (handler \<times> byte) list \<Rightarrow> outputs \<Rightarrow> bool" for u where
  run_new: "router_run u (NewRouter h b) [] []"
| run_read: "router_run u r given outs \<Longrightarrow> RouteWithHandler u data ho r = (r', outs') \<Longrightarrow>
    router_run u r' (given @ tagged (handlerOf ho r) data) (outs @ outs')"
| run_timer: "router_run u r given outs \<Longrightarrow> timerFires t r = (r', outs') \<Longrightarrow> router_run u r' given (outs @ outs')"
| run_kitty: "router_run u r given outs \<Longrightarrow> router_run u (SetKittyKeyboard enabled r) given outs"
| run_bindings: "router_run u r given outs \<Longrightarrow> router_run u (r\<lparr>bindings := b\<rparr>) given outs"

lemma consumes_timer: "retained r rest \<Longrightarrow> timerFires t r = (r', outs) \<Longrightarrow> \<exists>rest'. consumes outs rest = Some rest' \<and> retained r' rest'"
proof -
  assume r: "retained r rest" and t: "timerFires t r = (r', outs)"
  show ?thesis
  proof (cases "pending r \<and> timer r = Some t")
    case True
    then have l: "map snd rest = 0x1B # pendingAlt r" "fst (hd rest) = pendingHandler r" using r by (auto simp: retained_def)
    moreover from l(1) have "length rest = Suc (length (pendingAlt r))" by (metis length_Cons length_map)
    ultimately show ?thesis using True t by (auto simp: timerFires_def retained_def)
  qed (use r t in \<open>auto simp: timerFires_def\<close>)
qed

lemma router_run_retained: "router_run u r given outs \<Longrightarrow> \<exists>rest. consumes outs given = Some rest \<and> retained r rest"
proof (induction rule: router_run.induct)
  case (run_read r given outs data ho r' outs')
  then obtain rest where rest: "consumes outs given = Some rest" "retained r rest" by blast
  then show ?case using RouteWithHandler_consumes [OF rest(2) run_read(2)] consumes_more [OF rest(1)] by (auto simp: consumes_append)
next
  case (run_timer r given outs t r' outs')
  then obtain rest where rest: "consumes outs given = Some rest" "retained r rest" by blast
  then show ?case using consumes_timer [OF rest(2) run_timer(2)] by (auto simp: consumes_append)
qed (auto simp: NewRouter_def SetKittyKeyboard_def retained_def)

text \<open>A pending escape always has its timer.\<close>

lemma route_shape: "\<exists>bs. fst (route u h acc data r) \<in> {r, retainESC h bs r}"
proof (induction u h acc data r rule: route.induct)
  case (2 u h acc b bs r)
  then show ?case by (auto simp: route.simps(2) Let_def split: option.splits prod.splits)
qed simp

lemma after_shape: "fst (routeAfterPendingESC u data n h r) \<in> {r, retainESC h data r}"
  by (auto simp: routeAfterPendingESC_def Let_def split: option.splits)

lemma retain_timed: "pending (retainESC h bs r) = (timer (retainESC h bs r) \<noteq> None)"
  by (simp add: retainESC_def)

lemma RouteWithHandler_timed:
  assumes "pending r = (timer r \<noteq> None)"
  shows "pending (fst (RouteWithHandler u data ho r)) = (timer (fst (RouteWithHandler u data ho r)) \<noteq> None)"
proof (cases "data = [] \<or> \<not> pending r")
  case True
  then show ?thesis using assms route_shape [of u "handlerOf ho r" "[]" data r] retain_timed
    by (auto simp: RouteWithHandler_def handlerOf_def Let_def)
next
  case False
  define r0 where "r0 = (stopTimer r)\<lparr>pending := False, pendingAlt := [], pendingHandler := 0\<rparr>"
  obtain r1 o1 n where a: "routeAfterPendingESC u (pendingAlt r @ data) (length (pendingAlt r)) (pendingHandler r) r0 = (r1, o1, n)"
    by (metis prod_cases3)
  have r1: "pending r1 = (timer r1 \<noteq> None)"
    using after_shape [of u "pendingAlt r @ data" "length (pendingAlt r)" "pendingHandler r" r0] a retain_timed
    by (auto simp: r0_def stopTimer_def)
  define rest where "rest = (if length (pendingAlt r) < n then drop (n - length (pendingAlt r)) data else data)"
  obtain r2 o2 where b: "route u (handlerOf ho r) [] rest r1 = (r2, o2)" by fastforce
  have "fst (RouteWithHandler u data ho r) = r2"
    using False a b by (simp add: RouteWithHandler_def handlerOf_def r0_def [symmetric] rest_def [symmetric] Let_def)
  then show ?thesis using route_shape [of u "handlerOf ho r" "[]" rest r1] b r1 retain_timed by auto
qed

lemma router_run_timed: "router_run u r given outs \<Longrightarrow> pending r = (timer r \<noteq> None)"
proof (induction rule: router_run.induct)
  case (run_read r given outs data ho r' outs')
  then show ?case using RouteWithHandler_timed [of r u data ho] by simp
qed (auto simp: NewRouter_def SetKittyKeyboard_def timerFires_def split: if_splits)

section \<open>A whole paste\<close>

definition closedPaste :: "byte list \<Rightarrow> bool" where
  "closedPaste body = (bytesIndex closeMark (paste body) = Some (6 + length body))"

lemma paste_shape: "\<exists>x. paste body = 0x1B # 0x5B # x"
  by (simp add: paste_def BracketedPasteOpenMarker_def)

lemma paste_long: "12 \<le> length (paste body)"
  by (simp add: paste_def)

lemma scan_paste: "closedPaste body \<Longrightarrow> scanEscape k (paste body) = escPaste (paste body)"
  using paste_long [of body] by (simp add: scanEscape_def closedPaste_def) (simp add: paste_def)

lemma route_paste:
  assumes "closedPaste body"
  shows "route u h acc (paste body) r = (r, [(h, Forwarded (acc @ paste body))])"
proof -
  obtain x where x: "paste body = 0x1B # x" using paste_shape by blast
  show ?thesis using scan_paste [OF assms, of "kitty r"] x
    by (simp add: route.simps(2) tokenAction_def passes_def Let_def flush_def)
qed

lemma parseFrom_stops:
  "\<forall>c \<in> set ps. isParam c \<Longrightarrow> \<not> isParam b \<Longrightarrow> b \<noteq> 0x75 \<Longrightarrow> parseFrom i params (ps @ b # x) = NotKey"
  by (induction ps arbitrary: i params) auto

lemma CSI_then_ESC:
  assumes "\<forall>c \<in> set ps. isParam c"
  shows "let d = 0x1B # 0x5B # ps @ 0x1B # x in isParam (d ! 5) \<or> 0x1B \<in> {d ! 2, d ! 3, d ! 4, d ! 5}"
proof -
  consider "length ps = 0" | "length ps = 1" | "length ps = 2" | "length ps = 3" | "4 \<le> length ps" by linarith
  then show ?thesis
  proof cases
    case 5
    then have "isParam (ps ! 3)" using assms by auto
    then show ?thesis using 5 by (simp add: nth_append Let_def)
  qed (auto simp: nth_append Let_def numeral_eq_Suc)
qed

lemma scan_CSI_then_ESC:
  assumes "\<forall>c \<in> set ps. isParam c" "6 \<le> length x"
  shows "scanEscape k (0x1B # 0x5B # ps @ 0x1B # x) = escControlPrefix [0x1B, 0x5B] 0x5B"
proof -
  let ?d = "0x1B # 0x5B # ps @ 0x1B # x"
  have c: "isParam (?d ! 5) \<or> 0x1B \<in> {?d ! 2, ?d ! 3, ?d ! 4, ?d ! 5}" using CSI_then_ESC [OF assms(1), of x] by (simp only: Let_def)
  have a: "altArrowFinal ?d = None" unfolding altArrowFinal_def using c by (auto simp: isParam_def isDigit_def)
  have "prefix openMark ?d \<Longrightarrow> ?d ! 2 = 0x32 \<and> ?d ! 3 = 0x30 \<and> ?d ! 4 = 0x30 \<and> ?d ! 5 = 0x7E"
    by (auto simp: BracketedPasteOpenMarker_def prefix_def)
  then have m: "\<not> prefix openMark ?d" using c by (auto simp: isParam_def isDigit_def)
  have "Parse ?d = NotKey" using parseFrom_stops [OF assms(1), of "0x1B" 2 "[]" x] by (simp add: Parse_def isParam_def isDigit_def)
  moreover have "\<not> isAltArrowPrefix ?d" using assms(2) by (simp add: isAltArrowPrefix_def altArrowLen_def)
  ultimately show ?thesis using a m by (simp add: scanEscape_def scanKey_def scanPlain_def)
qed

lemma partialRune_then_ESC: "partialRune p \<Longrightarrow> FullRune (p @ 0x1B # x) \<and> DecodeRune (p @ 0x1B # x) = (RuneError, 1)"
proof -
  assume p: "partialRune p"
  have bad: "\<not> secondOk b 0x1B" "\<not> contByte 0x1B" for b by (auto simp: secondOk_def acceptLow_def contByte_def)
  obtain b bs where b: "p = b # bs" using p by (cases p) (auto simp: partialRune_def)
  have lead: "Suc (length bs) < leadSize b" using p by (auto simp: b partialRune_def split: if_splits)
  have four: "leadSize b \<in> {0, 1, 2, 3, 4}" by (simp add: leadSize_def Let_def)
  consider "bs = []" | c where "bs = [c]" | c d where "bs = [c, d]"
    using lead four by (cases bs; cases "tl bs"; cases "tl (tl bs)") auto
  then show ?thesis using lead four bad by cases (auto simp: b split: list.split)
qed

lemma pending_then_paste:
  assumes "undecided p" "actionForAltRune (bindings r) 0x1B = None"
  shows "routeAfterPendingESC u (p @ paste body) (length p) h r = (r, [(h, Forwarded (0x1B # p))], length p)"
proof -
  obtain x where x: "paste body = 0x1B # x" "6 \<le> length x" using paste_shape [of body] paste_long [of body] by auto
  consider (none) "p = []" | (csi) "partialCSI p" | (rune) "partialRune p" using undecided_cases [OF assms(1)] by blast
  then show ?thesis
  proof cases
    case none
    have "scanEscape k (0x1B # 0x1B # x) = escAltRune [0x1B, 0x1B] 0x1B" for k
      using scan_rune [of "0x1B # x" k] by (simp add: scanPlain_def partialUTF8Rune_def leadSize_def RuneError_def)
    then show ?thesis using none x assms(2) by (simp add: routeAfterPendingESC_def tokenAction_def leadSize_def Let_def)
  next
    case csi
    then obtain ps where ps: "p = 0x5B # ps" "\<forall>c \<in> set ps. isParam c" by (auto simp: partialCSI_def)
    then show ?thesis using scan_CSI_then_ESC [OF ps(2) x(2)] x(1) bracket_rune
      by (simp add: routeAfterPendingESC_def tokenAction_def Let_def del: DecodeRune.simps)
  next
    case rune
    note lead = partialRune_lead [OF rune] and full = partialRune_then_ESC [OF rune, of x]
    have "scanEscape k (0x1B # p @ paste body) = scanPlain (0x1B # p @ paste body)" for k
      by (rule scan_rune) (use lead in \<open>auto simp: nth_append\<close>)
    also have "\<dots> = escBare [0x1B]" using lead full x(1)
      by (simp add: scanPlain_def partialUTF8Rune_def nth_append del: DecodeRune.simps FullRune.simps)
    finally show ?thesis using full lead x(1) by (simp add: routeAfterPendingESC_def tokenAction_def Let_def del: DecodeRune.simps)
  qed
qed

lemma paste_routed:
  assumes "closedPaste body" "pending r \<longrightarrow> undecided (pendingAlt r)" "actionForAltRune (bindings r) 0x1B = None"
  shows "\<exists>r'. RouteWithHandler u (paste body) ho r =
      (r', (if pending r then [(pendingHandler r, Forwarded (0x1B # pendingAlt r))] else []) @ [(handlerOf ho r, Forwarded (paste body))]) \<and>
    \<not> pending r'"
proof (cases "pending r")
  case True
  then have u: "undecided (pendingAlt r)" using assms(2) by simp
  show ?thesis using True assms(3) paste_long [of body] route_paste [OF assms(1)] pending_then_paste [OF u]
    by (auto simp: RouteWithHandler_def handlerOf_def stopTimer_def Let_def)
next
  case False
  then show ?thesis using paste_long [of body] route_paste [OF assms(1), of u "handlerOf ho r" "[]" r]
    by (auto simp: RouteWithHandler_def handlerOf_def Let_def)
qed

section \<open>Properties\<close>


lemma escape_then_h:
  "\<exists>r. router_run (\<lambda>x. x) r [(1, 0x61), (1, 0x1B), (2, 0x68), (2, 0x62)]
     [(1, Forwarded [0x61]), (1, Acted ActionFocusPaneLeft [0x1B, 0x68]), (2, Forwarded [0x62])]"
proof -
  define r where "r = fst (RouteWithHandler (\<lambda>x. x) [0x61, 0x1B] (Some 1) (NewRouter 0 None))"
  have a: "RouteWithHandler (\<lambda>x. x) [0x61, 0x1B] (Some 1) (NewRouter 0 None) = (r, [(1, Forwarded [0x61])])"
    unfolding r_def by (rule prod_eqI, simp, code_simp)
  have b: "RouteWithHandler (\<lambda>x. x) [0x68, 0x62] (Some 2) r = (fst (RouteWithHandler (\<lambda>x. x) [0x68, 0x62] (Some 2) r),
      [(1, Acted ActionFocusPaneLeft [0x1B, 0x68]), (2, Forwarded [0x62])])"
    unfolding r_def by (rule prod_eqI, simp, code_simp)
  show ?thesis using run_read [OF run_read [OF run_new a] b] by (auto simp: tagged_def handlerOf_def)
qed




text \<open>
  Nothing in a paste is taken for a binding: a whole paste read in any state the router can
  reach is forwarded verbatim and in one piece to its handler, whatever key sequences its body
  contains; an escape retained before it is forwarded first, alone.
\<close>

theorem paste_forwarded_verbatim:
  assumes "router_run u r given outs" "closedPaste body" "actionForAltRune (bindings r) 0x1B = None"
  shows "\<exists>r'. RouteWithHandler u (paste body) ho r =
      (r', (if pending r then [(pendingHandler r, Forwarded (0x1B # pendingAlt r))] else []) @ [(handlerOf ho r, Forwarded (paste body))]) \<and>
    \<not> pending r'"
proof -
  have "pending r \<longrightarrow> undecided (pendingAlt r)" using router_run_retained [OF assms(1)] by (auto simp: retained_def)
  then show ?thesis by (rule paste_routed [OF assms(2) _ assms(3)])
qed

theorem paste_forwarded_verbatim_witness:
  "\<exists>r'. RouteWithHandler (\<lambda>x. x) (paste [0x1B, 0x68]) (Some 7) (NewRouter 0 None) = (r', [(7, Forwarded (paste [0x1B, 0x68]))]) \<and> \<not> pending r'"
proof -
  have "closedPaste [0x1B, 0x68]" "actionForAltRune None 0x1B = None" by code_simp+
  then show ?thesis
    using paste_forwarded_verbatim [OF run_new, of "[0x1B, 0x68]" 0 None "\<lambda>x. x" "Some 7"] by (simp add: NewRouter_def handlerOf_def)
qed

text \<open>
  The retained escape of the opening marker itself is the exception: when a read ends inside the
  marker, the rest of the paste is lexed as ordinary input, and a key sequence in its body acts.
\<close>

lemma paste_after_its_own_escape_acts:
  "snd (RouteWithHandler (\<lambda>x. x) (tl (paste [0x1B, 0x68])) (Some 1) (fst (RouteWithHandler (\<lambda>x. x) [0x1B] (Some 1) (NewRouter 0 None)))) =
     [(1, Forwarded [0x1B, 0x5B]), (1, Forwarded [0x32, 0x30, 0x30, 0x7E]), (1, Acted ActionFocusPaneLeft [0x1B, 0x68]),
      (1, Forwarded [0x1B, 0x5B, 0x32, 0x30, 0x31, 0x7E])]"
  by code_simp

end
