(* ===== verification/Mouse_Scan.thy ===== *)
theory Mouse_Scan
  imports Kitty_Key
begin

text \<open>
  The scanner of SGR mouse reports: \<^verbatim>\<open>internal/usecase/mouse/mouse.go\<close>. It takes the complete
  reports out of the input, keeps a partial one for the next read, and hands on every other byte in
  order.
\<close>

datatype mouseType = Press | Release | Motion

datatype mouseButton = LeftButton | MiddleButton | RightButton | WheelUp | WheelDown | OtherButton

record mouseEvent =
  meType :: mouseType
  meButton :: mouseButton
  meCol :: int
  meRow :: int
  meRaw :: "byte list"

text \<open>The scanner's state is its pending bytes.\<close>

type_synonym mouseScanner = "byte list"

definition eventType :: "int \<Rightarrow> byte \<Rightarrow> mouseType" where
  "eventType cb final = (if final = 0x6D then Release else if cb AND 32 \<noteq> 0 then Motion else Press)"

definition eventButton :: "int \<Rightarrow> mouseButton" where
  "eventButton cb =
     (if cb AND 64 \<noteq> 0 then (if cb = 64 then WheelUp else if cb = 65 then WheelDown else OtherButton)
      else if cb AND 3 = 0 then LeftButton else if cb AND 3 = 1 then MiddleButton else if cb AND 3 = 2 then RightButton else OtherButton)"

text \<open>\<^verbatim>\<open>strconv.Atoi\<close> on digits: a value outside the 64-bit range is an error.\<close>

definition atoiBytes :: "byte list \<Rightarrow> int option" where
  "atoiBytes b = (if b = [] then None else (case atoiFrom 0 b of None \<Rightarrow> None | Some v \<Rightarrow> if v < 2 ^ 63 then Some v else None))"

text \<open>The search for the final byte from index \<open>i\<close>: not found, stopped by a foreign byte, or found.\<close>

datatype sgrEnd = NoEnd | Foreign nat | EndAt nat

fun sgrFind :: "nat \<Rightarrow> byte list \<Rightarrow> sgrEnd" where
  "sgrFind i [] = NoEnd"
| "sgrFind i (b # bs) =
     (if b = 0x4D \<or> b = 0x6D then EndAt i
      else if isDigit b \<or> b = 0x3B then sgrFind (Suc i) bs
      else Foreign i)"

datatype sgrResult = SgrPartial | SgrBad (sgrRaw: "byte list") | SgrEvent (sgrRaw: "byte list") mouseEvent

definition sgrEvent :: "byte list \<Rightarrow> byte list \<Rightarrow> byte \<Rightarrow> sgrResult" where
  "sgrEvent raw params final =
     (let parts = splitByte 0x3B params in
      if length parts \<noteq> 3 then SgrBad raw
      else (case atoiBytes (parts ! 0) of None \<Rightarrow> SgrBad raw | Some cb \<Rightarrow>
        (case atoiBytes (parts ! 1) of None \<Rightarrow> SgrBad raw | Some cx \<Rightarrow>
        (case atoiBytes (parts ! 2) of None \<Rightarrow> SgrBad raw | Some cy \<Rightarrow>
           if cx < 1 \<or> cy < 1 then SgrBad raw
           else SgrEvent raw \<lparr>meType = eventType cb final, meButton = eventButton cb, meCol = cx - 1, meRow = cy - 1, meRaw = raw\<rparr>))))"

definition parseSGR :: "byte list \<Rightarrow> sgrResult" where
  "parseSGR data =
     (case sgrFind 3 (drop 3 data) of
        NoEnd \<Rightarrow> SgrPartial
      | Foreign i \<Rightarrow> SgrBad (take (i + 1) data)
      | EndAt i \<Rightarrow> sgrEvent (take (i + 1) data) (take (i - 3) (drop 3 data)) (data ! i))"

datatype mouseOut = MouseOut mouseEvent | BytesOut "byte list"

definition introducer :: "byte list \<Rightarrow> bool" where
  "introducer data = (3 \<le> length data \<and> data ! 0 = 0x1B \<and> data ! 1 = 0x5B \<and> data ! 2 = 0x3C)"

definition emitBytes :: "byte list \<Rightarrow> mouseOut list" where
  "emitBytes seg = (if seg = [] then [] else [BytesOut seg])"

lemma sgrFind_bounds: "sgrFind i data = EndAt j \<or> sgrFind i data = Foreign j \<Longrightarrow> i \<le> j \<and> j < i + length data"
  by (induction i data arbitrary: j rule: sgrFind.induct) (auto split: if_splits)

lemma sgrEvent_raw: "sgrRaw (sgrEvent raw params final) = raw \<and> sgrEvent raw params final \<noteq> SgrPartial"
  by (auto simp: sgrEvent_def Let_def split: option.splits)

lemma parseSGR_raw:
  assumes "parseSGR data \<noteq> SgrPartial"
  shows "\<exists>n. sgrRaw (parseSGR data) = take n data \<and> 3 < n \<and> n \<le> length data"
proof -
  consider i where "sgrFind 3 (drop 3 data) = Foreign i" | i where "sgrFind 3 (drop 3 data) = EndAt i"
    using assms by (cases "sgrFind 3 (drop 3 data)") (auto simp: parseSGR_def)
  then show ?thesis
  proof cases
    case 1
    then show ?thesis using sgrFind_bounds [of 3 "drop 3 data" i] by (intro exI [of _ "i + 1"]) (auto simp: parseSGR_def)
  next
    case 2
    then show ?thesis using sgrFind_bounds [of 3 "drop 3 data" i] by (intro exI [of _ "i + 1"]) (auto simp: parseSGR_def sgrEvent_raw)
  qed
qed

text \<open>The loop of \<^verbatim>\<open>Scan\<close>, with the segment of ordinary bytes not yet handed on.\<close>

function scanMouse :: "byte list \<Rightarrow> byte list \<Rightarrow> mouseScanner \<times> mouseOut list" where
  "scanMouse seg [] = ([], emitBytes seg)"
| "scanMouse seg (b # bs) =
     (if \<not> introducer (b # bs) then scanMouse (seg @ [b]) bs
      else (case parseSGR (b # bs) of
          SgrPartial \<Rightarrow> (b # bs, emitBytes seg)
        | SgrBad raw \<Rightarrow> (case scanMouse [] (drop (length raw) (b # bs)) of (s, outs) \<Rightarrow> (s, emitBytes seg @ BytesOut raw # outs))
        | SgrEvent raw ev \<Rightarrow> (case scanMouse [] (drop (length raw) (b # bs)) of (s, outs) \<Rightarrow> (s, emitBytes seg @ MouseOut ev # outs))))"
  by pat_completeness auto
termination
proof (relation "measure (\<lambda>(_, data). length data)", goal_cases)
  case (3 seg b bs raw)
  then show ?case using parseSGR_raw [of "b # bs"] by auto
next
  case (4 seg b bs raw ev)
  then show ?case using parseSGR_raw [of "b # bs"] by auto
qed simp_all

declare scanMouse.simps(2) [simp del]

definition ScanMouse :: "byte list \<Rightarrow> mouseScanner \<Rightarrow> mouseScanner \<times> mouseOut list" where
  "ScanMouse data s = scanMouse [] (s @ data)"

section \<open>No byte is lost\<close>

fun mouseRaw :: "mouseOut \<Rightarrow> byte list" where
  "mouseRaw (MouseOut ev) = meRaw ev"
| "mouseRaw (BytesOut bs) = bs"

lemma emitBytes_raw [simp]: "concat (map mouseRaw (emitBytes seg)) = seg"
  by (simp add: emitBytes_def)

lemma event_raw: "parseSGR data = SgrEvent raw ev \<Longrightarrow> meRaw ev = raw"
  by (auto simp: parseSGR_def sgrEvent_def Let_def split: sgrEnd.splits option.splits if_splits)

lemma parse_split: "parseSGR data \<noteq> SgrPartial \<Longrightarrow> sgrRaw (parseSGR data) @ drop (length (sgrRaw (parseSGR data))) data = data"
  using parseSGR_raw [of data] by (auto simp: min_def)

text \<open>What stays pending is an introducer with only parameter bytes after it.\<close>

definition sgrPartial :: "byte list \<Rightarrow> bool" where
  "sgrPartial s \<longleftrightarrow> s = [] \<or> introducer s \<and> parseSGR s = SgrPartial"

lemma scanMouse_lossless:
  "concat (map mouseRaw (snd (scanMouse seg data))) @ fst (scanMouse seg data) = seg @ data \<and> sgrPartial (fst (scanMouse seg data))"
proof (induction seg data rule: scanMouse.induct)
  case (1 seg)
  then show ?case by (simp add: sgrPartial_def)
next
  case (2 seg b bs)
  show ?case
  proof (cases "introducer (b # bs)")
    case False
    then show ?thesis using 2(1) by (simp add: scanMouse.simps(2))
  next
    case True
    show ?thesis
    proof (cases "parseSGR (b # bs)")
      case SgrPartial
      then show ?thesis using True by (simp add: scanMouse.simps(2) sgrPartial_def)
    next
      case (SgrBad raw)
      then show ?thesis using True 2(2) [OF _ SgrBad] parse_split [of "b # bs"] by (simp add: scanMouse.simps(2) split_def)
    next
      case (SgrEvent raw ev)
      then show ?thesis using True 2(3) [OF _ SgrEvent] parse_split [of "b # bs"] event_raw [OF SgrEvent]
        by (simp add: scanMouse.simps(2) split_def)
    qed
  qed
qed

abbreviation scanReads :: "byte list list \<Rightarrow> mouseScanner \<Rightarrow> mouseScanner \<times> mouseOut list" where
  "scanReads \<equiv> feedAll ScanMouse"

interpretation mouse: byte_stage ScanMouse "\<lambda>s. s" mouseRaw sgrPartial
proof
  fix s d s' outs
  assume "ScanMouse d s = (s', outs)"
  then show "concat (map mouseRaw outs) @ s' = s @ d" "sgrPartial s'"
    using scanMouse_lossless [of "[]" "s @ d"] by (simp_all add: ScanMouse_def)
qed

section \<open>A report cut between reads\<close>

definition sgrParam :: "byte \<Rightarrow> bool" where
  "sgrParam b \<longleftrightarrow> isDigit b \<or> b = 0x3B"

lemma sgrFind_params: "\<forall>c \<in> set ps. sgrParam c \<Longrightarrow> sgrFind i (ps @ bs) = sgrFind (i + length ps) bs"
proof (induction ps arbitrary: i)
  case (Cons c ps)
  then have "c \<noteq> 0x4D" "c \<noteq> 0x6D" by (auto simp: sgrParam_def isDigit_def)
  then show ?case using Cons.prems Cons.IH [of "Suc i"] by (simp add: sgrParam_def)
qed simp

lemma partial_params: "\<forall>c \<in> set ps. sgrParam c \<Longrightarrow> parseSGR (0x1B # 0x5B # 0x3C # ps) = SgrPartial"
  using sgrFind_params [of ps 3 "[]"] by (simp add: parseSGR_def)

lemma whole_report:
  "\<forall>c \<in> set ps. sgrParam c \<Longrightarrow> final = 0x4D \<or> final = 0x6D \<Longrightarrow>
   parseSGR (0x1B # 0x5B # 0x3C # ps @ final # rest) = sgrEvent (0x1B # 0x5B # 0x3C # ps @ [final]) ps final"
  using sgrFind_params [of ps 3 "final # rest"] by (auto simp: parseSGR_def nth_append numeral_3_eq_3)

text \<open>The bytes of a report and the event they stand for.\<close>

definition reportParams :: "int \<Rightarrow> int \<Rightarrow> int \<Rightarrow> byte list" where
  "reportParams cb cx cy = AppendInt cb @ [0x3B] @ AppendInt cx @ [0x3B] @ AppendInt cy"

definition reportEvent :: "int \<Rightarrow> int \<Rightarrow> int \<Rightarrow> byte \<Rightarrow> mouseEvent" where
  "reportEvent cb cx cy final = \<lparr>meType = eventType cb final, meButton = eventButton cb, meCol = cx - 1, meRow = cy - 1,
     meRaw = [0x1B, 0x5B, 0x3C] @ reportParams cb cx cy @ [final]\<rparr>"

lemma atoiBytes_fits: "fits n \<Longrightarrow> atoiBytes (AppendInt n) = Some n"
  using AppendInt_fits(1,3) [of n] by (auto simp: atoiBytes_def atoi_def fits_def split: if_splits)

lemma reportParams_ok: "fits cb \<Longrightarrow> fits cx \<Longrightarrow> fits cy \<Longrightarrow> \<forall>c \<in> set (reportParams cb cx cy). sgrParam c"
  using AppendInt_fits(2) by (auto simp: reportParams_def sgrParam_def)

lemma report_event:
  assumes "fits cb" "fits cx" "fits cy" "1 \<le> cx" "1 \<le> cy"
  shows "sgrEvent ([0x1B, 0x5B, 0x3C] @ reportParams cb cx cy @ [final]) (reportParams cb cx cy) final =
     SgrEvent ([0x1B, 0x5B, 0x3C] @ reportParams cb cx cy @ [final]) (reportEvent cb cx cy final)"
proof -
  have "splitByte 0x3B (reportParams cb cx cy) = [AppendInt cb, AppendInt cx, AppendInt cy]"
    using number_facts(6) assms by (simp add: reportParams_def splitByte_cons splitByte_single)
  then show ?thesis using assms by (simp add: sgrEvent_def atoiBytes_fits reportEvent_def)
qed

lemma ScanMouse_partial:
  assumes "\<forall>c \<in> set ps. sgrParam c"
  shows "scanMouse [] (0x1B # 0x5B # 0x3C # ps) = (0x1B # 0x5B # 0x3C # ps, [])"
  using partial_params [OF assms] by (simp add: scanMouse.simps(2) introducer_def emitBytes_def)

lemma scanReads_report:
  assumes "concat reads = bs @ [final]" "\<forall>c \<in> set (ps @ bs). sgrParam c" "final = 0x4D \<or> final = 0x6D"
    "sgrEvent (0x1B # 0x5B # 0x3C # ps @ bs @ [final]) (ps @ bs) final = SgrEvent raw ev" "length raw = length ps + length bs + 4"
  shows "scanReads reads (0x1B # 0x5B # 0x3C # ps) = ([], [MouseOut ev])"
  using assms
proof (induction reads arbitrary: ps bs)
  case (Cons d ds)
  show ?case
  proof (cases "length d \<le> length bs")
    case True
    then obtain bs' where b: "bs = d @ bs'" "concat ds = bs' @ [final]" using Cons.prems(1) by (auto simp: append_eq_append_conv2)
    have "ScanMouse d (0x1B # 0x5B # 0x3C # ps) = (0x1B # 0x5B # 0x3C # ps @ d, [])"
      using ScanMouse_partial [of "ps @ d"] Cons.prems(2) b by (auto simp: ScanMouse_def)
    then show ?thesis using Cons.IH [of bs' "ps @ d"] Cons.prems b by simp
  next
    case False
    then have d: "d = bs @ [final]" "concat ds = []" using Cons.prems(1) by (auto simp: append_eq_append_conv2 append_eq_Cons_conv)
    have "scanMouse [] (0x1B # 0x5B # 0x3C # (ps @ bs) @ [final]) = ([], [MouseOut ev])"
      using whole_report [OF Cons.prems(2,3), of "[]"] Cons.prems(4,5)
      by (simp add: scanMouse.simps(2) [of "[]" "0x1B"] introducer_def emitBytes_def)
    then have s: "ScanMouse d (0x1B # 0x5B # 0x3C # ps) = ([], [MouseOut ev])" using d by (simp add: ScanMouse_def)
    have "scanReads ds [] = ([], [])" using d(2) by (induction ds) (auto simp: ScanMouse_def emitBytes_def)
    then show ?thesis using s by simp
  qed
qed simp

section \<open>Input without reports\<close>

definition reportStart :: "byte list" where
  "reportStart = [0x1B, 0x5B, 0x3C]"

lemma introducer_prefix: "introducer data \<longleftrightarrow> prefix reportStart data"
proof -
  have "prefix reportStart data" if i: "introducer data"
  proof -
    obtain a b c ds where "data = a # b # c # ds" using i by (cases data; cases "tl data"; cases "tl (tl data)") (auto simp: introducer_def)
    then show ?thesis using i by (simp add: introducer_def reportStart_def numeral_2_eq_2)
  qed
  then show ?thesis by (auto simp: reportStart_def introducer_def prefix_def)
qed

lemma scanMouse_plain: "bytesIndex reportStart data = None \<Longrightarrow> scanMouse seg data = ([], emitBytes (seg @ data))"
proof (induction data arbitrary: seg)
  case (Cons b bs)
  then show ?case by (simp add: scanMouse.simps(2) introducer_prefix split: if_splits)
qed simp

section \<open>Properties\<close>

text \<open>
  The mouse scanner loses and reorders no byte: over any reads, the reports it decoded and the
  byte segments it handed on, in order, followed by the partial report it keeps are exactly the
  input; what it keeps is always an unfinished report.
\<close>

theorem mouse_scan_lossless:
  "concat (map mouseRaw (snd (scanReads reads []))) @ fst (scanReads reads []) = concat reads \<and> sgrPartial (fst (scanReads reads []))"
  using mouse.stream_bytes [of "[]" reads "fst (scanReads reads [])" "snd (scanReads reads [])"] by (simp add: sgrPartial_def)

text \<open>
  A mouse report cut anywhere after its introducer is decoded all the same: however the rest of
  the report is split into reads, the scanner gives exactly one event, with the cell and button it
  was sent for, and passes none of its bytes on.
\<close>

theorem split_report_decoded:
  assumes "concat (d # ds) = [0x1B, 0x5B, 0x3C] @ reportParams cb cx cy @ [final]" "3 \<le> length d"
    "fits cb" "fits cx" "fits cy" "1 \<le> cx" "1 \<le> cy" "final = 0x4D \<or> final = 0x6D"
  shows "scanReads (d # ds) [] = ([], [MouseOut (reportEvent cb cx cy final)])"
proof -
  obtain e where e: "d = 0x1B # 0x5B # 0x3C # e" "concat (e # ds) = reportParams cb cx cy @ [final]"
    using assms(1,2) by (cases d; cases "tl d"; cases "tl (tl d)") auto
  have "scanReads (e # ds) (0x1B # 0x5B # 0x3C # []) = ([], [MouseOut (reportEvent cb cx cy final)])"
    using scanReads_report [OF e(2), of "[]"] reportParams_ok [OF assms(3,4,5)] report_event [OF assms(3-7), of final] assms(8) by simp
  then show ?thesis using e(1) by (simp add: ScanMouse_def)
qed

theorem split_report_decoded_witness:
  "scanReads [[0x1B, 0x5B, 0x3C, 0x30], [0x3B, 0x31], [0x32, 0x3B, 0x33, 0x4D]] [] = ([], [MouseOut (reportEvent 0 12 3 0x4D)])"
proof (rule split_report_decoded)
  show "concat [[0x1B, 0x5B, 0x3C, 0x30], [0x3B, 0x31], [0x32, 0x3B, 0x33, 0x4D]] = [0x1B, 0x5B, 0x3C] @ reportParams 0 12 3 @ [0x4D :: byte]"
    by code_simp
qed (simp_all add: fits_def)

end
