(* ===== verification/Input_Path.thy ===== *)
theory Input_Path
  imports Key_Router Mouse_Scan
begin

text \<open>
  The path of an input from the terminal to a pane: the client's coalescer, whose every emission is
  one Input message (\<^verbatim>\<open>internal/usecase/client/attachment_input.go\<close>), then the daemon's mouse
  scanner, key router and key handler (\<^verbatim>\<open>internal/usecase/daemon/input.go\<close>). It is the path of
  an attachment that is current, with no overlay and no picker open.
\<close>

record inputState =
  inMouse :: mouseScanner
  inKeys :: router

datatype delivery = MouseHandled mouseEvent | Routed handler routed

text \<open>The callbacks of the mouse scanner, in the order it makes them.\<close>

fun deliver :: "(rune \<Rightarrow> rune) \<Rightarrow> handler \<Rightarrow> mouseOut list \<Rightarrow> router \<Rightarrow> router \<times> delivery list" where
  "deliver u h [] r = (r, [])"
| "deliver u h (MouseOut ev # outs) r = (case deliver u h outs r of (r', ds) \<Rightarrow> (r', MouseHandled ev # ds))"
| "deliver u h (BytesOut b # outs) r =
     (case RouteWithHandler u b (Some h) r of (r', routed) \<Rightarrow>
       (case deliver u h outs r' of (r'', ds) \<Rightarrow> (r'', map (\<lambda>(h', x). Routed h' x) routed @ ds)))"

definition handleInputForAttachment :: "(rune \<Rightarrow> rune) \<Rightarrow> handler \<Rightarrow> byte list \<Rightarrow> inputState \<Rightarrow> inputState \<times> delivery list" where
  "handleInputForAttachment u h data st =
     (case ScanMouse data (inMouse st) of (m, outs) \<Rightarrow>
       (case deliver u h outs (inKeys st) of (r, ds) \<Rightarrow> (\<lparr>inMouse = m, inKeys = r\<rparr>, ds)))"

text \<open>The Input messages of a client, each with the handler of its admission.\<close>

fun handleInputs :: "(rune \<Rightarrow> rune) \<Rightarrow> (nat \<Rightarrow> handler) \<Rightarrow> nat \<Rightarrow> byte list list \<Rightarrow> inputState \<Rightarrow> inputState \<times> delivery list" where
  "handleInputs u h seq [] st = (st, [])"
| "handleInputs u h seq (m # ms) st =
     (case handleInputForAttachment u (h seq) m st of (st', ds) \<Rightarrow>
       (case handleInputs u h (Suc seq) ms st' of (st'', ds') \<Rightarrow> (st'', ds @ ds')))"

text \<open>
  The bytes written to the pane for a forwarded piece; the flags are those its program asked for,
  and none when there is no pane with a screen.
\<close>

definition paneKeyInput :: "(rune \<Rightarrow> rune) \<Rightarrow> int option \<Rightarrow> byte list \<Rightarrow> byte list" where
  "paneKeyInput u flags data = (case flags of None \<Rightarrow> data | Some f \<Rightarrow> Translate u f data)"

definition forwardToPane :: "(rune \<Rightarrow> rune) \<Rightarrow> bool \<Rightarrow> int option \<Rightarrow> byte list \<Rightarrow> byte list" where
  "forwardToPane u kittyMode flags data = (if kittyMode then paneKeyInput u flags data else data)"

section \<open>Input without mouse reports\<close>

lemma plain_input:
  assumes "bytesIndex reportStart data = None" "inMouse st = []"
  shows "handleInputForAttachment u h data st =
    (case RouteWithHandler u data (Some h) (inKeys st) of (r, routed) \<Rightarrow> (\<lparr>inMouse = [], inKeys = r\<rparr>, map (\<lambda>(h', x). Routed h' x) routed))"
proof (cases "data = []")
  case True
  then show ?thesis using assms by (simp add: handleInputForAttachment_def ScanMouse_def emitBytes_def RouteWithHandler_def)
next
  case False
  then show ?thesis using assms scanMouse_plain [OF assms(1), of "[]"]
    by (simp add: handleInputForAttachment_def ScanMouse_def emitBytes_def split_def)
qed

lemma bytesIndex_None_infix: "bytesIndex pat (xs @ ys) = None \<Longrightarrow> bytesIndex pat xs = None \<and> bytesIndex pat ys = None"
  unfolding bytesIndex_None by (metis append.assoc)

lemma plain_chunks: "bytesIndex pat (concat ms) = None \<Longrightarrow> m \<in> set ms \<Longrightarrow> bytesIndex pat m = None"
  by (induction ms) (auto dest: bytesIndex_None_infix)

lemma bindings_kept: "bindings (fst (RouteWithHandler u data ho r)) = bindings r"
proof (cases "data = [] \<or> \<not> pending r")
  case True
  then show ?thesis using route_shape [of u "handlerOf ho r" "[]" data r]
    by (auto simp: RouteWithHandler_def handlerOf_def retainESC_def Let_def)
next
  case False
  define r0 where "r0 = (stopTimer r)\<lparr>pending := False, pendingAlt := [], pendingHandler := 0\<rparr>"
  obtain r1 o1 n where a: "routeAfterPendingESC u (pendingAlt r @ data) (length (pendingAlt r)) (pendingHandler r) r0 = (r1, o1, n)"
    by (metis prod_cases3)
  define rest where "rest = (if length (pendingAlt r) < n then drop (n - length (pendingAlt r)) data else data)"
  have "bindings r1 = bindings r"
    using after_shape [of u "pendingAlt r @ data" "length (pendingAlt r)" "pendingHandler r" r0] a
    by (auto simp: r0_def stopTimer_def retainESC_def)
  moreover have "fst (RouteWithHandler u data ho r) = fst (route u (handlerOf ho r) [] rest r1)"
    using False a by (simp add: RouteWithHandler_def handlerOf_def r0_def [symmetric] rest_def Let_def split_def)
  ultimately show ?thesis using route_shape [of u "handlerOf ho r" "[]" rest r1] by (auto simp: retainESC_def)
qed

text \<open>A paste among the messages is forwarded whole by the router of its turn.\<close>

lemma paste_among_inputs:
  assumes "paste body \<in> set ms" "\<forall>m \<in> set ms. bytesIndex reportStart m = None" "closedPaste body"
    "actionForAltRune (bindings (inKeys st)) 0x1B = None" "router_run u (inKeys st) given outs" "inMouse st = []"
  shows "\<exists>i. Routed (h i) (Forwarded (paste body)) \<in> set (snd (handleInputs u h seq ms st))"
  using assms
proof (induction ms arbitrary: st seq given outs)
  case (Cons m ms)
  obtain r routed where rt: "RouteWithHandler u m (Some (h seq)) (inKeys st) = (r, routed)" by fastforce
  have hi: "handleInputForAttachment u (h seq) m st = (\<lparr>inMouse = [], inKeys = r\<rparr>, map (\<lambda>(h', x). Routed h' x) routed)"
    using plain_input [of m st u "h seq"] Cons.prems rt by simp
  have run: "router_run u r (given @ tagged (handlerOf (Some (h seq)) (inKeys st)) m) (outs @ routed)"
    by (rule run_read [OF Cons.prems(5) rt])
  show ?case
  proof (cases "paste body = m")
    case True
    have "pending (inKeys st) \<longrightarrow> undecided (pendingAlt (inKeys st))"
      using router_run_retained [OF Cons.prems(5)] by (auto simp: retained_def)
    then have "(h seq, Forwarded (paste body)) \<in> set routed"
      using paste_routed [OF Cons.prems(3) _ Cons.prems(4), of u "Some (h seq)"] rt True by (auto simp: handlerOf_def split: if_splits)
    then have "Routed (h seq) (Forwarded (paste body)) \<in> set (map (\<lambda>(h', x). Routed h' x) routed)" by force
    then show ?thesis using hi by (auto simp: split_def)
  next
    case False
    have "bindings r = bindings (inKeys st)" using bindings_kept [of u m "Some (h seq)" "inKeys st"] rt by simp
    then have "\<exists>i. Routed (h i) (Forwarded (paste body)) \<in> set (snd (handleInputs u h (Suc seq) ms \<lparr>inMouse = [], inKeys = r\<rparr>))"
      using False Cons.prems(1-4) run by (intro Cons.IH) auto
    then show ?thesis using hi by (auto simp: split_def)
  qed
qed simp

section \<open>Terminal to router\<close>

text \<open>The coalescer piped into the router, each emission one message for the handler \<open>ho\<close>.\<close>

interpretation path: piped_stages Scan withheld coalescer_ok "\<lambda>data r. RouteWithHandler u data ho r" retainedBytes "\<lambda>x. rawOf (snd x)" router_ok
  for u ho
  by unfold_locales

lemma feed_lossless: "coalescer_ok c \<Longrightarrow> concat (snd (feed reads c)) @ withheld (fst (feed reads c)) = withheld c @ concat reads"
  using coalesce.stream_bytes [of c reads "fst (feed reads c)" "snd (feed reads c)"] by simp

end
