(* ===== verification/Key_Normalizer.thy ===== *)
theory Key_Normalizer
  imports Kitty_Key
begin

text \<open>
  The normalizer of the outer terminal's key stream: \<^verbatim>\<open>internal/usecase/keys/kittykey/normalize.go\<close>.
  It rewrites key events sent with every enhancement flag into the encoding the rest of the program
  reads, follows whether Ctrl is held alone, and keeps an unfinished sequence for the next read.
\<close>

section \<open>State and sequences\<close>

definition maxNormalizedSeq :: nat where "maxNormalizedSeq = 4096"

definition keyCapsLock :: rune where "keyCapsLock = 57358"
definition keyNumLock :: rune where "keyNumLock = 57360"
definition keyLeftShift :: rune where "keyLeftShift = 57441"
definition keyLeftControl :: rune where "keyLeftControl = 57442"
definition keyRightControl :: rune where "keyRightControl = 57448"
definition keyISOLevel5 :: rune where "keyISOLevel5 = 57454"

lemmas key_codes = keyCapsLock_def keyNumLock_def keyLeftShift_def keyLeftControl_def keyRightControl_def keyISOLevel5_def

record normalizer =
  npending :: "byte list"
  npaste :: bool
  nctrl :: bool
  nkitty :: bool

definition newNormalizer :: normalizer where
  "newNormalizer = \<lparr>npending = [], npaste = False, nctrl = False, nkitty = False\<rparr>"

definition ReleaseCtrl :: "normalizer \<Rightarrow> normalizer" where
  "ReleaseCtrl n = n\<lparr>nctrl := False\<rparr>"

definition hold :: "byte list \<Rightarrow> normalizer \<Rightarrow> normalizer" where
  "hold tail n = (if tail \<noteq> [] then n\<lparr>npending := tail\<rparr> else n)"

fun suffixFrom :: "nat \<Rightarrow> byte list \<Rightarrow> byte list \<Rightarrow> nat" where
  "suffixFrom 0 data marker = 0"
| "suffixFrom (Suc k) data marker = (if prefix (drop (length data - Suc k) data) marker then Suc k else suffixFrom k data marker)"

definition partialSuffix :: "byte list \<Rightarrow> byte list \<Rightarrow> nat" where
  "partialSuffix data marker = suffixFrom (min (length data) (length marker - 1)) data marker"

datatype csiScan = CsiPartial | CsiNone | Csi "byte list" byte nat

fun csiFrom :: "nat \<Rightarrow> byte list \<Rightarrow> byte list \<Rightarrow> csiScan" where
  "csiFrom i params [] = (if i < maxNormalizedSeq then CsiPartial else CsiNone)"
| "csiFrom i params (b # bs) =
     (if maxNormalizedSeq \<le> i then CsiNone
      else if isParam b then csiFrom (Suc i) (params @ [b]) bs
      else Csi params b (Suc i))"

definition scanCSI :: "byte list \<Rightarrow> csiScan" where
  "scanCSI data = (if length data = 1 then CsiPartial else if data ! 1 \<noteq> 0x5B then CsiNone else csiFrom 2 [] (drop 2 data))"

section \<open>Key events\<close>

definition isModifierOrLock :: "rune \<Rightarrow> bool" where
  "isModifierOrLock code = (keyLeftShift \<le> code \<and> code \<le> keyISOLevel5 \<or> keyCapsLock \<le> code \<and> code \<le> keyNumLock)"

definition isTextKey :: "rune \<Rightarrow> bool" where
  "isTextKey code = (0x20 \<le> code \<and> code \<noteq> KeyBackspace \<and> (code < 0xE000 \<or> 0xF8FF < code) \<and> ValidRune code)"

definition appendRunes :: "rune list \<Rightarrow> byte list" where
  "appendRunes rs = concat (map AppendRune rs)"

definition encodeOuter :: "(rune \<Rightarrow> rune) \<Rightarrow> fullKey \<Rightarrow> byte list" where
  "encodeOuter toUpper key =
     (let ev = fkEvent key in
      if evRelease ev \<or> isModifierOrLock (evCode ev) then []
      else if fkText key \<noteq> [] \<or> evCode ev = 0 then appendRunes (fkText key)
      else if evMods ev = 0 \<and> (evCode ev = KeyEnter \<or> evCode ev = KeyTab \<or> evCode ev = KeyBackspace) then [byteOf (evCode ev)]
      else if evMods ev AND NOT ModShift = 0 \<and> isTextKey (evCode ev) then legacyText toUpper ev
      else encodeCSIu (ev\<lparr>evMods := evMods ev OR fkLocks key\<rparr>) OuterFlags)"

definition track :: "event \<Rightarrow> bool \<Rightarrow> normalizer \<Rightarrow> normalizer" where
  "track ev unicodeKey n =
     (if unicodeKey \<and> (evCode ev = keyLeftControl \<or> evCode ev = keyRightControl) then n\<lparr>nctrl := hasFlag (evMods ev) ModCtrl\<rparr>
      else if unicodeKey \<and> evCode ev = 0 then n
      else if unicodeKey \<and> isModifierOrLock (evCode ev) then (if \<not> hasFlag (evMods ev) ModCtrl then n\<lparr>nctrl := False\<rparr> else n)
      else if \<not> hasFlag (evMods ev) ModCtrl then n\<lparr>nctrl := False\<rparr>
      else if evRelease ev then n
      else if unicodeKey then (if Digit ev = None then n\<lparr>nctrl := False\<rparr> else n)
      else n\<lparr>nctrl := False\<rparr>)"

definition rewriteFunctional :: "byte list \<Rightarrow> byte \<Rightarrow> normalizer \<Rightarrow> (normalizer \<times> byte list) option" where
  "rewriteFunctional params final n =
     (let fs = splitByte 0x3B params in
      if length fs \<noteq> 2 then None
      else (case parseMods (fs ! 1) of
          None \<Rightarrow> None
        | Some (mods, ev) \<Rightarrow>
            (let n' = track \<lparr>evCode = 0, evShifted = 0, evBase = 0, evMods = mods AND NOT modLocks, evRelease = (ev = eventRelease)\<rparr> False n in
             if ev = eventRelease then Some (n', [])
             else Some (n', [0x1B, 0x5B] @ (if mods \<noteq> 0 \<or> final = 0x7E \<or> fs ! 0 \<noteq> [0x31] then fs ! 0 else []) @
               (if mods \<noteq> 0 then [0x3B] @ AppendInt (mods + 1) else []) @ [final]))))"

definition rewrite :: "(rune \<Rightarrow> rune) \<Rightarrow> byte list \<Rightarrow> byte \<Rightarrow> normalizer \<Rightarrow> (normalizer \<times> byte list) option" where
  "rewrite toUpper params final n =
     (if final = 0x75 then
        (if params = [] then None
         else (case parseParams params of
             None \<Rightarrow> None
           | Some key \<Rightarrow> Some (track (fkEvent key) True (n\<lparr>nkitty := True\<rparr>), encodeOuter toUpper key)))
      else if final \<in> {0x7E, 0x41, 0x42, 0x43, 0x44, 0x45, 0x46, 0x48, 0x50, 0x51, 0x53} then rewriteFunctional params final n
      else None)"

section \<open>Normalizing\<close>

lemma csiFrom_bounds: "csiFrom i params data = Csi ps final n \<Longrightarrow> i < n \<and> n \<le> i + length data"
  by (induction i params data rule: csiFrom.induct) (auto split: if_splits)

lemma scanCSI_bounds: "scanCSI data = Csi ps final n \<Longrightarrow> 3 \<le> n \<and> (data \<noteq> [] \<longrightarrow> n \<le> length data)"
  using csiFrom_bounds [of 2 "[]" "drop 2 data" ps final n] by (cases data) (auto simp: scanCSI_def split: if_splits)

function normLoop :: "(rune \<Rightarrow> rune) \<Rightarrow> byte list \<Rightarrow> normalizer \<Rightarrow> normalizer \<times> byte list" where
  "normLoop u [] n = (n, [])"
| "normLoop u (b # bs) n =
     (let data = b # bs in
      if npaste n then
        (case bytesIndex BracketedPasteCloseMarker data of
           None \<Rightarrow> (let keep = length data - partialSuffix data BracketedPasteCloseMarker in (hold (drop keep data) n, take keep data))
         | Some e \<Rightarrow> (case normLoop u (drop (e + 6) data) (n\<lparr>npaste := False\<rparr>) of (n', out) \<Rightarrow> (n', take (e + 6) data @ out)))
      else if b \<noteq> 0x1B then (case normLoop u bs n of (n', out) \<Rightarrow> (n', b # out))
      else if prefix BracketedPasteOpenMarker data then
        (case normLoop u (drop 6 data) (n\<lparr>npaste := True\<rparr>) of (n', out) \<Rightarrow> (n', BracketedPasteOpenMarker @ out))
      else (case scanCSI data of
          CsiPartial \<Rightarrow> if length data = 1 \<and> \<not> nkitty n then (n, data) else (hold data n, [])
        | CsiNone \<Rightarrow> (case normLoop u bs n of (n', out) \<Rightarrow> (n', b # out))
        | Csi params final k \<Rightarrow>
            (case rewrite u params final n of
               Some (n', repl) \<Rightarrow> (case normLoop u (drop k data) n' of (n'', out) \<Rightarrow> (n'', repl @ out))
             | None \<Rightarrow> (case normLoop u bs n of (n', out) \<Rightarrow> (n', b # out)))))"
  by pat_completeness auto
termination
  by (relation "measure (\<lambda>(_, data, _). length data)") (auto dest: scanCSI_bounds)

declare normLoop.simps(2) [simp del]

definition Normalize :: "(rune \<Rightarrow> rune) \<Rightarrow> byte list \<Rightarrow> normalizer \<Rightarrow> normalizer \<times> byte list" where
  "Normalize u data n = normLoop u (npending n @ data) (n\<lparr>npending := []\<rparr>)"

section \<open>Unfinished sequences\<close>

lemma suffixFrom_match: "prefix (drop (length data - suffixFrom k data marker) data) marker"
  by (induction k) auto

lemma suffixFrom_le: "suffixFrom k data marker \<le> k"
  by (induction k) auto

lemma suffixFrom_max: "j \<le> k \<Longrightarrow> prefix (drop (length data - j) data) marker \<Longrightarrow> j \<le> suffixFrom k data marker"
  by (induction k) (auto simp: le_Suc_eq)

lemma partialSuffix_match: "prefix (drop (length data - partialSuffix data marker) data) marker"
  by (simp add: partialSuffix_def suffixFrom_match)

lemma partialSuffix_le: "partialSuffix data marker \<le> length data" "marker \<noteq> [] \<Longrightarrow> partialSuffix data marker < length marker"
  using suffixFrom_le [of "min (length data) (length marker - 1)" data marker]
  by (auto simp: partialSuffix_def) (metis Suc_pred length_greater_0_conv less_Suc_eq_le)

lemma partialSuffix_max:
  "j \<le> length data \<Longrightarrow> j < length marker \<Longrightarrow> prefix (drop (length data - j) data) marker \<Longrightarrow> j \<le> partialSuffix data marker"
  by (simp add: partialSuffix_def suffixFrom_max)

lemma partialSuffix_spec:
  assumes "k \<le> length data" "k < length marker" "prefix (drop (length data - k) data) marker"
    "\<And>j. j \<le> length data \<Longrightarrow> j < length marker \<Longrightarrow> prefix (drop (length data - j) data) marker \<Longrightarrow> j \<le> k"
  shows "partialSuffix data marker = k"
proof (rule antisym)
  show "partialSuffix data marker \<le> k"
    by (rule assms(4)) (use partialSuffix_le partialSuffix_match assms(2) in \<open>auto intro: partialSuffix_le(2)\<close>)
  show "k \<le> partialSuffix data marker" by (rule partialSuffix_max [OF assms(1-3)])
qed

text \<open>No marker starts before the longest suffix that could begin one.\<close>

lemma marker_after_keep:
  assumes "bytesIndex marker a = None" "prefix marker (drop e (a @ b))" "e \<le> length a"
  shows "length a - partialSuffix a marker \<le> e"
proof -
  obtain v where v: "drop e a @ b = marker @ v" using assms(2,3) by (auto simp: prefix_def)
  have lt: "length (drop e a) < length marker"
  proof (rule ccontr)
    assume "\<not> ?thesis"
    then have "prefix marker (drop e a)" using v by (auto simp: append_eq_append_conv2 prefix_def)
    then obtain w where "a = take e a @ marker @ w" using append_take_drop_id [of e a] by (metis prefix_def)
    then show False using assms(1) unfolding bytesIndex_None by blast
  qed
  have "prefix (drop e a) (marker @ v)" using v by (metis prefixI)
  then have "prefix (drop e a) marker" using lt by (intro prefix_length_prefix [of _ "marker @ v" marker]) auto
  then have "length a - e \<le> partialSuffix a marker" using lt assms(3) by (intro partialSuffix_max) auto
  then show ?thesis by simp
qed

lemma drop_past: "length x = k \<Longrightarrow> drop (k + m) (x @ c) = drop m c"
  and take_past: "length x = k \<Longrightarrow> take (k + m) (x @ c) = x @ take m c"
  by auto

lemma partialSuffix_split:
  assumes "bytesIndex marker a = None" "keep = length a - partialSuffix a marker" "marker \<noteq> []"
  shows "partialSuffix (a @ b) marker = partialSuffix (drop keep a @ b) marker"
proof -
  let ?c = "drop keep a @ b" and ?k = "partialSuffix (a @ b) marker"
  have ab: "drop keep (a @ b) = ?c" "keep \<le> length a" using assms(2) by auto
  have drops: "drop (length (a @ b) - j) (a @ b) = drop (length ?c - j) ?c" if "j \<le> length ?c" for j
  proof -
    have l: "length (a @ b) - j = keep + (length ?c - j)" using that ab(2) by simp
    have s: "a @ b = take keep a @ ?c" by simp
    have "drop (keep + (length ?c - j)) (take keep a @ ?c) = drop (length ?c - j) ?c" using ab(2) by (intro drop_past) simp
    then show ?thesis by (metis l s)
  qed
  have small: "j \<le> length ?c" if j: "j \<le> length (a @ b)" "j < length marker" "prefix (drop (length (a @ b) - j) (a @ b)) marker" for j
  proof (rule ccontr)
    assume "\<not> ?thesis"
    then have "length b \<le> j" "length a - keep < j - length b" by auto
    moreover have "prefix (drop (length a - (j - length b)) a) marker"
    proof -
      have "drop (length (a @ b) - j) (a @ b) = drop (length a - (j - length b)) a @ b" using j(1) calculation by auto
      then show ?thesis using j(3) by (auto simp: prefix_def)
    qed
    ultimately have "j - length b \<le> partialSuffix a marker" using j by (intro partialSuffix_max) auto
    then show False using \<open>length a - keep < j - length b\<close> partialSuffix_le(1) [of a marker] assms(2) by auto
  qed
  have k: "?k \<le> length (a @ b)" "?k < length marker" "prefix (drop (length (a @ b) - ?k) (a @ b)) marker"
    using partialSuffix_le [of "a @ b"] partialSuffix_le(2) [OF assms(3)] partialSuffix_match [of "a @ b"] by auto
  have "partialSuffix ?c marker = ?k"
  proof (rule partialSuffix_spec)
    show "?k \<le> length ?c" by (rule small [OF k])
    then show "prefix (drop (length ?c - ?k) ?c) marker" using k(3) drops by simp
    fix j assume j: "j \<le> length ?c" "j < length marker" "prefix (drop (length ?c - j) ?c) marker"
    then show "j \<le> ?k" using drops [OF j(1)] by (intro partialSuffix_max) auto
  qed (rule k(2))
  then show ?thesis by simp
qed

lemma csiFrom_append: "csiFrom i params data \<noteq> CsiPartial \<Longrightarrow> csiFrom i params (data @ later) = csiFrom i params data"
proof (induction i params data rule: csiFrom.induct)
  case (1 i params)
  then show ?case by (cases later) (auto split: if_splits)
qed (auto split: if_splits)

lemma scanCSI_append: "data \<noteq> [] \<Longrightarrow> scanCSI data \<noteq> CsiPartial \<Longrightarrow> scanCSI (data @ later) = scanCSI data"
  by (cases data; cases "tl data") (auto simp: scanCSI_def csiFrom_append split: if_splits)

lemma open_prefix_partial: "strict_prefix data openMark \<Longrightarrow> data \<noteq> [] \<Longrightarrow> scanCSI data = CsiPartial"
proof -
  assume "strict_prefix data openMark" "data \<noteq> []"
  then have "data \<in> {[0x1B], [0x1B, 0x5B], [0x1B, 0x5B, 0x32], [0x1B, 0x5B, 0x32, 0x30], [0x1B, 0x5B, 0x32, 0x30, 0x30]}"
    by (auto simp: BracketedPasteOpenMarker_def strict_prefix_def prefix_Cons)
  then show ?thesis by (auto simp: scanCSI_def maxNormalizedSeq_def isParam_def isDigit_def)
qed

lemma not_open_append:
  assumes "data \<noteq> []" "\<not> prefix openMark data" "scanCSI data \<noteq> CsiPartial"
  shows "\<not> prefix openMark (data @ later)"
proof
  assume "prefix openMark (data @ later)"
  then obtain us where "openMark = data @ us" using assms(2) unfolding prefix_append by blast
  then have "strict_prefix data openMark" using assms(2) by (metis prefixI strict_prefixI prefix_order.refl)
  then show False using open_prefix_partial assms(1,3) by blast
qed

lemma track_keeps [simp]: "npending (track ev k n) = npending n" "npaste (track ev k n) = npaste n" "nkitty (track ev k n) = nkitty n"
  by (simp_all add: track_def)

lemma rewrite_keeps:
  "rewrite u params final n = Some (n', out) \<Longrightarrow> npending n' = npending n \<and> npaste n' = npaste n \<and> (nkitty n \<longrightarrow> nkitty n')"
  by (auto simp: rewrite_def rewriteFunctional_def Let_def split: if_splits option.splits prod.splits)

section \<open>Splitting the input\<close>

definition prepend :: "byte list \<Rightarrow> normalizer \<times> byte list \<Rightarrow> normalizer \<times> byte list" where
  "prepend out res = (fst res, out @ snd res)"

definition resume :: "(rune \<Rightarrow> rune) \<Rightarrow> byte list \<Rightarrow> normalizer \<times> byte list \<Rightarrow> normalizer \<times> byte list" where
  "resume u later res = prepend (snd res) (normLoop u (npending (fst res) @ later) ((fst res)\<lparr>npending := []\<rparr>))"

lemma prepend_fold [simp]: "(case res of (n, out) \<Rightarrow> (n, x @ out)) = prepend x res" "(case res of (n, out) \<Rightarrow> (n, b # out)) = prepend [b] res"
  by (simp_all add: prepend_def split_def)

lemma resume_prepend: "resume u later (prepend x res) = prepend x (resume u later res)"
  by (simp add: resume_def prepend_def)

lemma normLoop_paste:
  "npaste n \<Longrightarrow> data \<noteq> [] \<Longrightarrow> normLoop u data n =
     (case bytesIndex closeMark data of
        None \<Rightarrow> (let keep = length data - partialSuffix data closeMark in (hold (drop keep data) n, take keep data))
      | Some e \<Rightarrow> prepend (take (e + 6) data) (normLoop u (drop (e + 6) data) (n\<lparr>npaste := False\<rparr>)))"
  by (cases data) (simp_all add: normLoop.simps(2) Let_def prepend_def split_def del: bytesIndex.simps split: option.split)

lemma normLoop_paste_hold:
  assumes "npaste n" "bytesIndex closeMark a = None" "keep = length a - partialSuffix a closeMark"
  shows "normLoop u (a @ b) n = prepend (take keep a) (normLoop u (drop keep a @ b) n)"
proof (cases "drop keep a @ b = []")
  case True
  then have "b = []" "keep = length a" using assms(3) by auto
  then show ?thesis using assms by (cases "a = []") (auto simp: prepend_def normLoop_paste hold_def Let_def)
next
  case False
  let ?c = "drop keep a @ b"
  have ab: "a @ b \<noteq> []" "a @ b = take keep a @ ?c" "keep \<le> length a" "drop keep (a @ b) = ?c" using False assms(3) by auto
  show ?thesis
  proof (cases "bytesIndex closeMark (a @ b)")
    case None
    have c: "bytesIndex closeMark ?c = None" using bytesIndex_None_drop [OF None, of keep] ab(4) by simp
    have s: "partialSuffix (a @ b) closeMark = partialSuffix ?c closeMark"
      by (rule partialSuffix_split [OF assms(2,3)]) (simp add: BracketedPasteCloseMarker_def)
    define j where "j = partialSuffix ?c closeMark"
    have j: "j \<le> length ?c" "length (a @ b) - j = keep + (length ?c - j)"
    proof -
      show j: "j \<le> length ?c" using partialSuffix_le(1) [of ?c] by (simp only: j_def)
      then show "length (a @ b) - j = keep + (length ?c - j)" using ab(3) by simp
    qed
    show ?thesis unfolding normLoop_paste [OF assms(1) ab(1)] normLoop_paste [OF assms(1) False] None c option.case Let_def s
      j_def [symmetric] j(2) unfolding ab(2) using ab(3)
      by (subst drop_past, simp, subst take_past, simp, simp add: prepend_def)
  next
    case (Some e)
    have "take 6 (drop e (a @ b)) = closeMark" using bytesIndex_Some [OF Some] by simp
    then have pre: "prefix closeMark (drop e (a @ b))" by (metis take_is_prefix)
    have e: "keep \<le> e"
      using marker_after_keep [OF assms(2) pre] assms(3) by (cases "e \<le> length a") auto
    have c: "bytesIndex closeMark ?c = Some (e - keep)" using bytesIndex_drop [OF Some e] ab(4) by simp
    have t: "take (e + 6) (a @ b) = take keep a @ take (e - keep + 6) ?c" "drop (e + 6) (a @ b) = drop (e - keep + 6) ?c"
      using e ab(3) unfolding ab(2) by auto
    show ?thesis unfolding normLoop_paste [OF assms(1) ab(1)] normLoop_paste [OF assms(1) False] Some c option.case t
      by (simp add: prepend_def)
  qed
qed

lemma unhold: "npending n = [] \<Longrightarrow> n\<lparr>npending := []\<rparr> = n" "npending n = [] \<Longrightarrow> (hold tail n)\<lparr>npending := []\<rparr> = n"
  "npending n = [] \<Longrightarrow> npending (hold tail n) = tail"
  by (cases n; simp add: hold_def)+

lemma normLoop_split: "nkitty n \<Longrightarrow> npending n = [] \<Longrightarrow> normLoop u (a @ later) n = resume u later (normLoop u a n)"
proof (induction u a n rule: normLoop.induct)
  case (1 u n)
  then show ?case by (simp add: resume_def prepend_def unhold)
next
  case (2 u b bs n)
  let ?a = "b # bs"
  note step = normLoop.simps(2) [of u b bs n] and step' = normLoop.simps(2) [of u b "bs @ later" n]
  show ?case
  proof (cases "npaste n")
    case paste: True
    show ?thesis
    proof (cases "bytesIndex closeMark ?a")
      case None
      then show ?thesis using normLoop_paste_hold [OF paste None refl, of u later] 2(8) paste
        by (simp add: normLoop_paste resume_def Let_def unhold prepend_def del: bytesIndex.simps)
    next
      case (Some e)
      have l: "e + 6 \<le> length ?a" using bytesIndex_Some [OF Some] by simp
      have "normLoop u (drop (e + 6) ?a @ later) (n\<lparr>npaste := False\<rparr>) = resume u later (normLoop u (drop (e + 6) ?a) (n\<lparr>npaste := False\<rparr>))"
        using 2(1) [OF refl paste Some] 2(7,8) by simp
      then show ?thesis using l paste Some bytesIndex_append [OF Some, of later] resume_prepend
        by (simp add: normLoop_paste del: bytesIndex.simps append_Cons add: append_Cons [symmetric])
    qed
  next
    case paste: False
    show ?thesis
    proof (cases "b = 0x1B")
      case False
      then show ?thesis using 2(2) [OF refl paste] 2(7,8) paste resume_prepend by (simp add: step step')
    next
      case esc: True
      note step = step [unfolded esc] and step' = step' [unfolded esc]
      show ?thesis
      proof (cases "prefix openMark ?a")
        case True
        then obtain c where c: "?a = openMark @ c" by (auto simp: prefix_def)
        then have p: "prefix openMark (?a @ later)" "drop 6 ?a = c" "drop 6 (?a @ later) = c @ later" by (simp_all add: c)
        have "normLoop u (c @ later) (n\<lparr>npaste := True\<rparr>) = resume u later (normLoop u c (n\<lparr>npaste := True\<rparr>))"
          using 2(3) [OF refl paste _ True] esc 2(7,8) p by simp
        then show ?thesis using p True paste esc resume_prepend
          by (simp add: step step' Let_def)
      next
        case open_no: False
        show ?thesis
        proof (cases "scanCSI ?a = CsiPartial")
          case True
          then show ?thesis using paste esc open_no 2(7,8) by (simp add: step Let_def resume_def prepend_def unhold)
        next
          case dec: False
          have o: "\<not> prefix openMark (?a @ later)" "scanCSI (?a @ later) = scanCSI ?a"
            using not_open_append [OF _ open_no dec, of later] scanCSI_append [OF _ dec, of later] by auto
          show ?thesis
          proof (cases "scanCSI ?a")
            case CsiNone
            then show ?thesis using 2(4) [OF refl paste _ open_no CsiNone] esc 2(7,8) paste open_no o resume_prepend
              by (simp add: step step' Let_def)
          next
            case (Csi params final k)
            have k: "k \<le> length ?a" using scanCSI_bounds [OF Csi] by simp
            show ?thesis
            proof (cases "rewrite u params final n")
              case None
              then show ?thesis using 2(5) [OF refl paste _ open_no Csi None] esc 2(7,8) paste open_no o Csi resume_prepend
                by (simp add: step step' Let_def)
            next
              case (Some res)
              obtain n' repl where res: "res = (n', repl)" by fastforce
              have kept: "nkitty n'" "npending n' = []" using rewrite_keeps [of u params final n n' repl] Some res 2(7,8) by auto
              have "normLoop u (drop k ?a @ later) n' = resume u later (normLoop u (drop k ?a) n')"
                using 2(6) [OF refl paste _ open_no Csi Some res [symmetric] kept] esc by simp
              moreover have "drop k (0x1B # bs @ later) = drop k (0x1B # bs) @ later" using k drop_append [of k "0x1B # bs" later] by simp
              ultimately show ?thesis using Some res esc paste open_no o Csi resume_prepend by (simp add: step step' Let_def)
            qed
          qed (use dec in simp)
        qed
      qed
    qed
  qed
qed

section \<open>Input already in the outer encoding\<close>

definition outerKey :: "event \<Rightarrow> bool" where
  "outerKey ev \<longleftrightarrow> event_ok ev \<and> \<not> evRelease ev \<and> \<not> isModifierOrLock (evCode ev) \<and>
     \<not> (evMods ev = 0 \<and> evCode ev \<in> {KeyEnter, KeyTab, KeyBackspace}) \<and> \<not> (evMods ev AND NOT ModShift = 0 \<and> isTextKey (evCode ev))"

definition outer_ok :: "item \<Rightarrow> bool" where
  "outer_ok x = (case x of Key ev \<Rightarrow> outerKey ev | _ \<Rightarrow> item_ok x)"

definition outerWire :: "item \<Rightarrow> byte list" where
  "outerWire x = (case x of Typed bs \<Rightarrow> bs | Pasted body \<Rightarrow> paste body | Key ev \<Rightarrow> encodeCSIu ev OuterFlags)"

lemma outer_params: "outerKey ev \<Longrightarrow> encodeCSIu ev OuterFlags = [0x1B, 0x5B] @ paramsField ev @ [0x75]"
  by (rule encodeCSIu_params) (simp_all add: kitty_consts hasFlag_def outerKey_def)

lemma encodeOuter_outer: "outerKey ev \<Longrightarrow> encodeOuter u \<lparr>fkEvent = ev, fkLocks = 0, fkText = []\<rparr> = encodeCSIu ev OuterFlags"
  by (auto simp: encodeOuter_def outerKey_def event_ok_def Let_def)

lemma csiFrom_params:
  "\<forall>c \<in> set ps. isParam c \<Longrightarrow> i + length ps < maxNormalizedSeq \<Longrightarrow>
   csiFrom i params (ps @ 0x75 # rest) = Csi (params @ ps) 0x75 (Suc (i + length ps))"
  by (induction ps arbitrary: i params) (auto simp: isParam_def isDigit_def)

lemma normLoop_outer_key:
  assumes "outerKey ev" "\<not> npaste n"
  shows "\<exists>n'. \<not> npaste n' \<and> npending n' = npending n \<and>
    normLoop u (encodeCSIu ev OuterFlags @ data) n = prepend (encodeCSIu ev OuterFlags) (normLoop u data n')"
proof -
  have ok: "event_ok ev" using assms(1) by (simp add: outerKey_def)
  let ?d = "[0x1B, 0x5B] @ paramsField ev @ [0x75] @ data"
  note p = paramsField_bytes [OF ok]
  have no: "\<not> prefix openMark ?d" using Parse_encoded [OF ok, of data] Parse_open_marker by (metis parseResult.distinct(3) prefix_def)
  have s: "scanCSI ?d = Csi (paramsField ev) 0x75 (Suc (2 + length (paramsField ev)))"
    using csiFrom_params [OF p(1), of 2 "[]" data] p(3) by (simp add: scanCSI_def maxNormalizedSeq_def)
  define n' where "n' = track ev True (n\<lparr>nkitty := True\<rparr>)"
  have r: "rewrite u (paramsField ev) 0x75 n = Some (n', encodeCSIu ev OuterFlags)"
    using paramsField_parse [OF ok] p(2) encodeOuter_outer [OF assms(1)] by (simp add: rewrite_def n'_def)
  have "drop (Suc (2 + length (paramsField ev))) ?d = data" by simp
  then have "normLoop u ?d n = prepend (encodeCSIu ev OuterFlags) (normLoop u data n')"
    using assms(2) no s r normLoop.simps(2) [of u "0x1B" "[0x5B] @ paramsField ev @ [0x75] @ data" n] by (simp add: Let_def)
  moreover have "\<not> npaste n'" "npending n' = npending n" using assms(2) by (simp_all add: n'_def)
  ultimately show ?thesis using outer_params [OF assms(1)] by auto
qed

lemma normLoop_typed: "0x1B \<notin> set bs \<Longrightarrow> \<not> npaste n \<Longrightarrow> normLoop u (bs @ data) n = prepend bs (normLoop u data n)"
  by (induction bs) (auto simp: prepend_def normLoop.simps(2))

lemma unpaste: "\<not> npaste n \<Longrightarrow> n\<lparr>npaste := False\<rparr> = n"
  by (cases n) simp

lemma normLoop_pasted:
  assumes "bytesIndex closeMark (paste body) = Some (6 + length body)" "\<not> npaste n"
  shows "normLoop u (paste body @ data) n = prepend (paste body) (normLoop u data n)"
proof -
  let ?b = "body @ closeMark @ data"
  have i: "bytesIndex closeMark ?b = Some (length body)"
    using bytesIndex_drop [OF bytesIndex_append [OF assms(1), of data], of 6] by (simp add: paste_def)
  have "normLoop u ?b (n\<lparr>npaste := True\<rparr>) = prepend (body @ closeMark) (normLoop u data n)"
    using assms(2) i by (subst normLoop_paste) (auto simp: BracketedPasteCloseMarker_def unpaste)
  moreover obtain x where x: "paste body @ data = 0x1B # x" by (simp add: paste_def BracketedPasteOpenMarker_def)
  moreover have "prefix openMark (0x1B # x)" "drop 6 (0x1B # x) = ?b" unfolding x [symmetric] by (simp_all add: paste_def)
  ultimately have "normLoop u (paste body @ data) n = prepend openMark (prepend (body @ closeMark) (normLoop u data n))"
    unfolding x using assms(2) by (simp add: normLoop.simps(2) [of u "0x1B"] Let_def)
  then show ?thesis by (simp add: prepend_def paste_def)
qed

lemma normLoop_items:
  "\<forall>x \<in> set xs. outer_ok x \<Longrightarrow> \<not> npaste n \<Longrightarrow> npending n = [] \<Longrightarrow>
   \<exists>n'. normLoop u (concat (map outerWire xs)) n = (n', concat (map outerWire xs)) \<and> npending n' = [] \<and> \<not> npaste n'"
proof (induction xs arbitrary: n)
  case (Cons x xs)
  have "\<exists>n'. \<not> npaste n' \<and> npending n' = npending n \<and>
      normLoop u (outerWire x @ concat (map outerWire xs)) n = prepend (outerWire x) (normLoop u (concat (map outerWire xs)) n')"
  proof (cases x)
    case (Key ev)
    then show ?thesis using normLoop_outer_key [of ev n u] Cons.prems by (simp add: outer_ok_def outerWire_def)
  qed (use Cons.prems normLoop_typed normLoop_pasted in \<open>auto simp: outer_ok_def item_ok_def outerWire_def\<close>)
  then obtain n' where n': "\<not> npaste n'" "npending n' = []"
    "normLoop u (outerWire x @ concat (map outerWire xs)) n = prepend (outerWire x) (normLoop u (concat (map outerWire xs)) n')"
    using Cons.prems(3) by auto
  then show ?case using Cons.IH [of n'] Cons.prems(1) by (auto simp: prepend_def)
qed simp

section \<open>Properties\<close>

lemma hold_keeps [simp]: "nkitty (hold tail n) = nkitty n"
  by (simp add: hold_def)

lemma normLoop_kitty: "nkitty n \<Longrightarrow> nkitty (fst (normLoop u data n))"
proof (induction u data n rule: normLoop.induct)
  case (2 u b bs n)
  show ?case
  proof (cases "npaste n")
    case True
    then show ?thesis using 2(1) [OF refl True] 2(7)
      by (cases "bytesIndex closeMark (b # bs)") (simp_all add: normLoop_paste prepend_def Let_def del: bytesIndex.simps)
  next
    case paste: False
    show ?thesis
    proof (cases "b = 0x1B \<and> \<not> prefix openMark (b # bs)")
      case False
      then show ?thesis using 2(2,3) [OF refl paste] 2(7) paste
        by (cases "b = 0x1B") (simp_all add: normLoop.simps(2) [of u "0x1B"] normLoop.simps(2) [of u b] Let_def prepend_def)
    next
      case True
      then have esc: "\<not> b \<noteq> 0x1B" and no: "\<not> prefix openMark (b # bs)" by auto
      have eq: "normLoop u (b # bs) n = (case scanCSI (b # bs) of
          CsiPartial \<Rightarrow> if bs = [] \<and> \<not> nkitty n then (n, [b]) else (hold (b # bs) n, [])
        | CsiNone \<Rightarrow> prepend [b] (normLoop u bs n)
        | Csi params final k \<Rightarrow>
            (case rewrite u params final n of
               Some (n', repl) \<Rightarrow> prepend repl (normLoop u (drop k (b # bs)) n')
             | None \<Rightarrow> prepend [b] (normLoop u bs n)))"
        using esc no paste by (simp add: normLoop.simps(2) [of u "0x1B" bs n] Let_def split: csiScan.split option.split prod.split)
      show ?thesis
      proof (cases "scanCSI (b # bs)")
        case (Csi params final k)
        show ?thesis
        proof (cases "rewrite u params final n")
          case None
          then show ?thesis using eq Csi 2(5) [OF refl paste esc no Csi None 2(7)] by (simp add: prepend_def)
        next
          case (Some res)
          obtain n' repl where res: "res = (n', repl)" by fastforce
          have "nkitty n'" using rewrite_keeps [of u params final n n' repl] Some res 2(7) by auto
          then show ?thesis using eq Csi Some res 2(6) [OF refl paste esc no Csi Some res [symmetric]] by (simp add: prepend_def)
        qed
      qed (use eq 2(4) [OF refl paste esc no] 2(7) in \<open>auto simp: prepend_def\<close>)
    qed
  qed
qed simp

abbreviation normReads :: "(rune \<Rightarrow> rune) \<Rightarrow> byte list list \<Rightarrow> normalizer \<Rightarrow> normalizer \<times> byte list" where
  "normReads u \<equiv> feedAll (Normalize u)"

lemma Normalize_split: "nkitty n \<Longrightarrow> Normalize u (a @ b) n = (case Normalize u a n of (n', out) \<Rightarrow> prepend out (Normalize u b n'))"
  using normLoop_split [of "n\<lparr>npending := []\<rparr>" u "npending n @ a" b] by (simp add: Normalize_def resume_def split_def)

text \<open>
  C25. How the terminal's bytes are cut into reads makes no difference to the normalizer: once the
  terminal has shown that it speaks the kitty protocol, normalizing the reads one by one, holding
  unfinished sequences and paste markers between them, gives the same bytes, the same Ctrl state
  and the same held rest as normalizing them in one piece.
\<close>

theorem normalize_reads:
  assumes "nkitty n"
  shows "normReads u (d # ds) n = Normalize u (concat (d # ds)) n"
  using assms
proof (induction ds arbitrary: d n)
  case (Cons e ds)
  have "nkitty (fst (Normalize u d n))" using normLoop_kitty Cons.prems by (simp add: Normalize_def)
  then have "normReads u (e # ds) (fst (Normalize u d n)) = Normalize u (concat (e # ds)) (fst (Normalize u d n))" by (rule Cons.IH)
  moreover have "normReads u (d # e # ds) n = prepend (snd (Normalize u d n)) (normReads u (e # ds) (fst (Normalize u d n)))"
    by (simp add: prepend_def split_def)
  ultimately show ?case using Normalize_split [OF Cons.prems, of u d "concat (e # ds)"] by (simp add: split_def del: feedAll.simps)
qed (simp add: prepend_def split_def)

theorem normalize_reads_witness:
  "normReads (\<lambda>x. x) [[0x1B, 0x5B, 0x39], [0x37, 0x3B, 0x35], [0x75, 0x1B]] \<lparr>npending = [], npaste = False, nctrl = True, nkitty = True\<rparr> =
     Normalize (\<lambda>x. x) (concat [[0x1B, 0x5B, 0x39], [0x37, 0x3B, 0x35], [0x75, 0x1B]]) \<lparr>npending = [], npaste = False, nctrl = True, nkitty = True\<rparr>"
  by (rule normalize_reads) simp

text \<open>
  Input already in the outer encoding passes byte for byte: typed bytes, whole pastes and the
  key events a terminal sends under the outer flags come out unchanged, and nothing is held back.
\<close>

theorem normalize_keeps_outer:
  assumes "\<forall>x \<in> set xs. outer_ok x"
  shows "\<exists>n. Normalize u (concat (map outerWire xs)) newNormalizer = (n, concat (map outerWire xs)) \<and> npending n = []"
  using normLoop_items [OF assms, of newNormalizer u] by (auto simp: Normalize_def newNormalizer_def)

theorem normalize_keeps_outer_witness:
  "\<exists>n. Normalize (\<lambda>x. x) (concat (map outerWire [Typed [0x61], Key \<lparr>evCode = 97, evShifted = 0, evBase = 0, evMods = 4, evRelease = False\<rparr>])) newNormalizer =
     (n, concat (map outerWire [Typed [0x61], Key \<lparr>evCode = 97, evShifted = 0, evBase = 0, evMods = 4, evRelease = False\<rparr>])) \<and> npending n = []"
  by (rule normalize_keeps_outer)
    (simp add: outer_ok_def item_ok_def outerKey_def event_ok_def fits_def isModifierOrLock_def key_codes kitty_consts)

end
