(* ===== verification/Mux_Limits.thy ===== *)
theory Mux_Limits
  imports Vev_Prelude
begin

text \<open>
  The negotiated ceilings of a multiplexed connection: \<^verbatim>\<open>internal/adapters/daemonmux/limits.go\<close>.
  The quantities are unsigned 64-bit integers of the code that stay far below the limit; where the
  connection adds to or subtracts from a credit, \<open>add64\<close> and \<open>sub64\<close> write the wrap-around out.
\<close>

definition add64 :: "nat \<Rightarrow> nat \<Rightarrow> nat" where
  "add64 a b = (a + b) mod 2 ^ 64"

definition sub64 :: "nat \<Rightarrow> nat \<Rightarrow> nat" where
  "sub64 a b = (a + 2 ^ 64 - b) mod 2 ^ 64"

lemma add64_exact: "a + b < 2 ^ 64 \<Longrightarrow> add64 a b = a + b"
  by (simp add: add64_def)

lemma sub64_exact: "b \<le> a \<Longrightarrow> a < 2 ^ 64 \<Longrightarrow> sub64 a b = a - b"
proof -
  assume b: "b \<le> a" and a: "a < 2 ^ 64"
  then have "a + 2 ^ 64 - b = (a - b) + 2 ^ 64" by simp
  then have "sub64 a b = (a - b) mod 2 ^ 64" unfolding sub64_def by (simp only: mod_add_self2)
  then show ?thesis using a by (metis less_imp_diff_less mod_less)
qed

section \<open>Ceilings\<close>

definition MinMuxEnvelopeBytes :: nat where "MinMuxEnvelopeBytes = 2 ^ 20"
definition MaxMuxEnvelopeBytes :: nat where "MaxMuxEnvelopeBytes = 16 * 2 ^ 20"
definition MaxMuxApplicationBytes :: nat where "MaxMuxApplicationBytes = 2 ^ 20"
definition MinMuxChunkBytes :: nat where "MinMuxChunkBytes = 1"
definition MaxMuxChunkBytes :: nat where "MaxMuxChunkBytes = 64 * 2 ^ 10"
definition MinMuxStreams :: nat where "MinMuxStreams = 1"
definition MaxMuxStreams :: nat where "MaxMuxStreams = 128"
definition MuxEnvelopeOverheadBytes :: nat where "MuxEnvelopeOverheadBytes = 64"
definition MinMuxAggregateBytes :: nat where "MinMuxAggregateBytes = MaxMuxChunkBytes + MuxEnvelopeOverheadBytes"
definition MaxMuxAggregateBytes :: nat where "MaxMuxAggregateBytes = 64 * 2 ^ 20"
definition MuxChunkCreditOverhead :: nat where "MuxChunkCreditOverhead = MuxEnvelopeOverheadBytes"
definition MaxMuxStreamWindowBytes :: nat where "MaxMuxStreamWindowBytes = 4 * 2 ^ 20"

lemmas mux_consts = MinMuxEnvelopeBytes_def MaxMuxEnvelopeBytes_def MaxMuxApplicationBytes_def MinMuxChunkBytes_def
  MaxMuxChunkBytes_def MinMuxStreams_def MaxMuxStreams_def MuxEnvelopeOverheadBytes_def MinMuxAggregateBytes_def
  MaxMuxAggregateBytes_def MuxChunkCreditOverhead_def MaxMuxStreamWindowBytes_def

definition chunkCredit :: "nat \<Rightarrow> nat" where
  "chunkCredit n = n + MuxChunkCreditOverhead"

record MuxCeilings =
  MaxReceiveEnvelopeBytes :: nat
  StreamChunkLimit :: nat
  MaxStreams :: nat
  MaxAggregateBytes :: nat

definition ValidateCeilings :: "MuxCeilings \<Rightarrow> bool" where
  "ValidateCeilings c =
     (\<not> (MaxReceiveEnvelopeBytes c < MinMuxEnvelopeBytes \<or> MaxReceiveEnvelopeBytes c > MaxMuxEnvelopeBytes) \<and>
      \<not> (StreamChunkLimit c < MinMuxChunkBytes \<or> StreamChunkLimit c > MaxMuxChunkBytes) \<and>
      \<not> (MaxStreams c < MinMuxStreams \<or> MaxStreams c > MaxMuxStreams) \<and>
      \<not> (MaxAggregateBytes c < MinMuxAggregateBytes \<or> MaxAggregateBytes c > MaxMuxAggregateBytes))"

definition StreamWindow :: "MuxCeilings \<Rightarrow> nat" where
  "StreamWindow c =
     (let window = MaxAggregateBytes c div max (MaxStreams c) 1;
          window' = max window (chunkCredit (StreamChunkLimit c))
      in min window' MaxMuxStreamWindowBytes)"

definition creditReturnThreshold :: "MuxCeilings \<Rightarrow> nat" where
  "creditReturnThreshold c =
     (let window = StreamWindow c; cost = chunkCredit (StreamChunkLimit c)
      in max (min (window div 2) (add64 (sub64 window cost) 1)) 1)"

definition DefaultMuxCeilings :: MuxCeilings where
  "DefaultMuxCeilings = \<lparr>MaxReceiveEnvelopeBytes = MaxMuxEnvelopeBytes, StreamChunkLimit = MaxMuxChunkBytes,
     MaxStreams = MaxMuxStreams, MaxAggregateBytes = MaxMuxAggregateBytes\<rparr>"

definition EffectiveMuxCeilings :: "MuxCeilings \<Rightarrow> MuxCeilings \<Rightarrow> MuxCeilings" where
  "EffectiveMuxCeilings local' remote =
     (let effective = \<lparr>MaxReceiveEnvelopeBytes = min (MaxReceiveEnvelopeBytes local') (MaxReceiveEnvelopeBytes remote),
            StreamChunkLimit = min (StreamChunkLimit local') (StreamChunkLimit remote),
            MaxStreams = min (MaxStreams local') (MaxStreams remote),
            MaxAggregateBytes = min (MaxAggregateBytes local') (MaxAggregateBytes remote)\<rparr>;
          fair = MaxAggregateBytes effective div chunkCredit (StreamChunkLimit effective)
      in effective\<lparr>MaxStreams := max (min (MaxStreams effective) fair) MinMuxStreams\<rparr>)"

definition checkMuxEnvelopeCeiling :: "nat \<Rightarrow> nat \<Rightarrow> bool" where
  "checkMuxEnvelopeCeiling payload limit = (\<not> payload > min limit MaxMuxApplicationBytes)"

section \<open>Windows and budgets\<close>

lemma valid_bounds:
  "ValidateCeilings c \<Longrightarrow> 1 \<le> StreamChunkLimit c \<and> StreamChunkLimit c \<le> 65536 \<and> 1 \<le> MaxStreams c \<and> MaxStreams c \<le> 128 \<and>
     65600 \<le> MaxAggregateBytes c \<and> MaxAggregateBytes c \<le> 67108864 \<and> 1048576 \<le> MaxReceiveEnvelopeBytes c"
  by (simp add: ValidateCeilings_def mux_consts)

lemma window_bounds:
  assumes "ValidateCeilings c"
  shows "chunkCredit (StreamChunkLimit c) \<le> StreamWindow c" "StreamWindow c \<le> 4194304"
  using valid_bounds [OF assms] by (auto simp: StreamWindow_def chunkCredit_def mux_consts Let_def)

text \<open>A sender that waits for a full chunk has spent at least the credit at which the receiver grants.\<close>

lemma threshold_reached:
  assumes "ValidateCeilings c" "n \<le> StreamChunkLimit c" "credit < chunkCredit n"
  shows "creditReturnThreshold c \<le> StreamWindow c - credit"
proof -
  note v = valid_bounds [OF assms(1)] and w = window_bounds [OF assms(1)]
  let ?w = "StreamWindow c" and ?cost = "chunkCredit (StreamChunkLimit c)"
  have "sub64 ?w ?cost = ?w - ?cost" using w by (intro sub64_exact) auto
  then have "add64 (sub64 ?w ?cost) 1 = ?w - ?cost + 1" using w by (simp add: add64_exact)
  moreover have "credit < ?cost" using assms(2,3) by (simp add: chunkCredit_def)
  ultimately show ?thesis using w by (auto simp: creditReturnThreshold_def Let_def)
qed

lemma effective_valid:
  assumes "ValidateCeilings a" "ValidateCeilings b"
  shows "ValidateCeilings (EffectiveMuxCeilings a b)"
  using assms by (auto simp: ValidateCeilings_def EffectiveMuxCeilings_def Let_def mux_consts)

lemma effective_windows_fit:
  assumes "ValidateCeilings a" "ValidateCeilings b" "c = EffectiveMuxCeilings a b"
  shows "MaxStreams c * StreamWindow c \<le> MaxAggregateBytes c"
proof -
  define fair where "fair = MaxAggregateBytes c div chunkCredit (StreamChunkLimit c)"
  have v: "ValidateCeilings c" using effective_valid assms by simp
  note vb = valid_bounds [OF v]
  have cost: "0 < chunkCredit (StreamChunkLimit c)" "chunkCredit (StreamChunkLimit c) \<le> MaxAggregateBytes c"
    using vb by (auto simp: chunkCredit_def mux_consts)
  then have "1 \<le> fair" by (simp add: fair_def div_greater_zero_iff Suc_le_eq)
  moreover have "MaxStreams c = max (min (min (MaxStreams a) (MaxStreams b)) fair) 1"
    by (simp add: assms(3) EffectiveMuxCeilings_def fair_def Let_def mux_consts)
  ultimately have "MaxStreams c \<le> fair" by auto
  then have "MaxStreams c * chunkCredit (StreamChunkLimit c) \<le> MaxAggregateBytes c"
    using cost(1) by (metis div_times_less_eq_dividend fair_def le_trans mult_le_mono1)
  then have "chunkCredit (StreamChunkLimit c) \<le> MaxAggregateBytes c div MaxStreams c"
    using vb by (simp add: less_eq_div_iff_mult_less_eq mult.commute)
  then have "StreamWindow c \<le> MaxAggregateBytes c div MaxStreams c" using vb by (simp add: StreamWindow_def Let_def)
  then show ?thesis by (metis div_times_less_eq_dividend le_trans mult.commute mult_le_mono2)
qed

section \<open>Properties\<close>

text \<open>
  The ceilings two valid advertisements agree on are valid, and the full windows of all streams
  together fit the aggregate budget, so peers that keep to their windows can never exceed it; one
  window holds at least one largest chunk.
\<close>

theorem effective_ceilings_fit:
  assumes "ValidateCeilings a" "ValidateCeilings b"
  shows "let c = EffectiveMuxCeilings a b in ValidateCeilings c \<and> MaxStreams c * StreamWindow c \<le> MaxAggregateBytes c \<and>
    chunkCredit (StreamChunkLimit c) \<le> StreamWindow c"
  using effective_valid [OF assms] effective_windows_fit [OF assms refl] window_bounds(1) by (auto simp: Let_def)

theorem effective_ceilings_fit_witness:
  "let c = EffectiveMuxCeilings DefaultMuxCeilings (DefaultMuxCeilings\<lparr>MaxAggregateBytes := 70000\<rparr>) in
     ValidateCeilings c \<and> MaxStreams c * StreamWindow c \<le> MaxAggregateBytes c \<and> chunkCredit (StreamChunkLimit c) \<le> StreamWindow c"
  by (rule effective_ceilings_fit) (simp_all add: ValidateCeilings_def DefaultMuxCeilings_def mux_consts)

end
