(* ===== verification/Mux_Messages.thy ===== *)
theory Mux_Messages
  imports Go_Utf8 Mux_Limits
begin

text \<open>
  The identities, messages and terminal outcomes of a multiplexed connection:
  \<^verbatim>\<open>internal/adapters/daemonmux/messages.go\<close> and \<^verbatim>\<open>terminal.go\<close>, with the broker
  identities and policies they carry (\<^verbatim>\<open>internal/ports/broker.go\<close>). A Go string is its bytes. Of an
  open request the records keep what the connection itself reads: the reference and the policy.
\<close>

section \<open>Tokens and policies\<close>

text \<open>The runes of a string (an invalid byte is one \<open>RuneError\<close>), and \<^verbatim>\<open>utf8.ValidString\<close>.\<close>

function rangeRunes :: "byte list \<Rightarrow> rune list" where
  "rangeRunes [] = []"
| "rangeRunes (b # bs) = fst (DecodeRune (b # bs)) # rangeRunes (drop (snd (DecodeRune (b # bs))) (b # bs))"
  by pat_completeness auto
termination
  using DecodeRune_size(2) by (relation "measure length") (simp_all del: DecodeRune.simps add: diff_less)

function ValidString :: "byte list \<Rightarrow> bool" where
  "ValidString [] = True"
| "ValidString (b # bs) =
     (if DecodeRune (b # bs) = (RuneError, 1) then False else ValidString (drop (snd (DecodeRune (b # bs))) (b # bs)))"
  by pat_completeness auto
termination
  using DecodeRune_size(2) by (relation "measure length") (simp_all del: DecodeRune.simps add: diff_less)

definition IsControl :: "rune \<Rightarrow> bool" where
  "IsControl r = (0 \<le> r \<and> r \<le> 0x1F \<or> 0x7F \<le> r \<and> r \<le> 0x9F)"

definition IsBidiControl :: "rune \<Rightarrow> bool" where
  "IsBidiControl r = (r = 0x61C \<or> r = 0x200E \<or> r = 0x200F \<or> 0x202A \<le> r \<and> r \<le> 0x202E \<or> 0x2066 \<le> r \<and> r \<le> 0x2069)"

definition validateBrokerToken :: "byte list \<Rightarrow> nat \<Rightarrow> bool" where
  "validateBrokerToken s maxBytes =
     (if s = [] then False
      else if length s > maxBytes then False
      else if \<not> ValidString s then False
      else if TrimSpace (rangeRunes s) \<noteq> rangeRunes s then False
      else \<not> list_ex (\<lambda>r. IsControl r \<or> IsSpace r \<or> IsBidiControl r \<or> r = 0x2028 \<or> r = 0x2029) (rangeRunes s))"

definition BrokerMaxTransportBytes :: nat where "BrokerMaxTransportBytes = 64"
definition BrokerMaxPolicyTokenBytes :: nat where "BrokerMaxPolicyTokenBytes = 256"

record BrokerPolicy =
  ProtocolVersion :: nat
  CatalogSchemaVersion :: nat
  EnvironmentPolicy :: nat
  Transport :: "byte list"
  Trust :: "byte list"
  Launch :: "byte list"
  Isolation :: "byte list"

definition validEnvironmentPolicy :: "nat \<Rightarrow> bool" where
  "validEnvironmentPolicy p = (p = 0 \<or> p = 1)"

definition ValidatePolicy :: "BrokerPolicy \<Rightarrow> bool" where
  "ValidatePolicy p =
     (if \<not> list_all (\<lambda>t. validateBrokerToken t BrokerMaxPolicyTokenBytes) [Trust p, Launch p, Isolation p] then False
      else if ProtocolVersion p = 0 then False
      else if CatalogSchemaVersion p = 0 then False
      else if \<not> validEnvironmentPolicy (EnvironmentPolicy p) then False
      else validateBrokerToken (Transport p) BrokerMaxTransportBytes)"

definition Compatible :: "BrokerPolicy \<Rightarrow> BrokerPolicy \<Rightarrow> bool" where
  "Compatible p q = (p = q)"

section \<open>References and messages\<close>

record StreamRef =
  Physical :: nat
  Epoch :: nat
  Connection :: "byte list"
  Client :: nat

definition ValidatePhysical :: "nat \<Rightarrow> bool" where
  "ValidatePhysical i = (i \<noteq> 0)"

definition ValidateConnection :: "byte list \<Rightarrow> bool" where
  "ValidateConnection c = (c \<noteq> replicate 16 0)"

definition ValidateStreamRef :: "StreamRef \<Rightarrow> bool" where
  "ValidateStreamRef r =
     (if \<not> ValidatePhysical (Physical r) then False
      else if Epoch r = 0 then False
      else if \<not> ValidateConnection (Connection r) then False
      else Client r \<noteq> 0)"

record ErrorDetail =
  ErrorCode :: nat
  ErrorText :: "byte list"
  AdmissionCode :: nat
  DetailKind :: nat

record OpenMsg =
  OpenRef :: StreamRef
  OpenPolicy :: BrokerPolicy

record ResetMsg =
  ResetPhysical :: nat
  ResetError :: ErrorDetail
  HasError :: bool

section \<open>Errors and terminal outcomes\<close>

datatype muxError = ErrInvalidStream | ErrStreamIDReused | ErrFutureStream | ErrTooManyStreams | ErrStreamState
  | ErrStreamRefMismatch | ErrStreamQueueFull | ErrStreamCredit | errStreamSettled | ErrPhysicalClosed | ErrOpenPolicyRefused
  | ErrTooLarge | ErrInvalidPolicy | ErrInvalidCeilings

datatype cause = ErrTerminalFailure | StreamCause muxError | BrokerCause nat "byte list" | ForeignCause string

definition RemoteFailureNone :: nat where "RemoteFailureNone = 0"
definition RemoteFailureTransport :: nat where "RemoteFailureTransport = 1"
definition RemoteFailureInvalidResponse :: nat where "RemoteFailureInvalidResponse = 6"

record terminalState =
  doneClosed :: bool
  termErr :: "cause option"
  termKind :: nat

definition newTerminalState :: terminalState where
  "newTerminalState = \<lparr>doneClosed = False, termErr = None, termKind = RemoteFailureNone\<rparr>"

definition TermErr :: "terminalState \<Rightarrow> cause option" where
  "TermErr t = (if doneClosed t then termErr t else None)"

definition TermFailureKind :: "terminalState \<Rightarrow> nat" where
  "TermFailureKind t = (if doneClosed t then termKind t else RemoteFailureNone)"

definition publish :: "cause option \<Rightarrow> nat \<Rightarrow> terminalState \<Rightarrow> terminalState" where
  "publish e k t = (if doneClosed t then t else \<lparr>doneClosed = True, termErr = e, termKind = k\<rparr>)"

definition publishFail :: "nat \<Rightarrow> cause option \<Rightarrow> terminalState \<Rightarrow> terminalState \<times> bool" where
  "publishFail kind e t =
     (let kind' = (if kind < RemoteFailureTransport \<or> kind > RemoteFailureInvalidResponse then RemoteFailureTransport else kind);
          e' = (case e of None \<Rightarrow> Some ErrTerminalFailure | Some c \<Rightarrow> Some c)
      in if doneClosed t then (t, False) else (\<lparr>doneClosed = True, termErr = e', termKind = kind'\<rparr>, True))"

definition TermFail :: "nat \<Rightarrow> cause option \<Rightarrow> terminalState \<Rightarrow> terminalState" where
  "TermFail kind e t = fst (publishFail kind e t)"

definition TermClose :: "terminalState \<Rightarrow> terminalState" where
  "TermClose t = publish None RemoteFailureNone t"

lemma term_done [simp]: "doneClosed (TermFail k e t)" "doneClosed (TermClose t)" "\<not> doneClosed newTerminalState"
  by (simp_all add: TermFail_def publishFail_def TermClose_def publish_def newTerminalState_def Let_def)

lemma term_stable [simp]: "doneClosed t \<Longrightarrow> TermFail k e t = t" "doneClosed t \<Longrightarrow> TermClose t = t"
  by (simp_all add: TermFail_def publishFail_def TermClose_def publish_def Let_def)

text \<open>A failure always shows a cause and a kind of the transport taxonomy; an orderly close shows neither.\<close>

lemma TermFail_shows:
  "\<not> doneClosed t \<Longrightarrow> TermErr (TermFail k e t) \<noteq> None \<and> RemoteFailureTransport \<le> TermFailureKind (TermFail k e t) \<and>
     TermFailureKind (TermFail k e t) \<le> RemoteFailureInvalidResponse"
  by (auto simp: TermFail_def publishFail_def TermErr_def TermFailureKind_def RemoteFailureTransport_def
      RemoteFailureInvalidResponse_def Let_def split: option.splits)

lemma TermClose_shows:
  "\<not> doneClosed t \<Longrightarrow> TermErr (TermClose t) = None \<and> TermFailureKind (TermClose t) = RemoteFailureNone"
  by (simp add: TermClose_def publish_def TermErr_def TermFailureKind_def)

end
