(* ===== verification/Mux_Engine.thy ===== *)
theory Mux_Engine
  imports Mux_Messages
begin

text \<open>
  The stream table of one multiplexed connection: \<^verbatim>\<open>internal/adapters/daemonmux/engine_state.go\<close>.
  A stream record is stored under its physical identity, and an operation that changes a record the
  code holds by pointer writes it back under that identity. A wake channel is the number of times it
  was replaced. \<open>terminalizeAllLocked\<close> takes the order in which the range over the table visits
  it.
\<close>

section \<open>Records\<close>

datatype StreamState = StreamOpening | StreamOpen | StreamClosing | StreamTerminal

datatype StreamDisposition = StreamAccepted | StreamDiscarded

record muxStream =
  ref :: StreamRef
  state :: StreamState
  terminal :: terminalState
  queue :: "byte list list"
  queuedBytes :: int
  refused :: bool
  refusal :: "ErrorDetail option"
  recvUsed :: nat
  recvReturn :: nat
  sendCredit :: nat
  creditWake :: nat

record StreamEngine =
  physical :: terminalState
  streams :: "nat \<rightharpoonup> muxStream"
  retired :: "nat list"
  highest :: nat
  live :: int
  aggregate :: int
  maxStreams :: int
  maxChunkBytes :: nat
  window :: nat
  returnAt :: nat
  maxAggregateBytes :: int
  restricted :: bool
  policy :: "BrokerPolicy option"

definition MaxRetiredStreamRecords :: nat where "MaxRetiredStreamRecords = 128"

definition newStreamEngine :: "MuxCeilings \<Rightarrow> StreamEngine" where
  "newStreamEngine c = \<lparr>physical = newTerminalState, streams = Map.empty, retired = [], highest = 0, live = 0, aggregate = 0,
     maxStreams = int (MaxStreams c), maxChunkBytes = StreamChunkLimit c, window = StreamWindow c,
     returnAt = creditReturnThreshold c, maxAggregateBytes = int (MaxAggregateBytes c), restricted = False, policy = None\<rparr>"

definition NewStreamEngineWithCeilings :: "MuxCeilings \<Rightarrow> muxError + StreamEngine" where
  "NewStreamEngineWithCeilings c = (if ValidateCeilings c then Inr (newStreamEngine c) else Inl ErrInvalidCeilings)"

definition closedLocked :: "StreamEngine \<Rightarrow> bool" where
  "closedLocked e = doneClosed (physical e)"

definition lookupLocked :: "nat \<Rightarrow> StreamEngine \<Rightarrow> muxError + (muxStream option \<times> StreamState)" where
  "lookupLocked i e =
     (if \<not> ValidatePhysical i then Inl ErrInvalidStream
      else case streams e i of
        Some s \<Rightarrow> Inr (Some s, state s)
      | None \<Rightarrow> if i > highest e then Inl ErrFutureStream else Inr (None, StreamTerminal))"

section \<open>Steps on one record\<close>

definition wakeCreditLocked :: "muxStream \<Rightarrow> muxStream" where
  "wakeCreditLocked s = s\<lparr>creditWake := creditWake s + 1\<rparr>"

definition putStream :: "muxStream \<Rightarrow> StreamEngine \<Rightarrow> StreamEngine" where
  "putStream s e = e\<lparr>streams := (streams e)(Physical (ref s) \<mapsto> s)\<rparr>"

definition publishOn :: "nat \<Rightarrow> (terminalState \<Rightarrow> terminalState) \<Rightarrow> StreamEngine \<Rightarrow> StreamEngine" where
  "publishOn i f e =
     (case streams e i of None \<Rightarrow> e | Some s \<Rightarrow> e\<lparr>streams := (streams e)(i \<mapsto> s\<lparr>terminal := f (terminal s)\<rparr>)\<rparr>)"

definition releaseQueueLocked :: "muxStream \<Rightarrow> StreamEngine \<Rightarrow> muxStream \<times> StreamEngine" where
  "releaseQueueLocked s e =
     (let s' = s\<lparr>queue := []\<rparr>
      in if queuedBytes s' \<noteq> 0 then (s'\<lparr>queuedBytes := 0\<rparr>, e\<lparr>aggregate := aggregate e - queuedBytes s'\<rparr>) else (s', e))"

fun evictRetired :: "nat list \<Rightarrow> (nat \<rightharpoonup> muxStream) \<Rightarrow> nat list \<times> (nat \<rightharpoonup> muxStream)" where
  "evictRetired [] m = ([], m)"
| "evictRetired (i # is) m =
     (if length (i # is) > MaxRetiredStreamRecords
      then evictRetired is (case m i of
          Some tracked \<Rightarrow> if state tracked = StreamTerminal then m(i := None) else m
        | None \<Rightarrow> m)
      else (i # is, m))"

definition retireLocked :: "muxStream \<Rightarrow> StreamEngine \<Rightarrow> StreamEngine" where
  "retireLocked s e =
     (let (s1, e1) = releaseQueueLocked s e;
          s2 = wakeCreditLocked (s1\<lparr>state := StreamTerminal, sendCredit := 0\<rparr>);
          e2 = (putStream s2 e1)\<lparr>live := live e1 - 1\<rparr>;
          (r, m) = evictRetired (retired e2 @ [Physical (ref s2)]) (streams e2)
      in e2\<lparr>retired := r, streams := m\<rparr>)"

definition queueOverflowsLocked :: "muxStream \<Rightarrow> nat \<Rightarrow> StreamEngine \<Rightarrow> bool" where
  "queueOverflowsLocked s n e =
     (add64 (recvUsed s) (chunkCredit n) > window e \<or> aggregate e + int n > maxAggregateBytes e)"

definition enqueueLocked :: "muxStream \<Rightarrow> byte list \<Rightarrow> StreamEngine \<Rightarrow> StreamEngine" where
  "enqueueLocked s chunk e =
     (let n = length chunk
      in putStream (s\<lparr>queuedBytes := queuedBytes s + int n, recvUsed := add64 (recvUsed s) (chunkCredit n),
           queue := queue s @ [chunk]\<rparr>) (e\<lparr>aggregate := aggregate e + int n\<rparr>))"

definition resetCause :: "ResetMsg \<Rightarrow> cause option" where
  "resetCause m = (if \<not> HasError m then None else Some (BrokerCause (ErrorCode (ResetError m)) (ErrorText (ResetError m))))"

section \<open>Admission\<close>

definition RestrictAdmissions :: "BrokerPolicy \<Rightarrow> StreamEngine \<Rightarrow> muxError option \<times> StreamEngine" where
  "RestrictAdmissions p e =
     (if \<not> ValidatePolicy p then (Some ErrInvalidPolicy, e)
      else if closedLocked e then (Some ErrPhysicalClosed, e)
      else if restricted e \<or> highest e \<noteq> 0 then (Some ErrStreamState, e)
      else (None, e\<lparr>policy := Some p, restricted := True\<rparr>))"

definition newMuxStream :: "StreamRef \<Rightarrow> nat \<Rightarrow> muxStream" where
  "newMuxStream r credit = \<lparr>ref = r, state = StreamOpening, terminal = newTerminalState, queue = [], queuedBytes = 0,
     refused = False, refusal = None, recvUsed = 0, recvReturn = 0, sendCredit = credit, creditWake = 0\<rparr>"

definition Open :: "OpenMsg \<Rightarrow> StreamEngine \<Rightarrow> muxError option \<times> StreamEngine" where
  "Open msg e =
     (if closedLocked e then (Some ErrPhysicalClosed, e)
      else if \<not> ValidateStreamRef (OpenRef msg) then (Some ErrInvalidStream, e)
      else let i = Physical (OpenRef msg) in
        if i \<le> highest e then (Some ErrStreamIDReused, e)
        else if restricted e \<and> \<not> (case policy e of Some p \<Rightarrow> Compatible p (OpenPolicy msg) | None \<Rightarrow> False)
        then (Some ErrOpenPolicyRefused, e)
        else if live e \<ge> maxStreams e then (Some ErrTooManyStreams, e)
        else (None, e\<lparr>streams := (streams e)(i \<mapsto> newMuxStream (OpenRef msg) (window e)), highest := i, live := live e + 1\<rparr>))"

definition Opened :: "StreamRef \<Rightarrow> StreamEngine \<Rightarrow> muxError option \<times> StreamEngine" where
  "Opened r e =
     (case lookupLocked (Physical r) e of
        Inl err \<Rightarrow> (Some err, e)
      | Inr (so, st) \<Rightarrow>
          if st \<noteq> StreamOpening then (Some ErrStreamState, e)
          else case so of
            None \<Rightarrow> (Some ErrStreamState, e)
          | Some s \<Rightarrow> if ref s \<noteq> r then (Some ErrStreamRefMismatch, e) else (None, putStream (s\<lparr>state := StreamOpen\<rparr>) e))"

definition Refused :: "StreamRef \<Rightarrow> ErrorDetail \<Rightarrow> StreamEngine \<Rightarrow> muxError option \<times> StreamEngine" where
  "Refused r detail e =
     (case lookupLocked (Physical r) e of
        Inl err \<Rightarrow> (Some err, e)
      | Inr (so, st) \<Rightarrow>
          if st \<noteq> StreamOpening then (Some ErrStreamState, e)
          else case so of
            None \<Rightarrow> (Some ErrStreamState, e)
          | Some s \<Rightarrow>
              if ref s \<noteq> r then (Some ErrStreamRefMismatch, e)
              else (None, publishOn (Physical (ref s)) TermClose
                     (retireLocked (s\<lparr>refused := True, refusal := Some detail\<rparr>) e)))"

section \<open>Traffic\<close>

definition Data :: "nat \<Rightarrow> byte list \<Rightarrow> StreamEngine \<Rightarrow> (muxError + StreamDisposition) \<times> StreamEngine" where
  "Data i chunk e =
     (if length chunk > maxChunkBytes e then (Inl ErrTooLarge, e)
      else case lookupLocked i e of
        Inl err \<Rightarrow> (Inl err, e)
      | Inr (so, st) \<Rightarrow>
          (case (st, so) of
             (StreamTerminal, _) \<Rightarrow> (Inr StreamDiscarded, e)
           | (StreamOpening, _) \<Rightarrow> (Inl ErrStreamState, e)
           | (StreamClosing, _) \<Rightarrow> (Inl ErrStreamState, e)
           | (StreamOpen, None) \<Rightarrow> (Inr StreamDiscarded, e)
           | (StreamOpen, Some s) \<Rightarrow>
               if queueOverflowsLocked s (length chunk) e
               then (Inl ErrStreamQueueFull, publishOn (Physical (ref s))
                       (TermFail RemoteFailureInvalidResponse (Some (StreamCause ErrStreamQueueFull))) (retireLocked s e))
               else (Inr StreamAccepted, enqueueLocked s chunk e)))"

definition WindowUpdate :: "nat \<Rightarrow> nat \<Rightarrow> StreamEngine \<Rightarrow> (muxError + StreamDisposition) \<times> StreamEngine" where
  "WindowUpdate i credit e =
     (case lookupLocked i e of
        Inl err \<Rightarrow> (Inl err, e)
      | Inr (so, st) \<Rightarrow>
          if st = StreamTerminal then (Inr StreamDiscarded, e)
          else case so of
            None \<Rightarrow> (Inr StreamDiscarded, e)
          | Some s \<Rightarrow>
              if credit > sub64 (window e) (sendCredit s) then (Inl ErrStreamCredit, e)
              else (Inr StreamAccepted, putStream (wakeCreditLocked (s\<lparr>sendCredit := add64 (sendCredit s) credit\<rparr>)) e))"

datatype reservation = Reserved | WaitOn nat | ReserveError muxError

definition reserveSend :: "nat \<Rightarrow> nat \<Rightarrow> StreamEngine \<Rightarrow> reservation \<times> StreamEngine" where
  "reserveSend i n e =
     (let cost = chunkCredit n in
      case streams e i of
        None \<Rightarrow> (ReserveError errStreamSettled, e)
      | Some s \<Rightarrow>
          if state s = StreamTerminal \<or> state s = StreamClosing then (ReserveError errStreamSettled, e)
          else if sendCredit s < cost then (WaitOn (creditWake s), e)
          else (Reserved, e\<lparr>streams := (streams e)(i \<mapsto> s\<lparr>sendCredit := sub64 (sendCredit s) cost\<rparr>)\<rparr>))"

definition refundSend :: "nat \<Rightarrow> nat \<Rightarrow> StreamEngine \<Rightarrow> StreamEngine" where
  "refundSend i n e =
     (case streams e i of
        None \<Rightarrow> e
      | Some s \<Rightarrow>
          if state s \<noteq> StreamTerminal
          then e\<lparr>streams := (streams e)(i \<mapsto> wakeCreditLocked
                 (s\<lparr>sendCredit := min (add64 (sendCredit s) (chunkCredit n)) (window e)\<rparr>))\<rparr>
          else e)"

definition takeReturn :: "nat \<Rightarrow> StreamEngine \<Rightarrow> nat \<times> StreamEngine" where
  "takeReturn i e =
     (case streams e i of
        None \<Rightarrow> (0, e)
      | Some s \<Rightarrow>
          if state s \<noteq> StreamOpen \<or> recvReturn s < returnAt e then (0, e)
          else let grant = recvReturn s
               in (grant, e\<lparr>streams := (streams e)(i \<mapsto> s\<lparr>recvReturn := 0, recvUsed := sub64 (recvUsed s) grant\<rparr>)\<rparr>))"

definition takeChunk :: "nat \<Rightarrow> StreamEngine \<Rightarrow> (byte list \<times> bool) option \<times> StreamEngine" where
  "takeChunk i e =
     (case streams e i of
        None \<Rightarrow> (None, e)
      | Some s \<Rightarrow>
          (case queue s of
             [] \<Rightarrow> (None, e)
           | chunk # rest \<Rightarrow>
               let s' = s\<lparr>queue := rest, queuedBytes := queuedBytes s - int (length chunk),
                          recvReturn := add64 (recvReturn s) (chunkCredit (length chunk))\<rparr>;
                   e' = putStream s' (e\<lparr>aggregate := aggregate e - int (length chunk)\<rparr>)
               in if state s' = StreamClosing \<and> rest = []
                  then (Some (chunk, True), publishOn (Physical (ref s')) TermClose (retireLocked s' e'))
                  else (Some (chunk, False), e')))"

section \<open>Termination\<close>

definition Close :: "nat \<Rightarrow> StreamEngine \<Rightarrow> (muxError + StreamDisposition) \<times> StreamEngine" where
  "Close i e =
     (case lookupLocked i e of
        Inl err \<Rightarrow> (Inl err, e)
      | Inr (so, st) \<Rightarrow>
          if st = StreamTerminal \<or> st = StreamClosing then (Inr StreamDiscarded, e)
          else case so of
            None \<Rightarrow> (Inr StreamDiscarded, e)
          | Some s \<Rightarrow>
              if queue s = [] then (Inr StreamAccepted, publishOn (Physical (ref s)) TermClose (retireLocked s e))
              else (Inr StreamAccepted, putStream (wakeCreditLocked (s\<lparr>state := StreamClosing\<rparr>)) e))"

definition Reset :: "ResetMsg \<Rightarrow> StreamEngine \<Rightarrow> (muxError + StreamDisposition) \<times> StreamEngine" where
  "Reset msg e =
     (case lookupLocked (ResetPhysical msg) e of
        Inl err \<Rightarrow> (Inl err, e)
      | Inr (so, st) \<Rightarrow>
          if st = StreamTerminal then (Inr StreamDiscarded, e)
          else case so of
            None \<Rightarrow> (Inr StreamDiscarded, e)
          | Some s \<Rightarrow> (Inr StreamAccepted, publishOn (Physical (ref s)) (TermFail (DetailKind (ResetError msg)) (resetCause msg))
              (retireLocked s e)))"

fun terminalizeAllLocked :: "nat list \<Rightarrow> (terminalState \<Rightarrow> terminalState) \<Rightarrow> StreamEngine \<Rightarrow> StreamEngine" where
  "terminalizeAllLocked [] f e = e"
| "terminalizeAllLocked (i # order) f e =
     (case streams e i of
        None \<Rightarrow> terminalizeAllLocked order f e
      | Some s \<Rightarrow>
          if state s = StreamTerminal then terminalizeAllLocked order f e
          else terminalizeAllLocked order f (publishOn (Physical (ref s)) f (retireLocked s e)))"

definition Fail :: "nat list \<Rightarrow> nat \<Rightarrow> cause option \<Rightarrow> StreamEngine \<Rightarrow> StreamEngine" where
  "Fail order kind c e = terminalizeAllLocked order (TermFail kind c) (e\<lparr>physical := TermFail kind c (physical e)\<rparr>)"

definition Terminate :: "nat list \<Rightarrow> StreamEngine \<Rightarrow> StreamEngine" where
  "Terminate order e = terminalizeAllLocked order TermClose (e\<lparr>physical := TermClose (physical e)\<rparr>)"

end
