(* ===== verification/Table_Sum.thy ===== *)
theory Table_Sum
  imports Main
begin

text \<open>
  Sums over the records of a table: the quantities a component keeps beside the table it
  accumulates them from (bytes queued, streams live) are sums of this form.
\<close>

definition table_sum :: "('v \<Rightarrow> int) \<Rightarrow> ('k \<rightharpoonup> 'v) \<Rightarrow> int" where
  "table_sum f m = (\<Sum>k\<in>dom m. f (the (m k)))"

lemma table_sum_empty [simp]: "table_sum f Map.empty = 0"
  by (simp add: table_sum_def)

lemma table_sum_upd:
  assumes "finite (dom m)"
  shows "table_sum f (m(k \<mapsto> v)) = table_sum f m - (case m k of None \<Rightarrow> 0 | Some w \<Rightarrow> f w) + f v"
proof -
  have "table_sum f (m(k \<mapsto> v)) = f v + (\<Sum>j\<in>dom m - {k}. f (the (m j)))"
    using assms by (simp add: table_sum_def sum.insert_remove)
  also have "(\<Sum>j\<in>dom m - {k}. f (the (m j))) = table_sum f m - (case m k of None \<Rightarrow> 0 | Some w \<Rightarrow> f w)"
    using assms by (auto simp: table_sum_def sum_diff1 domIff split: option.splits)
  finally show ?thesis by (simp only: add.commute)
qed

lemma table_sum_del:
  assumes "finite (dom m)"
  shows "table_sum f (m(k := None)) = table_sum f m - (case m k of None \<Rightarrow> 0 | Some w \<Rightarrow> f w)"
proof -
  have "table_sum f (m(k := None)) = (\<Sum>j\<in>dom m - {k}. f (the (m j)))"
    by (auto simp: table_sum_def intro!: sum.cong)
  then show ?thesis using assms by (auto simp: table_sum_def sum_diff1 domIff split: option.splits)
qed

lemma table_sum_nonneg: "(\<And>k v. m k = Some v \<Longrightarrow> 0 \<le> f v) \<Longrightarrow> 0 \<le> table_sum f m"
  by (auto simp: table_sum_def intro!: sum_nonneg)

lemma table_sum_member:
  assumes "finite (dom m)" "\<And>k v. m k = Some v \<Longrightarrow> 0 \<le> f v" "m k = Some v"
  shows "f v \<le> table_sum f m"
proof -
  have "f (the (m k)) \<le> table_sum f m" unfolding table_sum_def
    using assms by (intro member_le_sum) auto
  then show ?thesis using assms(3) by simp
qed

lemma table_sum_bound:
  assumes "finite (dom m)" "\<And>k v. m k = Some v \<Longrightarrow> f v \<le> g v"
  shows "table_sum f m \<le> table_sum g m"
  using assms by (auto simp: table_sum_def intro!: sum_mono)

lemma table_sum_scale: "table_sum (\<lambda>v. c * f v) m = c * table_sum f m"
  by (simp add: table_sum_def sum_distrib_left)

lemma table_sum_one: "table_sum (\<lambda>v. 1) m = int (card (dom m))"
  by (simp add: table_sum_def)

end
