(* ===== verification/Mux_Engine_Inv.thy ===== *)
theory Mux_Engine_Inv
  imports Mux_Engine Table_Sum
begin

text \<open>
  The accounting invariant of the stream table and that every operation keeps it. An operation
  either rewrites one live record (\<open>put_ok\<close>) or settles one (\<open>settle_ok\<close>); both lemmas describe the
  whole table afterwards, so isolation of sibling streams comes with them.
\<close>

section \<open>The invariant\<close>

definition queueCredit :: "byte list list \<Rightarrow> nat" where
  "queueCredit q = sum_list (map (\<lambda>chunk. chunkCredit (length chunk)) q)"

definition queueLen :: "byte list list \<Rightarrow> int" where
  "queueLen q = sum_list (map (\<lambda>chunk. int (length chunk)) q)"

lemma queue_simps [simp]:
  "queueCredit [] = 0" "queueCredit (c # q) = chunkCredit (length c) + queueCredit q"
  "queueCredit (q @ q') = queueCredit q + queueCredit q'"
  "queueLen [] = 0" "queueLen (c # q) = int (length c) + queueLen q" "queueLen (q @ q') = queueLen q + queueLen q'"
  by (simp_all add: queueCredit_def queueLen_def)

lemma queueLen_le: "queueLen q \<le> int (queueCredit q)"
  by (induction q) (auto simp: chunkCredit_def)

lemma queueLen_nonneg [simp]: "0 \<le> queueLen q"
  by (induction q) auto

abbreviation liveOne :: "muxStream \<Rightarrow> int" where
  "liveOne s \<equiv> (if state s = StreamTerminal then 0 else 1)"

definition stream_ok :: "MuxCeilings \<Rightarrow> muxStream \<Rightarrow> bool" where
  "stream_ok c s =
     (queuedBytes s = queueLen (queue s) \<and>
      (if state s = StreamTerminal then queue s = [] \<and> sendCredit s = 0 \<and> doneClosed (terminal s)
       else \<not> doneClosed (terminal s) \<and> recvUsed s = queueCredit (queue s) + recvReturn s \<and> recvUsed s \<le> StreamWindow c \<and>
         sendCredit s \<le> StreamWindow c \<and> (\<forall>chunk\<in>set (queue s). length chunk \<le> StreamChunkLimit c)))"

definition engine_ok :: "MuxCeilings \<Rightarrow> StreamEngine \<Rightarrow> bool" where
  "engine_ok c e =
     (ValidateCeilings c \<and> maxStreams e = int (MaxStreams c) \<and> maxChunkBytes e = StreamChunkLimit c \<and>
      window e = StreamWindow c \<and> returnAt e = creditReturnThreshold c \<and> maxAggregateBytes e = int (MaxAggregateBytes c) \<and>
      finite (dom (streams e)) \<and>
      (\<forall>i s. streams e i = Some s \<longrightarrow> Physical (ref s) = i \<and> 0 < i \<and> i \<le> highest e \<and> stream_ok c s) \<and>
      live e = table_sum liveOne (streams e) \<and> live e \<le> maxStreams e \<and>
      aggregate e = table_sum queuedBytes (streams e) \<and> aggregate e \<le> maxAggregateBytes e \<and>
      distinct (retired e) \<and> length (retired e) \<le> MaxRetiredStreamRecords \<and>
      set (retired e) = {i. \<exists>s. streams e i = Some s \<and> state s = StreamTerminal})"

definition closing_ok :: "StreamEngine \<Rightarrow> bool" where
  "closing_ok e = (\<forall>i s. streams e i = Some s \<longrightarrow> state s = StreamClosing \<longrightarrow> queue s \<noteq> [])"

definition others_kept :: "nat \<Rightarrow> StreamEngine \<Rightarrow> StreamEngine \<Rightarrow> bool" where
  "others_kept i e e' =
     (\<forall>j. j \<noteq> i \<longrightarrow> streams e' j = streams e j \<or>
        streams e' j = None \<and> (\<exists>s. streams e j = Some s \<and> state s = StreamTerminal))"

lemma engine_okD:
  assumes "engine_ok c e"
  shows "ValidateCeilings c" "finite (dom (streams e))"
    "\<And>i s. streams e i = Some s \<Longrightarrow> Physical (ref s) = i \<and> 0 < i \<and> i \<le> highest e \<and> stream_ok c s"
    "live e = table_sum liveOne (streams e)" "aggregate e = table_sum queuedBytes (streams e)"
    "aggregate e \<le> maxAggregateBytes e" "window e = StreamWindow c" "maxChunkBytes e = StreamChunkLimit c"
    "returnAt e = creditReturnThreshold c"
  using assms by (simp_all add: engine_ok_def)

lemma others_refl [simp]: "others_kept i e e"
  by (simp add: others_kept_def)

section \<open>Rewriting one live record\<close>

lemma put_ok:
  assumes ok: "engine_ok c e" and s: "streams e i = Some s" "state s \<noteq> StreamTerminal"
    and s': "state s' \<noteq> StreamTerminal" "Physical (ref s') = i" "stream_ok c s'"
    and a: "a = aggregate e - queuedBytes s + queuedBytes s'" "a \<le> maxAggregateBytes e"
  shows "engine_ok c (e\<lparr>streams := (streams e)(i \<mapsto> s'), aggregate := a\<rparr>)"
proof -
  let ?m = "(streams e)(i \<mapsto> s')"
  have "table_sum liveOne ?m = table_sum liveOne (streams e)" "table_sum queuedBytes ?m = a"
    using engine_okD(2,5) [OF ok] s s'(1) a(1) by (simp_all add: table_sum_upd)
  moreover have "{j. \<exists>t. ?m j = Some t \<and> state t = StreamTerminal} = {j. \<exists>t. streams e j = Some t \<and> state t = StreamTerminal}"
    using s s'(1) by auto
  ultimately show ?thesis using ok s s' a(2) unfolding engine_ok_def by simp
qed

section \<open>Settling one live record\<close>

definition settled :: "(terminalState \<Rightarrow> terminalState) \<Rightarrow> muxStream \<Rightarrow> muxStream" where
  "settled f s = (wakeCreditLocked (s\<lparr>queue := [], queuedBytes := 0, state := StreamTerminal, sendCredit := 0\<rparr>))
     \<lparr>terminal := f (terminal s)\<rparr>"

lemma settled_fields [simp]:
  "ref (settled f s) = ref s" "state (settled f s) = StreamTerminal" "queue (settled f s) = []"
  "queuedBytes (settled f s) = 0" "sendCredit (settled f s) = 0" "terminal (settled f s) = f (terminal s)"
  by (simp_all add: settled_def wakeCreditLocked_def)

definition evictedKey :: "StreamEngine \<Rightarrow> nat option" where
  "evictedKey e = (if length (retired e) = MaxRetiredStreamRecords then Some (hd (retired e)) else None)"

definition without :: "nat option \<Rightarrow> (nat \<rightharpoonup> muxStream) \<Rightarrow> (nat \<rightharpoonup> muxStream)" where
  "without k m = (case k of None \<Rightarrow> m | Some i \<Rightarrow> m(i := None))"

lemma evict_one:
  assumes "length r \<le> MaxRetiredStreamRecords" "\<And>j. j \<in> set r \<Longrightarrow> \<exists>s. m j = Some s \<and> state s = StreamTerminal"
  shows "evictRetired (r @ [i]) m =
    (if length r = MaxRetiredStreamRecords then (tl r @ [i], m(hd r := None)) else (r @ [i], m))"
proof (cases r)
  case Nil
  then show ?thesis by (simp add: MaxRetiredStreamRecords_def)
next
  case (Cons j js)
  have stop: "evictRetired (js @ [i]) m' = (js @ [i], m')" for m'
    using assms(1) Cons by (cases js) (auto simp: MaxRetiredStreamRecords_def)
  show ?thesis using assms(1) assms(2) [of j] stop by (auto simp: Cons)
qed

lemma release_eq:
  "releaseQueueLocked s e = (s\<lparr>queue := [], queuedBytes := 0\<rparr>, e\<lparr>aggregate := aggregate e - queuedBytes s\<rparr>)"
  by (cases "queuedBytes s = 0") (simp_all add: releaseQueueLocked_def Let_def)

lemma settle_eq:
  assumes ok: "engine_ok c e" and i: "streams e i = Some s" "state s \<noteq> StreamTerminal" and r: "Physical (ref s0) = i"
  shows "publishOn i f (retireLocked s0 e) =
    e\<lparr>aggregate := aggregate e - queuedBytes s0, live := live e - 1,
      retired := (if evictedKey e = None then retired e else tl (retired e)) @ [i],
      streams := without (evictedKey e) ((streams e)(i \<mapsto> settled f s0))\<rparr>"
proof -
  let ?t = "wakeCreditLocked (s0\<lparr>queue := [], queuedBytes := 0, state := StreamTerminal, sendCredit := 0\<rparr>)"
  let ?m = "(streams e)(i \<mapsto> ?t)"
  have trm: "\<And>j. j \<in> set (retired e) \<Longrightarrow> \<exists>t. streams e j = Some t \<and> state t = StreamTerminal" and len: "length (retired e) \<le> MaxRetiredStreamRecords"
    using ok by (simp_all add: engine_ok_def)
  then have "evictRetired (retired e @ [i]) ?m =
     (if length (retired e) = MaxRetiredStreamRecords then (tl (retired e) @ [i], ?m(hd (retired e) := None)) else (retired e @ [i], ?m))"
    using i by (intro evict_one) (auto simp: wakeCreditLocked_def)
  then have ret: "retireLocked s0 e = e\<lparr>aggregate := aggregate e - queuedBytes s0, live := live e - 1,
      retired := (if evictedKey e = None then retired e else tl (retired e)) @ [i], streams := without (evictedKey e) ?m\<rparr>"
    by (simp add: retireLocked_def release_eq putStream_def wakeCreditLocked_def r evictedKey_def without_def Let_def)
  have "i \<notin> set (retired e)" using trm [of i] i by auto
  then have "evictedKey e \<noteq> Some i"
    by (cases "retired e") (auto simp: evictedKey_def MaxRetiredStreamRecords_def)
  then show ?thesis unfolding ret
    by (auto simp: publishOn_def without_def settled_def wakeCreditLocked_def fun_eq_iff split: option.splits)
qed

lemma settle_ok:
  assumes ok: "engine_ok c e" and i: "streams e i = Some s" "state s \<noteq> StreamTerminal"
    and r: "Physical (ref s0) = i" "queuedBytes s0 = queuedBytes s" and f: "\<And>t. doneClosed (f t)"
  shows "engine_ok c (publishOn i f (retireLocked s0 e))"
    and "others_kept i e (publishOn i f (retireLocked s0 e))"
    and "streams (publishOn i f (retireLocked s0 e)) i = Some (settled f s0)"
proof -
  let ?m = "without (evictedKey e) ((streams e)(i \<mapsto> settled f s0))"
  note eq = settle_eq [OF ok i r(1)]
  note D = engine_okD [OF ok]
  have trm: "set (retired e) = {i. \<exists>s. streams e i = Some s \<and> state s = StreamTerminal}" "distinct (retired e)"
    "length (retired e) \<le> MaxRetiredStreamRecords" using ok by (simp_all add: engine_ok_def)
  have fresh: "i \<notin> set (retired e)" using trm(1) i by auto
  have ev: "k \<noteq> i \<and> k \<in> set (retired e) \<and> k = hd (retired e) \<and> retired e \<noteq> []" if "evictedKey e = Some k" for k
    using that fresh by (cases "retired e") (auto simp: evictedKey_def MaxRetiredStreamRecords_def split: if_splits)
  have evs: "\<exists>t. streams e k = Some t \<and> state t = StreamTerminal \<and> queuedBytes t = 0" if "evictedKey e = Some k" for k
    using ev [OF that] trm(1) D(3) by (fastforce simp: stream_ok_def)
  have sums: "table_sum liveOne ?m = live e - 1" "table_sum queuedBytes ?m = aggregate e - queuedBytes s0"
    using D(2,4,5) i r(2) evs ev by (auto simp: without_def table_sum_upd table_sum_del split: option.splits)
  have atj: "?m j = (if evictedKey e = Some j then None else if j = i then Some (settled f s0) else streams e j)" for j
    using ev by (auto simp: without_def split: option.splits)
  show "streams (publishOn i f (retireLocked s0 e)) i = Some (settled f s0)" using ev by (auto simp: eq atj)
  show "others_kept i e (publishOn i f (retireLocked s0 e))" using evs by (auto simp: eq others_kept_def atj)
  have fin: "finite (dom ?m)" using D(2) by (simp add: without_def split: option.splits)
  let ?r = "(if evictedKey e = None then retired e else tl (retired e)) @ [i]"
  have dist: "distinct ?r" "length ?r \<le> MaxRetiredStreamRecords"
    using trm(2,3) ev fresh by (auto simp: distinct_tl evictedKey_def MaxRetiredStreamRecords_def dest: list.set_sel(2) split: if_splits)
  have set_r: "set ?r = {j. \<exists>t. ?m j = Some t \<and> state t = StreamTerminal}"
  proof (cases "evictedKey e")
    case None
    show ?thesis unfolding atj using None trm(1) i by auto
  next
    case (Some k)
    then have "set (tl (retired e)) = set (retired e) - {k}" using ev [OF Some] trm(2) by (cases "retired e") auto
    then show ?thesis unfolding atj using Some trm(1) ev [OF Some] i by auto
  qed
  have nn: "0 \<le> queuedBytes s0" using D(3) [OF i(1)] r(2) by (simp add: stream_ok_def)
  have "stream_ok c (settled f s0)" using f by (simp add: stream_ok_def)
  then have recs: "\<forall>j t. ?m j = Some t \<longrightarrow> Physical (ref t) = j \<and> 0 < j \<and> j \<le> highest e \<and> stream_ok c t"
    using D(3) r i by (auto simp: atj split: if_splits)
  show "engine_ok c (publishOn i f (retireLocked s0 e))"
    using ok sums fin dist set_r recs nn unfolding eq engine_ok_def by simp
qed

end
