(* ===== verification/Mux_Engine_Ops.thy ===== *)
theory Mux_Engine_Ops
  imports Mux_Engine_Inv
begin

text \<open>
  Every operation of the engine as one of three effects on its table: none, one live record rewritten,
  one live record settled. The invariant, the isolation of sibling streams and the stability of
  terminal outcomes follow once for all operations.
\<close>

section \<open>Effects\<close>

text \<open>\<open>Q\<close> relates the queue of a record that stays live before and after.\<close>

inductive engine_upd ::
  "MuxCeilings \<Rightarrow> nat \<Rightarrow> (byte list list \<Rightarrow> byte list list \<Rightarrow> bool) \<Rightarrow> StreamEngine \<Rightarrow> StreamEngine \<Rightarrow> bool" for c i Q e where
  upd_none: "engine_upd c i Q e e" if "\<And>s. streams e i = Some s \<Longrightarrow> state s \<noteq> StreamTerminal \<Longrightarrow> Q (queue s) (queue s)"
| upd_put: "engine_upd c i Q e (e\<lparr>streams := (streams e)(i \<mapsto> s'), aggregate := a\<rparr>)"
    if "streams e i = Some s" "state s \<noteq> StreamTerminal" "state s' \<noteq> StreamTerminal" "ref s' = ref s" "terminal s' = terminal s"
      "stream_ok c s'" "state s' = StreamClosing \<longrightarrow> queue s' \<noteq> []" "Q (queue s) (queue s')"
      "a = aggregate e - queuedBytes s + queuedBytes s'" "a \<le> maxAggregateBytes e"
| upd_settle: "engine_upd c i Q e (publishOn i f (retireLocked s0 e))"
    if "streams e i = Some s" "state s \<noteq> StreamTerminal" "ref s0 = ref s" "queuedBytes s0 = queuedBytes s"
      "terminal s0 = terminal s" "\<And>t. doneClosed (f t)"

definition engine_inv :: "MuxCeilings \<Rightarrow> StreamEngine \<Rightarrow> bool" where
  "engine_inv c e = (engine_ok c e \<and> closing_ok e \<and> (closedLocked e \<longrightarrow> live e = 0))"

lemma closing_others:
  assumes "closing_ok e" "others_kept i e e'" "streams e' i = Some t" "state t = StreamClosing \<longrightarrow> queue t \<noteq> []"
  shows "closing_ok e'"
  unfolding closing_ok_def
proof (intro allI impI)
  fix j u assume j: "streams e' j = Some u" "state u = StreamClosing"
  show "queue u \<noteq> []"
    using assms j by (cases "j = i") (auto simp: others_kept_def closing_ok_def dest: spec [of _ j])
qed

lemma live_pos:
  assumes "engine_ok c e" "streams e i = Some s" "state s \<noteq> StreamTerminal"
  shows "0 < live e"
proof -
  have "liveOne s \<le> table_sum liveOne (streams e)"
    using assms(2) by (intro table_sum_member [OF engine_okD(2) [OF assms(1)]]) auto
  then show ?thesis using assms(3) by (simp add: engine_okD(4) [OF assms(1)])
qed

lemma upd_keeps:
  assumes "engine_upd c i Q e e'" "engine_inv c e"
  shows "engine_inv c e' \<and> others_kept i e e' \<and> physical e' = physical e \<and> highest e' = highest e"
  using assms
proof (cases rule: engine_upd.cases)
  case upd_none
  then show ?thesis using assms by simp
next
  case (upd_put s s' a)
  have ok: "engine_ok c e" using assms by (simp add: engine_inv_def)
  have "engine_ok c e'" unfolding upd_put(1)
    using upd_put engine_okD(3) [OF ok upd_put(2)] by (intro put_ok [OF ok upd_put(2)]) auto
  moreover have o: "others_kept i e e'" by (simp add: upd_put(1) others_kept_def)
  moreover have "closing_ok e'" using assms(2) upd_put(1,8)
    by (intro closing_others [OF _ o, of s']) (auto simp: engine_inv_def)
  ultimately show ?thesis using assms(2) live_pos [OF ok upd_put(2,3)]
    by (auto simp: engine_inv_def upd_put(1) closedLocked_def)
next
  case (upd_settle s s0 f)
  have ok: "engine_ok c e" using assms by (simp add: engine_inv_def)
  have r: "Physical (ref s0) = i" using engine_okD(3) [OF ok upd_settle(2)] upd_settle(4) by simp
  note st = settle_ok [where f = f, OF ok upd_settle(2,3) r upd_settle(5,7)]
  have "closing_ok e'" unfolding upd_settle(1) using assms(2)
    by (intro closing_others [OF _ st(2,3)]) (auto simp: engine_inv_def)
  then show ?thesis using st(1,2) settle_eq [OF ok upd_settle(2,3) r, of f] assms(2) live_pos [OF ok upd_settle(2,3)]
    by (auto simp: engine_inv_def upd_settle(1) closedLocked_def)
qed

lemma upd_terminal:
  assumes "engine_upd c i Q e e'" "engine_inv c e" "streams e j = Some s" "streams e' j = Some s'" "doneClosed (terminal s)"
  shows "s' = s"
proof -
  have ok: "engine_ok c e" using assms(2) by (simp add: engine_inv_def)
  have t: "state s = StreamTerminal" using engine_okD(3) [OF ok assms(3)] assms(5) by (auto simp: stream_ok_def split: if_splits)
  show ?thesis
  proof (cases "j = i")
    case True
    show ?thesis using assms(1) by (cases rule: engine_upd.cases) (use True assms(3,4) t in auto)
  next
    case False
    then show ?thesis using upd_keeps [OF assms(1,2)] assms(3,4) by (auto simp: others_kept_def)
  qed
qed

section \<open>The effect of each operation\<close>

lemma lookup_cases:
  assumes "lookupLocked i e = Inr (so, st)"
  shows "so = streams e i" "st = (case streams e i of Some s \<Rightarrow> state s | None \<Rightarrow> StreamTerminal)"
  using assms by (auto simp: lookupLocked_def split: option.splits if_splits)

lemma upd_put_acc:
  assumes "streams e i = Some s" "state s \<noteq> StreamTerminal" "state s' \<noteq> StreamTerminal" "ref s' = ref s"
    "terminal s' = terminal s" "stream_ok c s'" "state s' = StreamClosing \<longrightarrow> queue s' \<noteq> []" "Q (queue s) (queue s')"
    "a = aggregate e - queuedBytes s + queuedBytes s'" "a \<le> maxAggregateBytes e"
  shows "engine_upd c i Q e (e\<lparr>aggregate := a, streams := (streams e)(i \<mapsto> s')\<rparr>)"
proof -
  have eq: "e\<lparr>aggregate := a, streams := (streams e)(i \<mapsto> s')\<rparr> = e\<lparr>streams := (streams e)(i \<mapsto> s'), aggregate := a\<rparr>" by simp
  show ?thesis unfolding eq by (rule upd_put [where Q = Q, OF assms])
qed

lemma upd_put_same:
  assumes "engine_ok c e" "streams e i = Some s" "state s \<noteq> StreamTerminal" "state s' \<noteq> StreamTerminal" "ref s' = ref s"
    "terminal s' = terminal s" "stream_ok c s'" "state s' = StreamClosing \<longrightarrow> queue s' \<noteq> []" "Q (queue s) (queue s')"
    "queuedBytes s' = queuedBytes s"
  shows "engine_upd c i Q e (e\<lparr>streams := (streams e)(i \<mapsto> s')\<rparr>)"
proof -
  have "e\<lparr>streams := (streams e)(i \<mapsto> s')\<rparr> = e\<lparr>streams := (streams e)(i \<mapsto> s'), aggregate := aggregate e\<rparr>" by simp
  then show ?thesis using upd_put [where Q = Q, OF assms(2-9), of "aggregate e"] assms(10) engine_okD(6) [OF assms(1)] by simp
qed

lemma ok_rec:
  assumes "engine_ok c e" "streams e i = Some s" "state s \<noteq> StreamTerminal"
  shows "\<not> doneClosed (terminal s) \<and> recvUsed s = queueCredit (queue s) + recvReturn s \<and> recvUsed s \<le> StreamWindow c \<and>
    sendCredit s \<le> StreamWindow c \<and> (\<forall>chunk\<in>set (queue s). length chunk \<le> StreamChunkLimit c) \<and>
    queuedBytes s = queueLen (queue s) \<and> Physical (ref s) = i \<and> StreamWindow c \<le> 4194304"
  using engine_okD(3) [OF assms(1,2)] assms(3) window_bounds(2) [OF engine_okD(1) [OF assms(1)]] by (simp add: stream_ok_def)

lemmas op_defs = Opened_def Refused_def Data_def WindowUpdate_def reserveSend_def refundSend_def takeReturn_def takeChunk_def
  Close_def Reset_def lookupLocked_def putStream_def wakeCreditLocked_def

lemma Opened_upd:
  assumes "engine_ok c e"
  shows "engine_upd c (Physical r) (=) e (snd (Opened r e))"
proof (cases "streams e (Physical r)")
  case None
  then show ?thesis by (simp add: op_defs engine_upd.intros)
next
  case (Some s)
  then show ?thesis using ok_rec [OF assms Some]
    by (auto simp: op_defs stream_ok_def intro!: upd_none upd_put_same [OF assms, where s = s])
qed

lemma Refused_upd:
  assumes "engine_ok c e"
  shows "engine_upd c (Physical r) (=) e (snd (Refused r d e))"
proof (cases "streams e (Physical r)")
  case None
  then show ?thesis by (simp add: op_defs engine_upd.intros)
next
  case (Some s)
  then show ?thesis using ok_rec [OF assms Some]
    by (auto simp: op_defs intro!: upd_none upd_settle [where s = s])
qed

lemma Reset_upd:
  assumes "engine_ok c e"
  shows "engine_upd c (ResetPhysical m) (=) e (snd (Reset m e))"
proof (cases "streams e (ResetPhysical m)")
  case None
  then show ?thesis by (simp add: op_defs engine_upd.intros)
next
  case (Some s)
  then show ?thesis using ok_rec [OF assms Some]
    by (auto simp: op_defs intro!: upd_none upd_settle [where s = s])
qed

lemma Close_upd:
  assumes "engine_ok c e"
  shows "engine_upd c i (=) e (snd (Close i e))"
proof (cases "streams e i")
  case None
  then show ?thesis by (simp add: op_defs engine_upd.intros)
next
  case (Some s)
  then show ?thesis using ok_rec [OF assms Some]
    by (auto simp: op_defs stream_ok_def intro!: upd_none upd_settle [where s = s] upd_put_same [OF assms, where s = s])
qed

lemma WindowUpdate_upd:
  assumes "engine_ok c e" "closing_ok e"
  shows "engine_upd c i (=) e (snd (WindowUpdate i g e))"
proof (cases "streams e i")
  case None
  then show ?thesis by (simp add: op_defs engine_upd.intros)
next
  case (Some s)
  have "add64 (sendCredit s) g \<le> StreamWindow c" if "state s \<noteq> StreamTerminal" "g \<le> sub64 (window e) (sendCredit s)"
  proof -
    have "sub64 (window e) (sendCredit s) = StreamWindow c - sendCredit s"
      using ok_rec [OF assms(1) Some that(1)] engine_okD(7) [OF assms(1)] by (simp add: sub64_exact)
    then have g: "sendCredit s + g \<le> StreamWindow c" using that(2) ok_rec [OF assms(1) Some that(1)] by auto
    then have "add64 (sendCredit s) g = sendCredit s + g"
      using ok_rec [OF assms(1) Some that(1)] by (intro add64_exact) simp
    then show ?thesis using g by simp
  qed
  then show ?thesis using Some assms(2) ok_rec [OF assms(1) Some]
    by (auto simp: op_defs stream_ok_def not_less closing_ok_def intro!: upd_none upd_put_same [OF assms(1), where s = s])
qed

lemma reserve_upd:
  assumes "engine_ok c e"
  shows "engine_upd c i (=) e (snd (reserveSend i n e))"
proof (cases "streams e i")
  case None
  then show ?thesis by (simp add: op_defs engine_upd.intros)
next
  case (Some s)
  then show ?thesis using ok_rec [OF assms Some]
    by (auto simp: op_defs stream_ok_def sub64_exact Let_def intro!: upd_none upd_put_same [OF assms, where s = s])
qed

lemma refund_upd:
  assumes "engine_ok c e" "closing_ok e"
  shows "engine_upd c i (=) e (refundSend i n e)"
proof (cases "streams e i")
  case None
  then show ?thesis by (simp add: op_defs engine_upd.intros)
next
  case (Some s)
  then show ?thesis using assms(2) ok_rec [OF assms(1) Some] engine_okD(7) [OF assms(1)]
    by (auto simp: op_defs stream_ok_def closing_ok_def intro!: upd_none upd_put_same [OF assms(1), where s = s])
qed

lemma takeReturn_upd:
  assumes "engine_ok c e"
  shows "engine_upd c i (=) e (snd (takeReturn i e))"
proof (cases "streams e i")
  case None
  then show ?thesis by (simp add: op_defs engine_upd.intros)
next
  case (Some s)
  have "sub64 (recvUsed s) (recvReturn s) = queueCredit (queue s)" if "state s = StreamOpen"
    using ok_rec [OF assms Some] that by (simp add: sub64_exact)
  then show ?thesis using Some ok_rec [OF assms Some]
    by (auto simp: op_defs stream_ok_def Let_def intro!: upd_none upd_put_same [OF assms, where s = s])
qed

lemma Data_upd:
  assumes "engine_ok c e"
  shows "engine_upd c i (\<lambda>q q'. q' = (if fst (Data i chunk e) = Inr StreamAccepted then q @ [chunk] else q)) e (snd (Data i chunk e))"
proof (cases "streams e i")
  case None
  then show ?thesis by (simp add: op_defs engine_upd.intros)
next
  case (Some s)
  have add: "add64 (recvUsed s) (chunkCredit (length chunk)) = recvUsed s + chunkCredit (length chunk)"
    if "state s = StreamOpen" "length chunk \<le> maxChunkBytes e"
    using ok_rec [OF assms Some] that valid_bounds [OF engine_okD(1) [OF assms]] engine_okD(8) [OF assms]
    by (intro add64_exact) (simp add: chunkCredit_def mux_consts)
  then show ?thesis using Some ok_rec [OF assms Some] engine_okD(7,8) [OF assms]
    by (auto simp: op_defs stream_ok_def enqueueLocked_def queueOverflowsLocked_def Let_def not_less
        intro!: upd_none upd_settle [where s = s] upd_put_acc [where s = s] split: StreamState.splits)
qed

lemma retire_drained:
  "b' + b = queuedBytes s \<Longrightarrow>
     retireLocked (s\<lparr>queue := q, queuedBytes := b', recvReturn := r\<rparr>)
       (putStream (s\<lparr>queue := q, queuedBytes := b', recvReturn := r\<rparr>) (e\<lparr>aggregate := aggregate e - b\<rparr>)) =
     retireLocked (s\<lparr>recvReturn := r\<rparr>) e"
  by (simp add: retireLocked_def release_eq putStream_def wakeCreditLocked_def Let_def algebra_simps)

lemma takeChunk_upd:
  assumes "engine_ok c e"
  shows "engine_upd c i (\<lambda>q q'. case fst (takeChunk i e) of Some (chunk, _) \<Rightarrow> q = chunk # q' | None \<Rightarrow> q = q') e (snd (takeChunk i e))"
proof (cases "streams e i")
  case None
  then show ?thesis by (simp add: op_defs engine_upd.intros)
next
  case (Some s)
  show ?thesis
  proof (cases "queue s")
    case Nil
    then show ?thesis using Some by (simp add: op_defs engine_upd.intros)
  next
    case (Cons chunk rest)
    then have live: "state s \<noteq> StreamTerminal"
      using engine_okD(3) [OF assms Some] by (auto simp: stream_ok_def split: if_splits)
    note r = ok_rec [OF assms Some live]
    have ret: "add64 (recvReturn s) (chunkCredit (length chunk)) = recvReturn s + chunkCredit (length chunk)"
      using r Cons by (intro add64_exact) simp
    show ?thesis
    proof (cases "state s = StreamClosing \<and> rest = []")
      case True
      then show ?thesis using Some Cons r
        by (auto simp: takeChunk_def Let_def retire_drained intro!: upd_settle [where s = s])
    next
      case False
      have "stream_ok c (s\<lparr>queue := rest, queuedBytes := queuedBytes s - int (length chunk),
          recvReturn := add64 (recvReturn s) (chunkCredit (length chunk))\<rparr>)"
        using r Cons live ret by (simp add: stream_ok_def)
      then show ?thesis using False Some Cons r live engine_okD(6) [OF assms]
        by (auto simp: takeChunk_def putStream_def Let_def intro!: upd_put_acc [where s = s])
    qed
  qed
qed

section \<open>Admission and the whole connection\<close>

lemma new_inv: "ValidateCeilings c \<Longrightarrow> engine_inv c (newStreamEngine c)"
  by (simp add: engine_inv_def engine_ok_def newStreamEngine_def closing_ok_def closedLocked_def MaxRetiredStreamRecords_def)

lemma engine_inv_policy [simp]: "engine_inv c (e\<lparr>policy := p, restricted := b\<rparr>) = engine_inv c e"
  by (simp add: engine_inv_def engine_ok_def closing_ok_def closedLocked_def)

lemma Restrict_inv: "engine_inv c e \<Longrightarrow> engine_inv c (snd (RestrictAdmissions p e))"
  by (simp add: RestrictAdmissions_def)

lemma Open_inv:
  assumes "engine_inv c e"
  shows "engine_inv c (snd (Open m e)) \<and> others_kept (Physical (OpenRef m)) e (snd (Open m e))"
proof (cases "fst (Open m e)")
  case (Some err)
  then have "snd (Open m e) = e" by (auto simp: Open_def Let_def split: if_splits)
  then show ?thesis using assms by simp
next
  case None
  let ?i = "Physical (OpenRef m)" and ?s = "newMuxStream (OpenRef m) (window e)"
  have ok: "engine_ok c e" "closing_ok e" using assms by (simp_all add: engine_inv_def)
  from None have g: "\<not> closedLocked e" "ValidateStreamRef (OpenRef m)" "highest e < ?i" "live e < maxStreams e"
    and eq: "snd (Open m e) = e\<lparr>streams := (streams e)(?i \<mapsto> ?s), highest := ?i, live := live e + 1\<rparr>"
    by (auto simp: Open_def Let_def split: if_splits)
  have fresh: "streams e ?i = None"
    using engine_okD(3) [OF ok(1), of ?i] g(3) by (cases "streams e ?i") auto
  have sums: "table_sum liveOne ((streams e)(?i \<mapsto> ?s)) = live e + 1" "table_sum queuedBytes ((streams e)(?i \<mapsto> ?s)) = aggregate e"
    using engine_okD(2,4,5) [OF ok(1)] fresh by (simp_all add: table_sum_upd newMuxStream_def)
  have trm: "{j. \<exists>t. ((streams e)(?i \<mapsto> ?s)) j = Some t \<and> state t = StreamTerminal} =
      {j. \<exists>t. streams e j = Some t \<and> state t = StreamTerminal}"
    using fresh by (auto simp: newMuxStream_def)
  have recs: "\<forall>j t. ((streams e)(?i \<mapsto> ?s)) j = Some t \<longrightarrow> Physical (ref t) = j \<and> 0 < j \<and> j \<le> ?i \<and> stream_ok c t"
  proof (intro allI impI)
    fix j t assume j: "((streams e)(?i \<mapsto> ?s)) j = Some t"
    show "Physical (ref t) = j \<and> 0 < j \<and> j \<le> ?i \<and> stream_ok c t"
      using j engine_okD(3) [OF ok(1), of j t] engine_okD(7) [OF ok(1)] g(3)
      by (cases "j = ?i") (auto simp: newMuxStream_def stream_ok_def)
  qed
  have "engine_ok c (snd (Open m e))"
  proof -
    define m where "m = (streams e)(?i \<mapsto> ?s)"
    have "finite (dom m)" using engine_okD(2) [OF ok(1)] by (simp add: m_def)
    then show ?thesis using ok(1) sums trm recs g(4) unfolding eq engine_ok_def m_def [symmetric] by simp
  qed
  moreover have o: "others_kept ?i e (snd (Open m e))" by (simp add: eq others_kept_def)
  moreover have "closing_ok (snd (Open m e))"
    by (rule closing_others [OF ok(2) o, of ?s]) (simp_all add: eq newMuxStream_def)
  moreover have "\<not> closedLocked (snd (Open m e))" using g(1) by (simp add: eq closedLocked_def)
  ultimately show ?thesis by (simp add: engine_inv_def)
qed

text \<open>Ranging over the table settles every live stream, whatever the order.\<close>

definition afterAll :: "(terminalState \<Rightarrow> terminalState) \<Rightarrow> nat list \<Rightarrow> nat \<Rightarrow> muxStream \<Rightarrow> muxStream" where
  "afterAll f order j s = (if state s = StreamTerminal \<or> j \<notin> set order then s else settled f s)"

lemma terminalizeAll_keeps:
  assumes "engine_ok c e" "closing_ok e" "\<And>t. doneClosed (f t)" "e' = terminalizeAllLocked order f e"
  shows "engine_ok c e' \<and> closing_ok e' \<and> physical e' = physical e \<and> highest e' = highest e \<and>
    (\<forall>j t. streams e' j = Some t \<longrightarrow> (\<exists>s. streams e j = Some s \<and> t = afterAll f order j s))"
  using assms
proof (induction order f e rule: terminalizeAllLocked.induct)
  case (1 f e)
  then show ?case by (simp add: afterAll_def)
next
  case (2 i order f e)
  show ?case
  proof (cases "streams e i")
    case None
    then have "e' = terminalizeAllLocked order f e" using 2(7) by simp
    note ih = 2(1) [OF None 2(4-6) this]
    then show ?thesis using None by (fastforce simp: afterAll_def)
  next
    case (Some s)
    show ?thesis
    proof (cases "state s = StreamTerminal")
      case True
      then have "e' = terminalizeAllLocked order f e" using 2(7) Some by simp
      note ih = 2(2) [OF Some True 2(4-6) this]
      then show ?thesis using Some True by (fastforce simp: afterAll_def)
    next
      case False
      have r: "Physical (ref s) = i" using engine_okD(3) [OF 2(4) Some] by simp
      let ?e = "publishOn i f (retireLocked s e)"
      note st = settle_ok [where f = f, OF 2(4) Some False r refl 2(6)]
      have cl: "closing_ok ?e" using 2(5) by (intro closing_others [OF _ st(2,3)]) auto
      have same: "physical ?e = physical e" "highest ?e = highest e" using settle_eq [OF 2(4) Some False r, of f] by simp_all
      have "e' = terminalizeAllLocked order f ?e" using 2(7) Some False r by simp
      note ih = 2(3) [OF Some False, unfolded r, OF st(1) cl 2(6) this]
      have "\<exists>u. streams e j = Some u \<and> afterAll f order j t = afterAll f (i # order) j u" if "streams ?e j = Some t" for j t
      proof (cases "j = i")
        case True
        then have "t = settled f s" using that st(3) by simp
        then show ?thesis using True Some False by (simp add: afterAll_def)
      next
        case False
        then have "streams e j = Some t" using that st(2) by (auto simp: others_kept_def)
        then show ?thesis using False by (simp add: afterAll_def)
      qed
      then show ?thesis using ih same by (metis (no_types, lifting))
    qed
  qed
qed

end
