(* ===== verification/Mux_Engine_Run.thy ===== *)
theory Mux_Engine_Run
  imports Mux_Engine_Ops "HOL-Library.Sublist"
begin

text \<open>
  Runs of the engine: any sequence of calls, with what was accepted on and taken from each stream. The
  invariant, the isolation of streams, the permanence of outcomes and identities and the order of
  the data are properties of every run.
\<close>

section \<open>Calls\<close>

datatype engineEvent = EvRestrict BrokerPolicy | EvOpen OpenMsg | EvOpened StreamRef | EvRefused StreamRef ErrorDetail
  | EvData nat "byte list" | EvWindow nat nat | EvReserve nat nat | EvRefund nat nat | EvGrant nat | EvTake nat | EvClose nat
  | EvReset ResetMsg | EvFail "nat list" nat "cause option" | EvTerminate "nat list"

fun applyEvent :: "engineEvent \<Rightarrow> StreamEngine \<Rightarrow> StreamEngine" where
  "applyEvent (EvRestrict p) e = snd (RestrictAdmissions p e)"
| "applyEvent (EvOpen m) e = snd (Open m e)"
| "applyEvent (EvOpened r) e = snd (Opened r e)"
| "applyEvent (EvRefused r d) e = snd (Refused r d e)"
| "applyEvent (EvData i chunk) e = snd (Data i chunk e)"
| "applyEvent (EvWindow i g) e = snd (WindowUpdate i g e)"
| "applyEvent (EvReserve i n) e = snd (reserveSend i n e)"
| "applyEvent (EvRefund i n) e = refundSend i n e"
| "applyEvent (EvGrant i) e = snd (takeReturn i e)"
| "applyEvent (EvTake i) e = snd (takeChunk i e)"
| "applyEvent (EvClose i) e = snd (Close i e)"
| "applyEvent (EvReset m) e = snd (Reset m e)"
| "applyEvent (EvFail order k c) e = Fail order k c e"
| "applyEvent (EvTerminate order) e = Terminate order e"

text \<open>The stream a call names, when it names one; a range over the table visits every record.\<close>

fun eventStream :: "engineEvent \<Rightarrow> nat option" where
  "eventStream (EvRestrict p) = None"
| "eventStream (EvOpen m) = Some (Physical (OpenRef m))"
| "eventStream (EvOpened r) = Some (Physical r)"
| "eventStream (EvRefused r d) = Some (Physical r)"
| "eventStream (EvData i chunk) = Some i"
| "eventStream (EvWindow i g) = Some i"
| "eventStream (EvReserve i n) = Some i"
| "eventStream (EvRefund i n) = Some i"
| "eventStream (EvGrant i) = Some i"
| "eventStream (EvTake i) = Some i"
| "eventStream (EvClose i) = Some i"
| "eventStream (EvReset m) = Some (ResetPhysical m)"
| "eventStream (EvFail order k c) = None"
| "eventStream (EvTerminate order) = None"

fun event_ok :: "engineEvent \<Rightarrow> StreamEngine \<Rightarrow> bool" where
  "event_ok (EvFail order k c) e = (set order = dom (streams e))"
| "event_ok (EvTerminate order) e = (set order = dom (streams e))"
| "event_ok _ e = True"

text \<open>What a call does to the queue of a stream that stays live.\<close>

fun queueRel :: "engineEvent \<Rightarrow> StreamEngine \<Rightarrow> byte list list \<Rightarrow> byte list list \<Rightarrow> bool" where
  "queueRel (EvData i chunk) e = (\<lambda>q q'. q' = (if fst (Data i chunk e) = Inr StreamAccepted then q @ [chunk] else q))"
| "queueRel (EvTake i) e = (\<lambda>q q'. case fst (takeChunk i e) of Some (chunk, _) \<Rightarrow> q = chunk # q' | None \<Rightarrow> q = q')"
| "queueRel _ e = (=)"

section \<open>One call\<close>

lemma all_settled:
  assumes "engine_ok c e'" "\<And>j t. streams e' j = Some t \<Longrightarrow> state t = StreamTerminal"
  shows "live e' = 0"
  using assms(2) by (auto simp: engine_okD(4) [OF assms(1)] table_sum_def intro!: sum.neutral)

lemma engine_ok_physical [simp]: "engine_ok c (e\<lparr>physical := p\<rparr>) = engine_ok c e" "closing_ok (e\<lparr>physical := p\<rparr>) = closing_ok e"
  by (simp_all add: engine_ok_def closing_ok_def)

lemma terminalize_inv:
  assumes "engine_inv c e" "set order = dom (streams e)" "\<And>t. doneClosed (f t)"
    "e' = terminalizeAllLocked order f (e\<lparr>physical := f (physical e)\<rparr>)"
  shows "engine_inv c e' \<and> live e' = 0 \<and> highest e' = highest e \<and> physical e' = f (physical e) \<and>
    (\<forall>j t. streams e' j = Some t \<longrightarrow>
      (\<exists>s. streams e j = Some s \<and> t = (if state s = StreamTerminal then s else settled f s)))"
proof -
  have ok: "engine_ok c (e\<lparr>physical := f (physical e)\<rparr>)" "closing_ok (e\<lparr>physical := f (physical e)\<rparr>)"
    using assms(1) by (simp_all add: engine_inv_def)
  note k = terminalizeAll_keeps [where f = f, OF ok assms(3,4)]
  have s: "\<exists>s. streams e j = Some s \<and> t = (if state s = StreamTerminal then s else settled f s)" if "streams e' j = Some t" for j t
    using k that assms(2) by (fastforce simp: afterAll_def)
  have t: "state t = StreamTerminal" if "streams e' j = Some t" for j t using s [OF that] by (metis settled_fields(2))
  have "live e' = 0" using k t by (intro all_settled) auto
  then show ?thesis using k s by (simp add: engine_inv_def)
qed

definition whole_kept :: "StreamEngine \<Rightarrow> StreamEngine \<Rightarrow> bool" where
  "whole_kept e e' = (highest e' = highest e \<and>
     (\<forall>j t. streams e' j = Some t \<longrightarrow> (\<exists>s. streams e j = Some s \<and> (t = s \<or> state s \<noteq> StreamTerminal \<and> state t = StreamTerminal))))"

lemma terminalize_whole:
  assumes "engine_inv c e" "set order = dom (streams e)" "\<And>t. doneClosed (f t)"
  shows "engine_inv c (terminalizeAllLocked order f (e\<lparr>physical := f (physical e)\<rparr>)) \<and>
    whole_kept e (terminalizeAllLocked order f (e\<lparr>physical := f (physical e)\<rparr>))"
  using terminalize_inv [where f = f, OF assms refl] unfolding whole_kept_def by (metis settled_fields(2))

lemma step_whole:
  assumes "engine_inv c e" "event_ok ev e" "eventStream ev = None"
  shows "engine_inv c (applyEvent ev e) \<and> whole_kept e (applyEvent ev e)"
proof (cases ev)
  case (EvRestrict p)
  then show ?thesis using Restrict_inv [OF assms(1)] by (auto simp: whole_kept_def RestrictAdmissions_def)
next
  case (EvFail order k d)
  then show ?thesis using terminalize_whole [OF assms(1), of order "TermFail k d"] assms(2) by (simp add: Fail_def)
next
  case (EvTerminate order)
  then show ?thesis using terminalize_whole [OF assms(1), of order TermClose] assms(2) by (simp add: Terminate_def)
qed (use assms(3) in auto)

lemma step_upd:
  assumes "engine_inv c e" "eventStream ev = Some i" "\<And>m. ev \<noteq> EvOpen m"
  shows "engine_upd c i (queueRel ev e) e (applyEvent ev e)"
proof -
  have ok: "engine_ok c e" "closing_ok e" using assms(1) by (simp_all add: engine_inv_def)
  show ?thesis using assms(2,3) Opened_upd [OF ok(1)] Refused_upd [OF ok(1)] Data_upd [OF ok(1)] WindowUpdate_upd [OF ok]
      reserve_upd [OF ok(1)] refund_upd [OF ok] takeReturn_upd [OF ok(1)] takeChunk_upd [OF ok(1)] Close_upd [OF ok(1)]
      Reset_upd [OF ok(1)]
    by (cases ev) auto
qed

lemma step_inv:
  assumes "engine_inv c e" "event_ok ev e"
  shows "engine_inv c (applyEvent ev e)"
proof (cases "eventStream ev")
  case None
  then show ?thesis using step_whole [OF assms] by simp
next
  case (Some i)
  show ?thesis
  proof (cases "\<exists>m. ev = EvOpen m")
    case True
    then show ?thesis using Open_inv [OF assms(1)] by auto
  next
    case False
    then show ?thesis using step_upd [OF assms(1) Some] upd_keeps [OF _ assms(1)] by blast
  qed
qed

lemma step_others:
  assumes "engine_inv c e" "eventStream ev = Some i"
  shows "others_kept i e (applyEvent ev e)"
proof (cases "\<exists>m. ev = EvOpen m")
  case True
  then show ?thesis using Open_inv [OF assms(1)] assms(2) by auto
next
  case False
  then show ?thesis using step_upd [OF assms] upd_keeps [OF _ assms(1)] by blast
qed

lemma step_closed:
  assumes "engine_inv c e" "eventStream ev = Some i"
  shows "closedLocked (applyEvent ev e) = closedLocked e"
proof (cases "\<exists>m. ev = EvOpen m")
  case True
  then obtain m where m: "ev = EvOpen m" by blast
  have "physical (snd (Open m e)) = physical e" by (simp add: Open_def Let_def)
  then show ?thesis using m by (simp add: closedLocked_def)
next
  case False
  then have "engine_upd c i (queueRel ev e) e (applyEvent ev e)" using step_upd [OF assms] by blast
  then show ?thesis using upd_keeps [OF _ assms(1)] by (metis closedLocked_def)
qed

lemma step_terminal:
  assumes "engine_inv c e" "event_ok ev e" "streams e j = Some s" "streams (applyEvent ev e) j = Some s'" "doneClosed (terminal s)"
  shows "s' = s"
proof (cases "eventStream ev")
  case None
  have "engine_ok c e" using assms(1) by (simp add: engine_inv_def)
  then have "state s = StreamTerminal"
    using engine_okD(3) [OF _ assms(3)] assms(5) by (metis stream_ok_def)
  then show ?thesis using step_whole [OF assms(1,2) None] assms(3,4) by (fastforce simp: whole_kept_def)
next
  case (Some i)
  show ?thesis
  proof (cases "\<exists>m. ev = EvOpen m")
    case True
    then obtain m where m: "ev = EvOpen m" "Physical (OpenRef m) = i" using Some by auto
    have "engine_ok c e" using assms(1) by (simp add: engine_inv_def)
    then have "j \<le> highest e" using engine_okD(3) [OF _ assms(3)] by simp
    then show ?thesis using assms(3,4) m by (auto simp: Open_def Let_def split: if_splits)
  next
    case False
    then show ?thesis using upd_terminal [OF step_upd [OF assms(1) Some] assms(1,3,4,5)] by blast
  qed
qed

text \<open>A record that is live after a call was live before it, or was opened by it.\<close>

lemma step_live:
  assumes "engine_inv c e" "event_ok ev e" "streams (applyEvent ev e) j = Some t" "state t \<noteq> StreamTerminal"
  shows "(\<exists>s. streams e j = Some s \<and> state s \<noteq> StreamTerminal \<and>
      (if eventStream ev = Some j then queueRel ev e (queue s) (queue t) else queue t = queue s)) \<or>
    highest e < j \<and> queue t = []"
proof (cases "eventStream ev")
  case None
  then show ?thesis using step_whole [OF assms(1,2) None] assms(3,4) by (fastforce simp: whole_kept_def)
next
  case (Some i)
  note o = step_others [OF assms(1) Some]
  show ?thesis
  proof (cases "j = i")
    case False
    then show ?thesis using o assms(3,4) Some by (auto simp: others_kept_def)
  next
    case True
    show ?thesis
    proof (cases "\<exists>m. ev = EvOpen m")
      case isopen: True
      then show ?thesis using Some True assms(3,4) by (auto simp: Open_def newMuxStream_def Let_def split: if_splits)
    next
      case False
      have "engine_upd c i (queueRel ev e) e (applyEvent ev e)" using step_upd [OF assms(1) Some] False by blast
      then have "\<exists>s. streams e i = Some s \<and> state s \<noteq> StreamTerminal \<and> queueRel ev e (queue s) (queue t)"
      proof (cases rule: engine_upd.cases)
        case (upd_settle s s0 f)
        have ok: "engine_ok c e" using assms(1) by (simp add: engine_inv_def)
        have "Physical (ref s0) = i" using engine_okD(3) [OF ok upd_settle(2)] upd_settle(4) by simp
        then show ?thesis
          using settle_ok(3) [where f = f, OF ok upd_settle(2,3) _ upd_settle(5,7)] assms(3,4) True upd_settle(1) by auto
      qed (use assms(3,4) True in auto)
      then show ?thesis using True Some by auto
    qed
  qed
qed

lemma step_highest:
  assumes "engine_inv c e" "event_ok ev e"
  shows "highest e \<le> highest (applyEvent ev e)"
proof (cases "eventStream ev")
  case None
  then show ?thesis using step_whole [OF assms None] by (simp add: whole_kept_def)
next
  case (Some i)
  show ?thesis
  proof (cases "\<exists>m. ev = EvOpen m")
    case True
    then show ?thesis by (auto simp: Open_def Let_def)
  next
    case False
    then show ?thesis using step_upd [OF assms(1) Some] upd_keeps [OF _ assms(1)] by fastforce
  qed
qed

section \<open>Runs\<close>

type_synonym chunkLog = "nat \<Rightarrow> byte list list"

fun noteAccepted :: "engineEvent \<Rightarrow> StreamEngine \<Rightarrow> chunkLog \<Rightarrow> chunkLog" where
  "noteAccepted (EvData i chunk) e acc = (if fst (Data i chunk e) = Inr StreamAccepted then acc(i := acc i @ [chunk]) else acc)"
| "noteAccepted _ e acc = acc"

fun noteTaken :: "engineEvent \<Rightarrow> StreamEngine \<Rightarrow> chunkLog \<Rightarrow> chunkLog" where
  "noteTaken (EvTake i) e tak = (case fst (takeChunk i e) of Some (chunk, _) \<Rightarrow> tak(i := tak i @ [chunk]) | None \<Rightarrow> tak)"
| "noteTaken _ e tak = tak"

text \<open>A run from a new engine; \<open>acc\<close> and \<open>tak\<close> log the chunks accepted on and taken from each stream.\<close>

inductive engine_run :: "MuxCeilings \<Rightarrow> StreamEngine \<Rightarrow> chunkLog \<Rightarrow> chunkLog \<Rightarrow> bool" for c where
  run_new: "ValidateCeilings c \<Longrightarrow> engine_run c (newStreamEngine c) (\<lambda>_. []) (\<lambda>_. [])"
| run_call: "engine_run c e acc tak \<Longrightarrow> event_ok ev e \<Longrightarrow>
    engine_run c (applyEvent ev e) (noteAccepted ev e acc) (noteTaken ev e tak)"

lemma run_inv: "engine_run c e acc tak \<Longrightarrow> engine_inv c e"
  by (induction rule: engine_run.induct) (auto intro: new_inv step_inv)

lemma taken_is_head:
  assumes "fst (takeChunk i e) = Some (chunk, b)"
  shows "\<exists>s. streams e i = Some s \<and> (\<exists>q. queue s = chunk # q \<and> (b \<longrightarrow> q = []))"
  using assms by (auto simp: takeChunk_def Let_def split: option.splits list.splits if_splits)

lemma accepted_is_open:
  assumes "fst (Data i chunk e) = Inr StreamAccepted"
  shows "\<exists>s. streams e i = Some s \<and> state s = StreamOpen"
  using assms by (auto simp: Data_def lookupLocked_def split: option.splits StreamState.splits if_splits)

lemma queue_live:
  assumes "engine_inv c e" "streams e i = Some s" "queue s \<noteq> []"
  shows "state s \<noteq> StreamTerminal"
proof -
  have "engine_ok c e" using assms(1) by (simp add: engine_inv_def)
  then show ?thesis using engine_okD(3) [OF _ assms(2)] assms(3) by (auto simp: stream_ok_def)
qed

definition logs_ok :: "StreamEngine \<Rightarrow> chunkLog \<Rightarrow> chunkLog \<Rightarrow> bool" where
  "logs_ok e acc tak =
     ((\<forall>i. prefix (tak i) (acc i)) \<and> (\<forall>i. highest e < i \<longrightarrow> acc i = [] \<and> tak i = []) \<and>
      (\<forall>i s. streams e i = Some s \<longrightarrow> state s \<noteq> StreamTerminal \<longrightarrow> acc i = tak i @ queue s))"

lemma step_logs:
  assumes "engine_inv c e" "event_ok ev e" "logs_ok e acc tak"
  shows "logs_ok (applyEvent ev e) (noteAccepted ev e acc) (noteTaken ev e tak)"
proof -
  let ?e = "applyEvent ev e" and ?acc = "noteAccepted ev e acc" and ?tak = "noteTaken ev e tak"
  note L = assms(3) [unfolded logs_ok_def]
  have ok: "engine_ok c e" using assms(1) by (simp add: engine_inv_def)
  have low: "i \<le> highest e" if "streams e i = Some s" for i s using engine_okD(3) [OF ok that] by simp
  have same: "?acc i = acc i" "?tak i = tak i" if "eventStream ev \<noteq> Some i" for i
    using that by (cases ev; auto split: option.splits)+
  have pre: "prefix (?tak i) (?acc i) \<and> (highest e < i \<longrightarrow> ?acc i = [] \<and> ?tak i = [])" for i
  proof (cases ev)
    case (EvData k chunk)
    then show ?thesis using L low accepted_is_open [of k chunk e] by (auto simp: not_less [symmetric] intro: prefix_prefix)
  next
    case (EvTake k)
    show ?thesis
    proof (cases "fst (takeChunk k e)")
      case None
      then show ?thesis using L EvTake by simp
    next
      case (Some p)
      obtain chunk b where cb: "p = (chunk, b)" by (cases p)
      obtain s q where "streams e k = Some s" "queue s = chunk # q"
        using taken_is_head [OF Some [unfolded cb]] by auto
      note p = cb this
      have "acc k = tak k @ chunk # q" using p L queue_live [OF assms(1)] by simp
      then show ?thesis using L EvTake Some p low [OF p(2)] by (auto simp: not_less [symmetric])
    qed
  qed (use L in auto)
  have "?acc i = ?tak i @ queue t" if t: "streams ?e i = Some t" "state t \<noteq> StreamTerminal" for i t
    using step_live [OF assms(1,2) t]
  proof
    assume "highest e < i \<and> queue t = []"
    then show ?thesis using pre [of i] by simp
  next
    assume "\<exists>s. streams e i = Some s \<and> state s \<noteq> StreamTerminal \<and>
      (if eventStream ev = Some i then queueRel ev e (queue s) (queue t) else queue t = queue s)"
    then obtain s where s: "streams e i = Some s" "state s \<noteq> StreamTerminal"
      "if eventStream ev = Some i then queueRel ev e (queue s) (queue t) else queue t = queue s" by blast
    have "acc i = tak i @ queue s" using L s by simp
    then show ?thesis using s(3) by (cases ev) (auto split: if_splits option.splits)
  qed
  then show ?thesis using pre step_highest [OF assms(1,2)] by (auto simp: logs_ok_def)
qed

lemma run_logs: "engine_run c e acc tak \<Longrightarrow> logs_ok e acc tak"
proof (induction rule: engine_run.induct)
  case run_new
  then show ?case by (simp add: logs_ok_def newStreamEngine_def)
next
  case (run_call e acc tak ev)
  then show ?case using step_logs run_inv by blast
qed

section \<open>Identities and outcomes over runs\<close>

inductive engine_calls :: "StreamEngine \<Rightarrow> StreamEngine \<Rightarrow> bool" for e where
  calls_none: "engine_calls e e"
| calls_more: "engine_calls e e' \<Longrightarrow> event_ok ev e' \<Longrightarrow> engine_calls e (applyEvent ev e')"

lemma step_gone:
  assumes "engine_inv c e" "event_ok ev e" "streams e j = None" "j \<le> highest e"
  shows "streams (applyEvent ev e) j = None"
proof (cases "eventStream ev")
  case None
  then show ?thesis using step_whole [OF assms(1,2) None] assms(3) by (cases "streams (applyEvent ev e) j") (fastforce simp: whole_kept_def)+
next
  case (Some i)
  show ?thesis
  proof (cases "j = i")
    case False
    then show ?thesis using step_others [OF assms(1) Some] assms(3) by (auto simp: others_kept_def)
  next
    case True
    show ?thesis
    proof (cases "\<exists>m. ev = EvOpen m")
      case isopen: True
      then show ?thesis using Some True assms(3,4) by (auto simp: Open_def Let_def)
    next
      case False
      have "engine_upd c i (queueRel ev e) e (applyEvent ev e)" using step_upd [OF assms(1) Some] False by blast
      then show ?thesis using True assms(3) by (cases rule: engine_upd.cases) auto
    qed
  qed
qed

lemma calls_settled:
  assumes "engine_calls e e'" "engine_inv c e" "streams e j = Some s" "doneClosed (terminal s)"
  shows "engine_inv c e' \<and> j \<le> highest e' \<and> (streams e' j = None \<or> streams e' j = Some s)"
  using assms
proof (induction rule: engine_calls.induct)
  case calls_none
  then have "engine_ok c e" by (simp add: engine_inv_def)
  then show ?case using calls_none engine_okD(3) by simp
next
  case (calls_more e' ev)
  then have I: "engine_inv c e'" "j \<le> highest e'" "streams e' j = None \<or> streams e' j = Some s" by simp_all
  have "streams (applyEvent ev e') j = None \<or> streams (applyEvent ev e') j = Some s"
    using I(3) step_gone [OF I(1) calls_more(2) _ I(2)] step_terminal [OF I(1) calls_more(2) _ _ assms(4)]
    by (metis not_None_eq)
  then show ?case using step_inv [OF I(1) calls_more(2)] step_highest [OF I(1) calls_more(2)] I(2) by simp
qed

lemma table_size:
  assumes "engine_ok c e"
  shows "int (card (dom (streams e))) = live e + int (length (retired e))"
    "live e = int (card {i. \<exists>s. streams e i = Some s \<and> state s \<noteq> StreamTerminal})"
proof -
  let ?L = "{i. \<exists>s. streams e i = Some s \<and> state s \<noteq> StreamTerminal}" and ?R = "{i. \<exists>s. streams e i = Some s \<and> state s = StreamTerminal}"
  note D = engine_okD [OF assms]
  have dom: "dom (streams e) = ?L \<union> ?R" "?L \<inter> ?R = {}" by auto
  have fin: "finite ?L" "finite ?R" using D(2) dom(1) by (auto intro: finite_subset [of _ "dom (streams e)"])
  have "live e = (\<Sum>i\<in>?L \<union> ?R. liveOne (the (streams e i)))" using D(4) dom(1) by (simp add: table_sum_def)
  also have "\<dots> = (\<Sum>i\<in>?L. 1) + (\<Sum>i\<in>?R. 0)"
    unfolding sum.union_disjoint [OF fin dom(2)] by (intro arg_cong2 [where f = "(+)"] sum.cong) auto
  finally show l: "live e = int (card ?L)" by simp
  have "int (card (dom (streams e))) = int (card ?L) + int (card ?R)" unfolding dom(1) using card_Un_disjoint [OF fin dom(2)] by simp
  moreover have "card ?R = length (retired e)" using assms by (simp add: engine_ok_def distinct_card flip: distinct_card)
  ultimately show "int (card (dom (streams e))) = live e + int (length (retired e))" using l by simp
qed

section \<open>Properties\<close>

text \<open>
  C7. The accounts of the stream table are exact in every run, whatever calls arrive in whatever order:
  the live count is the number of streams that are not settled and never exceeds the negotiated
  ceiling, the aggregate is the sum of the queued bytes and never exceeds its budget, every live stream
  keeps what it was sent within its window, the table stays bounded although settled records are
  retained, and a closed connection has no live stream.
\<close>

theorem engine_accounting:
  assumes "engine_run c e acc tak"
  shows "live e = int (card {i. \<exists>s. streams e i = Some s \<and> state s \<noteq> StreamTerminal}) \<and> live e \<le> int (MaxStreams c) \<and>
    aggregate e = table_sum (\<lambda>s. queueLen (queue s)) (streams e) \<and> aggregate e \<le> int (MaxAggregateBytes c) \<and>
    (\<forall>i s. streams e i = Some s \<longrightarrow> state s \<noteq> StreamTerminal \<longrightarrow>
       recvUsed s = queueCredit (queue s) + recvReturn s \<and> recvUsed s \<le> StreamWindow c \<and> sendCredit s \<le> StreamWindow c) \<and>
    card (dom (streams e)) \<le> MaxStreams c + MaxRetiredStreamRecords \<and> (closedLocked e \<longrightarrow> live e = 0)"
proof -
  have inv: "engine_inv c e" using run_inv [OF assms] .
  then have ok: "engine_ok c e" by (simp add: engine_inv_def)
  have "table_sum queuedBytes (streams e) = table_sum (\<lambda>s. queueLen (queue s)) (streams e)"
    using engine_okD(3) [OF ok] by (auto simp: table_sum_def stream_ok_def intro!: sum.cong)
  moreover have "card (dom (streams e)) \<le> MaxStreams c + MaxRetiredStreamRecords"
    using table_size(1) [OF ok] ok unfolding engine_ok_def by linarith
  moreover have "live e \<le> int (MaxStreams c)" "aggregate e \<le> int (MaxAggregateBytes c)" "closedLocked e \<longrightarrow> live e = 0"
    using ok inv by (simp_all add: engine_ok_def engine_inv_def)
  moreover have "\<forall>i s. streams e i = Some s \<longrightarrow> state s \<noteq> StreamTerminal \<longrightarrow>
       recvUsed s = queueCredit (queue s) + recvReturn s \<and> recvUsed s \<le> StreamWindow c \<and> sendCredit s \<le> StreamWindow c"
    using ok_rec [OF ok] by blast
  ultimately show ?thesis using table_size(2) [OF ok] engine_okD(5) [OF ok] by metis
qed

definition demoRef :: StreamRef where
  "demoRef = \<lparr>Physical = 1, Epoch = 1, Connection = replicate 16 1, Client = 1\<rparr>"

definition demoPolicy :: BrokerPolicy where
  "demoPolicy = \<lparr>ProtocolVersion = 1, CatalogSchemaVersion = 1, EnvironmentPolicy = 0, Transport = [117], Trust = [116], Launch = [108],
     Isolation = [105]\<rparr>"

definition demoEngine :: StreamEngine where
  "demoEngine = applyEvent (EvOpened demoRef) (applyEvent (EvOpen \<lparr>OpenRef = demoRef, OpenPolicy = demoPolicy\<rparr>)
     (newStreamEngine DefaultMuxCeilings))"

lemma default_valid: "ValidateCeilings DefaultMuxCeilings"
  by (simp add: ValidateCeilings_def DefaultMuxCeilings_def mux_consts)

lemma demo_run: "engine_run DefaultMuxCeilings demoEngine (\<lambda>_. []) (\<lambda>_. [])"
proof -
  have "engine_run DefaultMuxCeilings (applyEvent (EvOpen \<lparr>OpenRef = demoRef, OpenPolicy = demoPolicy\<rparr>)
      (newStreamEngine DefaultMuxCeilings)) (\<lambda>_. []) (\<lambda>_. [])"
    using run_call [OF run_new [OF default_valid], of "EvOpen \<lparr>OpenRef = demoRef, OpenPolicy = demoPolicy\<rparr>"] by simp
  then show ?thesis unfolding demoEngine_def using run_call [of _ _ _ _ "EvOpened demoRef"] by fastforce
qed

lemma demo_ref_valid: "ValidateStreamRef demoRef" "Physical demoRef = 1"
  by (simp_all add: demoRef_def ValidateStreamRef_def ValidatePhysical_def ValidateConnection_def replicate_eq_replicate)

lemma demo_eq:
  "demoEngine = (newStreamEngine DefaultMuxCeilings)
     \<lparr>streams := [1 \<mapsto> (newMuxStream demoRef (StreamWindow DefaultMuxCeilings))\<lparr>state := StreamOpen\<rparr>], highest := 1, live := 1\<rparr>"
  by (simp add: demoEngine_def newStreamEngine_def Open_def Opened_def demo_ref_valid closedLocked_def
      ValidatePhysical_def lookupLocked_def putStream_def newMuxStream_def DefaultMuxCeilings_def mux_consts)

lemma demo_accepts: "fst (Data 1 [7, 8] demoEngine) = Inr StreamAccepted"
  by (simp add: demo_eq newStreamEngine_def Data_def lookupLocked_def ValidatePhysical_def newMuxStream_def queueOverflowsLocked_def
      add64_def chunkCredit_def StreamWindow_def DefaultMuxCeilings_def mux_consts Let_def)

theorem engine_accounting_witness:
  "live demoEngine = int (card {i. \<exists>s. streams demoEngine i = Some s \<and> state s \<noteq> StreamTerminal}) \<and>
   live demoEngine \<le> int (MaxStreams DefaultMuxCeilings)"
  using engine_accounting [OF demo_run] by blast

text \<open>
  C13. Data of one stream is delivered in order and without gaps: what the consumer has taken is always
  a prefix of what was accepted, the rest is exactly the queue while the stream is live, and the take
  that ends a stream after an orderly close has delivered everything that was accepted before it.
\<close>

theorem stream_data_in_order:
  assumes "engine_run c e acc tak"
  shows "prefix (tak i) (acc i) \<and>
    (\<forall>s. streams e i = Some s \<longrightarrow> state s \<noteq> StreamTerminal \<longrightarrow> acc i = tak i @ queue s) \<and>
    (\<forall>chunk. fst (takeChunk i e) = Some (chunk, True) \<longrightarrow> acc i = tak i @ [chunk])"
proof -
  note L = run_logs [OF assms, unfolded logs_ok_def] and inv = run_inv [OF assms]
  have "acc i = tak i @ [chunk]" if t: "fst (takeChunk i e) = Some (chunk, True)" for chunk
  proof -
    obtain s where "streams e i = Some s" "queue s = [chunk]" using taken_is_head [OF t] by auto
    then show ?thesis using L queue_live [OF inv] by (metis list.distinct(1))
  qed
  then show ?thesis using L by blast
qed

theorem stream_data_in_order_witness:
  "let e1 = applyEvent (EvData 1 [7, 8]) demoEngine; e2 = applyEvent (EvClose 1) e1 in
     \<forall>chunk. fst (takeChunk 1 e2) = Some (chunk, True) \<longrightarrow> [[7, 8]] = [chunk]"
proof -
  have run: "engine_run DefaultMuxCeilings (applyEvent (EvClose 1) (applyEvent (EvData 1 [7, 8]) demoEngine))
      (noteAccepted (EvData 1 [7, 8]) demoEngine (\<lambda>_. [])) (\<lambda>_. [])"
    using run_call [OF run_call [OF demo_run, of "EvData 1 [7, 8]"], of "EvClose 1"] by simp
  have "noteAccepted (EvData 1 [7, 8]) demoEngine (\<lambda>_. []) 1 = [[7, 8]]"
    using demo_accepts by simp
  then show ?thesis using stream_data_in_order [OF run, of 1] by (simp add: Let_def)
qed

text \<open>
  C20. A call about one stream leaves every other record as it is, apart from forgetting a settled one,
  and never closes the connection; and once a stream has its outcome no later call, not even one
  that ends the connection, changes the record or gives its identity to another stream.
\<close>

theorem streams_isolated:
  assumes "engine_run c e acc tak"
  shows "(eventStream ev = Some i \<longrightarrow> j \<noteq> i \<longrightarrow>
      (streams (applyEvent ev e) j = streams e j \<or>
       streams (applyEvent ev e) j = None \<and> (\<exists>s. streams e j = Some s \<and> state s = StreamTerminal)) \<and>
      closedLocked (applyEvent ev e) = closedLocked e) \<and>
    (engine_calls e e' \<longrightarrow> streams e k = Some s \<longrightarrow> doneClosed (terminal s) \<longrightarrow> streams e' k = None \<or> streams e' k = Some s)"
proof -
  note inv = run_inv [OF assms]
  show ?thesis using step_others [OF inv, of ev i] step_closed [OF inv, of ev i] calls_settled [OF _ inv] by (auto simp: others_kept_def)
qed

theorem streams_isolated_witness:
  "let e = applyEvent (EvData 1 [7]) demoEngine in streams e 2 = streams demoEngine 2 \<and> closedLocked e = closedLocked demoEngine"
proof -
  have "streams demoEngine 2 = None" by (simp add: demo_eq)
  then show ?thesis using streams_isolated [OF demo_run, of "EvData 1 [7]" 1 2] by (simp add: Let_def)
qed

end
