(* ===== verification/Mux_Flow.thy ===== *)
theory Mux_Flow
  imports Mux_Engine_Run
begin

text \<open>
  Flow control between the two ends of a connection. Each end runs its own engine; what they exchange
  on one stream while it is open travels in order (\<^verbatim>\<open>Pump.SendData\<close>, \<^verbatim>\<open>Pump.Take\<close>,
  \<^verbatim>\<open>Pump.returnCredit\<close>, \<^verbatim>\<open>applyData\<close>, \<^verbatim>\<open>applyWindowUpdate\<close> of
  \<^verbatim>\<open>internal/adapters/daemonmux/pump.go\<close>). All other streams run arbitrarily beside it.
\<close>

section \<open>Two ends and one stream\<close>

datatype flowMsg = FData "byte list" | FWindow nat

record flow =
  eng :: "bool \<Rightarrow> StreamEngine"
  wire :: "bool \<Rightarrow> flowMsg list"

definition setEnd :: "bool \<Rightarrow> StreamEngine \<Rightarrow> flow \<Rightarrow> flow" where
  "setEnd d e S = S\<lparr>eng := (eng S)(d := e)\<rparr>"

definition postMsg :: "bool \<Rightarrow> flowMsg \<Rightarrow> flow \<Rightarrow> flow" where
  "postMsg d m S = S\<lparr>wire := (wire S)(d := wire S d @ [m])\<rparr>"

definition receive :: "bool \<Rightarrow> flowMsg list \<Rightarrow> flow \<Rightarrow> flow" where
  "receive d ms S = S\<lparr>wire := (wire S)(d := ms)\<rparr>"

text \<open>\<^verbatim>\<open>Pump.applyData\<close> and \<^verbatim>\<open>applyWindowUpdate\<close>: the engine's answer to one message.\<close>

fun applyMsg :: "nat \<Rightarrow> flowMsg \<Rightarrow> StreamEngine \<Rightarrow> (muxError + StreamDisposition) \<times> StreamEngine" where
  "applyMsg i (FData chunk) e = Data i chunk e"
| "applyMsg i (FWindow g) e = WindowUpdate i g e"

inductive flow_step :: "MuxCeilings \<Rightarrow> nat \<Rightarrow> flow \<Rightarrow> flow \<Rightarrow> bool" for c i S where
  flow_send: "flow_step c i S (postMsg d (FData chunk) (setEnd d e S))"
    if "length chunk \<le> StreamChunkLimit c" "reserveSend i (length chunk) (eng S d) = (Reserved, e)"
| flow_refund: "flow_step c i S (setEnd d (refundSend i n e) S)"
    if "reserveSend i n (eng S d) = (Reserved, e)"
| flow_deliver: "flow_step c i S (receive (\<not> d) ms (setEnd d (snd (applyMsg i m (eng S d))) S))"
    if "wire S (\<not> d) = m # ms"
| flow_take: "flow_step c i S (setEnd d (snd (takeChunk i (eng S d))) S)"
| flow_grant: "flow_step c i S (postMsg d (FWindow g) (setEnd d e S))"
    if "takeReturn i (eng S d) = (g, e)" "g \<noteq> 0"
| flow_other: "flow_step c i S (setEnd d (applyEvent ev (eng S d)) S)"
    if "eventStream ev = Some j" "j \<noteq> i"

fun msgCost :: "flowMsg \<Rightarrow> nat" where
  "msgCost (FData chunk) = chunkCredit (length chunk)" | "msgCost (FWindow g) = 0"

fun msgGrant :: "flowMsg \<Rightarrow> nat" where
  "msgGrant (FData chunk) = 0" | "msgGrant (FWindow g) = g"

definition inFlight :: "flowMsg list \<Rightarrow> nat" where "inFlight ms = sum_list (map msgCost ms)"
definition granted :: "flowMsg list \<Rightarrow> nat" where "granted ms = sum_list (map msgGrant ms)"

lemma wire_simps [simp]:
  "inFlight [] = 0" "inFlight (m # ms) = msgCost m + inFlight ms" "inFlight (ms @ ns) = inFlight ms + inFlight ns"
  "granted [] = 0" "granted (m # ms) = msgGrant m + granted ms" "granted (ms @ ns) = granted ms + granted ns"
  by (simp_all add: inFlight_def granted_def)

abbreviation rec :: "StreamEngine \<Rightarrow> nat \<Rightarrow> muxStream" where
  "rec e i \<equiv> the (streams e i)"

definition opened_end :: "MuxCeilings \<Rightarrow> nat \<Rightarrow> StreamEngine \<Rightarrow> bool" where
  "opened_end c i e = (engine_inv c e \<and> (\<exists>s. streams e i = Some s \<and> state s = StreamOpen))"

definition chunks_fit :: "MuxCeilings \<Rightarrow> flowMsg list \<Rightarrow> bool" where
  "chunks_fit c ms = list_all (\<lambda>m. case m of FData chunk \<Rightarrow> length chunk \<le> StreamChunkLimit c | FWindow g \<Rightarrow> True) ms"

text \<open>The credit of one direction is the window, wherever it currently is.\<close>

definition conserved :: "MuxCeilings \<Rightarrow> nat \<Rightarrow> flow \<Rightarrow> bool \<Rightarrow> bool" where
  "conserved c i S d = (sendCredit (rec (eng S d) i) + inFlight (wire S d) + recvUsed (rec (eng S (\<not> d)) i) +
     granted (wire S (\<not> d)) = StreamWindow c)"

definition flow_inv :: "MuxCeilings \<Rightarrow> nat \<Rightarrow> flow \<Rightarrow> bool" where
  "flow_inv c i S = (\<forall>d. opened_end c i (eng S d) \<and> chunks_fit c (wire S d) \<and> conserved c i S d)"

text \<open>The stream has just been confirmed at both ends.\<close>

definition flow_start :: "MuxCeilings \<Rightarrow> nat \<Rightarrow> flow \<Rightarrow> bool" where
  "flow_start c i S = (\<forall>d. wire S d = [] \<and> engine_inv c (eng S d) \<and>
     (\<exists>s. streams (eng S d) i = Some s \<and> state s = StreamOpen \<and> sendCredit s = StreamWindow c \<and> recvUsed s = 0))"

lemma start_inv: "flow_start c i S \<Longrightarrow> flow_inv c i S"
  unfolding flow_start_def flow_inv_def conserved_def opened_end_def chunks_fit_def
  by (intro allI) (metis (no_types, lifting) add.right_neutral list.pred_inject(1) option.sel wire_simps(1,4))

section \<open>Each step\<close>

lemma openD:
  assumes "opened_end c i e"
  obtains s where "streams e i = Some s" "state s = StreamOpen" "engine_ok c e" "rec e i = s"
    "recvUsed s = queueCredit (queue s) + recvReturn s" "recvUsed s \<le> StreamWindow c" "sendCredit s \<le> StreamWindow c"
    "StreamWindow c \<le> 4194304" "Physical (ref s) = i" "queuedBytes s = queueLen (queue s)" "0 < i"
  using assms ok_rec engine_okD(3) by (force simp: opened_end_def engine_inv_def)

lemma reserve_effect:
  assumes "opened_end c i e" "reserveSend i n e = (Reserved, e')"
  shows "chunkCredit n \<le> sendCredit (rec e i) \<and> streams e' i = Some ((rec e i)\<lparr>sendCredit := sendCredit (rec e i) - chunkCredit n\<rparr>)"
  using assms(2) by (rule_tac openD [OF assms(1)]) (auto simp: reserveSend_def Let_def sub64_exact split: if_splits)

lemma refund_effect:
  assumes "streams e i = Some s" "state s = StreamOpen" "sendCredit s + chunkCredit n \<le> window e" "window e \<le> 4194304"
  shows "\<exists>w. streams (refundSend i n e) i = Some (s\<lparr>sendCredit := sendCredit s + chunkCredit n, creditWake := w\<rparr>)"
  using assms by (auto simp: refundSend_def add64_exact wakeCreditLocked_def)

lemma window_effect:
  assumes "opened_end c i e" "sendCredit (rec e i) + g \<le> StreamWindow c"
  shows "\<exists>w. fst (WindowUpdate i g e) = Inr StreamAccepted \<and>
    streams (snd (WindowUpdate i g e)) i = Some ((rec e i)\<lparr>sendCredit := sendCredit (rec e i) + g, creditWake := w\<rparr>)"
proof -
  obtain s where s: "streams e i = Some s" "state s = StreamOpen" "engine_ok c e" "rec e i = s"
    "sendCredit s \<le> StreamWindow c" "StreamWindow c \<le> 4194304" "Physical (ref s) = i" "0 < i"
    using openD [OF assms(1)] by metis
  then have "sub64 (window e) (sendCredit s) = StreamWindow c - sendCredit s" "add64 (sendCredit s) g = sendCredit s + g"
    using assms(2) by (auto simp: engine_okD(7) sub64_exact intro!: add64_exact)
  then show ?thesis using s assms(2)
    by (auto simp: WindowUpdate_def lookupLocked_def ValidatePhysical_def putStream_def wakeCreditLocked_def not_less)
qed

lemma grant_effect:
  assumes "opened_end c i e" "takeReturn i e = (g, e')" "g \<noteq> 0"
  shows "g = recvReturn (rec e i) \<and> streams e' i = Some ((rec e i)\<lparr>recvReturn := 0, recvUsed := recvUsed (rec e i) - g\<rparr>)"
  using assms(2,3) by (rule_tac openD [OF assms(1)]) (auto simp: takeReturn_def Let_def sub64_exact split: if_splits)

lemma take_effect:
  assumes "opened_end c i e"
  shows "\<exists>t. streams (snd (takeChunk i e)) i = Some t \<and> state t = StreamOpen \<and> sendCredit t = sendCredit (rec e i) \<and>
    recvUsed t = recvUsed (rec e i)"
  by (rule openD [OF assms]) (auto simp: takeChunk_def putStream_def Let_def split: list.splits)

text \<open>
  The aggregate check of \<open>Data\<close> is implied by the windows: no stream holds more than its window, and
  the negotiated windows fit the budget.
\<close>

lemma aggregate_fits:
  assumes "engine_ok c e" "streams e i = Some s" "state s = StreamOpen" "recvUsed s + chunkCredit n \<le> StreamWindow c"
    and fit: "MaxStreams c * StreamWindow c \<le> MaxAggregateBytes c"
  shows "aggregate e + int n \<le> int (MaxAggregateBytes c)"
proof -
  note D = engine_okD [OF assms(1)]
  let ?s = "s\<lparr>queuedBytes := queuedBytes s + int n\<rparr>" and ?W = "int (StreamWindow c)"
  let ?m = "(streams e)(i \<mapsto> ?s)"
  have bound: "queuedBytes t \<le> ?W * liveOne t" if "streams e k = Some t" for k t
  proof (cases "state t = StreamTerminal")
    case True
    then show ?thesis using D(3) [OF that] by (simp add: stream_ok_def)
  next
    case False
    then show ?thesis using ok_rec [OF assms(1) that] queueLen_le [of "queue t"] by simp
  qed
  have "queuedBytes ?s \<le> ?W * liveOne ?s"
    using ok_rec [OF assms(1,2)] queueLen_le [of "queue s"] assms(3,4) by (simp add: chunkCredit_def)
  then have "queuedBytes t \<le> ?W * liveOne t" if "?m k = Some t" for k t
    using bound [of k t] that by (cases "k = i") auto
  then have "table_sum queuedBytes ?m \<le> table_sum (\<lambda>t. ?W * liveOne t) ?m"
    using D(2) by (intro table_sum_bound) simp_all
  also have "\<dots> = ?W * live e" using D(2,4) assms(2,3) by (simp add: table_sum_scale table_sum_upd)
  also have "\<dots> \<le> ?W * int (MaxStreams c)" using assms(1) by (intro mult_left_mono) (auto simp: engine_ok_def)
  also have "\<dots> \<le> int (MaxAggregateBytes c)" using fit by (metis mult.commute of_nat_le_iff of_nat_mult)
  also have "table_sum queuedBytes ?m = aggregate e + int n" using D(2,5) assms(2) by (simp add: table_sum_upd)
  finally show ?thesis .
qed

lemma data_effect:
  assumes "opened_end c i e" "recvUsed (rec e i) + chunkCredit (length chunk) \<le> StreamWindow c"
    "length chunk \<le> StreamChunkLimit c" "MaxStreams c * StreamWindow c \<le> MaxAggregateBytes c"
  shows "fst (Data i chunk e) = Inr StreamAccepted \<and>
    (\<exists>t. streams (snd (Data i chunk e)) i = Some t \<and> state t = StreamOpen \<and> sendCredit t = sendCredit (rec e i) \<and>
      recvUsed t = recvUsed (rec e i) + chunkCredit (length chunk) \<and> queue t = queue (rec e i) @ [chunk])"
proof -
  obtain s where s: "streams e i = Some s" "state s = StreamOpen" "engine_ok c e" "rec e i = s"
    "StreamWindow c \<le> 4194304" "Physical (ref s) = i" "0 < i" using openD [OF assms(1)] by metis
  have "add64 (recvUsed s) (chunkCredit (length chunk)) = recvUsed s + chunkCredit (length chunk)"
    using assms(2) s by (intro add64_exact) simp
  moreover have "aggregate e + int (length chunk) \<le> maxAggregateBytes e"
    using aggregate_fits [OF s(3,1,2) _ assms(4)] assms(2) s by (simp add: engine_ok_def)
  ultimately have "\<not> queueOverflowsLocked s (length chunk) e"
    using assms(2) s by (simp add: queueOverflowsLocked_def engine_okD(7))
  then show ?thesis using s assms(2,3) engine_okD(8) [OF s(3)] \<open>add64 _ _ = _\<close>
    by (simp add: Data_def lookupLocked_def ValidatePhysical_def enqueueLocked_def putStream_def Let_def)
qed

lemma other_effect:
  assumes "opened_end c i e" "eventStream ev = Some j" "j \<noteq> i"
  shows "streams (applyEvent ev e) i = streams e i"
  using assms step_others [OF _ assms(2), of c e] by (fastforce simp: opened_end_def others_kept_def)

lemma opened_keep: "engine_inv c e \<Longrightarrow> streams e i \<noteq> None \<Longrightarrow> state (rec e i) = StreamOpen \<Longrightarrow> opened_end c i e"
  by (auto simp: opened_end_def)

section \<open>Conservation\<close>

lemma flow_update:
  assumes inv: "flow_inv c i S" and e: "opened_end c i e" "eng S' = (eng S)(d := e)"
    and fit: "chunks_fit c (wire S' d)" "chunks_fit c (wire S' (\<not> d))"
    and out: "sendCredit (rec e i) + inFlight (wire S' d) + granted (wire S' (\<not> d)) =
      sendCredit (rec (eng S d) i) + inFlight (wire S d) + granted (wire S (\<not> d))"
    and inn: "recvUsed (rec e i) + inFlight (wire S' (\<not> d)) + granted (wire S' d) =
      recvUsed (rec (eng S d) i) + inFlight (wire S (\<not> d)) + granted (wire S d)"
  shows "flow_inv c i S'"
proof -
  have "conserved c i S d" "conserved c i S (\<not> d)" "opened_end c i (eng S (\<not> d))" using inv by (simp_all add: flow_inv_def)
  then have "conserved c i S' d" "conserved c i S' (\<not> d)" "opened_end c i (eng S' d)" "opened_end c i (eng S' (\<not> d))"
    using out inn e by (auto simp: conserved_def)
  then show ?thesis using fit unfolding flow_inv_def all_bool_eq by (cases d) simp_all
qed

lemma sendable:
  assumes "flow_inv c i S"
  shows "sendCredit (rec (eng S d) i) + inFlight (wire S d) + recvUsed (rec (eng S (\<not> d)) i) + granted (wire S (\<not> d)) = StreamWindow c"
    "recvUsed (rec (eng S d) i) + inFlight (wire S (\<not> d)) + sendCredit (rec (eng S (\<not> d)) i) + granted (wire S d) = StreamWindow c"
    "opened_end c i (eng S d)" "engine_inv c (eng S d)" "engine_ok c (eng S d)" "closing_ok (eng S d)"
    "chunks_fit c (wire S d)" "chunks_fit c (wire S (\<not> d))"
proof -
  have "conserved c i S (\<not> d)" "conserved c i S d" using assms by (simp_all add: flow_inv_def)
  then show "recvUsed (rec (eng S d) i) + inFlight (wire S (\<not> d)) + sendCredit (rec (eng S (\<not> d)) i) + granted (wire S d) = StreamWindow c"
    "sendCredit (rec (eng S d) i) + inFlight (wire S d) + recvUsed (rec (eng S (\<not> d)) i) + granted (wire S (\<not> d)) = StreamWindow c"
    by (simp_all add: conserved_def)
qed (use assms in \<open>auto simp: flow_inv_def opened_end_def engine_inv_def\<close>)

text \<open>A message in flight is always accepted.\<close>

lemma deliver_effect:
  assumes "flow_inv c i S" "wire S (\<not> d) = m # ms" "MaxStreams c * StreamWindow c \<le> MaxAggregateBytes c"
  shows "fst (applyMsg i m (eng S d)) = Inr StreamAccepted \<and>
    (\<exists>t. streams (snd (applyMsg i m (eng S d))) i = Some t \<and> state t = StreamOpen \<and>
      sendCredit t = sendCredit (rec (eng S d) i) + msgGrant m \<and> recvUsed t = recvUsed (rec (eng S d) i) + msgCost m)"
proof (cases m)
  case (FData chunk)
  then show ?thesis
    using data_effect [OF sendable(3) [OF assms(1)], of d chunk] sendable(2,8) [OF assms(1), of d] assms(2,3)
    by (auto simp: chunks_fit_def)
next
  case (FWindow g)
  obtain s where "streams (eng S d) i = Some s" "state s = StreamOpen" using sendable(3) [OF assms(1), of d] openD by metis
  then show ?thesis using FWindow window_effect [OF sendable(3) [OF assms(1)], of d g] sendable(1) [OF assms(1), of d] assms(2)
    by auto
qed

lemma step_keeps:
  assumes inv: "flow_inv c i S" and fit: "MaxStreams c * StreamWindow c \<le> MaxAggregateBytes c" and step: "flow_step c i S S'"
  shows "flow_inv c i S'"
  using step
proof (cases rule: flow_step.cases)
  case (flow_send chunk d e)
  note I = sendable [OF inv, of d]
  note r = reserve_effect [OF I(3) flow_send(3)]
  obtain s where s: "rec (eng S d) i = s" "state s = StreamOpen" using openD [OF I(3)] by metis
  have "engine_inv c e" using upd_keeps [OF reserve_upd [OF I(5)] I(4)] flow_send(3) by (metis snd_conv)
  then have "opened_end c i e" using r s by (intro opened_keep) auto
  then show ?thesis using I r flow_send(1,2)
    by (intro flow_update [OF inv, of e _ d]) (auto simp: postMsg_def setEnd_def chunks_fit_def)
next
  case (flow_refund n d e)
  note I = sendable [OF inv, of d]
  note r = reserve_effect [OF I(3) flow_refund(2)]
  obtain s where s: "rec (eng S d) i = s" "state s = StreamOpen" "sendCredit s \<le> StreamWindow c" "StreamWindow c \<le> 4194304"
    using openD [OF I(3)] by metis
  have e: "engine_inv c e" using upd_keeps [OF reserve_upd [OF I(5)] I(4)] flow_refund(2) by (metis snd_conv)
  then have ok: "engine_ok c e" "closing_ok e" by (simp_all add: engine_inv_def)
  obtain w where w: "streams (refundSend i n e) i = Some (s\<lparr>sendCredit := sendCredit s, creditWake := w\<rparr>)"
    using refund_effect [of e i "s\<lparr>sendCredit := sendCredit s - chunkCredit n\<rparr>" n] r s engine_okD(7) [OF ok(1)] by auto
  have "engine_inv c (refundSend i n e)" using upd_keeps [OF refund_upd [OF ok] e] by simp
  then have "opened_end c i (refundSend i n e)" using w s by (intro opened_keep) auto
  then show ?thesis using I w s flow_refund(1)
    by (intro flow_update [OF inv, of "refundSend i n e" _ d]) (auto simp: setEnd_def)
next
  case (flow_deliver d m ms)
  note I = sendable [OF inv, of d]
  obtain t where t: "streams (snd (applyMsg i m (eng S d))) i = Some t" "state t = StreamOpen"
    "sendCredit t = sendCredit (rec (eng S d) i) + msgGrant m" "recvUsed t = recvUsed (rec (eng S d) i) + msgCost m"
    using deliver_effect [OF inv flow_deliver(2) fit] by blast
  have "engine_inv c (snd (applyMsg i m (eng S d)))"
    using upd_keeps [OF Data_upd [OF I(5)] I(4)] upd_keeps [OF WindowUpdate_upd [OF I(5,6)] I(4)] by (cases m) auto
  then have "opened_end c i (snd (applyMsg i m (eng S d)))" using t by (intro opened_keep) auto
  then show ?thesis using I t flow_deliver
    by (intro flow_update [OF inv, of "snd (applyMsg i m (eng S d))" _ d]) (auto simp: setEnd_def receive_def chunks_fit_def)
next
  case (flow_take d)
  note I = sendable [OF inv, of d]
  obtain t where t: "streams (snd (takeChunk i (eng S d))) i = Some t" "state t = StreamOpen"
    "sendCredit t = sendCredit (rec (eng S d) i)" "recvUsed t = recvUsed (rec (eng S d) i)"
    using take_effect [OF I(3)] by blast
  have "engine_inv c (snd (takeChunk i (eng S d)))" using upd_keeps [OF takeChunk_upd [OF I(5)] I(4)] by simp
  then have "opened_end c i (snd (takeChunk i (eng S d)))" using t by (intro opened_keep) auto
  then show ?thesis using I t flow_take
    by (intro flow_update [OF inv, of "snd (takeChunk i (eng S d))" _ d]) (auto simp: setEnd_def)
next
  case (flow_grant d g e)
  note I = sendable [OF inv, of d]
  note r = grant_effect [OF I(3) flow_grant(2,3)]
  obtain s where s: "rec (eng S d) i = s" "state s = StreamOpen" "recvUsed s = queueCredit (queue s) + recvReturn s"
    using openD [OF I(3)] by metis
  have "engine_inv c e" using upd_keeps [OF takeReturn_upd [OF I(5)] I(4)] flow_grant(2) by (metis snd_conv)
  then have "opened_end c i e" using r s by (intro opened_keep) auto
  then show ?thesis using I r s flow_grant(1)
    by (intro flow_update [OF inv, of e _ d]) (auto simp: postMsg_def setEnd_def chunks_fit_def)
next
  case (flow_other ev j d)
  note I = sendable [OF inv, of d]
  have o: "streams (applyEvent ev (eng S d)) i = streams (eng S d) i" using other_effect [OF I(3) flow_other(2,3)] .
  obtain s where s: "streams (eng S d) i = Some s" "state s = StreamOpen" using openD [OF I(3)] by metis
  have "event_ok ev (eng S d)" using flow_other(2) by (cases ev) auto
  then have "engine_inv c (applyEvent ev (eng S d))" using step_inv [OF I(4)] by blast
  then have "opened_end c i (applyEvent ev (eng S d))" using o s by (intro opened_keep) auto
  then show ?thesis using I o flow_other(1)
    by (intro flow_update [OF inv, of "applyEvent ev (eng S d)" _ d]) (auto simp: setEnd_def)
qed

section \<open>Progress\<close>

text \<open>
  The steps that need no new data: the network delivers, the consumer takes, the receiver grants.
\<close>

inductive drain_step :: "nat \<Rightarrow> flow \<Rightarrow> flow \<Rightarrow> bool" for i S where
  drain_deliver: "drain_step i S (receive (\<not> d) ms (setEnd d (snd (applyMsg i m (eng S d))) S))" if "wire S (\<not> d) = m # ms"
| drain_take: "drain_step i S (setEnd d (snd (takeChunk i (eng S d))) S)" if "queue (rec (eng S d) i) \<noteq> []"
| drain_grant: "drain_step i S (postMsg d (FWindow g) (setEnd d e S))" if "takeReturn i (eng S d) = (g, e)" "g \<noteq> 0"

lemma drain_flow: "drain_step i S S' \<Longrightarrow> flow_step c i S S'"
  by (auto elim!: drain_step.cases intro: flow_step.intros)

definition heldCredit :: "StreamEngine \<Rightarrow> nat \<Rightarrow> nat" where
  "heldCredit e i = 6 * queueCredit (queue (rec e i)) + 4 * recvReturn (rec e i)"

definition wireCredit :: "flowMsg list \<Rightarrow> nat" where
  "wireCredit ms = 8 * inFlight ms + 2 * granted ms + length ms"

definition backlog :: "nat \<Rightarrow> flow \<Rightarrow> nat" where
  "backlog i S = heldCredit (eng S True) i + heldCredit (eng S False) i + wireCredit (wire S True) + wireCredit (wire S False)"

lemma backlog_at: "backlog i S = heldCredit (eng S d) i + heldCredit (eng S (\<not> d)) i + wireCredit (wire S d) + wireCredit (wire S (\<not> d))"
  by (cases d) (simp_all add: backlog_def)

lemma deliver_held:
  assumes "flow_inv c i S" "wire S (\<not> d) = m # ms" "MaxStreams c * StreamWindow c \<le> MaxAggregateBytes c"
  shows "heldCredit (snd (applyMsg i m (eng S d))) i = heldCredit (eng S d) i + 6 * msgCost m"
proof -
  note I = sendable [OF assms(1), of d]
  obtain s where s: "streams (eng S d) i = Some s" "state s = StreamOpen" "Physical (ref s) = i" "0 < i" using openD [OF I(3)] by metis
  show ?thesis
  proof (cases m)
    case (FData chunk)
    then have acc: "fst (Data i chunk (eng S d)) = Inr StreamAccepted" using deliver_effect [OF assms] by simp
    then show ?thesis using FData s
      by (auto simp: Data_def lookupLocked_def enqueueLocked_def putStream_def heldCredit_def Let_def split: if_splits)
  next
    case (FWindow g)
    then show ?thesis using s
      by (auto simp: WindowUpdate_def lookupLocked_def putStream_def wakeCreditLocked_def heldCredit_def ValidatePhysical_def)
  qed
qed

lemma drain_decreases:
  assumes inv: "flow_inv c i S" and fit: "MaxStreams c * StreamWindow c \<le> MaxAggregateBytes c" and step: "drain_step i S S'"
  shows "backlog i S' < backlog i S"
  using step
proof (cases rule: drain_step.cases)
  case (drain_deliver d m ms)
  show ?thesis unfolding backlog_at [of i _ d] using deliver_held [OF inv drain_deliver(2) fit] drain_deliver
    by (cases m) (auto simp: setEnd_def receive_def wireCredit_def)
next
  case (drain_take d)
  note I = sendable [OF inv, of d]
  obtain s where s: "streams (eng S d) i = Some s" "state s = StreamOpen" "Physical (ref s) = i"
    "recvUsed s = queueCredit (queue s) + recvReturn s" "recvUsed s \<le> StreamWindow c" "StreamWindow c \<le> 4194304"
    using openD [OF I(3)] by metis
  obtain chunk q where q: "queue s = chunk # q" using drain_take(2) s(1) by (cases "queue s") auto
  have "add64 (recvReturn s) (chunkCredit (length chunk)) = recvReturn s + chunkCredit (length chunk)"
    using s q by (intro add64_exact) simp
  then have "heldCredit (snd (takeChunk i (eng S d))) i < heldCredit (eng S d) i"
    using s q by (simp add: takeChunk_def putStream_def heldCredit_def chunkCredit_def mux_consts Let_def)
  then show ?thesis unfolding backlog_at [of i _ d] using drain_take(1) by (simp add: setEnd_def)
next
  case (drain_grant d g e)
  note I = sendable [OF inv, of d]
  note r = grant_effect [OF I(3) drain_grant(2,3)]
  then have "heldCredit e i + 4 * g = heldCredit (eng S d) i" by (simp add: heldCredit_def)
  then show ?thesis unfolding backlog_at [of i _ d] using drain_grant by (simp add: postMsg_def setEnd_def wireCredit_def)
qed

lemma drains_bounded:
  assumes fit: "MaxStreams c * StreamWindow c \<le> MaxAggregateBytes c"
  shows "(drain_step i ^^ n) S S' \<Longrightarrow> flow_inv c i S \<Longrightarrow> n + backlog i S' \<le> backlog i S \<and> flow_inv c i S'"
proof (induction n arbitrary: S')
  case 0
  then show ?case by simp
next
  case (Suc n)
  then obtain T where T: "(drain_step i ^^ n) S T" "drain_step i T S'" by auto
  have IH: "n + backlog i T \<le> backlog i S" "flow_inv c i T" using Suc.IH [OF T(1) Suc.prems(2)] by simp_all
  then show ?case using drain_decreases [OF IH(2) fit T(2)] step_keeps [OF IH(2) fit drain_flow [OF T(2)]] by simp
qed

text \<open>Where nothing can drain, all of the window is back at the sender but less than the grant threshold.\<close>

lemma drained_credit:
  assumes inv: "flow_inv c i S" and stuck: "\<And>S'. \<not> drain_step i S S'" and n: "n \<le> StreamChunkLimit c"
  shows "fst (reserveSend i n (eng S d)) = Reserved"
proof -
  note I = sendable [OF inv, of d] and J = sendable [OF inv, of "\<not> d"]
  have w: "wire S b = []" for b
    using stuck drain_deliver [where d = "\<not> b" and S = S and i = i] by (cases "wire S b") auto
  obtain s where s: "streams (eng S d) i = Some s" "state s = StreamOpen" using openD [OF I(3)] by metis
  obtain t where t: "streams (eng S (\<not> d)) i = Some t" "state t = StreamOpen" "recvUsed t = queueCredit (queue t) + recvReturn t"
    "engine_ok c (eng S (\<not> d))" using openD [OF J(3)] by metis
  have q: "queue t = []" using stuck drain_take [where d = "\<not> d" and S = S and i = i] t(1) by auto
  have valid: "ValidateCeilings c" using engine_okD(1) [OF t(4)] .
  have ret: "recvReturn t < creditReturnThreshold c"
  proof (rule ccontr)
    assume "\<not> ?thesis"
    then have "fst (takeReturn i (eng S (\<not> d))) = recvReturn t" "recvReturn t \<noteq> 0"
      using t(1,2) engine_okD(9) [OF t(4)] by (auto simp: takeReturn_def Let_def creditReturnThreshold_def)
    then show False using stuck drain_grant [where d = "\<not> d" and S = S and i = i] by (metis prod.collapse)
  qed
  have sum: "sendCredit s + recvReturn t = StreamWindow c" using I(1) w s(1) t(1,3) q by simp
  have "chunkCredit n \<le> sendCredit s"
  proof (rule ccontr)
    assume "\<not> ?thesis"
    then have "creditReturnThreshold c \<le> StreamWindow c - sendCredit s" using threshold_reached [OF valid n] by simp
    then show False using ret sum by simp
  qed
  then show ?thesis using s by (simp add: reserveSend_def Let_def)
qed

lemma run_flow_inv:
  assumes "(flow_step c i)\<^sup>*\<^sup>* S0 S" "flow_start c i S0" "MaxStreams c * StreamWindow c \<le> MaxAggregateBytes c"
  shows "flow_inv c i S"
  using assms(1) by (induction rule: rtranclp_induct) (auto intro: start_inv [OF assms(2)] step_keeps [OF _ assms(3)])

section \<open>Properties\<close>

text \<open>
  C2. Two ends that negotiated their ceilings never overrun each other. While a stream is open, its
  credit in each direction is conserved: what the sender may still spend, what is in flight, what the
  receiver holds and what it has granted back add up to the window. So every message in flight is
  accepted (neither the window check, the aggregate check nor the credit check ever fires) and the
  stream stays open at both ends, whatever the other streams do.
\<close>

theorem flow_never_overruns:
  assumes "ValidateCeilings a" "ValidateCeilings b" "c = EffectiveMuxCeilings a b"
    and "flow_start c i S0" "(flow_step c i)\<^sup>*\<^sup>* S0 S"
  shows "sendCredit (rec (eng S d) i) + inFlight (wire S d) + recvUsed (rec (eng S (\<not> d)) i) + granted (wire S (\<not> d)) = StreamWindow c \<and>
    (\<forall>m ms. wire S (\<not> d) = m # ms \<longrightarrow> fst (applyMsg i m (eng S d)) = Inr StreamAccepted) \<and>
    (\<exists>s. streams (eng S d) i = Some s \<and> state s = StreamOpen)"
proof -
  note fit = effective_windows_fit [OF assms(1-3)]
  have inv: "flow_inv c i S" using run_flow_inv [OF assms(5,4) fit] .
  then show ?thesis using sendable(1,3) [OF inv, of d] deliver_effect [OF inv _ fit] by (auto simp: opened_end_def)
qed

text \<open>
  C8. A sender that waits for credit is never stuck: from any state of an open stream the network, the
  consumer and the receiver can only take finitely many steps, and when they have none left, either
  end can reserve the credit of any legal chunk at once.
\<close>

theorem blocked_sender_resumes:
  assumes "ValidateCeilings a" "ValidateCeilings b" "c = EffectiveMuxCeilings a b"
    and "flow_start c i S0" "(flow_step c i)\<^sup>*\<^sup>* S0 S" "(drain_step i ^^ n) S S'"
  shows "n \<le> backlog i S \<and>
    ((\<forall>T. \<not> drain_step i S' T) \<longrightarrow> (\<forall>k \<le> StreamChunkLimit c. fst (reserveSend i k (eng S' d)) = Reserved))"
proof -
  note fit = effective_windows_fit [OF assms(1-3)]
  have inv: "flow_inv c i S" using run_flow_inv [OF assms(5,4) fit] .
  have "n + backlog i S' \<le> backlog i S" "flow_inv c i S'" using drains_bounded [OF fit assms(6) inv] by simp_all
  then show ?thesis using drained_credit by auto
qed

definition demoFlow :: flow where
  "demoFlow = \<lparr>eng = (\<lambda>_. demoEngine), wire = (\<lambda>_. [])\<rparr>"

lemma demo_start: "flow_start (EffectiveMuxCeilings DefaultMuxCeilings DefaultMuxCeilings) 1 demoFlow"
proof -
  have eff: "EffectiveMuxCeilings DefaultMuxCeilings DefaultMuxCeilings = DefaultMuxCeilings"
    by (simp add: EffectiveMuxCeilings_def DefaultMuxCeilings_def chunkCredit_def mux_consts Let_def)
  show ?thesis unfolding eff using run_inv [OF demo_run] by (simp add: flow_start_def demoFlow_def demo_eq newMuxStream_def)
qed

lemma demo_sent:
  "\<exists>e. flow_step (EffectiveMuxCeilings DefaultMuxCeilings DefaultMuxCeilings) 1 demoFlow (postMsg True (FData [7, 8]) (setEnd True e demoFlow))"
proof -
  have "fst (reserveSend 1 (length [7, 8 :: byte]) demoEngine) = Reserved"
    by (simp add: demo_eq reserveSend_def newMuxStream_def chunkCredit_def StreamWindow_def DefaultMuxCeilings_def mux_consts Let_def)
  then obtain e where "reserveSend 1 (length [7, 8 :: byte]) (eng demoFlow True) = (Reserved, e)"
    unfolding demoFlow_def by (metis flow.select_convs(1) prod.collapse)
  then show ?thesis
    by (intro exI [of _ e] flow_send) (simp_all add: EffectiveMuxCeilings_def DefaultMuxCeilings_def mux_consts Let_def)
qed

theorem flow_never_overruns_witness:
  "\<exists>S :: flow. wire S True = [FData [7, 8]] \<and> fst (applyMsg 1 (FData [7, 8]) (eng S False)) = Inr StreamAccepted"
proof -
  obtain e where e: "flow_step (EffectiveMuxCeilings DefaultMuxCeilings DefaultMuxCeilings) 1 demoFlow
      (postMsg True (FData [7, 8]) (setEnd True e demoFlow))" using demo_sent by blast
  let ?S = "postMsg True (FData [7, 8]) (setEnd True e demoFlow)"
  have w: "wire ?S (\<not> False) = FData [7, 8] # []" by (simp add: postMsg_def setEnd_def demoFlow_def)
  have "\<forall>m ms. wire ?S (\<not> False) = m # ms \<longrightarrow> fst (applyMsg 1 m (eng ?S False)) = Inr StreamAccepted"
    using flow_never_overruns [OF default_valid default_valid refl demo_start r_into_rtranclp [of "flow_step _ _", OF e], of False]
    by blast
  then have "fst (applyMsg 1 (FData [7, 8]) (eng ?S False)) = Inr StreamAccepted" using w by blast
  then show ?thesis using w by (intro exI [of _ ?S]) simp
qed

theorem blocked_sender_resumes_witness:
  "(\<forall>T. \<not> drain_step 1 demoFlow T) \<and> fst (reserveSend 1 65536 (eng demoFlow True)) = Reserved"
proof -
  have no: "\<forall>T. \<not> drain_step 1 demoFlow T"
    by (auto simp: demoFlow_def demo_eq newMuxStream_def takeReturn_def Let_def newStreamEngine_def elim!: drain_step.cases split: if_splits)
  have "65536 \<le> StreamChunkLimit (EffectiveMuxCeilings DefaultMuxCeilings DefaultMuxCeilings)"
    by (simp add: EffectiveMuxCeilings_def DefaultMuxCeilings_def mux_consts Let_def)
  then show ?thesis
    using no blocked_sender_resumes [OF default_valid default_valid refl demo_start rtranclp.rtrancl_refl, of 0 demoFlow True] by simp
qed

end
