(* ===== verification/Mux_Scheduler.thy ===== *)
theory Mux_Scheduler
  imports Mux_Engine Table_Sum
begin

text \<open>
  The outbound fair scheduler: \<^verbatim>\<open>internal/adapters/daemonmux/scheduler.go\<close>. The active ring and the list
  of retired records hold identities where the code holds pointers: a record stays in the table as long as
  either list has it. A frame is its encoded bytes with the facts scheduling reads; the typed message beside
  them is only handed through. The engine the scheduler asks for admission is an argument, as the
  code reads it through its own lock at each call; \<open>None\<close> is a scheduler without a gate. A round of
  the deficit loop that serves nothing is followed by another one, so \<open>serveDRRLocked\<close> is partial; that
  it returns is a theorem.
\<close>

section \<open>Records\<close>

datatype FrameClass = FrameData | FrameControl

datatype EnvelopeDirection = DirectionClient | DirectionServer

record schedFrame =
  frDirection :: EnvelopeDirection
  frClass :: FrameClass
  frBytes :: "byte list"
  frSeals :: bool

record schedStream =
  schQueue :: "schedFrame list"
  schBytes :: int
  schDeficit :: int
  schSealed :: bool
  schOverflowed :: bool
  schActive :: bool
  schRetired :: bool

record Scheduler =
  sdStreams :: "nat \<rightharpoonup> schedStream"
  sdActive :: "nat list"
  sdRetired :: "nat list"
  sdAggregate :: int
  sdControlBurst :: int
  sdMaxEnvelopeBytes :: nat
  sdMaxAggregateBytes :: int
  sdQuantum :: int

datatype schedError = ErrSchedulerUnadmitted | ErrSchedulerSettled | ErrSchedulerFull | ErrSchedInvalidStream

definition SchedulerQuantum :: int where "SchedulerQuantum = int MaxMuxChunkBytes"
definition MaxRetiredSchedulerRecords :: nat where "MaxRetiredSchedulerRecords = 128"
definition MaxMuxSchedulerControlBurst :: int where "MaxMuxSchedulerControlBurst = 4"

definition newScheduler :: "MuxCeilings \<Rightarrow> Scheduler" where
  "newScheduler c = \<lparr>sdStreams = Map.empty, sdActive = [], sdRetired = [], sdAggregate = 0,
     sdControlBurst = MaxMuxSchedulerControlBurst, sdMaxEnvelopeBytes = MaxReceiveEnvelopeBytes c,
     sdMaxAggregateBytes = int (MaxAggregateBytes c), sdQuantum = SchedulerQuantum\<rparr>"

definition newSchedStream :: "bool \<Rightarrow> schedStream" where
  "newSchedStream sealed = \<lparr>schQueue = [], schBytes = 0, schDeficit = 0, schSealed = sealed, schOverflowed = False,
     schActive = False, schRetired = False\<rparr>"

definition setSched :: "nat \<Rightarrow> schedStream \<Rightarrow> Scheduler \<Rightarrow> Scheduler" where
  "setSched i s sd = sd\<lparr>sdStreams := (sdStreams sd)(i \<mapsto> s)\<rparr>"

section \<open>Admission\<close>

definition admittedLocked :: "StreamEngine option \<Rightarrow> nat \<Rightarrow> bool" where
  "admittedLocked gate i =
     (if i = 0 then False
      else case gate of
        None \<Rightarrow> True
      | Some e \<Rightarrow> (case streams e i of None \<Rightarrow> False | Some s \<Rightarrow> state s = StreamOpening \<or> state s = StreamOpen))"

definition knownLocked :: "StreamEngine option \<Rightarrow> nat \<Rightarrow> bool" where
  "knownLocked gate i = (if i = 0 then False else case gate of None \<Rightarrow> True | Some e \<Rightarrow> streams e i \<noteq> None)"

section \<open>Retention\<close>

fun evictSched :: "nat list \<Rightarrow> (nat \<rightharpoonup> schedStream) \<Rightarrow> nat list \<times> (nat \<rightharpoonup> schedStream)" where
  "evictSched [] m = ([], m)"
| "evictSched (i # is) m =
     (if length (i # is) > MaxRetiredSchedulerRecords
      then evictSched is (case m i of
          Some evicted \<Rightarrow>
            if (schSealed evicted \<or> schOverflowed evicted) \<and> schQueue evicted = [] then m(i := None)
            else m(i \<mapsto> evicted\<lparr>schRetired := False\<rparr>)
        | None \<Rightarrow> m)
      else (i # is, m))"

definition listRetiredLocked :: "nat \<Rightarrow> schedStream \<Rightarrow> Scheduler \<Rightarrow> Scheduler" where
  "listRetiredLocked i s sd =
     (if schRetired s \<or> \<not> (schSealed s \<or> schOverflowed s) \<or> schQueue s \<noteq> [] then setSched i s sd
      else let (r, m) = evictSched (sdRetired sd @ [i]) ((sdStreams sd)(i \<mapsto> s\<lparr>schRetired := True\<rparr>))
           in sd\<lparr>sdRetired := r, sdStreams := m\<rparr>)"

section \<open>Queueing\<close>

definition overflowLocked :: "nat \<Rightarrow> Scheduler \<Rightarrow> bool" where
  "overflowLocked n sd = (sdAggregate sd + int n > sdMaxAggregateBytes sd)"

definition discardLocked :: "nat \<Rightarrow> schedStream \<Rightarrow> Scheduler \<Rightarrow> schedStream \<times> Scheduler" where
  "discardLocked i s sd =
     (s\<lparr>schBytes := 0, schQueue := [], schActive := False\<rparr>,
      sd\<lparr>sdAggregate := sdAggregate sd - schBytes s,
         sdActive := (if schActive s then remove1 i (sdActive sd) else sdActive sd)\<rparr>)"

definition overflowLockedStream :: "nat \<Rightarrow> schedStream \<Rightarrow> Scheduler \<Rightarrow> Scheduler" where
  "overflowLockedStream i s sd =
     (let (s', sd') = discardLocked i s sd in listRetiredLocked i (s'\<lparr>schOverflowed := True\<rparr>) sd')"

definition insertLocked :: "nat \<Rightarrow> schedStream \<Rightarrow> schedFrame \<Rightarrow> Scheduler \<Rightarrow> Scheduler" where
  "insertLocked i s f sd =
     (let n = int (length (frBytes f));
          s1 = s\<lparr>schBytes := schBytes s + n, schQueue := schQueue s @ [f], schSealed := schSealed s \<or> frSeals f, schActive := True\<rparr>
      in setSched i s1 (sd\<lparr>sdAggregate := sdAggregate sd + n,
           sdActive := (if schActive s then sdActive sd else sdActive sd @ [i])\<rparr>))"

definition insertBounded :: "nat \<Rightarrow> schedStream \<Rightarrow> schedFrame \<Rightarrow> Scheduler \<Rightarrow> schedError option \<times> Scheduler" where
  "insertBounded i s f sd =
     (if overflowLocked (length (frBytes f)) sd then (Some ErrSchedulerFull, overflowLockedStream i s sd)
      else (None, insertLocked i s f sd))"

definition enqueue :: "StreamEngine option \<Rightarrow> schedFrame \<Rightarrow> nat \<Rightarrow> Scheduler \<Rightarrow> schedError option \<times> Scheduler" where
  "enqueue gate f i sd =
     (if \<not> ValidatePhysical i then (Some ErrSchedInvalidStream, sd)
      else case sdStreams sd i of
        Some s \<Rightarrow>
          if schSealed s then (Some ErrSchedulerSettled, sd)
          else if schOverflowed s
          then (if \<not> frSeals f then (Some ErrSchedulerFull, sd) else (None, insertLocked i s f sd))
          else if \<not> frSeals f \<and> \<not> admittedLocked gate i then (Some ErrSchedulerUnadmitted, sd)
          else insertBounded i s f sd
      | None \<Rightarrow>
          if \<not> frSeals f
          then (if \<not> admittedLocked gate i then (Some ErrSchedulerUnadmitted, sd) else insertBounded i (newSchedStream False) f sd)
          else if \<not> knownLocked gate i then (Some ErrSchedulerUnadmitted, sd)
          else insertBounded i (newSchedStream False) f sd)"

text \<open>\<^verbatim>\<open>Refuse\<close> with the encoded refusal; its frame seals.\<close>

definition Refuse :: "byte list \<Rightarrow> nat \<Rightarrow> Scheduler \<Rightarrow> schedError option \<times> Scheduler" where
  "Refuse raw i sd =
     (if \<not> ValidatePhysical i then (Some ErrSchedInvalidStream, sd)
      else let f = \<lparr>frDirection = DirectionServer, frClass = FrameControl, frBytes = raw, frSeals = True\<rparr>
        in case sdStreams sd i of
          Some s \<Rightarrow> if schSealed s \<or> schOverflowed s then (Some ErrSchedulerSettled, sd) else insertBounded i s f sd
        | None \<Rightarrow> insertBounded i (newSchedStream False) f sd)"

definition ResetSched :: "StreamEngine option \<Rightarrow> nat \<Rightarrow> Scheduler \<Rightarrow> bool \<times> Scheduler" where
  "ResetSched gate i sd =
     (case sdStreams sd i of
        None \<Rightarrow>
          if \<not> admittedLocked gate i then (False, sd) else (True, listRetiredLocked i (newSchedStream True) sd)
      | Some s \<Rightarrow>
          if schSealed s \<and> schQueue s = [] then (False, sd)
          else let (s', sd') = discardLocked i s sd in (True, listRetiredLocked i (s'\<lparr>schSealed := True\<rparr>) sd'))"

section \<open>Serving\<close>

definition headOf :: "Scheduler \<Rightarrow> nat \<Rightarrow> schedFrame option" where
  "headOf sd i = (case sdStreams sd i of None \<Rightarrow> None | Some s \<Rightarrow> (case schQueue s of [] \<Rightarrow> None | f # _ \<Rightarrow> Some f))"

definition firstControlLocked :: "Scheduler \<Rightarrow> nat option" where
  "firstControlLocked sd =
     first_index (\<lambda>i. case headOf sd i of Some f \<Rightarrow> frClass f = FrameControl | None \<Rightarrow> False) (sdActive sd)"

definition maxDeficit :: "Scheduler \<Rightarrow> int" where
  "maxDeficit sd = sdQuantum sd + int (min (sdMaxEnvelopeBytes sd) MaxMuxApplicationBytes)"

definition topUpLocked :: "nat \<Rightarrow> Scheduler \<Rightarrow> Scheduler" where
  "topUpLocked i sd =
     (case sdStreams sd i of
        None \<Rightarrow> sd
      | Some s \<Rightarrow> setSched i (s\<lparr>schDeficit := min (schDeficit s + sdQuantum sd) (maxDeficit sd)\<rparr>) sd)"

definition rotateToBackLocked :: "nat \<Rightarrow> Scheduler \<Rightarrow> Scheduler" where
  "rotateToBackLocked k sd = sd\<lparr>sdActive := remove_at k (sdActive sd) @ [sdActive sd ! k]\<rparr>"

text \<open>The stream is the last of the ring; an emptied stream leaves it.\<close>

definition popHeadLocked :: "nat \<Rightarrow> Scheduler \<Rightarrow> (nat \<times> schedFrame) option \<times> Scheduler" where
  "popHeadLocked i sd =
     (case sdStreams sd i of
        None \<Rightarrow> (None, sd)
      | Some s \<Rightarrow>
          (case schQueue s of
             [] \<Rightarrow> (None, sd)
           | f # rest \<Rightarrow>
               let n = int (length (frBytes f));
                   s1 = s\<lparr>schQueue := rest, schBytes := schBytes s - n\<rparr>;
                   sd1 = sd\<lparr>sdAggregate := sdAggregate sd - n\<rparr>
               in if rest = []
                  then (Some (i, f), listRetiredLocked i (s1\<lparr>schActive := False\<rparr>) (sd1\<lparr>sdActive := butlast (sdActive sd1)\<rparr>))
                  else (Some (i, f), setSched i s1 sd1)))"

definition chargeHead :: "nat \<Rightarrow> Scheduler \<Rightarrow> Scheduler" where
  "chargeHead i sd =
     (case (sdStreams sd i, headOf sd i) of
        (Some s, Some f) \<Rightarrow> setSched i (s\<lparr>schDeficit := schDeficit s - int (length (frBytes f))\<rparr>) sd
      | _ \<Rightarrow> sd)"

definition serveIndexLocked :: "nat \<Rightarrow> Scheduler \<Rightarrow> (nat \<times> schedFrame) option \<times> Scheduler" where
  "serveIndexLocked k sd =
     (let i = sdActive sd ! k in popHeadLocked i (rotateToBackLocked k (chargeHead i (topUpLocked i sd))))"

definition headFits :: "nat \<Rightarrow> Scheduler \<Rightarrow> bool" where
  "headFits i sd =
     (case (sdStreams sd i, headOf sd i) of
        (Some s, Some f) \<Rightarrow> int (length (frBytes f)) \<le> schDeficit s
      | _ \<Rightarrow> False)"

text \<open>One round over the ring: the frame it wrote, or the topped-up accounts of a round that wrote none.\<close>

fun drrRound :: "nat \<Rightarrow> nat list \<Rightarrow> Scheduler \<Rightarrow> Scheduler + ((nat \<times> schedFrame) option \<times> Scheduler)" where
  "drrRound k [] sd = Inl sd"
| "drrRound k (i # is) sd =
     (let sd1 = topUpLocked i sd
      in if headFits i sd1 then Inr (popHeadLocked i (rotateToBackLocked k (chargeHead i sd1)))
         else drrRound (Suc k) is sd1)"

partial_function (option) serveDRRLocked :: "Scheduler \<Rightarrow> ((nat \<times> schedFrame) option \<times> Scheduler) option" where
  "serveDRRLocked sd =
     (case drrRound 0 (sdActive sd) sd of
        Inr r \<Rightarrow> Some r
      | Inl sd1 \<Rightarrow> serveDRRLocked sd1)"

definition Dequeue :: "Scheduler \<Rightarrow> ((nat \<times> schedFrame) option \<times> Scheduler) option" where
  "Dequeue sd =
     (if sdActive sd = [] then Some (None, sd)
      else case (if sdControlBurst sd > 0 then firstControlLocked sd else None) of
        Some k \<Rightarrow> Some (serveIndexLocked k (sd\<lparr>sdControlBurst := sdControlBurst sd - 1\<rparr>))
      | None \<Rightarrow>
          (case serveDRRLocked sd of
             None \<Rightarrow> None
           | Some (envelope, sd1) \<Rightarrow>
               Some (envelope, if (case envelope of Some (_, f) \<Rightarrow> frClass f = FrameData | None \<Rightarrow> False)
                               then sd1\<lparr>sdControlBurst := MaxMuxSchedulerControlBurst\<rparr> else sd1)))"

end
