(* ===== verification/Mux_Sched_Inv.thy ===== *)
theory Mux_Sched_Inv
  imports Mux_Scheduler
begin

text \<open>
  The invariant of the scheduler. Every operation replaces the record of one stream, adjusts the ring
  and the aggregate with it, and lists the record when it is settled and empty: \<open>commit_ok\<close> is that step.
\<close>

section \<open>The invariant\<close>

definition framesLen :: "schedFrame list \<Rightarrow> int" where
  "framesLen q = sum_list (map (\<lambda>f. int (length (frBytes f))) q)"

lemma framesLen_simps [simp]: "framesLen [] = 0" "framesLen (f # q) = int (length (frBytes f)) + framesLen q"
  "framesLen (q @ q') = framesLen q + framesLen q'"
  by (simp_all add: framesLen_def)

lemma framesLen_nonneg [simp]: "0 \<le> framesLen q"
  by (induction q) auto

definition maxFrame :: "Scheduler \<Rightarrow> nat" where
  "maxFrame sd = min (sdMaxEnvelopeBytes sd) MaxMuxApplicationBytes"

definition rec_ok :: "Scheduler \<Rightarrow> schedStream \<Rightarrow> bool" where
  "rec_ok sd s =
     (schActive s = (schQueue s \<noteq> []) \<and> schBytes s = framesLen (schQueue s) \<and> schDeficit s \<le> maxDeficit sd \<and>
      (\<forall>f\<in>set (schQueue s). length (frBytes f) \<le> maxFrame sd) \<and>
      (\<forall>f\<in>set (butlast (schQueue s)). \<not> frSeals f) \<and>
      (schQueue s \<noteq> [] \<longrightarrow> frSeals (last (schQueue s)) \<longrightarrow> schSealed s) \<and>
      (schOverflowed s \<longrightarrow> schQueue s = [] \<or> (\<exists>f. schQueue s = [f] \<and> frSeals f)))"

definition dataBytes :: "schedStream \<Rightarrow> int" where
  "dataBytes s = (if schOverflowed s then 0 else schBytes s)"

definition settled_rec :: "schedStream \<Rightarrow> bool" where
  "settled_rec s = (schSealed s \<or> schOverflowed s)"

definition listed_ok :: "nat set \<Rightarrow> nat \<Rightarrow> schedStream \<Rightarrow> bool" where
  "listed_ok R i s = (schRetired s = (i \<in> R) \<and> (schRetired s \<longrightarrow> settled_rec s) \<and> (settled_rec s \<longrightarrow> schQueue s = [] \<longrightarrow> schRetired s))"

definition sched_ok :: "Scheduler \<Rightarrow> bool" where
  "sched_ok sd =
     (0 < sdQuantum sd \<and> 0 \<le> sdControlBurst sd \<and> sdControlBurst sd \<le> MaxMuxSchedulerControlBurst \<and>
      finite (dom (sdStreams sd)) \<and> sdStreams sd 0 = None \<and>
      (\<forall>i s. sdStreams sd i = Some s \<longrightarrow> rec_ok sd s \<and> listed_ok (set (sdRetired sd)) i s) \<and>
      distinct (sdActive sd) \<and> set (sdActive sd) = {i. \<exists>s. sdStreams sd i = Some s \<and> schQueue s \<noteq> []} \<and>
      distinct (sdRetired sd) \<and> length (sdRetired sd) \<le> MaxRetiredSchedulerRecords \<and> set (sdRetired sd) \<subseteq> dom (sdStreams sd) \<and>
      sdAggregate sd = table_sum schBytes (sdStreams sd) \<and> table_sum dataBytes (sdStreams sd) \<le> sdMaxAggregateBytes sd)"

lemma sched_okD:
  assumes "sched_ok sd"
  shows "finite (dom (sdStreams sd))"
    "\<And>i s. sdStreams sd i = Some s \<Longrightarrow> rec_ok sd s \<and> listed_ok (set (sdRetired sd)) i s"
    "distinct (sdActive sd)" "set (sdActive sd) = {i. \<exists>s. sdStreams sd i = Some s \<and> schQueue s \<noteq> []}"
    "distinct (sdRetired sd)" "length (sdRetired sd) \<le> MaxRetiredSchedulerRecords" "set (sdRetired sd) \<subseteq> dom (sdStreams sd)"
    "sdAggregate sd = table_sum schBytes (sdStreams sd)" "table_sum dataBytes (sdStreams sd) \<le> sdMaxAggregateBytes sd"
    "0 < sdQuantum sd"
  using assms by (simp_all add: sched_ok_def)

text \<open>What the scheduler reads of a record for service is not touched by retention.\<close>

definition others_same :: "nat \<Rightarrow> Scheduler \<Rightarrow> Scheduler \<Rightarrow> bool" where
  "others_same i sd sd' =
     (\<forall>j. j \<noteq> i \<longrightarrow> sdStreams sd' j = sdStreams sd j \<or>
        (\<exists>t. sdStreams sd j = Some t \<and> settled_rec t \<and>
           (schQueue t = [] \<and> sdStreams sd' j = None \<or> sdStreams sd' j = Some (t\<lparr>schRetired := False\<rparr>))))"

definition fixed_same :: "Scheduler \<Rightarrow> Scheduler \<Rightarrow> bool" where
  "fixed_same sd sd' = (sdQuantum sd' = sdQuantum sd \<and> sdMaxEnvelopeBytes sd' = sdMaxEnvelopeBytes sd \<and>
     sdMaxAggregateBytes sd' = sdMaxAggregateBytes sd)"

lemma rec_ok_fixed: "fixed_same sd sd' \<Longrightarrow> rec_ok sd' s = rec_ok sd s"
  by (simp add: rec_ok_def fixed_same_def maxFrame_def maxDeficit_def)

section \<open>Replacing one record\<close>

definition oldBytes :: "(schedStream \<Rightarrow> int) \<Rightarrow> Scheduler \<Rightarrow> nat \<Rightarrow> int" where
  "oldBytes f sd i = (case sdStreams sd i of None \<Rightarrow> 0 | Some t \<Rightarrow> f t)"

lemma put_rec:
  assumes ok: "sched_ok sd" and i: "i \<noteq> 0"
    and s: "rec_ok sd s" "listed_ok (set (sdRetired sd)) i s"
    and A: "distinct A" "set A = set (sdActive sd) - {i} \<union> (if schQueue s = [] then {} else {i})"
    and a: "a = sdAggregate sd - oldBytes schBytes sd i + schBytes s"
    and b: "table_sum dataBytes (sdStreams sd) - oldBytes dataBytes sd i + dataBytes s \<le> sdMaxAggregateBytes sd"
  shows "sched_ok (setSched i s (sd\<lparr>sdAggregate := a, sdActive := A\<rparr>))"
proof -
  define m where "m = (sdStreams sd)(i \<mapsto> s)"
  note D = sched_okD [OF ok]
  have fin: "finite (dom m)" "m 0 = None" using D(1) ok i by (simp_all add: m_def sched_ok_def)
  have recs: "\<forall>j t. m j = Some t \<longrightarrow> rec_ok sd t \<and> listed_ok (set (sdRetired sd)) j t"
  proof (intro allI impI)
    fix j t assume "m j = Some t"
    then show "rec_ok sd t \<and> listed_ok (set (sdRetired sd)) j t"
      using D(2) [of j t] s by (cases "j = i") (auto simp: m_def)
  qed
  have act: "set A = {j. \<exists>t. m j = Some t \<and> schQueue t \<noteq> []}" unfolding A(2) D(4) by (auto simp: m_def)
  have sums: "table_sum schBytes m = a" "table_sum dataBytes m \<le> sdMaxAggregateBytes sd"
    using D(1,8) a b by (simp_all add: m_def table_sum_upd oldBytes_def)
  have sub: "set (sdRetired sd) \<subseteq> dom m" using D(7) by (auto simp: m_def)
  have eq: "setSched i s (sd\<lparr>sdAggregate := a, sdActive := A\<rparr>) = sd\<lparr>sdAggregate := a, sdActive := A, sdStreams := m\<rparr>"
    by (simp add: setSched_def m_def)
  have r: "rec_ok (sd\<lparr>sdAggregate := a, sdActive := A, sdStreams := m\<rparr>) t = rec_ok sd t" for t
    by (intro rec_ok_fixed) (simp add: fixed_same_def)
  show ?thesis unfolding eq sched_ok_def r using ok recs fin act sums sub A(1) by (simp add: sched_ok_def)
qed

section \<open>Listing a settled record\<close>

lemma evict_sched_one:
  assumes "length r \<le> MaxRetiredSchedulerRecords" "set r \<subseteq> dom m"
  shows "evictSched (r @ [i]) m =
    (if length r = MaxRetiredSchedulerRecords
     then (tl r @ [i], let t = the (m (hd r)) in
       if settled_rec t \<and> schQueue t = [] then m(hd r := None) else m(hd r \<mapsto> t\<lparr>schRetired := False\<rparr>))
     else (r @ [i], m))"
proof (cases r)
  case Nil
  then show ?thesis by (simp add: MaxRetiredSchedulerRecords_def)
next
  case (Cons j js)
  have stop: "evictSched (js @ [i]) m' = (js @ [i], m')" for m'
    using assms(1) Cons by (cases js) (auto simp: MaxRetiredSchedulerRecords_def)
  obtain t where "m j = Some t" using assms(2) Cons by auto
  then show ?thesis using assms(1) stop by (auto simp: Cons settled_rec_def Let_def)
qed

text \<open>Listing a record that is settled, empty and unlisted, in a table where it is the only such one.\<close>

definition almost_ok :: "nat \<Rightarrow> schedStream \<Rightarrow> Scheduler \<Rightarrow> bool" where
  "almost_ok i s sd =
     (sdStreams sd i = Some s \<and> settled_rec s \<and> schQueue s = [] \<and> \<not> schRetired s \<and>
      0 < sdQuantum sd \<and> 0 \<le> sdControlBurst sd \<and> sdControlBurst sd \<le> MaxMuxSchedulerControlBurst \<and>
      finite (dom (sdStreams sd)) \<and> sdStreams sd 0 = None \<and> (\<forall>j t. sdStreams sd j = Some t \<longrightarrow> rec_ok sd t) \<and>
      (\<forall>j t. j \<noteq> i \<longrightarrow> sdStreams sd j = Some t \<longrightarrow> listed_ok (set (sdRetired sd)) j t) \<and>
      distinct (sdActive sd) \<and> set (sdActive sd) = {i. \<exists>s. sdStreams sd i = Some s \<and> schQueue s \<noteq> []} \<and>
      distinct (sdRetired sd) \<and> length (sdRetired sd) \<le> MaxRetiredSchedulerRecords \<and> set (sdRetired sd) \<subseteq> dom (sdStreams sd) - {i} \<and>
      sdAggregate sd = table_sum schBytes (sdStreams sd) \<and> table_sum dataBytes (sdStreams sd) \<le> sdMaxAggregateBytes sd)"

definition evictRec :: "schedStream \<Rightarrow> schedStream option" where
  "evictRec t = (if settled_rec t \<and> schQueue t = [] then None else Some (t\<lparr>schRetired := False\<rparr>))"

lemma list_rec:
  assumes "almost_ok i s sd" "sd' = listRetiredLocked i s sd"
  shows "sched_ok sd' \<and> others_same i sd sd' \<and> sdStreams sd' i = Some (s\<lparr>schRetired := True\<rparr>) \<and> fixed_same sd sd' \<and>
    sdActive sd' = sdActive sd \<and> sdControlBurst sd' = sdControlBurst sd"
proof -
  note A = assms(1) [unfolded almost_ok_def]
  let ?s = "s\<lparr>schRetired := True\<rparr>" and ?r = "sdRetired sd"
  let ?m = "(sdStreams sd)(i \<mapsto> ?s)"
  have fs: "fixed_same sd sd'" if "sd' = sd\<lparr>sdRetired := r, sdStreams := m\<rparr>" for r m using that by (simp add: fixed_same_def)
  have rec': "rec_ok sd (t\<lparr>schRetired := b\<rparr>) = rec_ok sd t" for t b by (simp add: rec_ok_def)
  have sums: "table_sum schBytes ?m = sdAggregate sd" "table_sum dataBytes ?m \<le> sdMaxAggregateBytes sd" "finite (dom ?m)"
    using A by (simp_all add: table_sum_upd dataBytes_def)
  have sub: "set ?r \<subseteq> dom ?m" using A by auto
  have notin: "i \<notin> set ?r" using A by auto
  have i0: "i \<noteq> 0" using A by (metis option.distinct(1))
  note ev = evict_sched_one [OF _ sub, of i]
  have len: "length ?r \<le> MaxRetiredSchedulerRecords" using A by blast
  show ?thesis
  proof (cases "length ?r = MaxRetiredSchedulerRecords")
    case False
    then have eq: "sd' = sd\<lparr>sdRetired := ?r @ [i], sdStreams := ?m\<rparr>"
      using A assms(2) ev [OF len] by (simp add: listRetiredLocked_def settled_rec_def)
    have recs: "\<forall>j t. ?m j = Some t \<longrightarrow> rec_ok sd t \<and> listed_ok (set (?r @ [i])) j t"
    proof (intro allI impI)
      fix j t assume j: "?m j = Some t"
      show "rec_ok sd t \<and> listed_ok (set (?r @ [i])) j t"
      proof (cases "j = i")
        case True
        then show ?thesis using j A by (auto simp: rec' listed_ok_def settled_rec_def)
      next
        case False
        then show ?thesis using j A by (auto simp: listed_ok_def)
      qed
    qed
    define m where "m = ?m"
    have act: "set (sdActive sd) = {j. \<exists>t. m j = Some t \<and> schQueue t \<noteq> []}" using A by (auto simp: m_def)
    have "m 0 = None" using A i0 by (simp add: m_def)
    have "sched_ok sd'" unfolding sched_ok_def rec_ok_fixed [OF fs [OF eq]] unfolding eq
      using A recs [folded m_def] sums [folded m_def] sub [folded m_def] act notin False len \<open>m 0 = None\<close>
      unfolding m_def [symmetric] by (auto simp: domIff m_def)
    then show ?thesis using fs [OF eq] by (auto simp: eq others_same_def)
  next
    case True
    then obtain k ks where k: "?r = k # ks" by (cases ?r) (auto simp: MaxRetiredSchedulerRecords_def)
    obtain u where u: "sdStreams sd k = Some u" "k \<noteq> i" using A k by auto
    define m where "m = ?m(k := evictRec u)"
    have eq: "sd' = sd\<lparr>sdRetired := ks @ [i], sdStreams := m\<rparr>"
      using A assms(2) ev [OF len] True k u by (auto simp: listRetiredLocked_def settled_rec_def evictRec_def m_def Let_def)
    have lu: "listed_ok (set ?r) k u" "rec_ok sd u" using A u by auto
    then have su: "settled_rec u" using k by (simp add: listed_ok_def)
    have recs: "\<forall>j t. m j = Some t \<longrightarrow> rec_ok sd t \<and> listed_ok (set (ks @ [i])) j t"
    proof (intro allI impI)
      fix j t assume j: "m j = Some t"
      consider "j = k" | "j = i" "j \<noteq> k" | "j \<noteq> k" "j \<noteq> i" by blast
      then show "rec_ok sd t \<and> listed_ok (set (ks @ [i])) j t"
      proof cases
        case 1
        have "k \<notin> set ks" using A k by auto
        then show ?thesis using 1 j lu u by (auto simp: m_def evictRec_def rec' listed_ok_def settled_rec_def split: if_splits)
      next
        case 2
        then show ?thesis using j A by (auto simp: m_def rec' listed_ok_def settled_rec_def)
      next
        case 3
        then show ?thesis using j A k by (auto simp: m_def listed_ok_def)
      qed
    qed
    have act: "set (sdActive sd) = {j. \<exists>t. m j = Some t \<and> schQueue t \<noteq> []}" using A u by (auto simp: m_def evictRec_def split: if_splits)
    have z: "m 0 = None" using A u i0 by (metis fun_upd_apply m_def option.distinct(1))
    have b0: "schBytes u = 0" if "schQueue u = []" using that lu(2) by (simp add: rec_ok_def)
    have sm: "finite (dom m)" "table_sum schBytes m = sdAggregate sd" "table_sum dataBytes m \<le> sdMaxAggregateBytes sd"
      using sums u b0 by (auto simp: m_def evictRec_def table_sum_upd table_sum_del dataBytes_def)
    have sb: "set (ks @ [i]) \<subseteq> dom m" using A k u by (auto simp: m_def)
    have "sched_ok sd'" unfolding sched_ok_def rec_ok_fixed [OF fs [OF eq]] unfolding eq
      using A recs act z sm sb k notin len by auto
    then show ?thesis using fs [OF eq] u su by (auto simp: eq others_same_def m_def evictRec_def)
  qed
qed

lemma put_almost:
  assumes ok: "sched_ok sd" and i: "i \<noteq> 0"
    and s: "rec_ok sd s" "i \<notin> set (sdRetired sd)" "\<not> schRetired s" "settled_rec s" "schQueue s = []"
    and A: "distinct A" "set A = set (sdActive sd) - {i}"
    and a: "a = sdAggregate sd - oldBytes schBytes sd i + schBytes s"
    and b: "table_sum dataBytes (sdStreams sd) - oldBytes dataBytes sd i + dataBytes s \<le> sdMaxAggregateBytes sd"
  shows "almost_ok i s (setSched i s (sd\<lparr>sdAggregate := a, sdActive := A\<rparr>))"
proof -
  define m where "m = (sdStreams sd)(i \<mapsto> s)"
  note D = sched_okD [OF ok]
  have recs: "\<forall>j t. m j = Some t \<longrightarrow> rec_ok sd t" "\<forall>j t. j \<noteq> i \<longrightarrow> m j = Some t \<longrightarrow> listed_ok (set (sdRetired sd)) j t"
    using D(2) s(1) by (auto simp: m_def)
  have act: "set A = {j. \<exists>t. m j = Some t \<and> schQueue t \<noteq> []}" unfolding A(2) D(4) using s(5) by (auto simp: m_def)
  have sums: "finite (dom m)" "m 0 = None" "m i = Some s" "table_sum schBytes m = a" "table_sum dataBytes m \<le> sdMaxAggregateBytes sd"
    using D(1,8) a b ok i by (simp_all add: m_def table_sum_upd oldBytes_def sched_ok_def)
  have sub: "set (sdRetired sd) \<subseteq> dom m - {i}" using D(7) s(2) by (auto simp: m_def)
  have eq: "setSched i s (sd\<lparr>sdAggregate := a, sdActive := A\<rparr>) = sd\<lparr>sdAggregate := a, sdActive := A, sdStreams := m\<rparr>"
    by (simp add: setSched_def m_def)
  have r: "rec_ok (sd\<lparr>sdAggregate := a, sdActive := A, sdStreams := m\<rparr>) t = rec_ok sd t" for t
    by (intro rec_ok_fixed) (simp add: fixed_same_def)
  show ?thesis unfolding eq almost_ok_def r using ok recs act sums sub s A(1) by (simp add: sched_ok_def)
qed

lemma commit_ok:
  assumes ok: "sched_ok sd" and i: "i \<noteq> 0"
    and s: "rec_ok sd s" "schRetired s = (i \<in> set (sdRetired sd))" "schRetired s \<longrightarrow> settled_rec s"
    and A: "distinct A" "set A = set (sdActive sd) - {i} \<union> (if schQueue s = [] then {} else {i})"
    and a: "a = sdAggregate sd - oldBytes schBytes sd i + schBytes s"
    and b: "table_sum dataBytes (sdStreams sd) - oldBytes dataBytes sd i + dataBytes s \<le> sdMaxAggregateBytes sd"
    and sd': "sd' = listRetiredLocked i s (sd\<lparr>sdAggregate := a, sdActive := A\<rparr>)"
  shows "sched_ok sd' \<and> others_same i sd sd' \<and> (\<exists>r. sdStreams sd' i = Some (s\<lparr>schRetired := r\<rparr>)) \<and> fixed_same sd sd' \<and>
    sdActive sd' = A \<and> sdControlBurst sd' = sdControlBurst sd"
proof (cases "settled_rec s \<and> schQueue s = [] \<and> \<not> schRetired s")
  case False
  then have eq: "sd' = setSched i s (sd\<lparr>sdAggregate := a, sdActive := A\<rparr>)"
    using sd' by (auto simp: listRetiredLocked_def settled_rec_def)
  have "listed_ok (set (sdRetired sd)) i s" using False s by (auto simp: listed_ok_def)
  then have "sched_ok sd'" unfolding eq using put_rec [OF ok i s(1) _ A a b] by blast
  moreover have "\<exists>r. sdStreams sd' i = Some (s\<lparr>schRetired := r\<rparr>)"
    by (rule exI [of _ "schRetired s"]) (simp add: eq setSched_def)
  moreover have "others_same i sd sd' \<and> fixed_same sd sd' \<and> sdActive sd' = A \<and> sdControlBurst sd' = sdControlBurst sd"
    by (simp add: eq setSched_def others_same_def fixed_same_def)
  ultimately show ?thesis by blast
next
  case True
  let ?sd = "setSched i s (sd\<lparr>sdAggregate := a, sdActive := A\<rparr>)"
  have "almost_ok i s ?sd" using True s A by (intro put_almost [OF ok i s(1) _ _ _ _ A(1) _ a b]) auto
  moreover have "sd' = listRetiredLocked i s ?sd" using sd' True by (auto simp: listRetiredLocked_def setSched_def settled_rec_def Let_def)
  ultimately show ?thesis using list_rec [of i s ?sd sd']
    by (auto simp: setSched_def others_same_def fixed_same_def)
qed

end
