(* ===== verification/Mux_Sched_Ops.thy ===== *)
theory Mux_Sched_Ops
  imports Mux_Sched_Inv
begin

text \<open>
  Every operation of the scheduler keeps its invariant and leaves the queues of the other streams alone.
\<close>

section \<open>The record an operation works on\<close>

definition queueOf :: "Scheduler \<Rightarrow> nat \<Rightarrow> schedFrame list" where
  "queueOf sd i = (case sdStreams sd i of None \<Rightarrow> [] | Some s \<Rightarrow> schQueue s)"

definition deficitOf :: "Scheduler \<Rightarrow> nat \<Rightarrow> int" where
  "deficitOf sd i = (case sdStreams sd i of None \<Rightarrow> 0 | Some s \<Rightarrow> schDeficit s)"

lemma others_observed:
  assumes "others_same i sd sd'" "j \<noteq> i"
  shows "queueOf sd' j = queueOf sd j" "queueOf sd j \<noteq> [] \<Longrightarrow> deficitOf sd' j = deficitOf sd j"
proof -
  have "sdStreams sd' j = sdStreams sd j \<or> (\<exists>t. sdStreams sd j = Some t \<and>
      (schQueue t = [] \<and> sdStreams sd' j = None \<or> sdStreams sd' j = Some (t\<lparr>schRetired := False\<rparr>)))"
    using assms by (auto simp: others_same_def)
  then show "queueOf sd' j = queueOf sd j" "queueOf sd j \<noteq> [] \<Longrightarrow> deficitOf sd' j = deficitOf sd j"
    by (auto simp: queueOf_def deficitOf_def)
qed

definition current :: "nat \<Rightarrow> schedStream \<Rightarrow> Scheduler \<Rightarrow> bool" where
  "current i s sd = (case sdStreams sd i of Some t \<Rightarrow> s = t | None \<Rightarrow> s = newSchedStream False)"

lemma current_ok:
  assumes "sched_ok sd" "current i s sd"
  shows "rec_ok sd s \<and> schRetired s = (i \<in> set (sdRetired sd)) \<and> (schRetired s \<longrightarrow> settled_rec s) \<and>
    oldBytes schBytes sd i = schBytes s \<and> oldBytes dataBytes sd i = dataBytes s \<and> (schQueue s \<noteq> []) = (i \<in> set (sdActive sd)) \<and>
    queueOf sd i = schQueue s"
proof (cases "sdStreams sd i")
  case None
  then have "i \<notin> set (sdRetired sd)" "i \<notin> set (sdActive sd)" "s = newSchedStream False"
    using sched_okD(4,7) [OF assms(1)] assms(2) by (auto simp: current_def)
  then show ?thesis using None sched_okD(10) [OF assms(1)]
    by (simp add: oldBytes_def newSchedStream_def rec_ok_def dataBytes_def maxDeficit_def queueOf_def)
next
  case (Some t)
  then have t: "s = t" using assms(2) by (simp add: current_def)
  then show ?thesis using Some sched_okD(2) [OF assms(1) Some] sched_okD(4) [OF assms(1)]
    by (auto simp: oldBytes_def listed_ok_def queueOf_def)
qed

lemma data_le_aggregate:
  assumes "sched_ok sd"
  shows "table_sum dataBytes (sdStreams sd) \<le> sdAggregate sd"
proof -
  have "dataBytes t \<le> schBytes t" if "sdStreams sd k = Some t" for k t
    using sched_okD(2) [OF assms that] by (auto simp: dataBytes_def rec_ok_def)
  then show ?thesis unfolding sched_okD(8) [OF assms] using sched_okD(1) [OF assms] by (intro table_sum_bound)
qed

text \<open>What one operation on stream \<open>i\<close> with new queue \<open>q\<close> and ring \<open>A\<close> does.\<close>

definition sched_upd :: "nat \<Rightarrow> schedFrame list \<Rightarrow> nat list \<Rightarrow> Scheduler \<Rightarrow> Scheduler \<Rightarrow> bool" where
  "sched_upd i q A sd sd' = (sched_ok sd' \<and> others_same i sd sd' \<and> queueOf sd' i = q \<and> fixed_same sd sd' \<and> sdActive sd' = A \<and>
     sdControlBurst sd' = sdControlBurst sd)"

lemma commit_upd:
  assumes "sched_ok sd" "i \<noteq> 0" "rec_ok sd s" "schRetired s = (i \<in> set (sdRetired sd))" "schRetired s \<longrightarrow> settled_rec s"
    "distinct A" "set A = set (sdActive sd) - {i} \<union> (if schQueue s = [] then {} else {i})"
    "a = sdAggregate sd - oldBytes schBytes sd i + schBytes s"
    "table_sum dataBytes (sdStreams sd) - oldBytes dataBytes sd i + dataBytes s \<le> sdMaxAggregateBytes sd"
  shows "sched_upd i (schQueue s) A sd (listRetiredLocked i s (sd\<lparr>sdAggregate := a, sdActive := A\<rparr>)) \<and>
    deficitOf (listRetiredLocked i s (sd\<lparr>sdAggregate := a, sdActive := A\<rparr>)) i = schDeficit s"
  using commit_ok [OF assms refl] by (auto simp: sched_upd_def queueOf_def deficitOf_def)

section \<open>Queueing\<close>

lemma insert_upd:
  assumes ok: "sched_ok sd" and i: "i \<noteq> 0" and s: "current i s sd" "\<not> schSealed s" "length (frBytes f) \<le> maxFrame sd"
    and b: "if schOverflowed s then frSeals f else \<not> overflowLocked (length (frBytes f)) sd"
  shows "sched_upd i (schQueue s @ [f]) (if schQueue s \<noteq> [] then sdActive sd else sdActive sd @ [i]) sd (insertLocked i s f sd) \<and>
    deficitOf (insertLocked i s f sd) i = schDeficit s"
proof -
  note C = current_ok [OF ok s(1)]
  let ?n = "int (length (frBytes f))"
  let ?s = "s\<lparr>schBytes := schBytes s + ?n, schQueue := schQueue s @ [f], schSealed := schSealed s \<or> frSeals f, schActive := True\<rparr>"
  let ?A = "if schActive s then sdActive sd else sdActive sd @ [i]"
  have act: "schActive s = (schQueue s \<noteq> [])" using C by (simp add: rec_ok_def)
  have empty: "schOverflowed s \<longrightarrow> schQueue s = []" using C s(2) by (auto simp: rec_ok_def)
  have ns: "\<forall>g\<in>set (schQueue s). \<not> frSeals g"
  proof
    fix g assume g: "g \<in> set (schQueue s)"
    then have "g \<in> set (butlast (schQueue s)) \<or> g = last (schQueue s)" by (metis append_butlast_last_id empty_iff insert_iff list.set(1,2) rotate1.simps(2) set_append set_rotate1 Un_iff)
    then show "\<not> frSeals g" using C s(2) g by (auto simp: rec_ok_def)
  qed
  have r: "rec_ok sd ?s" using C s(2,3) b ns empty by (auto simp: rec_ok_def butlast_append split: if_splits)
  have d: "table_sum dataBytes (sdStreams sd) - oldBytes dataBytes sd i + dataBytes ?s \<le> sdMaxAggregateBytes sd"
    using C b data_le_aggregate [OF ok] sched_okD(9) [OF ok] by (auto simp: dataBytes_def overflowLocked_def split: if_splits)
  have "insertLocked i s f sd = listRetiredLocked i ?s (sd\<lparr>sdAggregate := sdAggregate sd + ?n, sdActive := ?A\<rparr>)"
    by (simp add: insertLocked_def listRetiredLocked_def Let_def)
  moreover have "distinct ?A" "set ?A = set (sdActive sd) - {i} \<union> (if schQueue ?s = [] then {} else {i})"
    using C act sched_okD(3) [OF ok] by auto
  ultimately show ?thesis
    using commit_upd [OF ok i r _ _ _ _ _ d, of ?A "sdAggregate sd + ?n"] C act by (auto simp: settled_rec_def)
qed

lemma discard_upd:
  assumes ok: "sched_ok sd" and i: "i \<noteq> 0" and s: "current i s sd" and so: "schSealed s \<longrightarrow> so" "schOverflowed s \<longrightarrow> ov"
    and r: "(s', sd') = discardLocked i s sd" and st: "so \<or> ov"
  shows "sched_upd i [] (removeAll i (sdActive sd)) sd (listRetiredLocked i (s'\<lparr>schSealed := so, schOverflowed := ov\<rparr>) sd')"
proof -
  note C = current_ok [OF ok s]
  let ?s = "s'\<lparr>schSealed := so, schOverflowed := ov\<rparr>" and ?A = "removeAll i (sdActive sd)"
  have A: "(if schActive s then remove1 i (sdActive sd) else sdActive sd) = ?A"
    using C sched_okD(3) [OF ok] by (auto simp: rec_ok_def distinct_remove1_removeAll removeAll_id)
  have sd': "sd' = sd\<lparr>sdAggregate := sdAggregate sd - schBytes s, sdActive := ?A\<rparr>" "s' = s\<lparr>schBytes := 0, schQueue := [], schActive := False\<rparr>"
    using r A by (simp_all add: discardLocked_def)
  have q: "rec_ok sd ?s" using C by (simp add: sd' rec_ok_def)
  have nn: "0 \<le> dataBytes s" using C by (simp add: dataBytes_def rec_ok_def)
  have "table_sum dataBytes (sdStreams sd) - oldBytes dataBytes sd i + dataBytes ?s \<le> sdMaxAggregateBytes sd"
    using C nn sched_okD(9) [OF ok] by (simp add: sd' dataBytes_def)
  then show ?thesis unfolding sd'(1)
    using commit_upd [OF ok i q, of ?A "sdAggregate sd - schBytes s"] C sched_okD(3) [OF ok] so st
    by (auto simp: sd'(2) settled_rec_def distinct_removeAll)
qed

text \<open>A call about stream \<open>i\<close> does nothing, appends one frame to its queue, or drops its queue.\<close>

inductive queue_call :: "nat \<Rightarrow> Scheduler \<Rightarrow> Scheduler \<Rightarrow> bool" for i sd where
  call_refused: "queue_call i sd sd"
| call_append: "sched_upd i (queueOf sd i @ [f]) (if queueOf sd i \<noteq> [] then sdActive sd else sdActive sd @ [i]) sd sd' \<Longrightarrow>
    queueOf sd i \<noteq> [] \<longrightarrow> deficitOf sd' i = deficitOf sd i \<Longrightarrow> queue_call i sd sd'"
| call_drop: "sched_upd i [] (removeAll i (sdActive sd)) sd sd' \<Longrightarrow> queue_call i sd sd'"

lemma insert_call:
  assumes ok: "sched_ok sd" and i: "i \<noteq> 0" and s: "current i s sd" "\<not> schSealed s" "length (frBytes f) \<le> maxFrame sd"
    and b: "if schOverflowed s then frSeals f else \<not> overflowLocked (length (frBytes f)) sd"
  shows "queue_call i sd (insertLocked i s f sd)"
proof -
  note C = current_ok [OF ok s(1)]
  have "schDeficit s = deficitOf sd i" if "queueOf sd i \<noteq> []"
    using that s(1) by (auto simp: queueOf_def current_def deficitOf_def split: option.splits)
  then show ?thesis using insert_upd [OF assms] C by (intro call_append [where f = f]) auto
qed

lemma overflow_upd:
  assumes ok: "sched_ok sd" and i: "i \<noteq> 0" and s: "current i s sd" "\<not> schSealed s"
  shows "sched_upd i [] (removeAll i (sdActive sd)) sd (overflowLockedStream i s sd)"
proof -
  obtain s' sd' where d: "discardLocked i s sd = (s', sd')" by (cases "discardLocked i s sd")
  then have "schSealed s' = False" using s(2) by (auto simp: discardLocked_def)
  then have "s'\<lparr>schSealed := False, schOverflowed := True\<rparr> = s'\<lparr>schOverflowed := True\<rparr>" by (cases s') simp
  then show ?thesis using discard_upd [OF ok i s(1), of False True s' sd'] d s(2) by (simp add: overflowLockedStream_def)
qed

lemma bounded_call:
  assumes ok: "sched_ok sd" and i: "i \<noteq> 0" and s: "current i s sd" "\<not> schSealed s" "\<not> schOverflowed s" "length (frBytes f) \<le> maxFrame sd"
  shows "queue_call i sd (snd (insertBounded i s f sd))"
proof (cases "overflowLocked (length (frBytes f)) sd")
  case True
  then show ?thesis using overflow_upd [OF ok i s(1,2)] by (auto simp: insertBounded_def intro: call_drop)
next
  case False
  then show ?thesis using insert_call [OF ok i s(1,2,4)] s(3) by (simp add: insertBounded_def)
qed

lemma enqueue_call:
  assumes "sched_ok sd" "length (frBytes f) \<le> maxFrame sd"
  shows "queue_call i sd (snd (enqueue gate f i sd))"
proof (cases "i = 0")
  case True
  then show ?thesis by (simp add: enqueue_def ValidatePhysical_def call_refused)
next
  case False
  show ?thesis
  proof (cases "sdStreams sd i")
    case None
    then have "current i (newSchedStream False) sd" by (simp add: current_def)
    then show ?thesis using None False bounded_call [OF assms(1) False _ _ _ assms(2)]
      by (auto simp: enqueue_def ValidatePhysical_def newSchedStream_def intro: call_refused)
  next
    case (Some s)
    then have "current i s sd" by (simp add: current_def)
    then show ?thesis using Some False bounded_call [OF assms(1) False _ _ _ assms(2)] insert_call [OF assms(1) False _ _ assms(2)]
      by (auto simp: enqueue_def ValidatePhysical_def intro: call_refused)
  qed
qed

lemma Refuse_call:
  assumes "sched_ok sd" "length raw \<le> maxFrame sd"
  shows "queue_call i sd (snd (Refuse raw i sd))"
proof (cases "i = 0")
  case True
  then show ?thesis by (simp add: Refuse_def ValidatePhysical_def call_refused)
next
  case False
  let ?f = "\<lparr>frDirection = DirectionServer, frClass = FrameControl, frBytes = raw, frSeals = True\<rparr>"
  have f: "length (frBytes ?f) \<le> maxFrame sd" using assms(2) by simp
  show ?thesis
  proof (cases "sdStreams sd i")
    case None
    then have "current i (newSchedStream False) sd" by (simp add: current_def)
    then show ?thesis using None False bounded_call [OF assms(1) False _ _ _ f]
      by (auto simp: Refuse_def ValidatePhysical_def newSchedStream_def)
  next
    case (Some s)
    then have "current i s sd" by (simp add: current_def)
    then show ?thesis using Some False bounded_call [OF assms(1) False _ _ _ f]
      by (auto simp: Refuse_def ValidatePhysical_def Let_def intro: call_refused)
  qed
qed

lemma Reset_call:
  assumes ok: "sched_ok sd"
  shows "queue_call i sd (snd (ResetSched gate i sd))"
proof (cases "sdStreams sd i")
  case None
  show ?thesis
  proof (cases "admittedLocked gate i")
    case False
    then show ?thesis using None by (simp add: ResetSched_def call_refused)
  next
    case True
    then have i: "i \<noteq> 0" by (cases "i = 0") (auto simp: admittedLocked_def)
    have cur: "current i (newSchedStream False) sd" using None by (simp add: current_def)
    have "discardLocked i (newSchedStream False) sd = (newSchedStream False, sd)"
      by (simp add: discardLocked_def newSchedStream_def)
    moreover have "(newSchedStream False)\<lparr>schSealed := True, schOverflowed := False\<rparr> = newSchedStream True" by (simp add: newSchedStream_def)
    ultimately have "sched_upd i [] (removeAll i (sdActive sd)) sd (listRetiredLocked i (newSchedStream True) sd)"
      using discard_upd [OF ok i cur, of True False "newSchedStream False" sd] by (simp add: newSchedStream_def)
    then show ?thesis using None True by (simp add: ResetSched_def call_drop)
  qed
next
  case (Some s)
  have i: "i \<noteq> 0" using Some ok by (metis option.distinct(1) sched_ok_def)
  obtain s' sd' where d: "discardLocked i s sd = (s', sd')" by (cases "discardLocked i s sd")
  then have "schOverflowed s = schOverflowed s'" by (auto simp: discardLocked_def)
  then have "s'\<lparr>schSealed := True, schOverflowed := schOverflowed s\<rparr> = s'\<lparr>schSealed := True\<rparr>" by (cases s') simp
  then have "sched_upd i [] (removeAll i (sdActive sd)) sd (listRetiredLocked i (s'\<lparr>schSealed := True\<rparr>) sd')"
    using discard_upd [OF ok i, of s True "schOverflowed s" s' sd'] d Some by (simp add: current_def)
  then show ?thesis using Some d by (auto simp: ResetSched_def intro: call_refused call_drop)
qed

section \<open>Serving\<close>

lemma active_rec:
  assumes "sched_ok sd" "i \<in> set (sdActive sd)"
  obtains s f rest where "sdStreams sd i = Some s" "schQueue s = f # rest" "queueOf sd i = f # rest" "headOf sd i = Some f" "i \<noteq> 0"
    "deficitOf sd i = schDeficit s"
proof -
  obtain s where s: "sdStreams sd i = Some s" "schQueue s \<noteq> []" using assms sched_okD(4) [OF assms(1)] by auto
  obtain f rest where "schQueue s = f # rest" using s(2) by (cases "schQueue s") auto
  moreover have "i \<noteq> 0" using s(1) assms(1) by (metis option.distinct(1) sched_ok_def)
  ultimately show ?thesis using that s(1) by (simp add: queueOf_def headOf_def deficitOf_def)
qed

definition toppedUp :: "Scheduler \<Rightarrow> int \<Rightarrow> int" where
  "toppedUp sd d = min (d + sdQuantum sd) (maxDeficit sd)"

lemma topUp_upd:
  assumes ok: "sched_ok sd" and i: "i \<in> set (sdActive sd)"
  shows "sched_upd i (queueOf sd i) (sdActive sd) sd (topUpLocked i sd) \<and>
    deficitOf (topUpLocked i sd) i = toppedUp sd (deficitOf sd i)"
proof -
  obtain s f rest where s: "sdStreams sd i = Some s" "schQueue s = f # rest" "queueOf sd i = f # rest" "i \<noteq> 0" "deficitOf sd i = schDeficit s"
    using active_rec [OF assms] by metis
  let ?s = "s\<lparr>schDeficit := toppedUp sd (schDeficit s)\<rparr>"
  note C = current_ok [OF ok, of i s]
  have cur: "current i s sd" using s(1) by (simp add: current_def)
  have r: "rec_ok sd ?s" using C [OF cur] by (auto simp: rec_ok_def toppedUp_def)
  have "topUpLocked i sd = setSched i ?s sd" using s(1) by (simp add: topUpLocked_def toppedUp_def)
  also have "\<dots> = listRetiredLocked i ?s (sd\<lparr>sdAggregate := sdAggregate sd, sdActive := sdActive sd\<rparr>)"
    using s(2) by (simp add: listRetiredLocked_def)
  finally have eq: "topUpLocked i sd = listRetiredLocked i ?s (sd\<lparr>sdAggregate := sdAggregate sd, sdActive := sdActive sd\<rparr>)" .
  have "dataBytes ?s = dataBytes s" by (simp add: dataBytes_def)
  then show ?thesis unfolding eq
    using commit_upd [OF ok s(4) r, of "sdActive sd" "sdAggregate sd"] C [OF cur] i s sched_okD(3,9) [OF ok]
    by (auto simp: settled_rec_def)
qed

text \<open>Writing the head of the active stream at index \<open>k\<close>.\<close>

definition servedRing :: "nat \<Rightarrow> Scheduler \<Rightarrow> nat list" where
  "servedRing k sd = remove_at k (sdActive sd) @ (if tl (queueOf sd (sdActive sd ! k)) = [] then [] else [sdActive sd ! k])"

definition served :: "nat \<Rightarrow> Scheduler \<Rightarrow> (nat \<times> schedFrame) option \<times> Scheduler \<Rightarrow> bool" where
  "served k sd r =
     (let i = sdActive sd ! k in
      fst r = Some (i, hd (queueOf sd i)) \<and> sched_upd i (tl (queueOf sd i)) (servedRing k sd) sd (snd r))"

lemma remove_at_ring:
  assumes "distinct xs" "k < length xs"
  shows "distinct (remove_at k xs)" "set (remove_at k xs) = set xs - {xs ! k}"
proof -
  have xs: "xs = take k xs @ xs ! k # drop (Suc k) xs" using assms(2) by (rule id_take_nth_drop)
  then have d: "distinct (take k xs @ xs ! k # drop (Suc k) xs)" using assms(1) by simp
  then show "distinct (remove_at k xs)" by (simp add: remove_at_def)
  have "set xs = set (take k xs @ xs ! k # drop (Suc k) xs)" using xs by simp
  then show "set (remove_at k xs) = set xs - {xs ! k}" using d by (auto simp: remove_at_def)
qed

lemma list_cong:
  assumes "\<And>m. sd1\<lparr>sdStreams := m\<rparr> = sd2\<lparr>sdStreams := m\<rparr>" "\<And>x. (sdStreams sd1)(i \<mapsto> x) = (sdStreams sd2)(i \<mapsto> x)"
  shows "listRetiredLocked i s sd1 = listRetiredLocked i s sd2"
proof -
  have r: "sd1\<lparr>sdRetired := r, sdStreams := m\<rparr> = sd2\<lparr>sdRetired := r, sdStreams := m\<rparr>" for r m
    using assms(1) [of m] by (cases sd1; cases sd2) simp
  have "sdRetired sd1 = sdRetired sd2" using assms(1) [of Map.empty] by (cases sd1; cases sd2) simp
  then show ?thesis using assms by (simp add: listRetiredLocked_def setSched_def r)
qed

lemma pop_upd:
  assumes ok: "sched_ok sd" and k: "k < length (sdActive sd)" and i: "i = sdActive sd ! k"
  shows "served k sd (popHeadLocked i (rotateToBackLocked k (chargeHead i sd)))"
proof -
  have ia: "i \<in> set (sdActive sd)" using k i by simp
  obtain s f rest where s: "sdStreams sd i = Some s" "schQueue s = f # rest" "queueOf sd i = f # rest" "headOf sd i = Some f" "i \<noteq> 0"
    using active_rec [OF ok ia] by metis
  have cur: "current i s sd" using s(1) by (simp add: current_def)
  note C = current_ok [OF ok cur] and R = remove_at_ring [OF sched_okD(3) [OF ok] k, folded i]
  let ?n = "int (length (frBytes f))"
  let ?t = "s\<lparr>schDeficit := schDeficit s - ?n, schQueue := rest, schBytes := schBytes s - ?n\<rparr>"
  let ?s = "if rest = [] then ?t\<lparr>schActive := False\<rparr> else ?t"
  have ring: "servedRing k sd = remove_at k (sdActive sd) @ (if rest = [] then [] else [i])" using s(3) i by (simp add: servedRing_def)
  have eq: "popHeadLocked i (rotateToBackLocked k (chargeHead i sd)) =
      (Some (i, f), listRetiredLocked i ?s (sd\<lparr>sdAggregate := sdAggregate sd - ?n, sdActive := servedRing k sd\<rparr>))"
  proof (cases "rest = []")
    case True
    then show ?thesis using s i
      by (auto simp: ring popHeadLocked_def rotateToBackLocked_def chargeHead_def setSched_def Let_def intro!: list_cong)
  next
    case False
    then show ?thesis using s i
      by (auto simp: ring popHeadLocked_def rotateToBackLocked_def chargeHead_def setSched_def listRetiredLocked_def Let_def)
  qed
  have c: "schActive s" "schBytes s = ?n + framesLen rest" "\<forall>g\<in>set rest. length (frBytes g) \<le> maxFrame sd"
    "schDeficit s - ?n \<le> maxDeficit sd" "schOverflowed s \<longrightarrow> rest = []"
    using C s(2) by (auto simp: rec_ok_def)
  have "(\<forall>g\<in>set (butlast rest). \<not> frSeals g) \<and> (rest \<noteq> [] \<longrightarrow> frSeals (last rest) \<longrightarrow> schSealed s)"
    using C s(2) by (cases "rest = []") (simp_all add: rec_ok_def)
  then have r: "rec_ok sd ?s" using c by (cases "rest = []") (simp_all add: rec_ok_def)
  define u where "u = ?s"
  have u: "schQueue u = rest" "schRetired u = schRetired s" "settled_rec u = settled_rec s" "schBytes u = schBytes s - ?n"
    "dataBytes u \<le> dataBytes s" by (simp_all add: u_def settled_rec_def dataBytes_def)
  have d: "table_sum dataBytes (sdStreams sd) - oldBytes dataBytes sd i + dataBytes u \<le> sdMaxAggregateBytes sd"
    using C u(5) sched_okD(9) [OF ok] by simp
  have A: "distinct (servedRing k sd)" "set (servedRing k sd) = set (sdActive sd) - {i} \<union> (if schQueue u = [] then {} else {i})"
    using R u(1) by (auto simp: ring)
  have "sched_upd i (schQueue u) (servedRing k sd) sd (listRetiredLocked i u (sd\<lparr>sdAggregate := sdAggregate sd - ?n, sdActive := servedRing k sd\<rparr>))"
    by (rule commit_upd [OF ok s(5) r [folded u_def] _ _ A _ d, THEN conjunct1]) (use C u in simp_all)
  then show ?thesis unfolding eq served_def u_def [symmetric] using s(3) i u(1) by (simp add: Let_def)
qed

end
