(* ===== verification/Mux_Sched_Serve.thy ===== *)
theory Mux_Sched_Serve
  imports Mux_Sched_Ops
begin

text \<open>
  Serving: a round of the deficit loop, that the loop returns, and how long a queued frame can wait.
\<close>

section \<open>Rounds\<close>

text \<open>States that differ only in deficits.\<close>

definition quiet :: "Scheduler \<Rightarrow> Scheduler \<Rightarrow> bool" where
  "quiet sd sd' = (sched_ok sd' \<and> sdActive sd' = sdActive sd \<and> (\<forall>j. queueOf sd' j = queueOf sd j) \<and> fixed_same sd sd' \<and>
     sdControlBurst sd' = sdControlBurst sd)"

lemma quiet_refl: "sched_ok sd \<Longrightarrow> quiet sd sd"
  by (simp add: quiet_def fixed_same_def)

lemma quiet_trans: "quiet a b \<Longrightarrow> quiet b c \<Longrightarrow> quiet a c"
  by (simp add: quiet_def fixed_same_def)

definition headSize :: "Scheduler \<Rightarrow> nat \<Rightarrow> int" where
  "headSize sd i = (case queueOf sd i of [] \<Rightarrow> 0 | f # _ \<Rightarrow> int (length (frBytes f)))"

lemma quiet_same:
  assumes "quiet sd sd'"
  shows "headSize sd' i = headSize sd i" "toppedUp sd' d = toppedUp sd d" "sdQuantum sd' = sdQuantum sd" "sdActive sd' = sdActive sd"
    "sched_ok sd'" "queueOf sd' i = queueOf sd i" "maxDeficit sd' = maxDeficit sd" "sdControlBurst sd' = sdControlBurst sd"
  using assms by (simp_all add: quiet_def headSize_def toppedUp_def fixed_same_def maxDeficit_def)

lemma topUp_quiet:
  assumes "sched_ok sd" "i \<in> set (sdActive sd)"
  shows "quiet sd (topUpLocked i sd)" "deficitOf (topUpLocked i sd) i = toppedUp sd (deficitOf sd i)"
    "j \<noteq> i \<Longrightarrow> j \<in> set (sdActive sd) \<Longrightarrow> deficitOf (topUpLocked i sd) j = deficitOf sd j"
proof -
  have u: "sched_upd i (queueOf sd i) (sdActive sd) sd (topUpLocked i sd)" "deficitOf (topUpLocked i sd) i = toppedUp sd (deficitOf sd i)"
    using topUp_upd [OF assms] by simp_all
  then have o: "others_same i sd (topUpLocked i sd)" by (simp add: sched_upd_def)
  show "deficitOf (topUpLocked i sd) i = toppedUp sd (deficitOf sd i)" by (rule u(2))
  have "queueOf (topUpLocked i sd) k = queueOf sd k" for k
    using u(1) others_observed(1) [OF o, of k] by (cases "k = i") (auto simp: sched_upd_def)
  then show "quiet sd (topUpLocked i sd)" using u(1) by (simp add: quiet_def sched_upd_def)
  show "deficitOf (topUpLocked i sd) j = deficitOf sd j" if "j \<noteq> i" "j \<in> set (sdActive sd)"
    using others_observed(2) [OF o that(1)] active_rec [OF assms(1) that(2)] by (metis list.distinct(1))
qed

lemma fits_iff:
  assumes "sched_ok sd" "i \<in> set (sdActive sd)"
  shows "headFits i sd = (headSize sd i \<le> deficitOf sd i)"
  by (rule active_rec [OF assms]) (simp add: headFits_def headSize_def)

lemma size_bound:
  assumes "sched_ok sd" "i \<in> set (sdActive sd)"
  shows "0 \<le> headSize sd i" "headSize sd i + sdQuantum sd \<le> maxDeficit sd" "deficitOf sd i \<le> maxDeficit sd" "0 < sdQuantum sd"
proof -
  obtain s f rest where s: "sdStreams sd i = Some s" "schQueue s = f # rest" "queueOf sd i = f # rest" "deficitOf sd i = schDeficit s"
    using active_rec [OF assms] by metis
  have "rec_ok sd s" using sched_okD(2) [OF assms(1) s(1)] by simp
  then show "0 \<le> headSize sd i" "headSize sd i + sdQuantum sd \<le> maxDeficit sd" "deficitOf sd i \<le> maxDeficit sd" "0 < sdQuantum sd"
    using s sched_okD(10) [OF assms(1)] by (auto simp: headSize_def rec_ok_def maxFrame_def maxDeficit_def)
qed

text \<open>A stream that was visited and not served has one quantum more, and still less than its head needs.\<close>

lemma unfit_gains:
  assumes "sched_ok sd" "i \<in> set (sdActive sd)" "\<not> headFits i (topUpLocked i sd)"
  shows "deficitOf (topUpLocked i sd) i = deficitOf sd i + sdQuantum sd" "deficitOf sd i + sdQuantum sd < headSize sd i"
proof -
  note q = topUp_quiet [OF assms(1,2)]
  have "i \<in> set (sdActive (topUpLocked i sd))" using assms(2) quiet_same(4) [OF q(1)] by simp
  then have "toppedUp sd (deficitOf sd i) < headSize sd i"
    using assms(3) fits_iff [OF quiet_same(5) [OF q(1)]] q(2) quiet_same(1) [OF q(1)] by simp
  then have "toppedUp sd (deficitOf sd i) = deficitOf sd i + sdQuantum sd" "deficitOf sd i + sdQuantum sd < headSize sd i"
    using size_bound [OF assms(1,2)] by (auto simp: toppedUp_def)
  then show "deficitOf (topUpLocked i sd) i = deficitOf sd i + sdQuantum sd" "deficitOf sd i + sdQuantum sd < headSize sd i"
    using q(2) by simp_all
qed

text \<open>The state in which a round serves index \<open>m\<close>, or that it leaves when it serves none (\<open>m\<close> is the length).\<close>

definition round_state :: "nat \<Rightarrow> nat \<Rightarrow> Scheduler \<Rightarrow> Scheduler \<Rightarrow> bool" where
  "round_state k m sd sd1 = (quiet sd sd1 \<and>
     (\<forall>j < length (sdActive sd). let i = sdActive sd ! j in
        deficitOf sd i \<le> deficitOf sd1 i \<and> (j < k \<longrightarrow> deficitOf sd1 i = deficitOf sd i) \<and>
        (k \<le> j \<longrightarrow> j < m \<longrightarrow> deficitOf sd1 i = deficitOf sd i + sdQuantum sd \<and> deficitOf sd1 i < headSize sd i)))"

lemma round_result:
  assumes "sched_ok sd" "sdActive sd = pre @ is" "length pre = k"
  shows "case drrRound k is sd of
      Inl sd1 \<Rightarrow> round_state k (length (sdActive sd)) sd sd1
    | Inr r \<Rightarrow> (\<exists>m sd1. k \<le> m \<and> m < length (sdActive sd) \<and> round_state k m sd sd1 \<and> served m sd1 r)"
  using assms
proof (induction k "is" sd arbitrary: pre rule: drrRound.induct)
  case (1 k sd)
  then show ?case by (simp add: round_state_def quiet_refl)
next
  case (2 k i "is" sd)
  let ?sd = "topUpLocked i sd"
  have i: "i \<in> set (sdActive sd)" "sdActive sd ! k = i" "k < length (sdActive sd)"
    using 2(3,4) by auto
  note q = topUp_quiet [OF 2(2) i(1)] and Q = quiet_same [OF topUp_quiet(1) [OF 2(2) i(1)]]
  have dist: "distinct (sdActive sd)" using sched_okD(3) [OF 2(2)] .
  have grow: "deficitOf sd (sdActive sd ! j) \<le> deficitOf ?sd (sdActive sd ! j)" if "j < length (sdActive sd)" for j
    using q(2) q(3) [of "sdActive sd ! j"] size_bound(3,4) [OF 2(2) i(1)] that by (cases "sdActive sd ! j = i") (auto simp: toppedUp_def)
  have other: "deficitOf ?sd (sdActive sd ! j) = deficitOf sd (sdActive sd ! j)" if "j < length (sdActive sd)" "j \<noteq> k" for j
  proof -
    have "sdActive sd ! j \<noteq> i" using dist i that by (metis nth_eq_iff_index_eq)
    then show ?thesis using q(3) that(1) by simp
  qed
  show ?case
  proof (cases "headFits i ?sd")
    case True
    have "served k ?sd (popHeadLocked i (rotateToBackLocked k (chargeHead i ?sd)))"
      using pop_upd [OF Q(5), of k i] i Q(4) by simp
    moreover have "round_state k k sd ?sd" using q(1) grow other by (simp add: round_state_def Let_def)
    ultimately show ?thesis using True i(3) by (auto simp: Let_def)
  next
    case False
    note u = unfit_gains [OF 2(2) i(1) False]
    have later: "round_state k m sd sd1" if R: "round_state (Suc k) m ?sd sd1" "Suc k \<le> m" for m sd1
      unfolding round_state_def Let_def
    proof (intro conjI allI impI)
      note T = R(1) [unfolded round_state_def Q Let_def]
      show "quiet sd sd1" using T quiet_trans [OF q(1)] by simp
      fix j assume j: "j < length (sdActive sd)"
      show "deficitOf sd (sdActive sd ! j) \<le> deficitOf sd1 (sdActive sd ! j)" using T grow [OF j] j by fastforce
      show "deficitOf sd1 (sdActive sd ! j) = deficitOf sd (sdActive sd ! j)" if "j < k" using T j that other [OF j] by simp
      assume k: "k \<le> j" "j < m"
      have "deficitOf sd1 (sdActive sd ! j) = deficitOf sd (sdActive sd ! j) + sdQuantum sd \<and>
          deficitOf sd1 (sdActive sd ! j) < headSize sd (sdActive sd ! j)"
        using T j k u i(2) other [OF j] by (cases "j = k") auto
      then show "deficitOf sd1 (sdActive sd ! j) = deficitOf sd (sdActive sd ! j) + sdQuantum sd"
        "deficitOf sd1 (sdActive sd ! j) < headSize sd (sdActive sd ! j)" by simp_all
    qed
    have IH: "case drrRound (Suc k) is ?sd of
        Inl sd1 \<Rightarrow> round_state (Suc k) (length (sdActive sd)) ?sd sd1
      | Inr r \<Rightarrow> (\<exists>m sd1. Suc k \<le> m \<and> m < length (sdActive sd) \<and> round_state (Suc k) m ?sd sd1 \<and> served m sd1 r)"
      using 2(1) [OF refl False Q(5), of "pre @ [i]", unfolded Q(4)] 2(3,4) by simp
    then show ?thesis using False later i(3) by (auto simp: Let_def split: sum.splits) (meson Suc_leD)
  qed
qed

section \<open>The loop returns\<close>

text \<open>The state in which the loop serves index \<open>m\<close>: every stream ahead of it in the ring gained at least a quantum.\<close>

definition loop_state :: "nat \<Rightarrow> Scheduler \<Rightarrow> Scheduler \<Rightarrow> bool" where
  "loop_state m sd sd1 = (quiet sd sd1 \<and>
     (\<forall>j < length (sdActive sd). let i = sdActive sd ! j in
        deficitOf sd i \<le> deficitOf sd1 i \<and>
        (j < m \<longrightarrow> deficitOf sd i + sdQuantum sd \<le> deficitOf sd1 i \<and> deficitOf sd1 i < headSize sd i)))"

lemma loop_of_round: "round_state 0 m sd sd1 \<Longrightarrow> loop_state m sd sd1"
  by (auto simp: round_state_def loop_state_def Let_def)

lemma loop_after_round:
  assumes "round_state 0 (length (sdActive sd)) sd sd1" "loop_state m sd1 sd2" "m < length (sdActive sd)"
  shows "loop_state m sd sd2"
  unfolding loop_state_def Let_def
proof (intro conjI allI impI)
  note R = assms(1) [unfolded round_state_def Let_def]
  note Q = quiet_same [OF R [THEN conjunct1]]
  note L = assms(2) [unfolded loop_state_def Let_def Q]
  show "quiet sd sd2" using R L quiet_trans by blast
  fix j assume j: "j < length (sdActive sd)"
  show "deficitOf sd (sdActive sd ! j) \<le> deficitOf sd2 (sdActive sd ! j)" using R L j by fastforce
  assume "j < m"
  then show "deficitOf sd (sdActive sd ! j) + sdQuantum sd \<le> deficitOf sd2 (sdActive sd ! j)"
    "deficitOf sd2 (sdActive sd ! j) < headSize sd (sdActive sd ! j)" using R L j by fastforce+
qed

lemma serve_returns:
  assumes "sched_ok sd" "sdActive sd \<noteq> []"
  shows "\<exists>r m sd1. serveDRRLocked sd = Some r \<and> m < length (sdActive sd) \<and> loop_state m sd sd1 \<and> served m sd1 r"
  using assms
proof (induction "nat (headSize sd (hd (sdActive sd)) - deficitOf sd (hd (sdActive sd)))" arbitrary: sd rule: less_induct)
  case less
  let ?i = "sdActive sd ! 0"
  have i: "hd (sdActive sd) = ?i" "0 < length (sdActive sd)" using less(3) by (simp_all add: hd_conv_nth)
  show ?case
  proof (cases "drrRound 0 (sdActive sd) sd")
    case (Inr r)
    then obtain m sd1 where "m < length (sdActive sd)" "round_state 0 m sd sd1" "served m sd1 r"
      using round_result [OF less(2), of "[]" "sdActive sd" 0] by auto
    moreover have "serveDRRLocked sd = Some r" by (subst serveDRRLocked.simps) (simp add: Inr)
    ultimately show ?thesis using loop_of_round by blast
  next
    case (Inl sd1)
    then have R: "round_state 0 (length (sdActive sd)) sd sd1"
      using round_result [OF less(2), of "[]" "sdActive sd" 0] by simp
    then have q: "quiet sd sd1" by (simp add: round_state_def)
    note Q = quiet_same [OF q]
    have "deficitOf sd1 ?i = deficitOf sd ?i + sdQuantum sd \<and> deficitOf sd1 ?i < headSize sd ?i"
      using R i(2) le0 unfolding round_state_def Let_def by blast
    then have "nat (headSize sd1 (hd (sdActive sd1)) - deficitOf sd1 (hd (sdActive sd1))) < nat (headSize sd (hd (sdActive sd)) - deficitOf sd (hd (sdActive sd)))"
      using sched_okD(10) [OF less(2)] by (simp add: Q i(1))
    then obtain r m sd2 where "serveDRRLocked sd1 = Some r" "m < length (sdActive sd1)" "loop_state m sd1 sd2" "served m sd2 r"
      using less(1) [OF _ Q(5)] less(3) Q(4) by metis
    moreover have "serveDRRLocked sd = serveDRRLocked sd1" by (subst serveDRRLocked.simps) (simp add: Inl)
    ultimately show ?thesis using loop_after_round [OF R] Q(4) by metis
  qed
qed

section \<open>Dequeuing\<close>

definition setBurst :: "int \<Rightarrow> Scheduler \<Rightarrow> Scheduler" where
  "setBurst b sd = sd\<lparr>sdControlBurst := b\<rparr>"

lemma setBurst_simps [simp]:
  "queueOf (setBurst b sd) i = queueOf sd i" "deficitOf (setBurst b sd) i = deficitOf sd i" "sdActive (setBurst b sd) = sdActive sd"
  "sdControlBurst (setBurst b sd) = b" "sdQuantum (setBurst b sd) = sdQuantum sd" "headSize (setBurst b sd) i = headSize sd i"
  "sdStreams (setBurst b sd) = sdStreams sd" "fixed_same sd' (setBurst b sd) = fixed_same sd' sd" "fixed_same (setBurst b sd') sd = fixed_same sd' sd"
  by (simp_all add: setBurst_def queueOf_def deficitOf_def headSize_def fixed_same_def)

lemma setBurst_ok: "sched_ok sd \<Longrightarrow> 0 \<le> b \<Longrightarrow> b \<le> MaxMuxSchedulerControlBurst \<Longrightarrow> sched_ok (setBurst b sd)"
  by (simp add: sched_ok_def setBurst_def rec_ok_def maxFrame_def maxDeficit_def)

text \<open>
  One dequeue serves some index \<open>m\<close>, either because its head is control (the burst shrinks) or by the
  deficit loop (the burst may be refilled).
\<close>

lemma dequeue_effect:
  assumes ok: "sched_ok sd" and ne: "sdActive sd \<noteq> []"
  shows "\<exists>m sd1 r b. Dequeue sd = Some (fst r, setBurst b (snd r)) \<and> m < length (sdActive sd) \<and> served m sd1 r \<and> sched_ok sd1 \<and>
    sdActive sd1 = sdActive sd \<and> (\<forall>j. queueOf sd1 j = queueOf sd j) \<and> fixed_same sd sd1 \<and> 0 \<le> b \<and> b \<le> MaxMuxSchedulerControlBurst \<and>
    (\<forall>j < length (sdActive sd). j \<noteq> m \<longrightarrow> deficitOf sd (sdActive sd ! j) \<le> deficitOf sd1 (sdActive sd ! j)) \<and>
    (b + 1 = sdControlBurst sd \<or>
     (\<forall>j < m. deficitOf sd (sdActive sd ! j) + sdQuantum sd \<le> deficitOf sd1 (sdActive sd ! j) \<and>
        deficitOf sd1 (sdActive sd ! j) < headSize sd (sdActive sd ! j)))"
proof (cases "if sdControlBurst sd > 0 then firstControlLocked sd else None")
  case (Some k)
  let ?b = "sdControlBurst sd - 1" and ?i = "sdActive sd ! k"
  let ?sd = "setBurst ?b sd"
  have burst: "0 < sdControlBurst sd" "firstControlLocked sd = Some k" using Some by (simp_all split: if_splits)
  then have k: "k < length (sdActive sd)" using first_index_Some [of _ "sdActive sd" k] by (simp add: firstControlLocked_def)
  have b: "0 \<le> ?b" "?b \<le> MaxMuxSchedulerControlBurst" using burst(1) ok by (simp_all add: sched_ok_def)
  have ok': "sched_ok ?sd" using setBurst_ok [OF ok b] .
  have i: "?i \<in> set (sdActive ?sd)" using k by simp
  note q = topUp_quiet [OF ok' i] and Q = quiet_same [OF topUp_quiet(1) [OF ok' i]]
  let ?r = "serveIndexLocked k ?sd"
  have sv: "served k (topUpLocked ?i ?sd) ?r"
    using pop_upd [OF Q(5), of k ?i] k Q(4) by (simp add: serveIndexLocked_def Let_def)
  have "sdControlBurst (snd ?r) = ?b" using sv Q(8) by (simp add: served_def sched_upd_def Let_def)
  then have "Dequeue sd = Some (fst ?r, setBurst ?b (snd ?r))"
    using ne Some by (simp add: Dequeue_def setBurst_def del: fst_conv)
      (metis (no_types, lifting) Scheduler.surjective Scheduler.update_convs(5) prod.collapse)
  moreover have "deficitOf sd (sdActive sd ! j) \<le> deficitOf (topUpLocked ?i ?sd) (sdActive sd ! j)" if "j < length (sdActive sd)" "j \<noteq> k" for j
    using q(3) [of "sdActive sd ! j"] that k sched_okD(3) [OF ok] by (auto simp: nth_eq_iff_index_eq)
  moreover have "fixed_same sd (topUpLocked ?i ?sd)" using q(1) by (simp add: quiet_def)
  ultimately show ?thesis using sv k b Q(4,5,6)
    by (intro exI [of _ k] exI [of _ "topUpLocked ?i ?sd"] exI [of _ ?r] exI [of _ ?b]) auto
next
  case None
  obtain r m sd1 where r: "serveDRRLocked sd = Some r" "m < length (sdActive sd)" "loop_state m sd sd1" "served m sd1 r"
    using serve_returns [OF ok ne] by blast
  have q: "quiet sd sd1" using r(3) by (simp add: loop_state_def)
  let ?b = "if (case fst r of Some (_, f) \<Rightarrow> frClass f = FrameData | None \<Rightarrow> False) then MaxMuxSchedulerControlBurst else sdControlBurst sd"
  have c: "sdControlBurst (snd r) = sdControlBurst sd" using r(4) quiet_same(8) [OF q] by (simp add: served_def sched_upd_def Let_def)
  then have id: "setBurst (sdControlBurst sd) (snd r) = snd r" by (cases "snd r") (simp add: setBurst_def)
  have "Dequeue sd = Some (fst r, setBurst ?b (snd r))"
  proof (cases "case fst r of Some (_, f) \<Rightarrow> frClass f = FrameData | None \<Rightarrow> False")
    case True
    then show ?thesis using None r(1) ne by (cases r) (simp add: Dequeue_def setBurst_def)
  next
    case False
    then show ?thesis using None r(1) ne id by (cases r) (simp add: Dequeue_def)
  qed
  moreover have "0 \<le> ?b" "?b \<le> MaxMuxSchedulerControlBurst" using ok by (auto simp: sched_ok_def MaxMuxSchedulerControlBurst_def)
  moreover have "fixed_same sd sd1" using q by (simp add: quiet_def)
  ultimately show ?thesis using r(2,4) quiet_same(4,5,6) [OF q] r(3) [unfolded loop_state_def Let_def]
    by (intro exI [of _ m] exI [of _ sd1] exI [of _ r] exI [of _ ?b]) auto
qed

end
