(* ===== verification/Mux_Sched_Fair.thy ===== *)
theory Mux_Sched_Fair
  imports Mux_Sched_Serve
begin

text \<open>
  Runs of the scheduler: frames of one stream leave in the order they were accepted, and a queued frame
  is written after a bounded number of dequeues whatever the other streams queue.
\<close>

section \<open>The place in the ring\<close>

definition ringIndex :: "nat \<Rightarrow> nat list \<Rightarrow> nat" where
  "ringIndex i xs = length (takeWhile (\<lambda>x. x \<noteq> i) xs)"

lemma ringIndex_nth: "distinct xs \<Longrightarrow> k < length xs \<Longrightarrow> ringIndex (xs ! k) xs = k"
proof (induction xs arbitrary: k)
  case (Cons x xs)
  then show ?case by (cases k) (auto simp: ringIndex_def)
qed simp

lemma ringIndex_mem: "i \<in> set xs \<Longrightarrow> ringIndex i xs < length xs \<and> xs ! ringIndex i xs = i"
  unfolding ringIndex_def
proof
  assume i: "i \<in> set xs"
  then have "takeWhile (\<lambda>x. x \<noteq> i) xs \<noteq> xs" by (metis set_takeWhileD)
  then show l: "length (takeWhile (\<lambda>x. x \<noteq> i) xs) < length xs"
    by (metis le_neq_implies_less length_takeWhile_le takeWhile_eq_take take_all_iff verit_comp_simplify1(2))
  then show "xs ! length (takeWhile (\<lambda>x. x \<noteq> i) xs) = i" using nth_length_takeWhile by blast
qed

lemma ringIndex_append: "i \<in> set xs \<Longrightarrow> ringIndex i (xs @ ys) = ringIndex i xs"
  by (simp add: ringIndex_def takeWhile_append1)

lemma ringIndex_remove: "j \<noteq> i \<Longrightarrow> ringIndex i (removeAll j xs) \<le> ringIndex i xs"
  by (induction xs) (auto simp: ringIndex_def)

lemma ringIndex_served:
  assumes "distinct xs" "i \<in> set xs" "m < length xs" "xs ! m \<noteq> i"
  shows "ringIndex i (remove_at m xs @ ys) = (if m < ringIndex i xs then ringIndex i xs - 1 else ringIndex i xs)"
    "i \<in> set (remove_at m xs @ ys)" "m \<noteq> ringIndex i xs"
proof -
  have xs: "xs = take m xs @ xs ! m # drop (Suc m) xs" using assms(3) by (rule id_take_nth_drop)
  then have mem: "i \<in> set (take m xs) \<or> i \<in> set (drop (Suc m) xs)" using assms(2,4) by (metis Un_iff set_ConsD set_append)
  show "i \<in> set (remove_at m xs @ ys)" using mem by (auto simp: remove_at_def)
  show ne: "m \<noteq> ringIndex i xs" using ringIndex_mem [OF assms(2)] assms(4) by auto
  show "ringIndex i (remove_at m xs @ ys) = (if m < ringIndex i xs then ringIndex i xs - 1 else ringIndex i xs)"
  proof (cases "i \<in> set (take m xs)")
    case True
    have "ringIndex i xs = ringIndex i (take m xs)" using ringIndex_append [OF True] xs by metis
    moreover have "ringIndex i (take m xs) < m" using ringIndex_mem [OF True] by simp
    ultimately show ?thesis using True ringIndex_append [OF True] by (simp add: remove_at_def)
  next
    case False
    have tw: "takeWhile (\<lambda>x. x \<noteq> i) (take m xs @ zs) = take m xs @ takeWhile (\<lambda>x. x \<noteq> i) zs" for zs
      using False by (intro takeWhile_append2) auto
    have "ringIndex i xs = Suc (m + ringIndex i (drop (Suc m) xs))"
      using tw [of "xs ! m # drop (Suc m) xs"] xs assms(3,4) by (simp add: ringIndex_def)
    moreover have "ringIndex i (remove_at m xs @ ys) = m + ringIndex i (drop (Suc m) xs)"
      using tw [of "drop (Suc m) xs @ ys"] assms(3) mem False by (simp add: ringIndex_def remove_at_def takeWhile_append1)
    ultimately show ?thesis by simp
  qed
qed

section \<open>How long a head can wait\<close>

definition needed :: "Scheduler \<Rightarrow> nat \<Rightarrow> nat" where
  "needed sd i = nat ((headSize sd i - deficitOf sd i) div sdQuantum sd)"

definition waitBound :: "Scheduler \<Rightarrow> nat \<Rightarrow> nat" where
  "waitBound sd i = 5 * (ringIndex i (sdActive sd) + needed sd i) + nat (sdControlBurst sd)"

lemma needed_mono: "0 < q \<Longrightarrow> (d :: int) \<le> d' \<Longrightarrow> nat ((h - d') div q) \<le> nat ((h - d) div q)"
  by (intro nat_mono zdiv_mono1) auto

lemma needed_less:
  assumes "0 < (q :: int)" "d + q \<le> d'" "d' < h"
  shows "nat ((h - d') div q) < nat ((h - d) div q)"
proof -
  have "(h - d') div q + 1 = (h - d' + q) div q" using assms(1) by simp
  also have "\<dots> \<le> (h - d) div q" using assms by (intro zdiv_mono1) auto
  finally have "(h - d') div q < (h - d) div q" by simp
  moreover have "0 \<le> (h - d') div q" using assms by (simp add: pos_imp_zdiv_nonneg_iff)
  ultimately show ?thesis by simp
qed

lemma dequeue_wait:
  assumes ok: "sched_ok sd" and i: "i \<in> set (sdActive sd)" and dq: "Dequeue sd = Some (Some (j, f), sd')" and ji: "j \<noteq> i"
  shows "waitBound sd' i < waitBound sd i"
proof -
  have ne: "sdActive sd \<noteq> []" using i by auto
  obtain m sd1 r b where m: "Dequeue sd = Some (fst r, setBurst b (snd r))" "m < length (sdActive sd)" "served m sd1 r" "sched_ok sd1"
    "sdActive sd1 = sdActive sd" "\<forall>j. queueOf sd1 j = queueOf sd j" "fixed_same sd sd1" "0 \<le> b" "b \<le> MaxMuxSchedulerControlBurst"
    and grow: "\<forall>j < length (sdActive sd). j \<noteq> m \<longrightarrow> deficitOf sd (sdActive sd ! j) \<le> deficitOf sd1 (sdActive sd ! j)"
    and how: "b + 1 = sdControlBurst sd \<or> (\<forall>j < m. deficitOf sd (sdActive sd ! j) + sdQuantum sd \<le> deficitOf sd1 (sdActive sd ! j) \<and>
        deficitOf sd1 (sdActive sd ! j) < headSize sd (sdActive sd ! j))"
    using dequeue_effect [OF ok ne] by blast
  let ?k = "ringIndex i (sdActive sd)"
  have k: "?k < length (sdActive sd)" "sdActive sd ! ?k = i" using ringIndex_mem [OF i] by simp_all
  have jm: "sdActive sd ! m = j" "sd' = setBurst b (snd r)" using dq m(1,3,5) by (auto simp: served_def Let_def)
  have u: "sched_upd j (tl (queueOf sd1 j)) (servedRing m sd1) sd1 (snd r)" using m(3,5) jm(1) by (simp add: served_def Let_def)
  note ring = ringIndex_served [OF sched_okD(3) [OF ok] i m(2), unfolded jm(1), OF ji]
  have idx: "ringIndex i (sdActive sd') = (if m < ?k then ?k - 1 else ?k)" "m \<noteq> ?k"
    using ring u m(5) jm by (simp_all add: sched_upd_def servedRing_def)
  have o: "others_same j sd1 (snd r)" using u by (simp add: sched_upd_def)
  have qi: "queueOf sd i \<noteq> []" using active_rec [OF ok i] by (metis list.distinct(1))
  have obs: "queueOf (snd r) i = queueOf sd i" "deficitOf (snd r) i = deficitOf sd1 i" "sdQuantum (snd r) = sdQuantum sd"
    using others_observed [OF o, of i] ji m(6) qi u m(7) by (auto simp: sched_upd_def fixed_same_def)
  have need: "needed sd' i = nat ((headSize sd i - deficitOf sd1 i) div sdQuantum sd)"
    using obs by (simp add: needed_def jm(2) headSize_def)
  have le: "needed sd' i \<le> needed sd i"
    unfolding need unfolding needed_def [of sd] using grow k idx(2) sched_okD(10) [OF ok] by (intro needed_mono) auto
  have cb: "nat b \<le> 4" "sdControlBurst sd' = b" using m(8,9) by (simp_all add: jm(2) MaxMuxSchedulerControlBurst_def)
  show ?thesis
  proof (cases "b + 1 = sdControlBurst sd")
    case True
    then show ?thesis using le idx(1) cb m(8) by (auto simp: waitBound_def)
  next
    case False
    then have gain: "\<forall>j < m. deficitOf sd (sdActive sd ! j) + sdQuantum sd \<le> deficitOf sd1 (sdActive sd ! j) \<and>
        deficitOf sd1 (sdActive sd ! j) < headSize sd (sdActive sd ! j)" using how by blast
    have "ringIndex i (sdActive sd') + needed sd' i < ?k + needed sd i"
    proof (cases "m < ?k")
      case True
      then show ?thesis using idx(1) le by simp
    next
      case False
      then have "?k < m" using idx(2) by simp
      then have "deficitOf sd i + sdQuantum sd \<le> deficitOf sd1 i" "deficitOf sd1 i < headSize sd i" using gain k(2) by metis+
      then have "needed sd' i < needed sd i"
        unfolding need unfolding needed_def [of sd] using sched_okD(10) [OF ok] by (intro needed_less) auto
      then show ?thesis using idx(1) False by simp
    qed
    then show ?thesis using cb by (simp add: waitBound_def)
  qed
qed

lemma call_wait:
  assumes ok: "sched_ok sd" and i: "i \<in> set (sdActive sd)" and call: "queue_call j sd sd'" and q: "queueOf sd' i \<noteq> []"
  shows "sched_ok sd'" "i \<in> set (sdActive sd')" "waitBound sd' i \<le> waitBound sd i" "\<exists>fs. queueOf sd' i = queueOf sd i @ fs"
proof -
  have qi: "queueOf sd i \<noteq> []" using active_rec [OF ok i] by (metis list.distinct(1))
  have "sched_ok sd' \<and> i \<in> set (sdActive sd') \<and> waitBound sd' i \<le> waitBound sd i \<and> (\<exists>fs. queueOf sd' i = queueOf sd i @ fs)"
    using call
  proof (cases rule: queue_call.cases)
    case call_refused
    then show ?thesis using ok i by simp
  next
    case (call_append f)
    note U = call_append(1) [unfolded sched_upd_def]
    have d: "deficitOf sd' i = deficitOf sd i" and fs: "\<exists>fs. queueOf sd' i = queueOf sd i @ fs"
      using U call_append(2) qi others_observed [of j sd sd' i] by (cases "i = j"; force)+
    have h: "headSize sd' i = headSize sd i" using fs qi by (cases "queueOf sd i") (auto simp: headSize_def)
    have "ringIndex i (sdActive sd') = ringIndex i (sdActive sd)" using U i by (auto simp: ringIndex_append)
    then have "waitBound sd' i = waitBound sd i" using U d h by (simp add: waitBound_def needed_def fixed_same_def)
    moreover have "i \<in> set (sdActive sd')" using U i by auto
    ultimately show ?thesis using U fs by simp
  next
    case call_drop
    note U = call_drop(1) [unfolded sched_upd_def]
    have ij: "i \<noteq> j" using U q by auto
    have o: "queueOf sd' i = queueOf sd i" "deficitOf sd' i = deficitOf sd i" using U others_observed [of j sd sd' i] ij qi by simp_all
    then have "needed sd' i = needed sd i" using U by (simp add: needed_def headSize_def fixed_same_def)
    then show ?thesis using U o i ij ringIndex_remove [of j i "sdActive sd"] by (auto simp: waitBound_def)
  qed
  then show "sched_ok sd'" "i \<in> set (sdActive sd')" "waitBound sd' i \<le> waitBound sd i" "\<exists>fs. queueOf sd' i = queueOf sd i @ fs" by blast+
qed

lemma call_ok: "queue_call j sd sd' \<Longrightarrow> sched_ok sd \<Longrightarrow> sched_ok sd'"
  by (erule queue_call.cases) (auto simp: sched_upd_def)

lemma active_iff: "sched_ok sd \<Longrightarrow> i \<in> set (sdActive sd) \<longleftrightarrow> queueOf sd i \<noteq> []"
  by (auto simp: sched_okD(4) queueOf_def split: option.splits)

lemma dequeue_pops:
  assumes "sched_ok sd" "sdActive sd \<noteq> []"
  shows "\<exists>j f sd'. Dequeue sd = Some (Some (j, f), sd') \<and> sched_ok sd' \<and> queueOf sd j = f # queueOf sd' j \<and>
    (\<forall>k. k \<noteq> j \<longrightarrow> queueOf sd' k = queueOf sd k)"
proof -
  obtain m sd1 r b where m: "Dequeue sd = Some (fst r, setBurst b (snd r))" "m < length (sdActive sd)" "served m sd1 r" "sched_ok sd1"
    "sdActive sd1 = sdActive sd" "\<forall>j. queueOf sd1 j = queueOf sd j" "0 \<le> b" "b \<le> MaxMuxSchedulerControlBurst"
    using dequeue_effect [OF assms] by blast
  let ?j = "sdActive sd ! m"
  have q: "queueOf sd ?j \<noteq> []" using active_iff [OF assms(1), of ?j] m(2) by simp
  have u: "sched_upd ?j (tl (queueOf sd ?j)) (servedRing m sd1) sd1 (snd r)" and f: "fst r = Some (?j, hd (queueOf sd ?j))"
    using m(3,5,6) by (simp_all add: served_def Let_def)
  have "sched_ok (setBurst b (snd r))" using u m(7,8) setBurst_ok by (simp add: sched_upd_def)
  moreover have "queueOf (snd r) k = queueOf sd k" if "k \<noteq> ?j" for k
    using others_observed(1) [of ?j sd1 "snd r" k] that u m(6) by (simp add: sched_upd_def)
  ultimately show ?thesis using m(1) f u q by (auto simp: sched_upd_def)
qed

section \<open>Runs\<close>

text \<open>
  What a run shows of each call: a frame accepted for a stream, a refused call, the queue of a stream dropped
  (overflow, reset), a frame written.
\<close>

datatype schedLabel = Accepted nat schedFrame | Unchanged nat | Dropped nat | Wrote nat schedFrame

definition callLabel :: "nat \<Rightarrow> schedFrame option \<Rightarrow> Scheduler \<Rightarrow> Scheduler \<Rightarrow> schedLabel" where
  "callLabel i accepted sd sd' =
     (case accepted of Some f \<Rightarrow> Accepted i f
      | None \<Rightarrow> if queueOf sd' i = queueOf sd i then Unchanged i else Dropped i)"

definition refusalFrame :: "byte list \<Rightarrow> schedFrame" where
  "refusalFrame raw = \<lparr>frDirection = DirectionServer, frClass = FrameControl, frBytes = raw, frSeals = True\<rparr>"

inductive sched_step :: "Scheduler \<Rightarrow> schedLabel \<Rightarrow> Scheduler \<Rightarrow> bool" for sd where
  step_enqueue: "sched_step sd (callLabel i (if err = None then Some f else None) sd sd') sd'"
    if "enqueue gate f i sd = (err, sd')" "length (frBytes f) \<le> maxFrame sd"
| step_refuse: "sched_step sd (callLabel i (if err = None then Some (refusalFrame raw) else None) sd sd') sd'"
    if "Refuse raw i sd = (err, sd')" "length raw \<le> maxFrame sd"
| step_reset: "sched_step sd (callLabel i None sd sd') sd'"
    if "ResetSched gate i sd = (b, sd')"
| step_write: "sched_step sd (Wrote i f) sd'"
    if "Dequeue sd = Some (Some (i, f), sd')"

inductive sched_run :: "Scheduler \<Rightarrow> schedLabel list \<Rightarrow> Scheduler \<Rightarrow> bool" for sd where
  run_start: "sched_run sd [] sd"
| run_step: "sched_run sd ls sd1 \<Longrightarrow> sched_step sd1 l sd2 \<Longrightarrow> sched_run sd (ls @ [l]) sd2"

definition acceptedOf :: "nat \<Rightarrow> schedLabel list \<Rightarrow> schedFrame list" where
  "acceptedOf i ls = concat (map (\<lambda>l. case l of Accepted j f \<Rightarrow> if j = i then [f] else [] | _ \<Rightarrow> []) ls)"

definition writtenOf :: "nat \<Rightarrow> schedLabel list \<Rightarrow> schedFrame list" where
  "writtenOf i ls = concat (map (\<lambda>l. case l of Wrote j f \<Rightarrow> if j = i then [f] else [] | _ \<Rightarrow> []) ls)"

fun isWrite :: "schedLabel \<Rightarrow> bool" where
  "isWrite (Wrote i f) = True" | "isWrite _ = False"

lemma insert_queue: "sched_ok sd \<Longrightarrow> i \<noteq> 0 \<Longrightarrow> current i s sd \<Longrightarrow> \<not> schSealed s \<Longrightarrow> length (frBytes f) \<le> maxFrame sd \<Longrightarrow>
    if schOverflowed s then frSeals f else \<not> overflowLocked (length (frBytes f)) sd \<Longrightarrow> queueOf (insertLocked i s f sd) i = queueOf sd i @ [f]"
  using insert_upd [of sd i s f] current_ok [of sd i s] by (simp add: sched_upd_def)

lemma enqueue_accepts:
  assumes "sched_ok sd" "length (frBytes f) \<le> maxFrame sd" "enqueue gate f i sd = (None, sd')"
  shows "queueOf sd' i = queueOf sd i @ [f]"
proof -
  have i: "i \<noteq> 0" using assms(3) by (cases "i = 0") (auto simp: enqueue_def ValidatePhysical_def)
  show ?thesis
  proof (cases "sdStreams sd i")
    case None
    then have "current i (newSchedStream False) sd" by (simp add: current_def)
    from insert_queue [OF assms(1) i this _ assms(2)] show ?thesis
      using None i assms(3) by (auto simp: enqueue_def ValidatePhysical_def insertBounded_def newSchedStream_def split: if_splits)
  next
    case (Some s)
    then have "current i s sd" by (simp add: current_def)
    from insert_queue [OF assms(1) i this _ assms(2)] show ?thesis
      using Some i assms(3) by (auto simp: enqueue_def ValidatePhysical_def insertBounded_def split: if_splits)
  qed
qed

lemma refuse_accepts:
  assumes "sched_ok sd" "length raw \<le> maxFrame sd" "Refuse raw i sd = (None, sd')"
  shows "queueOf sd' i = queueOf sd i @ [refusalFrame raw]"
proof -
  have i: "i \<noteq> 0" using assms(3) by (cases "i = 0") (auto simp: Refuse_def ValidatePhysical_def)
  have f: "length (frBytes (refusalFrame raw)) \<le> maxFrame sd" using assms(2) by (simp add: refusalFrame_def)
  show ?thesis
  proof (cases "sdStreams sd i")
    case None
    then have "current i (newSchedStream False) sd" by (simp add: current_def)
    from insert_queue [OF assms(1) i this _ f] show ?thesis
      using None i assms(3) by (auto simp: Refuse_def ValidatePhysical_def insertBounded_def newSchedStream_def refusalFrame_def split: if_splits)
  next
    case (Some s)
    then have "current i s sd" by (simp add: current_def)
    from insert_queue [OF assms(1) i this _ f] show ?thesis
      using Some i assms(3) by (auto simp: Refuse_def ValidatePhysical_def insertBounded_def refusalFrame_def Let_def split: if_splits)
  qed
qed

lemma call_others: "queue_call j sd sd' \<Longrightarrow> i \<noteq> j \<Longrightarrow> queueOf sd' i = queueOf sd i"
  by (erule queue_call.cases) (auto simp: sched_upd_def others_observed(1))

text \<open>Every step is a write or a call about one stream, and its label says what became of that stream's queue.\<close>

lemma step_cases:
  assumes "sched_step sd l sd'" "sched_ok sd"
  obtains (wrote) i f where "l = Wrote i f" "Dequeue sd = Some (Some (i, f), sd')"
  | (call) i where "queue_call i sd sd'" "(\<exists>f. l = Accepted i f \<and> queueOf sd' i = queueOf sd i @ [f]) \<or>
      l = Unchanged i \<and> queueOf sd' i = queueOf sd i \<or> l = Dropped i"
  using assms(1)
proof (cases rule: sched_step.cases)
  case (step_enqueue gate f i err)
  have "queue_call i sd sd'" using enqueue_call [OF assms(2) step_enqueue(3), of i gate] step_enqueue(2) by simp
  then show ?thesis using call [of i] step_enqueue enqueue_accepts [OF assms(2) step_enqueue(3)] by (auto simp: callLabel_def split: if_splits)
next
  case (step_refuse raw i err)
  have "queue_call i sd sd'" using Refuse_call [OF assms(2) step_refuse(3), of i] step_refuse(2) by simp
  then show ?thesis using call [of i] step_refuse refuse_accepts [OF assms(2) step_refuse(3)] by (auto simp: callLabel_def split: if_splits)
next
  case (step_reset gate i b)
  have "queue_call i sd sd'" using Reset_call [OF assms(2), of i gate] step_reset(2) by simp
  then show ?thesis using call [of i] step_reset by (auto simp: callLabel_def split: if_splits)
next
  case (step_write i f)
  then show ?thesis using wrote by blast
qed

lemma write_pops:
  assumes "sched_ok sd" "Dequeue sd = Some (Some (j, f), sd')"
  shows "sched_ok sd'" "queueOf sd j = f # queueOf sd' j" "k \<noteq> j \<Longrightarrow> queueOf sd' k = queueOf sd k"
proof -
  have "sdActive sd \<noteq> []" using assms(2) by (auto simp: Dequeue_def)
  then show "sched_ok sd'" "queueOf sd j = f # queueOf sd' j" "k \<noteq> j \<Longrightarrow> queueOf sd' k = queueOf sd k"
    using dequeue_pops [OF assms(1)] assms(2) by auto
qed

lemma step_ok: "sched_step sd l sd' \<Longrightarrow> sched_ok sd \<Longrightarrow> sched_ok sd'"
  by (erule step_cases) (auto intro: call_ok write_pops(1))

lemma step_queue:
  assumes "sched_step sd l sd'" "sched_ok sd" "l \<noteq> Dropped i"
  shows "queueOf sd i @ acceptedOf i [l] = writtenOf i [l] @ queueOf sd' i"
  using assms(1,2)
proof (cases rule: step_cases)
  case (wrote j f)
  then show ?thesis using write_pops(2,3) [OF assms(2) wrote(2)] by (cases "i = j") (auto simp: acceptedOf_def writtenOf_def)
next
  case (call j)
  then show ?thesis using assms(3) call_others [OF call(1), of i] by (cases "i = j") (auto simp: acceptedOf_def writtenOf_def)
qed

lemma step_wait:
  assumes "sched_step sd l sd'" "sched_ok sd" "queueOf sd i \<noteq> []" "l \<noteq> Dropped i" "\<And>f. l \<noteq> Wrote i f"
  shows "queueOf sd' i \<noteq> [] \<and> waitBound sd' i + length (filter isWrite [l]) \<le> waitBound sd i"
proof -
  have i: "i \<in> set (sdActive sd)" using assms(2,3) active_iff by simp
  show ?thesis using assms(1,2)
  proof (cases rule: step_cases)
    case (wrote j f)
    then have "i \<noteq> j" using assms(5) by auto
    then show ?thesis using wrote write_pops(3) [OF assms(2) wrote(2)] dequeue_wait [OF assms(2) i wrote(2)] assms(3) by auto
  next
    case (call j)
    have q: "queueOf sd' i \<noteq> []" using call assms(3,4) call_others [OF call(1), of i] by (cases "i = j") auto
    have "\<not> isWrite l" using call(2) by auto
    then show ?thesis using q call_wait(3) [OF assms(2) i call(1) q] by simp
  qed
qed

lemma run_ok: "sched_run sd ls sd' \<Longrightarrow> sched_ok sd \<Longrightarrow> sched_ok sd'"
  by (induction rule: sched_run.induct) (auto intro: step_ok)

lemma new_sched_ok: "ValidateCeilings c \<Longrightarrow> sched_ok (newScheduler c)"
  by (simp add: sched_ok_def newScheduler_def SchedulerQuantum_def MaxMuxSchedulerControlBurst_def MaxRetiredSchedulerRecords_def mux_consts)

lemma step_fixed:
  assumes "sched_step sd l sd'" "sched_ok sd"
  shows "fixed_same sd sd'"
  using assms
proof (cases rule: step_cases)
  case (wrote i f)
  have "sdActive sd \<noteq> []" using wrote(2) by (auto simp: Dequeue_def)
  then obtain m sd1 r b where m: "sd' = setBurst b (snd r)" "served m sd1 r" "fixed_same sd sd1"
    using dequeue_effect [OF assms(2)] wrote(2) by (metis option.inject prod.inject)
  then show ?thesis by (auto simp: served_def sched_upd_def fixed_same_def setBurst_def Let_def)
next
  case (call i)
  from call(1) show ?thesis by (cases rule: queue_call.cases) (auto simp: sched_upd_def fixed_same_def)
qed

lemma run_fixed:
  assumes "sched_run (newScheduler c) ls sd" "ValidateCeilings c"
  shows "fixed_same (newScheduler c) sd"
  using assms(1)
proof (induction rule: sched_run.induct)
  case run_start
  then show ?case by (simp add: fixed_same_def)
next
  case (run_step ls sd1 l sd2)
  then show ?case using step_fixed [OF run_step(2) run_ok [OF run_step(1) new_sched_ok [OF assms(2)]]] by (simp add: fixed_same_def)
qed

lemma log_append: "acceptedOf i (ls @ ms) = acceptedOf i ls @ acceptedOf i ms" "writtenOf i (ls @ ms) = writtenOf i ls @ writtenOf i ms"
  by (simp_all add: acceptedOf_def writtenOf_def)

lemma run_queue:
  assumes "sched_run sd ls sd'" "sched_ok sd" "Dropped i \<notin> set ls"
  shows "queueOf sd i @ acceptedOf i ls = writtenOf i ls @ queueOf sd' i"
  using assms
proof (induction rule: sched_run.induct)
  case run_start
  then show ?case by (simp add: acceptedOf_def writtenOf_def)
next
  case (run_step ls sd1 l sd2)
  have "queueOf sd1 i @ acceptedOf i [l] = writtenOf i [l] @ queueOf sd2 i"
    using step_queue [OF run_step(2) run_ok [OF run_step(1,4)]] run_step(5) by auto
  then show ?case using run_step by (simp add: log_append) (metis append.assoc)
qed

lemma run_wait:
  assumes "sched_run sd ls sd'" "sched_ok sd" "queueOf sd i \<noteq> []" "Dropped i \<notin> set ls" "\<And>f. Wrote i f \<notin> set ls"
  shows "queueOf sd' i \<noteq> [] \<and> waitBound sd' i + length (filter isWrite ls) \<le> waitBound sd i"
  using assms
proof (induction rule: sched_run.induct)
  case run_start
  then show ?case by simp
next
  case (run_step ls sd1 l sd2)
  have IH: "queueOf sd1 i \<noteq> []" "waitBound sd1 i + length (filter isWrite ls) \<le> waitBound sd i"
    using run_step by auto
  have "queueOf sd2 i \<noteq> [] \<and> waitBound sd2 i + length (filter isWrite [l]) \<le> waitBound sd1 i"
    using run_step(6,7) by (intro step_wait [OF run_step(2) run_ok [OF run_step(1,4)] IH(1)]) auto
  then show ?case using IH(2) by auto
qed

section \<open>Properties\<close>

text \<open>
  C19. The scheduler's accounts are exact in every run: the ring holds every stream with a queued frame
  once and no other, the aggregate is the sum of the queued bytes, what is queued apart from the one
  terminal frame an overflowed stream keeps never exceeds the negotiated budget, and at most 128 settled
  records are retained.
\<close>

theorem scheduler_accounting:
  assumes "ValidateCeilings c" "sched_run (newScheduler c) ls sd"
  shows "distinct (sdActive sd) \<and> (\<forall>i. i \<in> set (sdActive sd) \<longleftrightarrow> queueOf sd i \<noteq> []) \<and>
    sdAggregate sd = table_sum (\<lambda>s. framesLen (schQueue s)) (sdStreams sd) \<and>
    table_sum (\<lambda>s. if schOverflowed s then 0 else framesLen (schQueue s)) (sdStreams sd) \<le> int (MaxAggregateBytes c) \<and>
    (\<forall>i s. sdStreams sd i = Some s \<longrightarrow> schOverflowed s \<longrightarrow> schQueue s = [] \<or> (\<exists>f. schQueue s = [f] \<and> frSeals f)) \<and>
    length (sdRetired sd) \<le> MaxRetiredSchedulerRecords"
proof -
  have ok: "sched_ok sd" using run_ok [OF assms(2) new_sched_ok [OF assms(1)]] .
  note D = sched_okD [OF ok]
  have "sdMaxAggregateBytes sd = int (MaxAggregateBytes c)" using run_fixed [OF assms(2,1)] by (simp add: fixed_same_def newScheduler_def)
  moreover have "table_sum dataBytes (sdStreams sd) = table_sum (\<lambda>s. if schOverflowed s then 0 else framesLen (schQueue s)) (sdStreams sd)"
    "table_sum schBytes (sdStreams sd) = table_sum (\<lambda>s. framesLen (schQueue s)) (sdStreams sd)"
    using D(2) by (auto simp: table_sum_def dataBytes_def rec_ok_def intro!: sum.cong)
  moreover have "\<forall>i s. sdStreams sd i = Some s \<longrightarrow> schOverflowed s \<longrightarrow> schQueue s = [] \<or> (\<exists>f. schQueue s = [f] \<and> frSeals f)"
    using D(2) by (auto simp: rec_ok_def)
  ultimately show ?thesis using D(3,6,8,9) active_iff [OF ok] by simp
qed

text \<open>
  C14. The scheduler writes whenever it has something to write, and in order: with a frame queued, the
  deficit loop ends and the dequeue returns the oldest frame of some stream, removes exactly that frame
  and touches no other queue; so over any run in which a stream's queue is not dropped, what was
  accepted for it is what was written followed by what is still queued.
\<close>

theorem dequeue_returns_oldest:
  assumes "ValidateCeilings c" "sched_run (newScheduler c) ls sd"
  shows "(sdActive sd \<noteq> [] \<longrightarrow> (\<exists>j f sd'. Dequeue sd = Some (Some (j, f), sd') \<and> queueOf sd j = f # queueOf sd' j \<and>
      (\<forall>k. k \<noteq> j \<longrightarrow> queueOf sd' k = queueOf sd k))) \<and>
    (Dropped i \<notin> set ls \<longrightarrow> acceptedOf i ls = writtenOf i ls @ queueOf sd i)"
proof -
  have new: "sched_ok (newScheduler c)" using new_sched_ok [OF assms(1)] .
  have "queueOf (newScheduler c) i = []" by (simp add: queueOf_def newScheduler_def)
  then show ?thesis using dequeue_pops [OF run_ok [OF assms(2) new]] run_queue [OF assms(2) new, of i] by auto
qed

text \<open>
  C5. No stream starves. While a frame heads the queue of a stream, the number of other frames written
  before it is bounded by the stream's place in the ring, the quanta its head still needs and the
  remaining control burst, whatever is accepted, refused or reset for other streams in between.
\<close>

theorem no_starvation:
  assumes "ValidateCeilings c" "sched_run (newScheduler c) ls0 sd" "queueOf sd i \<noteq> []"
    and "sched_run sd ls sd'" "Dropped i \<notin> set ls" "\<forall>f. Wrote i f \<notin> set ls"
  shows "length (filter isWrite ls) \<le> 5 * (ringIndex i (sdActive sd) + nat ((headSize sd i - deficitOf sd i) div sdQuantum sd)) +
    nat (sdControlBurst sd)"
  using run_wait [OF assms(4) run_ok [OF assms(2) new_sched_ok [OF assms(1)]] assms(3,5)] assms(6)
  by (auto simp: waitBound_def needed_def)

definition demoData :: schedFrame where
  "demoData = \<lparr>frDirection = DirectionClient, frClass = FrameData, frBytes = [1, 2, 3], frSeals = False\<rparr>"

definition demoControl :: schedFrame where
  "demoControl = \<lparr>frDirection = DirectionClient, frClass = FrameControl, frBytes = [4], frSeals = True\<rparr>"

definition demoSched :: Scheduler where
  "demoSched = snd (enqueue None demoData 1 (newScheduler DefaultMuxCeilings))"

definition demoSched2 :: Scheduler where
  "demoSched2 = snd (enqueue None demoControl 2 demoSched)"

lemma demo_sched_valid: "ValidateCeilings DefaultMuxCeilings"
  by (simp add: ValidateCeilings_def DefaultMuxCeilings_def mux_consts)

lemmas demo_eval = enqueue_def ValidatePhysical_def admittedLocked_def knownLocked_def insertBounded_def insertLocked_def overflowLocked_def
  newScheduler_def newSchedStream_def setSched_def demoData_def demoControl_def DefaultMuxCeilings_def mux_consts

lemma demo_enqueue: "enqueue None demoData 1 (newScheduler DefaultMuxCeilings) = (None, demoSched)"
  "enqueue None demoControl 2 demoSched = (None, demoSched2)"
  by (simp_all add: prod_eq_iff demoSched_def demoSched2_def) (simp_all add: demo_eval Let_def)

lemma demo_frames: "length (frBytes demoData) \<le> maxFrame (newScheduler DefaultMuxCeilings)" "length (frBytes demoControl) \<le> maxFrame demoSched"
  by (simp_all add: demoSched_def maxFrame_def demo_eval Let_def)

lemma demo_sched_run: "sched_run (newScheduler DefaultMuxCeilings) [Accepted 1 demoData] demoSched"
  using run_step [OF run_start step_enqueue [OF demo_enqueue(1) demo_frames(1)]] by (simp add: callLabel_def)

lemma demo_sched_run2: "sched_run demoSched [Accepted 2 demoControl] demoSched2"
  using run_step [OF run_start step_enqueue [OF demo_enqueue(2) demo_frames(2)]] by (simp add: callLabel_def)

lemma demo_queue: "queueOf demoSched 1 = [demoData]"
  using enqueue_accepts [OF new_sched_ok [OF demo_sched_valid] demo_frames(1) demo_enqueue(1)] by (simp add: queueOf_def newScheduler_def)

lemma demo_write: "\<exists>sd. Dequeue demoSched2 = Some (Some (2, demoControl), sd)"
  by (simp add: Dequeue_def demoSched2_def demoSched_def firstControlLocked_def headOf_def serveIndexLocked_def popHeadLocked_def
      rotateToBackLocked_def chargeHead_def topUpLocked_def remove_at_def MaxMuxSchedulerControlBurst_def demo_eval Let_def)

theorem scheduler_accounting_witness:
  "distinct (sdActive demoSched) \<and> sdAggregate demoSched = table_sum (\<lambda>s. framesLen (schQueue s)) (sdStreams demoSched)"
  using scheduler_accounting [OF demo_sched_valid demo_sched_run] by blast

theorem dequeue_returns_oldest_witness:
  "\<exists>sd'. Dequeue demoSched = Some (Some (1, demoData), sd') \<and> queueOf sd' 1 = []"
proof -
  have act: "\<forall>i. i \<in> set (sdActive demoSched) \<longleftrightarrow> queueOf demoSched i \<noteq> []"
    using active_iff run_ok [OF demo_sched_run new_sched_ok [OF demo_sched_valid]] by blast
  have one: "queueOf demoSched j \<noteq> [] \<Longrightarrow> j = 1" for j
    by (simp add: queueOf_def demoSched_def demo_eval Let_def split: if_splits)
  have "sdActive demoSched \<noteq> []" using act demo_queue by fastforce
  then obtain j f sd' where "Dequeue demoSched = Some (Some (j, f), sd')" "queueOf demoSched j = f # queueOf sd' j"
    using dequeue_returns_oldest [OF demo_sched_valid demo_sched_run, of 1] by blast
  then show ?thesis using one [of j] demo_queue by auto
qed

theorem no_starvation_witness:
  "\<exists>sd. Dequeue demoSched2 = Some (Some (2, demoControl), sd) \<and>
     1 \<le> 5 * (ringIndex 1 (sdActive demoSched) + nat ((headSize demoSched 1 - deficitOf demoSched 1) div sdQuantum demoSched)) +
       nat (sdControlBurst demoSched)"
proof -
  obtain sd where sd: "Dequeue demoSched2 = Some (Some (2, demoControl), sd)" using demo_write by blast
  have run: "sched_run demoSched ([Accepted 2 demoControl] @ [Wrote 2 demoControl]) sd"
    using run_step [OF demo_sched_run2 step_write [OF sd]] by simp
  have "length (filter isWrite ([Accepted 2 demoControl] @ [Wrote 2 demoControl])) \<le>
      5 * (ringIndex 1 (sdActive demoSched) + nat ((headSize demoSched 1 - deficitOf demoSched 1) div sdQuantum demoSched)) +
      nat (sdControlBurst demoSched)"
    by (rule no_starvation [OF demo_sched_valid demo_sched_run _ run]) (use demo_queue in simp_all)
  then show ?thesis using sd by simp
qed

end
