(* ===== verification/Mux_Pump.thy ===== *)
theory Mux_Pump
  imports Mux_Engine_Run Mux_Sched_Fair
begin

text \<open>
  One end of a connection: \<^verbatim>\<open>internal/adapters/daemonmux/pump.go\<close> drives the engine and the scheduler
  together. Modelled is what the reader applies for each inbound message, what the local side sends and takes,
  and how the connection settles; the goroutines, wakeups, watch channels and the carrier are not. The
  codec is a parameter \<open>enc\<close>: the bytes of a message, or none where the codec refuses it.
\<close>

section \<open>Messages and their frames\<close>

datatype muxMessage = MsgOpen OpenMsg | MsgData nat "byte list" | MsgClose nat | MsgReset ResetMsg | MsgWindow nat nat
  | MsgOpened StreamRef | MsgRefused StreamRef ErrorDetail

datatype pumpError = PumpEngine muxError | PumpSched schedError | ErrWrongDirection | ErrCodec | ErrDataNeedsCredit | ErrPumpClosed

fun clientFrame :: "muxMessage \<Rightarrow> pumpError + (nat \<times> FrameClass)" where
  "clientFrame (MsgOpen m) = Inr (Physical (OpenRef m), FrameControl)"
| "clientFrame (MsgData i chunk) = Inr (i, FrameData)"
| "clientFrame (MsgClose i) = Inr (i, FrameControl)"
| "clientFrame (MsgReset m) = Inr (ResetPhysical m, FrameControl)"
| "clientFrame (MsgWindow i g) = Inr (i, FrameControl)"
| "clientFrame _ = Inl ErrWrongDirection"

fun serverFrame :: "muxMessage \<Rightarrow> pumpError + (nat \<times> FrameClass)" where
  "serverFrame (MsgOpened r) = Inr (Physical r, FrameControl)"
| "serverFrame (MsgRefused r d) = Inr (Physical r, FrameControl)"
| "serverFrame (MsgData i chunk) = Inr (i, FrameData)"
| "serverFrame (MsgClose i) = Inr (i, FrameControl)"
| "serverFrame (MsgReset m) = Inr (ResetPhysical m, FrameControl)"
| "serverFrame (MsgWindow i g) = Inr (i, FrameControl)"
| "serverFrame _ = Inl ErrWrongDirection"

fun sealsStream :: "muxMessage \<Rightarrow> bool" where
  "sealsStream (MsgClose i) = True"
| "sealsStream (MsgReset m) = True"
| "sealsStream _ = False"

fun frameOf :: "EnvelopeDirection \<Rightarrow> muxMessage \<Rightarrow> pumpError + (nat \<times> FrameClass)" where
  "frameOf DirectionClient m = clientFrame m"
| "frameOf DirectionServer m = serverFrame m"

type_synonym codec = "muxMessage \<Rightarrow> byte list option"

section \<open>The pump\<close>

record Pump =
  pmEngine :: StreamEngine
  pmScheduler :: Scheduler
  pmLocal :: EnvelopeDirection
  pmTerminal :: terminalState
  pmSettled :: bool

definition oppositeDirection :: "EnvelopeDirection \<Rightarrow> EnvelopeDirection" where
  "oppositeDirection d = (if d = DirectionClient then DirectionServer else DirectionClient)"

definition NewPump :: "EnvelopeDirection \<Rightarrow> MuxCeilings \<Rightarrow> muxError + Pump" where
  "NewPump inbound c =
     (if \<not> ValidateCeilings c then Inl ErrInvalidCeilings
      else Inr \<lparr>pmEngine = newStreamEngine c, pmScheduler = newScheduler c, pmLocal = oppositeDirection inbound,
             pmTerminal = newTerminalState, pmSettled = False\<rparr>)"

definition isTerminal :: "Pump \<Rightarrow> bool" where
  "isTerminal p = doneClosed (pmTerminal p)"

text \<open>\<^verbatim>\<open>Scheduler.EnqueueClient\<close> and \<^verbatim>\<open>EnqueueServer\<close>.\<close>

definition enqueueMessage :: "codec \<Rightarrow> muxMessage \<Rightarrow> Pump \<Rightarrow> pumpError option \<times> Pump" where
  "enqueueMessage enc m p =
     (case frameOf (pmLocal p) m of
        Inl err \<Rightarrow> (Some err, p)
      | Inr (i, cls) \<Rightarrow>
          (case enc m of
             None \<Rightarrow> (Some ErrCodec, p)
           | Some raw \<Rightarrow>
               (case enqueue (Some (pmEngine p)) \<lparr>frDirection = pmLocal p, frClass = cls, frBytes = raw, frSeals = sealsStream m\<rparr> i (pmScheduler p) of
                  (err, sd) \<Rightarrow> (map_option PumpSched err, p\<lparr>pmScheduler := sd\<rparr>))))"

definition BrokerErrorUnavailable :: nat where "BrokerErrorUnavailable = 1"

text \<open>\<^verbatim>\<open>resetErrorDetail\<close>; the text is the cause's message and a parameter here.\<close>

definition resetErrorDetail :: "(pumpError \<Rightarrow> byte list) \<Rightarrow> pumpError \<Rightarrow> ErrorDetail" where
  "resetErrorDetail txt cause = \<lparr>ErrorCode = BrokerErrorUnavailable, ErrorText = txt cause, AdmissionCode = 0,
     DetailKind = (if cause = PumpSched ErrSchedulerFull then RemoteFailureTransport else RemoteFailureInvalidResponse)\<rparr>"

definition openRefusalDetail :: "muxError \<Rightarrow> ErrorDetail" where
  "openRefusalDetail cause =
     \<lparr>ErrorCode = BrokerErrorUnavailable,
      ErrorText = (if cause = ErrTooManyStreams then asciiBytes ''stream limit reached''
        else if cause = ErrPhysicalClosed then asciiBytes ''physical connection closed'' else asciiBytes ''invalid open request''),
      AdmissionCode = (if cause = ErrTooManyStreams then 1 else if cause = ErrPhysicalClosed then 2 else 4),
      DetailKind = RemoteFailureNone\<rparr>"

definition scheduleReset :: "codec \<Rightarrow> (pumpError \<Rightarrow> byte list) \<Rightarrow> nat \<Rightarrow> pumpError \<Rightarrow> Pump \<Rightarrow> Pump" where
  "scheduleReset enc txt i cause p =
     (if \<not> ValidatePhysical i then p
      else if streams (pmEngine p) i = None then p
      else let reset = \<lparr>ResetPhysical = i, ResetError = resetErrorDetail txt cause, HasError = True\<rparr>;
               p1 = p\<lparr>pmEngine := snd (Reset reset (pmEngine p))\<rparr>
           in snd (enqueueMessage enc (MsgReset reset) p1))"

text \<open>\<^verbatim>\<open>Pump.enqueue\<close> with \<^verbatim>\<open>admitOutbound\<close> and \<^verbatim>\<open>handleOutboundRefusal\<close>.\<close>

definition pumpEnqueue :: "codec \<Rightarrow> (pumpError \<Rightarrow> byte list) \<Rightarrow> muxMessage \<Rightarrow> Pump \<Rightarrow> pumpError option \<times> Pump" where
  "pumpEnqueue enc txt m p =
     (case frameOf (pmLocal p) m of
        Inl err \<Rightarrow> (Some err, p)
      | Inr (i, cls) \<Rightarrow>
          (case enqueueMessage enc m p of
             (err, p1) \<Rightarrow>
               (err, if err = Some (PumpSched ErrSchedulerFull) then scheduleReset enc txt i (PumpSched ErrSchedulerFull) p1 else p1)))"

fun isData :: "muxMessage \<Rightarrow> bool" where
  "isData (MsgData i chunk) = True" | "isData _ = False"

definition Send :: "codec \<Rightarrow> (pumpError \<Rightarrow> byte list) \<Rightarrow> muxMessage \<Rightarrow> Pump \<Rightarrow> pumpError option \<times> Pump" where
  "Send enc txt m p =
     (if isData m then (Some ErrDataNeedsCredit, p)
      else if isTerminal p then (Some ErrPumpClosed, p)
      else pumpEnqueue enc txt m p)"

text \<open>
  One attempt of \<^verbatim>\<open>SendData\<close>; \<open>None\<close> is an attempt that found too little credit and waits. Between
  the reservation and the second look at the terminal state nothing of the pump changes in one attempt.
\<close>

definition SendData :: "codec \<Rightarrow> (pumpError \<Rightarrow> byte list) \<Rightarrow> nat \<Rightarrow> byte list \<Rightarrow> Pump \<Rightarrow> (pumpError option) option \<times> Pump" where
  "SendData enc txt i chunk p =
     (if isTerminal p then (Some (Some ErrPumpClosed), p)
      else case reserveSend i (length chunk) (pmEngine p) of
        (ReserveError err, e) \<Rightarrow> (Some (Some (PumpEngine err)), p)
      | (WaitOn w, e) \<Rightarrow> (None, p)
      | (Reserved, e) \<Rightarrow>
          (case pumpEnqueue enc txt (MsgData i chunk) (p\<lparr>pmEngine := e\<rparr>) of
             (None, p1) \<Rightarrow> (Some None, p1)
           | (Some err, p1) \<Rightarrow> (Some (Some err), p1\<lparr>pmEngine := refundSend i (length chunk) (pmEngine p1)\<rparr>)))"

definition returnCredit :: "codec \<Rightarrow> (pumpError \<Rightarrow> byte list) \<Rightarrow> nat \<Rightarrow> Pump \<Rightarrow> Pump" where
  "returnCredit enc txt i p =
     (case takeReturn i (pmEngine p) of
        (grant, e) \<Rightarrow>
          let p1 = p\<lparr>pmEngine := e\<rparr>
          in if grant = 0 \<or> isTerminal p1 then p1 else snd (pumpEnqueue enc txt (MsgWindow i grant) p1))"

definition Take :: "codec \<Rightarrow> (pumpError \<Rightarrow> byte list) \<Rightarrow> nat \<Rightarrow> Pump \<Rightarrow> byte list option \<times> Pump" where
  "Take enc txt i p =
     (case takeChunk i (pmEngine p) of
        (None, e) \<Rightarrow> (None, p\<lparr>pmEngine := e\<rparr>)
      | (Some (chunk, finalized), e) \<Rightarrow> (Some chunk, returnCredit enc txt i (p\<lparr>pmEngine := e\<rparr>)))"

section \<open>Inbound messages\<close>

definition applyStreamError :: "codec \<Rightarrow> (pumpError \<Rightarrow> byte list) \<Rightarrow> nat \<Rightarrow> muxError option \<Rightarrow> Pump \<Rightarrow> Pump" where
  "applyStreamError enc txt i err p =
     (case err of
        None \<Rightarrow> p
      | Some e \<Rightarrow> if e = ErrPhysicalClosed then p else scheduleReset enc txt i (PumpEngine e) p)"

definition applyStreamTerminal ::
  "codec \<Rightarrow> (pumpError \<Rightarrow> byte list) \<Rightarrow> nat \<Rightarrow> muxError + StreamDisposition \<Rightarrow> Pump \<Rightarrow> Pump" where
  "applyStreamTerminal enc txt i r p =
     (case r of
        Inl e \<Rightarrow> applyStreamError enc txt i (Some e) p
      | Inr d \<Rightarrow> if d = StreamAccepted then p\<lparr>pmScheduler := snd (ResetSched (Some (pmEngine p)) i (pmScheduler p))\<rparr> else p)"

definition refuseFreshOpen :: "codec \<Rightarrow> StreamRef \<Rightarrow> muxError \<Rightarrow> Pump \<Rightarrow> Pump" where
  "refuseFreshOpen enc r cause p =
     (if isTerminal p then p
      else case enc (MsgRefused r (openRefusalDetail cause)) of
        None \<Rightarrow> p
      | Some raw \<Rightarrow> p\<lparr>pmScheduler := snd (Refuse raw (Physical r) (pmScheduler p))\<rparr>)"

definition applyOpen :: "codec \<Rightarrow> OpenMsg \<Rightarrow> Pump \<Rightarrow> Pump" where
  "applyOpen enc m p =
     (case Open m (pmEngine p) of
        (None, e) \<Rightarrow> p\<lparr>pmEngine := e\<rparr>
      | (Some err, e) \<Rightarrow>
          if err = ErrStreamIDReused then p\<lparr>pmEngine := e\<rparr> else refuseFreshOpen enc (OpenRef m) err (p\<lparr>pmEngine := e\<rparr>))"

definition errorOf :: "muxError + StreamDisposition \<Rightarrow> muxError option" where
  "errorOf r = (case r of Inl e \<Rightarrow> Some e | Inr _ \<Rightarrow> None)"

text \<open>The messages both directions carry.\<close>

fun applyShared :: "codec \<Rightarrow> (pumpError \<Rightarrow> byte list) \<Rightarrow> muxMessage \<Rightarrow> Pump \<Rightarrow> pumpError option \<times> Pump" where
  "applyShared enc txt (MsgData i chunk) p =
     (case Data i chunk (pmEngine p) of (r, e) \<Rightarrow> (None, applyStreamError enc txt i (errorOf r) (p\<lparr>pmEngine := e\<rparr>)))"
| "applyShared enc txt (MsgClose i) p =
     (case Close i (pmEngine p) of (r, e) \<Rightarrow> (None, applyStreamTerminal enc txt i r (p\<lparr>pmEngine := e\<rparr>)))"
| "applyShared enc txt (MsgReset m) p =
     (case Reset m (pmEngine p) of (r, e) \<Rightarrow> (None, applyStreamTerminal enc txt (ResetPhysical m) r (p\<lparr>pmEngine := e\<rparr>)))"
| "applyShared enc txt (MsgWindow i g) p =
     (case WindowUpdate i g (pmEngine p) of (r, e) \<Rightarrow> (None, applyStreamError enc txt i (errorOf r) (p\<lparr>pmEngine := e\<rparr>)))"
| "applyShared enc txt _ p = (Some ErrWrongDirection, p)"

fun applyClient :: "codec \<Rightarrow> (pumpError \<Rightarrow> byte list) \<Rightarrow> muxMessage \<Rightarrow> Pump \<Rightarrow> pumpError option \<times> Pump" where
  "applyClient enc txt (MsgOpen m) p = (None, applyOpen enc m p)"
| "applyClient enc txt m p = applyShared enc txt m p"

fun applyServer :: "codec \<Rightarrow> (pumpError \<Rightarrow> byte list) \<Rightarrow> muxMessage \<Rightarrow> Pump \<Rightarrow> pumpError option \<times> Pump" where
  "applyServer enc txt (MsgOpened r) p =
     (case Opened r (pmEngine p) of (err, e) \<Rightarrow> (None, applyStreamError enc txt (Physical r) err (p\<lparr>pmEngine := e\<rparr>)))"
| "applyServer enc txt (MsgRefused r d) p =
     (case Refused r d (pmEngine p) of (err, e) \<Rightarrow> (None, applyStreamError enc txt (Physical r) err (p\<lparr>pmEngine := e\<rparr>)))"
| "applyServer enc txt m p = applyShared enc txt m p"

text \<open>\<^verbatim>\<open>handleInbound\<close> after the decoder: the direction read is the opposite of the local one.\<close>

definition handleInbound :: "codec \<Rightarrow> (pumpError \<Rightarrow> byte list) \<Rightarrow> muxMessage \<Rightarrow> Pump \<Rightarrow> pumpError option \<times> Pump" where
  "handleInbound enc txt m p =
     (if pmLocal p = DirectionServer then applyClient enc txt m p else applyServer enc txt m p)"

definition settleFailure :: "nat list \<Rightarrow> nat \<Rightarrow> cause option \<Rightarrow> Pump \<Rightarrow> Pump" where
  "settleFailure order kind c p =
     (if \<not> pmSettled p
      then p\<lparr>pmSettled := True, pmTerminal := TermFail kind c (pmTerminal p), pmEngine := Fail order kind c (pmEngine p)\<rparr>
      else p)"

definition settleOrderly :: "nat list \<Rightarrow> Pump \<Rightarrow> Pump" where
  "settleOrderly order p =
     (if \<not> pmSettled p
      then p\<lparr>pmSettled := True, pmTerminal := TermClose (pmTerminal p), pmEngine := Terminate order (pmEngine p)\<rparr>
      else p)"

end
