(* ===== verification/Keyed_Calls.thy ===== *)
theory Keyed_Calls
  imports Main
begin

text \<open>
  The contract of a table whose calls each name one key: a call keeps the table's invariant, and what
  is seen under any other key is kept. The multiplexer's stream table, its outbound scheduler and the
  pump over both provide it, and each interprets the locale on its own operations.
\<close>

locale keyed_calls =
  fixes inv :: "'s \<Rightarrow> bool"
    and call :: "'k \<Rightarrow> 's \<Rightarrow> 's \<Rightarrow> bool"
    and view :: "'s \<Rightarrow> 'k \<Rightarrow> 'v"
    and kept :: "'v \<Rightarrow> 'v \<Rightarrow> bool"
  assumes call_inv: "inv s \<Longrightarrow> call k s s' \<Longrightarrow> inv s'"
    and call_apart: "inv s \<Longrightarrow> call k s s' \<Longrightarrow> j \<noteq> k \<Longrightarrow> kept (view s j) (view s' j)"
    and kept_refl: "kept v v"
    and kept_trans: "kept u v \<Longrightarrow> kept v w \<Longrightarrow> kept u w"
begin

primrec calls :: "'k list \<Rightarrow> 's \<Rightarrow> 's \<Rightarrow> bool" where
  "calls [] s s' = (s' = s)"
| "calls (k # ks) s s' = (\<exists>s1. call k s s1 \<and> calls ks s1 s')"

lemma calls_inv: "inv s \<Longrightarrow> calls ks s s' \<Longrightarrow> inv s'"
  by (induction ks arbitrary: s) (auto dest: call_inv)

lemma calls_apart: "inv s \<Longrightarrow> calls ks s s' \<Longrightarrow> j \<notin> set ks \<Longrightarrow> kept (view s j) (view s' j)"
proof (induction ks arbitrary: s)
  case (Cons k ks)
  then obtain s1 where s1: "call k s s1" "calls ks s1 s'" by auto
  have "kept (view s j) (view s1 j)" using call_apart [OF Cons.prems(1) s1(1)] Cons.prems(3) by simp
  moreover have "kept (view s1 j) (view s' j)" using Cons.IH [OF call_inv [OF Cons.prems(1) s1(1)] s1(2)] Cons.prems(3) by simp
  ultimately show ?case by (rule kept_trans)
qed (simp add: kept_refl)

end

end
