(* ===== verification/Mux_Pump_Props.thy ===== *)
theory Mux_Pump_Props
  imports Mux_Pump Keyed_Calls
begin

text \<open>
  What a pump guarantees: whatever the peer sends, only the stream a message names is affected, both
  tables keep their invariants and the connection stays up; and a violation is answered by one reset.
\<close>

section \<open>Containment\<close>

definition codec_ok :: "MuxCeilings \<Rightarrow> codec \<Rightarrow> bool" where
  "codec_ok c enc = (\<forall>m raw. enc m = Some raw \<longrightarrow> checkMuxEnvelopeCeiling (length raw) (MaxReceiveEnvelopeBytes c))"

definition pump_ok :: "MuxCeilings \<Rightarrow> Pump \<Rightarrow> bool" where
  "pump_ok c p = (engine_inv c (pmEngine p) \<and> sched_ok (pmScheduler p) \<and> sdMaxEnvelopeBytes (pmScheduler p) = MaxReceiveEnvelopeBytes c)"

definition contained :: "nat \<Rightarrow> Pump \<Rightarrow> Pump \<Rightarrow> bool" where
  "contained i p p' = (others_kept i (pmEngine p) (pmEngine p') \<and> closedLocked (pmEngine p') = closedLocked (pmEngine p) \<and>
     (\<forall>j. j \<noteq> i \<longrightarrow> queueOf (pmScheduler p') j = queueOf (pmScheduler p) j) \<and> pmTerminal p' = pmTerminal p \<and>
     pmSettled p' = pmSettled p \<and> pmLocal p' = pmLocal p)"

definition pump_upd :: "MuxCeilings \<Rightarrow> nat \<Rightarrow> Pump \<Rightarrow> Pump \<Rightarrow> bool" where
  "pump_upd c i p p' = (pump_ok c p' \<and> contained i p p')"

lemma pump_refl: "pump_ok c p \<Longrightarrow> pump_upd c i p p"
  by (simp add: pump_upd_def contained_def)

lemma others_trans:
  assumes "others_kept i a b" "others_kept i b d"
  shows "others_kept i a d"
  unfolding others_kept_def
proof (intro allI impI)
  fix j assume "j \<noteq> i"
  then have "streams b j = streams a j \<or> streams b j = None \<and> (\<exists>s. streams a j = Some s \<and> state s = StreamTerminal)"
    "streams d j = streams b j \<or> streams d j = None \<and> (\<exists>s. streams b j = Some s \<and> state s = StreamTerminal)"
    using assms by (simp_all add: others_kept_def)
  then show "streams d j = streams a j \<or> streams d j = None \<and> (\<exists>s. streams a j = Some s \<and> state s = StreamTerminal)" by (elim disjE) auto
qed

lemma pump_trans: "pump_upd c i p p1 \<Longrightarrow> pump_upd c i p1 p2 \<Longrightarrow> pump_upd c i p p2"
  using others_trans by (fastforce simp: pump_upd_def contained_def)

lemma engine_step_upd:
  assumes "pump_ok c p" "eventStream ev = Some i" "e = applyEvent ev (pmEngine p)"
  shows "pump_upd c i p (p\<lparr>pmEngine := e\<rparr>)"
proof -
  have inv: "engine_inv c (pmEngine p)" using assms(1) by (simp add: pump_ok_def)
  have "event_ok ev (pmEngine p)" using assms(2) by (cases ev) auto
  then have "engine_inv c e" using step_inv [OF inv] assms(3) by simp
  moreover have "others_kept i (pmEngine p) e" using step_others [OF inv assms(2)] assms(3) by simp
  moreover have "closedLocked e = closedLocked (pmEngine p)" using step_closed [OF inv assms(2)] assms(3) by simp
  ultimately show ?thesis using assms(1) by (simp add: pump_upd_def contained_def pump_ok_def)
qed

lemma sched_call_upd:
  assumes "pump_ok c p" "queue_call i (pmScheduler p) sd"
  shows "pump_upd c i p (p\<lparr>pmScheduler := sd\<rparr>)"
proof -
  have ok: "sched_ok (pmScheduler p)" using assms(1) by (simp add: pump_ok_def)
  have "sdMaxEnvelopeBytes sd = sdMaxEnvelopeBytes (pmScheduler p)"
    using assms(2) by (cases rule: queue_call.cases) (auto simp: sched_upd_def fixed_same_def)
  then show ?thesis using assms call_ok [OF assms(2) ok] call_others [OF assms(2)]
    by (simp add: pump_upd_def contained_def pump_ok_def)
qed

lemma enc_bound: "pump_ok c p \<Longrightarrow> codec_ok c enc \<Longrightarrow> enc m = Some raw \<Longrightarrow> length raw \<le> maxFrame (pmScheduler p)"
  unfolding pump_ok_def codec_ok_def checkMuxEnvelopeCeiling_def maxFrame_def by (metis not_le)

lemma enqueueMessage_upd:
  assumes "pump_ok c p" "codec_ok c enc" "frameOf (pmLocal p) m = Inr (i, cls)"
  shows "pump_upd c i p (snd (enqueueMessage enc m p))"
proof (cases "enc m")
  case None
  then show ?thesis using assms pump_refl by (simp add: enqueueMessage_def)
next
  case (Some raw)
  let ?f = "\<lparr>frDirection = pmLocal p, frClass = cls, frBytes = raw, frSeals = sealsStream m\<rparr>"
  have ok: "sched_ok (pmScheduler p)" using assms(1) by (simp add: pump_ok_def)
  have "length (frBytes ?f) \<le> maxFrame (pmScheduler p)" using enc_bound [OF assms(1,2) Some] by simp
  then have "queue_call i (pmScheduler p) (snd (enqueue (Some (pmEngine p)) ?f i (pmScheduler p)))" by (rule enqueue_call [OF ok])
  then show ?thesis using Some assms(3) sched_call_upd [OF assms(1)] by (auto simp: enqueueMessage_def split: prod.splits)
qed

lemma frame_of_reset: "frameOf d (MsgReset m) = Inr (ResetPhysical m, FrameControl)"
  by (cases d) simp_all

lemma scheduleReset_upd:
  assumes "pump_ok c p" "codec_ok c enc"
  shows "pump_upd c i p (scheduleReset enc txt i cause p)"
proof (cases "ValidatePhysical i \<and> streams (pmEngine p) i \<noteq> None")
  case False
  then show ?thesis using pump_refl [OF assms(1)] by (auto simp: scheduleReset_def)
next
  case True
  let ?r = "\<lparr>ResetPhysical = i, ResetError = resetErrorDetail txt cause, HasError = True\<rparr>"
  let ?p = "p\<lparr>pmEngine := snd (Reset ?r (pmEngine p))\<rparr>"
  have u: "pump_upd c i p ?p" by (rule engine_step_upd [OF assms(1), of "EvReset ?r"]) simp_all
  then have "pump_ok c ?p" by (simp add: pump_upd_def)
  then have "pump_upd c i ?p (snd (enqueueMessage enc (MsgReset ?r) ?p))"
    by (rule enqueueMessage_upd [OF _ assms(2), where cls = FrameControl]) (simp add: frame_of_reset)
  then show ?thesis using True pump_trans [OF u] by (auto simp: scheduleReset_def Let_def)
qed

lemma pumpEnqueue_upd:
  assumes "pump_ok c p" "codec_ok c enc" "frameOf (pmLocal p) m = Inr (i, cls)"
  shows "pump_upd c i p (snd (pumpEnqueue enc txt m p))"
proof -
  obtain err p1 where e: "enqueueMessage enc m p = (err, p1)" by (cases "enqueueMessage enc m p")
  have u: "pump_upd c i p p1" using enqueueMessage_upd [OF assms] e by simp
  then have "pump_ok c p1" by (simp add: pump_upd_def)
  then have "pump_upd c i p (scheduleReset enc txt i cause p1)" for cause
    using pump_trans [OF u] scheduleReset_upd [OF _ assms(2)] by blast
  then show ?thesis using e u assms(3) by (simp add: pumpEnqueue_def)
qed

lemma applyStreamError_upd:
  assumes "pump_ok c p" "codec_ok c enc"
  shows "pump_upd c i p (applyStreamError enc txt i err p)"
  using pump_refl [OF assms(1)] scheduleReset_upd [OF assms] by (auto simp: applyStreamError_def split: option.splits)

lemma applyStreamTerminal_upd:
  assumes "pump_ok c p" "codec_ok c enc"
  shows "pump_upd c i p (applyStreamTerminal enc txt i r p)"
proof -
  have ok: "sched_ok (pmScheduler p)" using assms(1) by (simp add: pump_ok_def)
  show ?thesis
    using pump_refl [OF assms(1)] applyStreamError_upd [OF assms] sched_call_upd [OF assms(1) Reset_call [OF ok]]
    by (auto simp: applyStreamTerminal_def split: sum.splits)
qed

section \<open>Every operation\<close>

fun messageStream :: "muxMessage \<Rightarrow> nat" where
  "messageStream (MsgOpen m) = Physical (OpenRef m)"
| "messageStream (MsgData i chunk) = i"
| "messageStream (MsgClose i) = i"
| "messageStream (MsgReset m) = ResetPhysical m"
| "messageStream (MsgWindow i g) = i"
| "messageStream (MsgOpened r) = Physical r"
| "messageStream (MsgRefused r d) = Physical r"

lemma frame_stream: "frameOf d m = Inr (i, cls) \<Longrightarrow> i = messageStream m"
  by (cases d; cases m) auto

lemma after_engine:
  assumes "pump_ok c p" "eventStream ev = Some i" "e = applyEvent ev (pmEngine p)"
    and rest: "\<And>q. pump_ok c q \<Longrightarrow> pump_upd c i q (g q)"
  shows "pump_upd c i p (g (p\<lparr>pmEngine := e\<rparr>))"
proof -
  have u: "pump_upd c i p (p\<lparr>pmEngine := e\<rparr>)" by (rule engine_step_upd [OF assms(1-3)])
  then show ?thesis using pump_trans [OF u rest] by (simp add: pump_upd_def)
qed

lemma shared_upd:
  assumes "pump_ok c p" "codec_ok c enc"
  shows "pump_upd c (messageStream m) p (snd (applyShared enc txt m p))"
proof -
  note E = applyStreamError_upd [OF _ assms(2)] and T = applyStreamTerminal_upd [OF _ assms(2)]
  show ?thesis
  proof (cases m)
    case (MsgData i chunk)
    then show ?thesis using after_engine [OF assms(1), of "EvData i chunk" i _ "applyStreamError enc txt i err" for err, OF _ _ E]
      by (auto split: prod.splits)
  next
    case (MsgClose i)
    then show ?thesis using after_engine [OF assms(1), of "EvClose i" i _ "applyStreamTerminal enc txt i r" for r, OF _ _ T]
      by (auto split: prod.splits)
  next
    case (MsgReset r)
    then show ?thesis
      using after_engine [OF assms(1), of "EvReset r" "ResetPhysical r" _ "applyStreamTerminal enc txt (ResetPhysical r) d" for d, OF _ _ T]
      by (auto split: prod.splits)
  next
    case (MsgWindow i g)
    then show ?thesis using after_engine [OF assms(1), of "EvWindow i g" i _ "applyStreamError enc txt i err" for err, OF _ _ E]
      by (auto split: prod.splits)
  qed (simp_all add: pump_refl [OF assms(1)])
qed

lemma refuse_upd:
  assumes "pump_ok c p" "codec_ok c enc"
  shows "pump_upd c (Physical r) p (refuseFreshOpen enc r cause p)"
proof (cases "isTerminal p \<or> enc (MsgRefused r (openRefusalDetail cause)) = None")
  case True
  then show ?thesis using pump_refl [OF assms(1)] by (auto simp: refuseFreshOpen_def)
next
  case False
  then obtain raw where raw: "enc (MsgRefused r (openRefusalDetail cause)) = Some raw" by auto
  have ok: "sched_ok (pmScheduler p)" using assms(1) by (simp add: pump_ok_def)
  show ?thesis using False raw sched_call_upd [OF assms(1) Refuse_call [OF ok enc_bound [OF assms raw]]]
    by (auto simp: refuseFreshOpen_def)
qed

lemma open_upd:
  assumes "pump_ok c p" "codec_ok c enc"
  shows "pump_upd c (Physical (OpenRef m)) p (applyOpen enc m p)"
proof -
  let ?e = "snd (Open m (pmEngine p))"
  have u: "pump_upd c (Physical (OpenRef m)) p (p\<lparr>pmEngine := ?e\<rparr>)"
    by (rule engine_step_upd [OF assms(1), of "EvOpen m"]) simp_all
  then have "pump_ok c (p\<lparr>pmEngine := ?e\<rparr>)" by (simp add: pump_upd_def)
  then show ?thesis using u pump_trans [OF u refuse_upd [OF _ assms(2)]]
    by (cases "Open m (pmEngine p)") (auto simp: applyOpen_def split: option.splits)
qed

lemma inbound_upd:
  assumes "pump_ok c p" "codec_ok c enc"
  shows "pump_upd c (messageStream m) p (snd (handleInbound enc txt m p))"
proof (cases "pmLocal p = DirectionServer")
  case True
  then show ?thesis using shared_upd [OF assms, of m] open_upd [OF assms] by (cases m) (simp_all add: handleInbound_def)
next
  case False
  note E = applyStreamError_upd [OF _ assms(2)]
  show ?thesis
  proof (cases m)
    case (MsgOpened r)
    then show ?thesis
      using False after_engine [OF assms(1), of "EvOpened r" "Physical r" _ "applyStreamError enc txt (Physical r) err" for err, OF _ _ E]
      by (auto simp: handleInbound_def split: prod.splits)
  next
    case (MsgRefused r d)
    then show ?thesis
      using False after_engine [OF assms(1), of "EvRefused r d" "Physical r" _ "applyStreamError enc txt (Physical r) err" for err, OF _ _ E]
      by (auto simp: handleInbound_def split: prod.splits)
  qed (use False shared_upd [OF assms, of m] in \<open>simp_all add: handleInbound_def\<close>)
qed

lemma send_upd:
  assumes "pump_ok c p" "codec_ok c enc"
  shows "pump_upd c (messageStream m) p (snd (Send enc txt m p))"
proof (cases "isData m \<or> isTerminal p \<or> (\<exists>err. frameOf (pmLocal p) m = Inl err)")
  case True
  then show ?thesis using pump_refl [OF assms(1)] by (auto simp: Send_def pumpEnqueue_def)
next
  case False
  then obtain i cls where f: "frameOf (pmLocal p) m = Inr (i, cls)" by (cases "frameOf (pmLocal p) m") auto
  then show ?thesis using False pumpEnqueue_upd [OF assms f] frame_stream [OF f] by (simp add: Send_def)
qed

lemma send_data_upd:
  assumes "pump_ok c p" "codec_ok c enc"
  shows "pump_upd c i p (snd (SendData enc txt i chunk p))"
proof (cases "isTerminal p")
  case True
  then show ?thesis using pump_refl [OF assms(1)] by (simp add: SendData_def)
next
  case False
  obtain r e where r: "reserveSend i (length chunk) (pmEngine p) = (r, e)" by (cases "reserveSend i (length chunk) (pmEngine p)")
  let ?p = "p\<lparr>pmEngine := e\<rparr>"
  have u: "pump_upd c i p ?p" by (rule engine_step_upd [OF assms(1), of "EvReserve i (length chunk)"]) (simp_all add: r)
  then have ok: "pump_ok c ?p" by (simp add: pump_upd_def)
  obtain err p1 where q: "pumpEnqueue enc txt (MsgData i chunk) ?p = (err, p1)" by (cases "pumpEnqueue enc txt (MsgData i chunk) ?p")
  have f: "frameOf (pmLocal ?p) (MsgData i chunk) = Inr (i, FrameData)" by (cases "pmLocal ?p") simp_all
  have u1: "pump_upd c i p p1" using pump_trans [OF u pumpEnqueue_upd [OF ok assms(2) f]] q by (metis snd_conv)
  then have "pump_ok c p1" by (simp add: pump_upd_def)
  then have "pump_upd c i p1 (p1\<lparr>pmEngine := refundSend i (length chunk) (pmEngine p1)\<rparr>)"
    by (rule engine_step_upd [of _ _ "EvRefund i (length chunk)"]) simp_all
  then have "pump_upd c i p (p1\<lparr>pmEngine := refundSend i (length chunk) (pmEngine p1)\<rparr>)" using pump_trans [OF u1] by blast
  then show ?thesis using False r q u1 pump_refl [OF assms(1)] by (simp add: SendData_def split: reservation.splits option.splits)
qed

lemma take_upd:
  assumes "pump_ok c p" "codec_ok c enc"
  shows "pump_upd c i p (snd (Take enc txt i p))"
proof -
  have ret: "pump_upd c i q (returnCredit enc txt i q)" if q: "pump_ok c q" for q
  proof -
    obtain g e where g: "takeReturn i (pmEngine q) = (g, e)" by (cases "takeReturn i (pmEngine q)")
    have u: "pump_upd c i q (q\<lparr>pmEngine := e\<rparr>)" by (rule engine_step_upd [OF q, of "EvGrant i"]) (simp_all add: g)
    then have ok: "pump_ok c (q\<lparr>pmEngine := e\<rparr>)" by (simp add: pump_upd_def)
    have f: "frameOf (pmLocal (q\<lparr>pmEngine := e\<rparr>)) (MsgWindow i g) = Inr (i, FrameControl)" by (cases "pmLocal q") simp_all
    show ?thesis using u pump_trans [OF u pumpEnqueue_upd [OF ok assms(2) f]] by (simp add: returnCredit_def g Let_def)
  qed
  obtain r e where r: "takeChunk i (pmEngine p) = (r, e)" by (cases "takeChunk i (pmEngine p)")
  have u: "pump_upd c i p (p\<lparr>pmEngine := e\<rparr>)" by (rule engine_step_upd [OF assms(1), of "EvTake i"]) (simp_all add: r)
  then have "pump_ok c (p\<lparr>pmEngine := e\<rparr>)" by (simp add: pump_upd_def)
  then show ?thesis using u pump_trans [OF u ret] r by (auto simp: Take_def split: option.splits prod.splits)
qed

section \<open>What a reset does\<close>

definition sealedIn :: "Scheduler \<Rightarrow> nat \<Rightarrow> bool" where
  "sealedIn sd i = (case sdStreams sd i of None \<Rightarrow> False | Some s \<Rightarrow> schSealed s)"

definition overflowedIn :: "Scheduler \<Rightarrow> nat \<Rightarrow> bool" where
  "overflowedIn sd i = (case sdStreams sd i of None \<Rightarrow> False | Some s \<Rightarrow> schOverflowed s)"

definition resetFrame :: "byte list \<Rightarrow> Pump \<Rightarrow> schedFrame" where
  "resetFrame raw p = \<lparr>frDirection = pmLocal p, frClass = FrameControl, frBytes = raw, frSeals = True\<rparr>"

lemma insert_seals: "frSeals f \<Longrightarrow> sealedIn (insertLocked i s f sd) i"
  by (simp add: insertLocked_def sealedIn_def setSched_def Let_def)

lemma insert_sealing:
  assumes "sched_ok sd" "i \<noteq> 0" "current i s sd" "\<not> schSealed s" "frSeals f" "length (frBytes f) \<le> maxFrame sd"
    "schOverflowed s \<or> \<not> overflowLocked (length (frBytes f)) sd"
  shows "queueOf (insertLocked i s f sd) i = schQueue s @ [f]"
  using insert_upd [OF assms(1-4) assms(6)] assms(5,7) by (auto simp: sched_upd_def)

lemma enqueue_sealing:
  assumes ok: "sched_ok sd" and f: "frSeals f" "length (frBytes f) \<le> maxFrame sd" and i: "ValidatePhysical i" "knownLocked gate i"
    and sd': "sd' = snd (enqueue gate f i sd)"
  shows "if sealedIn sd i then sd' = sd
     else if overflowedIn sd i \<or> \<not> overflowLocked (length (frBytes f)) sd then queueOf sd' i = queueOf sd i @ [f] \<and> sealedIn sd' i
     else queueOf sd' i = []"
proof (cases "sdStreams sd i")
  case None
  then have c: "current i (newSchedStream False) sd" and i0: "i \<noteq> 0" using i(1) by (simp_all add: current_def ValidatePhysical_def)
  show ?thesis
    using None f i insert_sealing [OF ok i0 c _ f] overflow_upd [OF ok i0 c] insert_seals [OF f(1)]
    by (auto simp: sd' enqueue_def sealedIn_def overflowedIn_def insertBounded_def newSchedStream_def queueOf_def sched_upd_def)
next
  case (Some s)
  then have c: "current i s sd" and i0: "i \<noteq> 0" using i(1) by (simp_all add: current_def ValidatePhysical_def)
  show ?thesis
    using Some f i insert_sealing [OF ok i0 c _ f] overflow_upd [OF ok i0 c] insert_seals [OF f(1)]
    by (auto simp: sd' enqueue_def sealedIn_def overflowedIn_def insertBounded_def queueOf_def sched_upd_def)
qed

lemma reset_settles:
  assumes inv: "engine_inv c e" and s: "streams e i = Some s" and m: "ResetPhysical m = i"
  obtains t where "streams (snd (Reset m e)) i = Some t" "state t = StreamTerminal" "queue t = []" "doneClosed (terminal t)"
proof (cases "state s = StreamTerminal")
  case True
  have "ValidatePhysical i" "stream_ok c s" using inv s by (auto simp: engine_inv_def engine_ok_def ValidatePhysical_def)
  then show ?thesis using True s m that [of s] by (simp add: Reset_def lookupLocked_def stream_ok_def)
next
  case False
  have ok: "engine_ok c e" and i: "ValidatePhysical i" "Physical (ref s) = i" using inv s by (auto simp: engine_inv_def engine_ok_def ValidatePhysical_def)
  let ?f = "TermFail (DetailKind (ResetError m)) (resetCause m)"
  have d: "doneClosed (?f t)" for t by simp
  have "streams (snd (Reset m e)) i = Some (settled ?f s)"
    using False s m i settle_ok(3) [OF ok s False i(2) refl, where f = ?f, OF d] by (simp add: Reset_def lookupLocked_def)
  then show ?thesis using that d by simp
qed

section \<open>Runs\<close>

text \<open>
  A pump from its construction on: inbound messages, local sends and takes, local admission and
  confirmation of a stream, frames written, and the two ways the connection settles.
\<close>

inductive pump_run :: "codec \<Rightarrow> (pumpError \<Rightarrow> byte list) \<Rightarrow> MuxCeilings \<Rightarrow> Pump \<Rightarrow> bool"
  for enc :: codec and tx :: "pumpError \<Rightarrow> byte list" and c :: MuxCeilings where
  pump_new: "NewPump inbound c = Inr p \<Longrightarrow> pump_run enc tx c p"
| pump_inbound: "pump_run enc tx c p \<Longrightarrow> pump_run enc tx c (snd (handleInbound enc tx m p))"
| pump_send: "pump_run enc tx c p \<Longrightarrow> pump_run enc tx c (snd (Send enc tx m p))"
| pump_data: "pump_run enc tx c p \<Longrightarrow> pump_run enc tx c (snd (SendData enc tx i chunk p))"
| pump_take: "pump_run enc tx c p \<Longrightarrow> pump_run enc tx c (snd (Take enc tx i p))"
| pump_local: "pump_run enc tx c p \<Longrightarrow> eventStream ev = Some i \<Longrightarrow> pump_run enc tx c (p\<lparr>pmEngine := applyEvent ev (pmEngine p)\<rparr>)"
| pump_write: "pump_run enc tx c p \<Longrightarrow> Dequeue (pmScheduler p) = Some (Some (i, f), sd) \<Longrightarrow> pump_run enc tx c (p\<lparr>pmScheduler := sd\<rparr>)"
| pump_fail: "pump_run enc tx c p \<Longrightarrow> set order = dom (streams (pmEngine p)) \<Longrightarrow> pump_run enc tx c (settleFailure order k d p)"
| pump_close: "pump_run enc tx c p \<Longrightarrow> set order = dom (streams (pmEngine p)) \<Longrightarrow> pump_run enc tx c (settleOrderly order p)"

lemma settle_pump_ok:
  assumes "pump_ok c p" "event_ok ev (pmEngine p)" "eventStream ev = None"
  shows "pump_ok c (p\<lparr>pmSettled := b, pmTerminal := t, pmEngine := applyEvent ev (pmEngine p)\<rparr>)"
  using assms step_whole [OF _ assms(2,3)] by (auto simp: pump_ok_def)

lemma run_pump_ok: "pump_run enc txt c p \<Longrightarrow> codec_ok c enc \<Longrightarrow> pump_ok c p"
proof (induction rule: pump_run.induct)
  case (pump_new inbound p)
  then have "ValidateCeilings c" "p = \<lparr>pmEngine = newStreamEngine c, pmScheduler = newScheduler c, pmLocal = oppositeDirection inbound,
      pmTerminal = newTerminalState, pmSettled = False\<rparr>" by (simp_all add: NewPump_def split: if_splits)
  then show ?case using new_inv new_sched_ok by (simp add: pump_ok_def newScheduler_def)
next
  case (pump_write p i f sd)
  then have ok: "sched_ok (pmScheduler p)" by (simp add: pump_ok_def)
  have "sched_ok sd" "fixed_same (pmScheduler p) sd"
    using write_pops(1) [OF ok pump_write(2)] step_fixed [OF step_write [OF pump_write(2)] ok] by simp_all
  then show ?case using pump_write by (simp add: pump_ok_def fixed_same_def)
next
  case (pump_fail p order k d)
  then show ?case using settle_pump_ok [of c p "EvFail order k d"] by (simp add: settleFailure_def)
next
  case (pump_close p order)
  then show ?case using settle_pump_ok [of c p "EvTerminate order"] by (simp add: settleOrderly_def)
next
  case (pump_local p ev i)
  then show ?case using engine_step_upd [OF _ pump_local(2) refl] by (simp add: pump_upd_def)
qed (use inbound_upd send_upd send_data_upd take_upd in \<open>auto simp: pump_upd_def\<close>)

section \<open>Calls about one stream\<close>

definition recordKept :: "muxStream option \<Rightarrow> muxStream option \<Rightarrow> bool" where
  "recordKept a b = (b = a \<or> b = None \<and> (\<exists>s. a = Some s \<and> state s = StreamTerminal))"

lemma recordKept_trans: "recordKept a b \<Longrightarrow> recordKept b d \<Longrightarrow> recordKept a d"
  by (auto simp: recordKept_def)

definition pumpView :: "Pump \<Rightarrow> nat \<Rightarrow> muxStream option \<times> schedFrame list \<times> bool \<times> terminalState" where
  "pumpView p j = (streams (pmEngine p) j, queueOf (pmScheduler p) j, closedLocked (pmEngine p), pmTerminal p)"

interpretation table_calls: keyed_calls "engine_inv c" "\<lambda>i e e'. \<exists>ev. eventStream ev = Some i \<and> e' = applyEvent ev e" streams recordKept
  for c
proof
  fix e e' i j assume inv: "engine_inv c e" and ev: "\<exists>ev. eventStream ev = Some i \<and> e' = applyEvent ev e"
  then obtain ev where ev: "eventStream ev = Some i" "e' = applyEvent ev e" by blast
  then have "event_ok ev e" by (cases ev) auto
  then show "engine_inv c e'" using step_inv [OF inv] ev(2) by simp
  show "recordKept (streams e j) (streams e' j)" if "j \<noteq> i"
    using step_others [OF inv ev(1)] that by (auto simp: ev(2) others_kept_def recordKept_def)
qed (simp add: recordKept_def, fact recordKept_trans)

interpretation scheduler_calls: keyed_calls sched_ok queue_call queueOf "\<lambda>q q'. q' = q"
  by unfold_locales (use call_ok call_others in auto)

interpretation inbound_calls: keyed_calls "\<lambda>p. pump_ok c p \<and> codec_ok c enc"
    "\<lambda>i p p'. \<exists>m. messageStream m = i \<and> p' = snd (handleInbound enc tx m p)" pumpView
    "\<lambda>(a, q, b, t) (a', q', b', t'). recordKept a a' \<and> q' = q \<and> b' = b \<and> t' = t"
  for c enc tx
proof
  fix p p' i j assume "pump_ok c p \<and> codec_ok c enc" "\<exists>m. messageStream m = i \<and> p' = snd (handleInbound enc tx m p)"
  then have "pump_upd c i p p'" "codec_ok c enc" using inbound_upd by blast+
  then show "pump_ok c p' \<and> codec_ok c enc"
    and "j \<noteq> i \<Longrightarrow> (case pumpView p j of (a, q, b, t) \<Rightarrow> \<lambda>(a', q', b', t'). recordKept a a' \<and> q' = q \<and> b' = b \<and> t' = t) (pumpView p' j)"
    by (simp_all add: pump_upd_def contained_def others_kept_def recordKept_def pumpView_def)
qed (auto simp: recordKept_def)

definition applyInbound :: "codec \<Rightarrow> (pumpError \<Rightarrow> byte list) \<Rightarrow> muxMessage list \<Rightarrow> Pump \<Rightarrow> Pump" where
  "applyInbound enc tx ms p = fold (\<lambda>m q. snd (handleInbound enc tx m q)) ms p"

lemma applyInbound_calls: "inbound_calls.calls enc tx (map messageStream ms) p (applyInbound enc tx ms p)"
  by (induction ms arbitrary: p) (auto simp: applyInbound_def)

section \<open>Properties\<close>

text \<open>
  C9. No messages from the peer reach past the streams they name. Applying any of them, valid or not,
  keeps the invariants of both tables, leaves the record and the outbound queue of every stream none
  of them names as they are (only a settled record may be forgotten), and neither closes the connection
  nor publishes its outcome; a handler reports a fatal cause only for a message of the wrong direction.
\<close>

theorem inbound_contained:
  assumes "pump_run enc txt c p" "codec_ok c enc" "p' = applyInbound enc txt ms p" "j \<notin> messageStream ` set ms"
  shows "(streams (pmEngine p') j = streams (pmEngine p) j \<or>
      streams (pmEngine p') j = None \<and> (\<exists>s. streams (pmEngine p) j = Some s \<and> state s = StreamTerminal)) \<and>
    queueOf (pmScheduler p') j = queueOf (pmScheduler p) j \<and>
    closedLocked (pmEngine p') = closedLocked (pmEngine p) \<and> pmTerminal p' = pmTerminal p \<and>
    engine_inv c (pmEngine p') \<and> sched_ok (pmScheduler p') \<and>
    fst (handleInbound enc txt m p') \<in> {None, Some ErrWrongDirection}"
proof -
  have ok: "pump_ok c p \<and> codec_ok c enc" using run_pump_ok [OF assms(1,2)] assms(2) by simp
  have calls: "inbound_calls.calls enc txt (map messageStream ms) p p'" using applyInbound_calls assms(3) by simp
  have "fst (handleInbound enc txt m p') \<in> {None, Some ErrWrongDirection}"
    by (cases m) (auto simp: handleInbound_def split: prod.splits)
  then show ?thesis
    using inbound_calls.calls_inv [OF ok calls] inbound_calls.calls_apart [OF ok calls, of j] assms(4)
    by (simp add: pumpView_def recordKept_def pump_ok_def)
qed

definition oneByteCodec :: codec where
  "oneByteCodec m = Some [0]"

definition demoPump :: Pump where
  "demoPump = \<lparr>pmEngine = demoEngine, pmScheduler = newScheduler DefaultMuxCeilings, pmLocal = DirectionServer,
     pmTerminal = newTerminalState, pmSettled = False\<rparr>"

lemma one_byte_ok: "codec_ok DefaultMuxCeilings oneByteCodec"
  by (simp add: codec_ok_def oneByteCodec_def checkMuxEnvelopeCeiling_def DefaultMuxCeilings_def mux_consts)

lemma demo_pump_run: "pump_run enc tx DefaultMuxCeilings demoPump"
proof -
  have "NewPump DirectionClient DefaultMuxCeilings = Inr (demoPump\<lparr>pmEngine := newStreamEngine DefaultMuxCeilings\<rparr>)"
    using default_valid by (simp add: NewPump_def demoPump_def oppositeDirection_def)
  note n = pump_run.pump_new [OF this]
  show ?thesis
    using pump_run.pump_local [where ev = "EvOpened demoRef", OF pump_run.pump_local
        [where ev = "EvOpen \<lparr>OpenRef = demoRef, OpenPolicy = demoPolicy\<rparr>", OF n]]
    by (simp add: demoPump_def demoEngine_def)
qed

theorem inbound_contained_witness:
  "let p' = applyInbound oneByteCodec (\<lambda>_. []) [MsgData 1 [], MsgWindow 1 0] demoPump in
     streams (pmEngine p') 2 = None \<and> closedLocked (pmEngine p') = closedLocked demoEngine"
proof -
  have "streams demoEngine 2 = None" "pmEngine demoPump = demoEngine" by (simp_all add: demo_eq demoPump_def)
  then show ?thesis
    using inbound_contained [OF demo_pump_run one_byte_ok refl, of 2 "[MsgData 1 [], MsgWindow 1 0]" "\<lambda>_. []"] unfolding Let_def by auto
qed

text \<open>
  C21. A violation on a stream of a running connection settles that stream at once, its queue freed and its
  outcome published, whatever the outbound side can take. The peer is told by exactly one sealing reset
  behind what was queued, unless the stream was already sealed; only where the outbound budget has
  no room and the stream's own account is not yet cut off is the queue dropped and nothing sent.
\<close>

theorem reset_isolates:
  assumes "pump_run enc txt c p" "codec_ok c enc" "streams (pmEngine p) i = Some s"
    "enc (MsgReset \<lparr>ResetPhysical = i, ResetError = resetErrorDetail txt cause, HasError = True\<rparr>) = Some raw"
    "p' = scheduleReset enc txt i cause p"
  shows "(\<exists>t. streams (pmEngine p') i = Some t \<and> state t = StreamTerminal \<and> queue t = [] \<and> doneClosed (terminal t)) \<and>
    (if sealedIn (pmScheduler p) i then pmScheduler p' = pmScheduler p
     else if overflowedIn (pmScheduler p) i \<or> \<not> overflowLocked (length raw) (pmScheduler p)
     then queueOf (pmScheduler p') i = queueOf (pmScheduler p) i @ [resetFrame raw p] \<and> sealedIn (pmScheduler p') i
     else queueOf (pmScheduler p') i = [])"
proof -
  let ?m = "\<lparr>ResetPhysical = i, ResetError = resetErrorDetail txt cause, HasError = True\<rparr>"
  let ?e = "snd (Reset ?m (pmEngine p))"
  have ok: "pump_ok c p" by (rule run_pump_ok [OF assms(1,2)])
  then have inv: "engine_inv c (pmEngine p)" and sok: "sched_ok (pmScheduler p)" by (simp_all add: pump_ok_def)
  have i: "ValidatePhysical i" using inv assms(3) by (auto simp: engine_inv_def engine_ok_def ValidatePhysical_def)
  obtain t where t: "streams ?e i = Some t" "state t = StreamTerminal" "queue t = []" "doneClosed (terminal t)"
    using reset_settles [OF inv assms(3), of ?m] by auto
  have p': "pmEngine p' = ?e" "pmScheduler p' = snd (enqueue (Some ?e) (resetFrame raw p) i (pmScheduler p))"
    using assms(3-5) i by (simp_all add: scheduleReset_def enqueueMessage_def frame_of_reset resetFrame_def Let_def split: prod.splits)
  have "knownLocked (Some ?e) i" using t(1) i by (simp add: knownLocked_def ValidatePhysical_def)
  moreover have "length (frBytes (resetFrame raw p)) \<le> maxFrame (pmScheduler p)" "frSeals (resetFrame raw p)" "frBytes (resetFrame raw p) = raw"
    using enc_bound [OF ok assms(2,4)] by (simp_all add: resetFrame_def)
  ultimately show ?thesis using enqueue_sealing [OF sok _ _ i _ p'(2)] t p'(1) by auto
qed

theorem reset_isolates_witness:
  "\<exists>raw. queueOf (pmScheduler (scheduleReset oneByteCodec (\<lambda>_. []) 1 (PumpEngine ErrStreamQueueFull) demoPump)) 1 = [resetFrame raw demoPump]"
proof -
  obtain s where s: "streams (pmEngine demoPump) 1 = Some s" by (simp add: demoPump_def demo_eq)
  have n: "sdStreams (pmScheduler demoPump) 1 = None" "\<not> overflowLocked (length [0 :: byte]) (pmScheduler demoPump)"
    by (simp_all add: demoPump_def newScheduler_def overflowLocked_def DefaultMuxCeilings_def mux_consts)
  have e: "oneByteCodec m = Some [0]" for m by (simp add: oneByteCodec_def)
  show ?thesis using reset_isolates [OF demo_pump_run one_byte_ok s e refl, of "\<lambda>_. []" "PumpEngine ErrStreamQueueFull"] n
    by (auto simp: sealedIn_def overflowedIn_def queueOf_def)
qed

end
