(* ===== verification/Copy_Document.thy ===== *)
theory Copy_Document
  imports Go_Strings Vev_Prelude
begin

text \<open>
  The document of copy mode, \<^verbatim>\<open>internal/usecase/copy/document.go\<close> and the snapshot of
  \<^verbatim>\<open>mode.go\<close>: sealed history rows followed by the rows of the screen, the glyph and word motions
  over them, and the text of a range. A cell is its rune and whether it continues the glyph on its
  left; colours are left out. The history view of the terminal library is the list of its rows with
  their bounds; only cells inside a row are ever read from it.
\<close>

section \<open>Snapshot\<close>

record Cell =
  Rune :: rune
  Continuation :: bool

definition BlankCell :: Cell where
  "BlankCell = \<lparr>Rune = 32, Continuation = False\<rparr>"

record LineBound =
  boundEnd :: int
  Soft :: bool

definition zeroBound :: LineBound where
  "zeroBound = \<lparr>boundEnd = 0, Soft = False\<rparr>"

record Frame =
  frWidth :: int
  frHeight :: int
  frRows :: "Cell list list"

record CellSource =
  srcColumns :: nat
  srcRows :: nat
  srcCell :: "nat \<Rightarrow> nat \<Rightarrow> Cell"

record Snapshot =
  snHistory :: "(Cell list \<times> LineBound) list"
  snScreen :: Frame
  snBounds :: "LineBound list"
  snWidth :: int
  snHeight :: int

definition newSnapshot :: "(Cell list \<times> LineBound) list \<Rightarrow> CellSource \<Rightarrow> LineBound list \<Rightarrow> Snapshot" where
  "newSnapshot history src bounds =
     (let owned = \<lparr>frWidth = int (srcColumns src), frHeight = int (srcRows src),
            frRows = map (\<lambda>y. map (\<lambda>x. srcCell src x y) [0..<srcColumns src]) [0..<srcRows src]\<rparr>
      in \<lparr>snHistory = history, snScreen = owned, snBounds = bounds,
          snWidth = int (srcColumns src), snHeight = int (srcRows src)\<rparr>)"

definition histLen :: "Snapshot \<Rightarrow> int" where
  "histLen s = int (length (snHistory s))"

definition Len :: "Snapshot \<Rightarrow> int" where
  "Len s = histLen s + frHeight (snScreen s)"

definition RowAt :: "Snapshot \<Rightarrow> int \<Rightarrow> Cell list" where
  "RowAt s i =
     (if i < 0 then []
      else if i < histLen s then fst (snHistory s ! nat i)
      else let k = i - histLen s
           in if k \<ge> frHeight (snScreen s) then [] else frRows (snScreen s) ! nat k)"

definition RowWidth :: "Snapshot \<Rightarrow> int \<Rightarrow> int" where
  "RowWidth s y =
     (if y < 0 then 0
      else if y < histLen s then int (length (fst (snHistory s ! nat y)))
      else let k = y - histLen s
           in if k \<ge> frHeight (snScreen s) then 0 else frWidth (snScreen s))"

definition CellAt :: "Snapshot \<Rightarrow> int \<Rightarrow> int \<Rightarrow> Cell" where
  "CellAt s x y =
     (if y < 0 \<or> x < 0 then BlankCell
      else if y < histLen s then fst (snHistory s ! nat y) ! nat x
      else let k = y - histLen s
           in if k \<ge> frHeight (snScreen s) \<or> x \<ge> frWidth (snScreen s) then BlankCell
              else frRows (snScreen s) ! nat k ! nat x)"

definition BoundAt :: "Snapshot \<Rightarrow> int \<Rightarrow> LineBound" where
  "BoundAt s i =
     (if i < 0 then zeroBound
      else if i < histLen s then snd (snHistory s ! nat i)
      else let k = i - histLen s
           in if k \<ge> frHeight (snScreen s) \<or> k \<ge> int (length (snBounds s)) then zeroBound else snBounds s ! nat k)"

section \<open>Documents and positions\<close>

record Pos =
  posRow :: int
  posCol :: int

abbreviation mkPos :: "int \<Rightarrow> int \<Rightarrow> Pos" where
  "mkPos r c \<equiv> \<lparr>posRow = r, posCol = c\<rparr>"

record CellRange =
  rgRow :: int
  rgStart :: int
  rgEnd :: int

record Document =
  snapshot :: Snapshot
  wordSeparators :: "rune list"

abbreviation docLen :: "Document \<Rightarrow> int" where
  "docLen d \<equiv> Len (snapshot d)"

abbreviation docWidth :: "Document \<Rightarrow> int \<Rightarrow> int" where
  "docWidth d r \<equiv> RowWidth (snapshot d) r"

abbreviation docCell :: "Document \<Rightarrow> int \<Rightarrow> int \<Rightarrow> Cell" where
  "docCell d x y \<equiv> CellAt (snapshot d) x y"

text \<open>A column of a row that starts a glyph.\<close>

definition headAt :: "Document \<Rightarrow> int \<Rightarrow> int \<Rightarrow> bool" where
  "headAt d row col = (\<not> Continuation (docCell d col row))"

fun headCol :: "Document \<Rightarrow> int \<Rightarrow> nat \<Rightarrow> nat" where
  "headCol d row 0 = 0"
| "headCol d row (Suc c) = (if Continuation (docCell d (int (Suc c)) row) then headCol d row c else Suc c)"

definition NormalizePos :: "Document \<Rightarrow> Pos \<Rightarrow> Pos option" where
  "NormalizePos d p =
     (if posRow p < 0 \<or> posRow p \<ge> docLen d \<or> posCol p < 0 then None
      else let width = docWidth d (posRow p)
           in if width = 0 then (if posCol p = 0 then Some p else None)
              else if posCol p \<ge> width then None
              else let c = int (headCol d (posRow p) (nat (posCol p)))
                   in if Continuation (docCell d c (posRow p)) then None else Some (p\<lparr>posCol := c\<rparr>))"

definition PrevGlyph :: "Document \<Rightarrow> Pos \<Rightarrow> Pos option" where
  "PrevGlyph d p0 =
     (case NormalizePos d p0 of
        None \<Rightarrow> None
      | Some p \<Rightarrow>
          if docWidth d (posRow p) = 0 then None
          else map_option (mkPos (posRow p)) (find (headAt d (posRow p)) (rev [0..posCol p - 1])))"

definition NextGlyph :: "Document \<Rightarrow> Pos \<Rightarrow> Pos option" where
  "NextGlyph d p0 =
     (case NormalizePos d p0 of
        None \<Rightarrow> None
      | Some p \<Rightarrow> map_option (mkPos (posRow p)) (find (headAt d (posRow p)) [posCol p + 1..docWidth d (posRow p) - 1]))"

definition isSeparator :: "Document \<Rightarrow> rune \<Rightarrow> bool" where
  "isSeparator d r = (IsSpace r \<or> r \<in> set (wordSeparators d))"

definition isGlyph :: "Document \<Rightarrow> Pos \<Rightarrow> bool" where
  "isGlyph d p = (posCol p \<ge> 0 \<and> posCol p < docWidth d (posRow p) \<and> headAt d (posRow p) (posCol p))"

definition runeAt :: "Document \<Rightarrow> Pos \<Rightarrow> rune" where
  "runeAt d p = (let c = docCell d (posCol p) (posRow p) in if Rune c = 0 then 32 else Rune c)"

definition sepAt :: "Document \<Rightarrow> Pos \<Rightarrow> bool" where
  "sepAt d p = isSeparator d (runeAt d p)"

text \<open>The loops over the rows of a document: the first row that yields something.\<close>

fun first_some :: "('a \<Rightarrow> 'b option) \<Rightarrow> 'a list \<Rightarrow> 'b option" where
  "first_some f [] = None"
| "first_some f (x # xs) = (case f x of None \<Rightarrow> first_some f xs | Some y \<Rightarrow> Some y)"

definition nextDocumentGlyph :: "Document \<Rightarrow> Pos \<Rightarrow> Pos option" where
  "nextDocumentGlyph d p =
     first_some (\<lambda>row. map_option (mkPos row)
         (find (headAt d row) [(if row = posRow p then posCol p + 1 else 0)..docWidth d row - 1]))
       [posRow p..docLen d - 1]"

definition previousDocumentGlyph :: "Document \<Rightarrow> Pos \<Rightarrow> Pos option" where
  "previousDocumentGlyph d p =
     first_some (\<lambda>row. map_option (mkPos row)
         (find (headAt d row) (rev [0..(if row = posRow p then min (posCol p - 1) (docWidth d row - 1) else docWidth d row - 1)])))
       (rev [0..posRow p])"

definition sameWord :: "Document \<Rightarrow> Pos \<Rightarrow> Pos \<Rightarrow> bool" where
  "sameWord d l r = (posRow l = posRow r \<and> \<not> sepAt d l \<and> \<not> sepAt d r)"

end
