(* ===== verification/Copy_Words.thy ===== *)
theory Copy_Words
  imports Copy_Document
begin

text \<open>
  The word motions of \<^verbatim>\<open>internal/usecase/copy/document.go\<close>, against a reference: the glyphs of the
  document in reading order, some of which start or end a word. The loops of the code look at one
  glyph at a time; each is shown to find the nearest such glyph.
\<close>

section \<open>Reading order\<close>

definition before :: "Pos \<Rightarrow> Pos \<Rightarrow> bool" where
  "before l r = (posRow l < posRow r \<or> posRow l = posRow r \<and> posCol l < posCol r)"

definition rowGlyphs :: "Document \<Rightarrow> int \<Rightarrow> Pos list" where
  "rowGlyphs d r = map (mkPos r) (filter (headAt d r) [0..docWidth d r - 1])"

definition glyphs :: "Document \<Rightarrow> Pos list" where
  "glyphs d = concat (map (rowGlyphs d) [0..docLen d - 1])"

lemma before_trans: "before a b \<Longrightarrow> before b c \<Longrightarrow> before a c"
  by (auto simp: before_def)

lemma before_irrefl [simp]: "\<not> before a a"
  by (simp add: before_def)

lemma before_linear: "before a b \<or> a = b \<or> before b a"
  by (cases a; cases b) (auto simp: before_def)

lemma find_concat: "find P (concat xss) = first_some (find P) xss"
proof (induction xss)
  case (Cons xs xss)
  have "find P (xs @ ys) = (case find P xs of None \<Rightarrow> find P ys | Some y \<Rightarrow> Some y)" for ys
    by (induction xs) auto
  then show ?case using Cons by (simp split: option.splits)
qed simp

lemma first_some_map: "first_some f (map g xs) = first_some (\<lambda>x. f (g x)) xs"
  by (induction xs) (auto split: option.splits)

lemma first_some_skip: "(\<And>x. x \<in> set xs \<Longrightarrow> f x = None) \<Longrightarrow> first_some f (xs @ ys) = first_some f ys"
  by (induction xs) auto

lemma first_some_cong: "(\<And>x. x \<in> set xs \<Longrightarrow> f x = g x) \<Longrightarrow> first_some f xs = first_some g xs"
  by (induction xs) (auto split: option.splits)

lemma find_filter: "find P (filter Q xs) = find (\<lambda>x. Q x \<and> P x) xs"
  by (induction xs) auto

lemma find_map: "find P (map f xs) = map_option f (find (\<lambda>x. P (f x)) xs)"
  by (induction xs) auto

lemma find_skip: "(\<And>x. x \<in> set xs \<Longrightarrow> \<not> P x) \<Longrightarrow> find P (xs @ ys) = find P ys"
  by (induction xs) auto

lemma find_cong2: "(\<And>x. x \<in> set xs \<Longrightarrow> P x = Q x) \<Longrightarrow> find P xs = find Q xs"
  by (induction xs) auto

lemma upto_parts: "a \<le> s \<Longrightarrow> s \<le> w + 1 \<Longrightarrow> [a..w] = [a..s - 1] @ [s..w :: int]"
  by (cases "s = w + 1") (simp_all add: upto_split1)

lemma find_from:
  assumes "0 \<le> (s :: int)"
  shows "find (\<lambda>c. Q c \<and> s \<le> c) [0..w] = find Q [s..w]"
proof (cases "s \<le> w + 1")
  case True
  then have "[0..w] = [0..s - 1] @ [s..w]" using assms upto_parts by blast
  then have "find (\<lambda>c. Q c \<and> s \<le> c) [0..w] = find (\<lambda>c. Q c \<and> s \<le> c) [s..w]" by (simp only:) (rule find_skip, auto)
  also have "\<dots> = find Q [s..w]" by (rule find_cong2) simp
  finally show ?thesis .
next
  case False
  have "find (\<lambda>c. Q c \<and> s \<le> c) [0..w] = None" using False by (auto simp: find_None_iff)
  then show ?thesis using False by simp
qed

lemma find_upto_rev: "find (\<lambda>c. Q c \<and> c \<le> (t :: int)) (rev [0..w]) = find Q (rev [0..min t w])"
proof -
  let ?m = "min t w"
  have "[0..w] = [0..?m] @ [max 0 (?m + 1)..w]"
    using upto_parts [of 0 "?m + 1" w] by (cases "0 \<le> ?m + 1") (auto simp: max_def)
  then have "rev [0..w] = rev [max 0 (?m + 1)..w] @ rev [0..?m]" by simp
  then have "find (\<lambda>c. Q c \<and> c \<le> t) (rev [0..w]) = find (\<lambda>c. Q c \<and> c \<le> t) (rev [0..?m])"
    by (simp only:) (rule find_skip, auto)
  also have "\<dots> = find Q (rev [0..?m])" by (rule find_cong2) simp
  finally show ?thesis .
qed

lemma row_next:
  assumes "0 \<le> posCol p + 1" "posRow p \<le> r"
  shows "find (before p) (rowGlyphs d r) = map_option (mkPos r)
      (find (headAt d r) [(if r = posRow p then posCol p + 1 else 0)..docWidth d r - 1])"
proof (cases "r = posRow p")
  case True
  have "find (\<lambda>x. headAt d r x \<and> before p (mkPos r x)) [0..docWidth d r - 1] =
      find (\<lambda>x. headAt d r x \<and> posCol p + 1 \<le> x) [0..docWidth d r - 1]"
    by (rule find_cong2) (auto simp: before_def True)
  then show ?thesis using assms by (simp add: rowGlyphs_def find_map find_filter True find_from)
next
  case False
  then have "before p (mkPos r x)" for x using assms(2) by (simp add: before_def)
  then show ?thesis using False by (simp add: rowGlyphs_def find_map find_filter)
qed

lemma row_prev:
  assumes "r \<le> posRow p"
  shows "find (\<lambda>g. before g p) (rev (rowGlyphs d r)) = map_option (mkPos r)
      (find (headAt d r) (rev [0..(if r = posRow p then min (posCol p - 1) (docWidth d r - 1) else docWidth d r - 1)]))"
proof (cases "r = posRow p")
  case True
  have "find (\<lambda>x. headAt d r x \<and> before (mkPos r x) p) (rev [0..docWidth d r - 1]) =
      find (\<lambda>x. headAt d r x \<and> x \<le> posCol p - 1) (rev [0..docWidth d r - 1])"
    by (rule find_cong2) (auto simp: before_def True)
  then show ?thesis using find_upto_rev [of "headAt d r" "posCol p - 1" "docWidth d r - 1"]
    by (simp add: rowGlyphs_def rev_map rev_filter find_map find_filter True)
next
  case False
  then have "before (mkPos r x) p" for x using assms by (simp add: before_def)
  then show ?thesis using False by (simp add: rowGlyphs_def rev_map rev_filter find_map find_filter)
qed

lemma next_glyph:
  assumes "0 \<le> posRow p" "0 \<le> posCol p + 1"
  shows "nextDocumentGlyph d p = find (before p) (glyphs d)"
proof -
  have skip: "find (before p) (rowGlyphs d r) = None" if "r < posRow p" for r
    using that by (auto simp: rowGlyphs_def find_None_iff before_def)
  have "find (before p) (glyphs d) = first_some (\<lambda>r. find (before p) (rowGlyphs d r)) [0..docLen d - 1]"
    by (simp add: glyphs_def find_concat first_some_map)
  also have "\<dots> = first_some (\<lambda>r. find (before p) (rowGlyphs d r)) [posRow p..docLen d - 1]"
  proof (cases "posRow p \<le> docLen d")
    case True
    then have "[0..docLen d - 1] = [0..posRow p - 1] @ [posRow p..docLen d - 1]" using assms(1) upto_parts [of 0 "posRow p" "docLen d - 1"] by simp
    then show ?thesis using skip by (simp only:) (rule first_some_skip, auto)
  next
    case False
    then have "first_some (\<lambda>r. find (before p) (rowGlyphs d r)) ([0..docLen d - 1] @ []) = None"
      using skip by (subst first_some_skip) auto
    then show ?thesis using False by simp
  qed
  also have "\<dots> = nextDocumentGlyph d p"
    unfolding nextDocumentGlyph_def by (rule first_some_cong) (use row_next assms(2) in auto)
  finally show ?thesis by simp
qed

lemma previous_glyph:
  assumes "posRow p < docLen d"
  shows "previousDocumentGlyph d p = find (\<lambda>g. before g p) (rev (glyphs d))"
proof -
  have skip: "find (\<lambda>g. before g p) (rev (rowGlyphs d r)) = None" if "posRow p < r" for r
    using that by (auto simp: rowGlyphs_def find_None_iff before_def)
  have "find (\<lambda>g. before g p) (rev (glyphs d)) = first_some (\<lambda>r. find (\<lambda>g. before g p) (rev (rowGlyphs d r))) (rev [0..docLen d - 1])"
    by (simp add: glyphs_def rev_concat rev_map find_concat first_some_map)
  also have "\<dots> = first_some (\<lambda>r. find (\<lambda>g. before g p) (rev (rowGlyphs d r))) (rev [0..posRow p])"
  proof -
    have "[0..docLen d - 1] = [0..posRow p] @ [max 0 (posRow p + 1)..docLen d - 1]"
      using assms upto_parts [of 0 "posRow p + 1" "docLen d - 1"] by (cases "0 \<le> posRow p + 1") (auto simp: max_def)
    then have "rev [0..docLen d - 1] = rev [max 0 (posRow p + 1)..docLen d - 1] @ rev [0..posRow p]" by simp
    then show ?thesis using skip by (simp only:) (rule first_some_skip, auto)
  qed
  also have "\<dots> = previousDocumentGlyph d p"
    unfolding previousDocumentGlyph_def by (rule first_some_cong) (use row_prev in auto)
  finally show ?thesis by simp
qed

section \<open>The motions\<close>

lemma first_some_Some: "first_some f xs = Some y \<Longrightarrow> \<exists>x \<in> set xs. f x = Some y"
  by (induction xs) (auto split: option.splits)

lemma find_in: "find P xs = Some x \<Longrightarrow> x \<in> set xs \<and> P x"
  by (induction xs) (auto split: if_splits)

lemma next_advances:
  assumes "nextDocumentGlyph d p = Some n"
  shows "before p n" "posRow n < docLen d" "posCol n < docWidth d (posRow n)"
  using assms by (auto simp: nextDocumentGlyph_def before_def dest!: first_some_Some find_in split: if_splits)

lemma previous_recedes:
  assumes "previousDocumentGlyph d p = Some n"
  shows "before n p" "0 \<le> posRow n" "0 \<le> posCol n"
  using assms by (auto simp: previousDocumentGlyph_def before_def dest!: first_some_Some find_in split: if_splits)

text \<open>The loops of the three motions, each over one glyph after another.\<close>

function skipWord :: "Document \<Rightarrow> Pos \<Rightarrow> Pos option" where
  "skipWord d c =
     (case nextDocumentGlyph d c of
        None \<Rightarrow> None
      | Some n \<Rightarrow> if \<not> sameWord d n c then Some n else skipWord d n)"
  by pat_completeness auto
termination
  by (relation "measures [\<lambda>(d, p). nat (docLen d - posRow p), \<lambda>(d, p). nat (docWidth d (posRow p) - posCol p)]")
     (use next_advances in \<open>fastforce simp: before_def\<close>)+

function skipSeparators :: "Document \<Rightarrow> Pos \<Rightarrow> Pos option" where
  "skipSeparators d c =
     (if sepAt d c then (case nextDocumentGlyph d c of None \<Rightarrow> None | Some n \<Rightarrow> skipSeparators d n) else Some c)"
  by pat_completeness auto
termination
  by (relation "measures [\<lambda>(d, p). nat (docLen d - posRow p), \<lambda>(d, p). nat (docWidth d (posRow p) - posCol p)]")
     (use next_advances in \<open>fastforce simp: before_def\<close>)+

function backSeparators :: "Document \<Rightarrow> Pos \<Rightarrow> Pos option" where
  "backSeparators d c =
     (if sepAt d c then (case previousDocumentGlyph d c of None \<Rightarrow> None | Some n \<Rightarrow> backSeparators d n) else Some c)"
  by pat_completeness auto
termination
  by (relation "measures [\<lambda>(d, p). nat (posRow p + 1), \<lambda>(d, p). nat (posCol p + 1)]")
     (use previous_recedes in \<open>fastforce simp: before_def\<close>)+

function toWordStart :: "Document \<Rightarrow> Pos \<Rightarrow> Pos" where
  "toWordStart d c =
     (case previousDocumentGlyph d c of None \<Rightarrow> c | Some n \<Rightarrow> if sameWord d n c then toWordStart d n else c)"
  by pat_completeness auto
termination
  by (relation "measures [\<lambda>(d, p). nat (posRow p + 1), \<lambda>(d, p). nat (posCol p + 1)]")
     (use previous_recedes in \<open>fastforce simp: before_def\<close>)+

function toWordEnd :: "Document \<Rightarrow> Pos \<Rightarrow> Pos" where
  "toWordEnd d c =
     (case nextDocumentGlyph d c of None \<Rightarrow> c | Some n \<Rightarrow> if sameWord d n c then toWordEnd d n else c)"
  by pat_completeness auto
termination
  by (relation "measures [\<lambda>(d, p). nat (docLen d - posRow p), \<lambda>(d, p). nat (docWidth d (posRow p) - posCol p)]")
     (use next_advances in \<open>fastforce simp: before_def\<close>)+

declare skipWord.simps [simp del] skipSeparators.simps [simp del] backSeparators.simps [simp del]
  toWordStart.simps [simp del] toWordEnd.simps [simp del]

definition NextWordStart :: "Document \<Rightarrow> Pos \<Rightarrow> Pos option" where
  "NextWordStart d p0 =
     (case NormalizePos d p0 of
        None \<Rightarrow> None
      | Some p \<Rightarrow>
          (case (if isGlyph d p \<and> \<not> sepAt d p then skipWord d p else nextDocumentGlyph d p) of
             None \<Rightarrow> None
           | Some c \<Rightarrow> skipSeparators d c))"

definition PreviousWordStart :: "Document \<Rightarrow> Pos \<Rightarrow> Pos option" where
  "PreviousWordStart d p0 =
     (case NormalizePos d p0 of
        None \<Rightarrow> None
      | Some p \<Rightarrow>
          (let q = previousDocumentGlyph d p
           in if isGlyph d p \<and> \<not> sepAt d p \<and> q \<noteq> None \<and> sameWord d (the q) p then Some (toWordStart d p)
              else case q of
                None \<Rightarrow> None
              | Some c \<Rightarrow> map_option (toWordStart d) (backSeparators d c)))"

definition NextWordEnd :: "Document \<Rightarrow> Pos \<Rightarrow> Pos option" where
  "NextWordEnd d p0 =
     (case NormalizePos d p0 of
        None \<Rightarrow> None
      | Some p \<Rightarrow>
          if \<not> isGlyph d p then None
          else case (if sepAt d p then Some p
                     else case nextDocumentGlyph d p of
                       None \<Rightarrow> None
                     | Some n \<Rightarrow> if \<not> sameWord d n p then Some n else Some p) of
            None \<Rightarrow> None
          | Some c \<Rightarrow> map_option (toWordEnd d) (skipSeparators d c))"

section \<open>Positions\<close>

lemma headCol_le: "headCol d r c \<le> c"
  by (induction c) auto

lemma headCol_gap: "headCol d r c < k \<Longrightarrow> k \<le> c \<Longrightarrow> Continuation (docCell d (int k) r)"
proof (induction c)
  case (Suc c)
  then show ?case by (cases "k = Suc c") (auto split: if_splits)
qed simp

lemma headCol_head: "headAt d r (int c) \<Longrightarrow> headCol d r c = c"
  by (cases c) (auto simp: headAt_def)

lemma norm_facts:
  assumes "NormalizePos d p = Some q"
  shows "posRow q = posRow p" "0 \<le> posRow q" "posRow q < docLen d" "0 \<le> posCol q" "posCol q \<le> posCol p"
    "docWidth d (posRow q) \<noteq> 0 \<Longrightarrow> isGlyph d q" "docWidth d (posRow q) = 0 \<Longrightarrow> posCol q = 0"
    "\<And>k. posCol q < k \<Longrightarrow> k \<le> posCol p \<Longrightarrow> \<not> headAt d (posRow q) k"
proof -
  have le: "int (headCol d (posRow p) (nat (posCol p))) \<le> posCol p" if "0 \<le> posCol p"
    using that headCol_le [of d "posRow p" "nat (posCol p)"] by linarith
  show "posRow q = posRow p" "0 \<le> posRow q" "posRow q < docLen d" "0 \<le> posCol q" "posCol q \<le> posCol p"
    "docWidth d (posRow q) \<noteq> 0 \<Longrightarrow> isGlyph d q" "docWidth d (posRow q) = 0 \<Longrightarrow> posCol q = 0"
    using assms le by (auto simp: NormalizePos_def isGlyph_def headAt_def Let_def split: if_splits)
  fix k assume k: "posCol q < k" "k \<le> posCol p"
  show "\<not> headAt d (posRow q) k"
    using assms k headCol_gap [of d "posRow p" "nat (posCol p)" "nat k"]
    by (auto simp: NormalizePos_def headAt_def Let_def split: if_splits)
qed

lemma norm_glyph:
  assumes "isGlyph d p" "0 \<le> posRow p" "posRow p < docLen d"
  shows "NormalizePos d p = Some p"
proof -
  have "int (headCol d (posRow p) (nat (posCol p))) = posCol p" using assms headCol_head [of d "posRow p" "nat (posCol p)"] by (simp add: isGlyph_def)
  then show ?thesis using assms by (simp add: NormalizePos_def isGlyph_def headAt_def Let_def)
qed

lemma prev_step:
  assumes "PrevGlyph d p = Some n"
  shows "posRow n = posRow p" "0 \<le> posCol n" "posCol n < posCol p"
  using assms norm_facts(1,5) by (fastforce simp: PrevGlyph_def dest!: find_in split: option.splits if_splits)+

lemma next_step:
  assumes "NextGlyph d p = Some n"
  shows "posRow n = posRow p" "posCol p < posCol n" "posCol n < docWidth d (posRow p)"
proof -
  obtain q c where q: "NormalizePos d p = Some q" "n = mkPos (posRow q) c" "posCol q < c" "c < docWidth d (posRow q)" "headAt d (posRow q) c"
    using assms by (auto simp: NextGlyph_def dest!: find_in split: option.splits)
  then show "posRow n = posRow p" "posCol p < posCol n" "posCol n < docWidth d (posRow p)"
    using norm_facts(1) [OF q(1)] norm_facts(8) [OF q(1), of c] by (auto simp: not_le [symmetric])
qed

function wordFirst :: "Document \<Rightarrow> Pos \<Rightarrow> Pos" where
  "wordFirst d s = (case PrevGlyph d s of None \<Rightarrow> s | Some q \<Rightarrow> if sepAt d q then s else wordFirst d q)"
  by pat_completeness auto
termination
  by (relation "measure (\<lambda>(d, p). nat (posCol p))") (use prev_step in fastforce)+

function wordLast :: "Document \<Rightarrow> Pos \<Rightarrow> Pos" where
  "wordLast d s = (case NextGlyph d s of None \<Rightarrow> s | Some q \<Rightarrow> if sepAt d q then s else wordLast d q)"
  by pat_completeness auto
termination
  by (relation "measure (\<lambda>(d, p). nat (docWidth d (posRow p) - posCol p))") (use next_step in fastforce)+

declare wordFirst.simps [simp del] wordLast.simps [simp del]

definition WordBounds :: "Document \<Rightarrow> Pos \<Rightarrow> (Pos \<times> Pos) option" where
  "WordBounds d p0 =
     (case NormalizePos d p0 of
        None \<Rightarrow> None
      | Some p \<Rightarrow> if \<not> isGlyph d p \<or> sepAt d p then None else Some (wordFirst d p, wordLast d p))"

section \<open>The words of a document\<close>

function runs :: "('a \<Rightarrow> bool) \<Rightarrow> 'a list \<Rightarrow> 'a list list" where
  "runs P [] = []"
| "runs P (x # xs) = (if P x then (x # takeWhile P xs) # runs P (dropWhile P xs) else runs P xs)"
  by pat_completeness auto
termination
  by (relation "measure (\<lambda>(P, xs). length xs)") (auto simp: le_imp_less_Suc length_dropWhile_le)

text \<open>A word is a longest run of glyphs of one row none of which is a separator.\<close>

definition wordsOf :: "Document \<Rightarrow> Pos list list" where
  "wordsOf d = concat (map (\<lambda>r. runs (\<lambda>g. \<not> sepAt d g) (rowGlyphs d r)) [0..docLen d - 1])"

fun startsL :: "Document \<Rightarrow> Pos option \<Rightarrow> Pos list \<Rightarrow> Pos list" where
  "startsL d q [] = []"
| "startsL d q (g # gs) =
     (if \<not> sepAt d g \<and> (case q of None \<Rightarrow> True | Some p \<Rightarrow> \<not> sameWord d p g) then [g] else []) @ startsL d (Some g) gs"

fun endsL :: "Document \<Rightarrow> Pos list \<Rightarrow> Pos list" where
  "endsL d [] = []"
| "endsL d (g # gs) =
     (if \<not> sepAt d g \<and> (case gs of [] \<Rightarrow> True | h # _ \<Rightarrow> \<not> sameWord d h g) then [g] else []) @ endsL d gs"

definition lastOr :: "'a option \<Rightarrow> 'a list \<Rightarrow> 'a option" where
  "lastOr q xs = (if xs = [] then q else Some (last xs))"

lemma startsL_append: "startsL d q (xs @ ys) = startsL d q xs @ startsL d (lastOr q xs) ys"
  by (induction xs arbitrary: q) (auto simp: lastOr_def)

lemma startsL_subset: "set (startsL d q gs) \<subseteq> set gs"
  by (induction gs arbitrary: q) auto

lemma endsL_suffix: "\<exists>E. endsL d (xs @ ys) = E @ endsL d ys \<and> set E \<subseteq> set xs"
proof (induction xs)
  case (Cons x xs)
  then obtain E where E: "endsL d (xs @ ys) = E @ endsL d ys" "set E \<subseteq> set xs" by blast
  define F where "F = (if \<not> sepAt d x \<and> (case xs @ ys of [] \<Rightarrow> True | h # _ \<Rightarrow> \<not> sameWord d h x) then [x] else [])"
  have "endsL d ((x # xs) @ ys) = (F @ E) @ endsL d ys" using E(1) by (simp add: F_def)
  moreover have "set (F @ E) \<subseteq> set (x # xs)" using E(2) by (auto simp: F_def)
  ultimately show ?case by blast
qed simp

lemma endsL_append:
  "xs = [] \<or> ys = [] \<or> \<not> sameWord d (hd ys) (last xs) \<Longrightarrow> endsL d (xs @ ys) = endsL d xs @ endsL d ys"
proof (induction xs)
  case (Cons x xs)
  then show ?case by (cases xs; cases ys) simp_all
qed simp

lemma row_starts:
  assumes "\<forall>g \<in> set gs. posRow g = r"
  shows "startsL d q gs = map hd (runs (\<lambda>g. \<not> sepAt d g)
    (if \<exists>p. q = Some p \<and> \<not> sepAt d p \<and> posRow p = r then dropWhile (\<lambda>g. \<not> sepAt d g) gs else gs))"
  using assms by (induction gs arbitrary: q) (auto simp: sameWord_def split: option.splits)

lemma row_ends:
  assumes "\<forall>g \<in> set gs. posRow g = r"
  shows "endsL d gs = map last (runs (\<lambda>g. \<not> sepAt d g) gs)"
  using assms
proof (induction "\<lambda>g. \<not> sepAt d g" gs rule: runs.induct)
  case (2 x xs)
  have run: "endsL d (x # ys) = last (x # takeWhile (\<lambda>g. \<not> sepAt d g) ys) # endsL d (dropWhile (\<lambda>g. \<not> sepAt d g) ys)"
    if "\<not> sepAt d x" "posRow x = r" "\<forall>g \<in> set ys. posRow g = r" for x ys
    using that by (induction ys arbitrary: x) (auto simp: sameWord_def)
  show ?case using 2 run [of x xs] by (auto dest: set_dropWhileD)
qed simp

lemma row_of_glyphs: "g \<in> set (rowGlyphs d r) \<Longrightarrow> posRow g = r"
  by (auto simp: rowGlyphs_def)

lemma rows_starts:
  assumes "distinct rows" "\<forall>p. q = Some p \<longrightarrow> posRow p \<notin> set rows"
  shows "startsL d q (concat (map (rowGlyphs d) rows)) = map hd (concat (map (\<lambda>r. runs (\<lambda>g. \<not> sepAt d g) (rowGlyphs d r)) rows))"
  using assms
proof (induction rows arbitrary: q)
  case (Cons r rows)
  have "startsL d q (rowGlyphs d r) = map hd (runs (\<lambda>g. \<not> sepAt d g) (rowGlyphs d r))"
    using row_starts [of "rowGlyphs d r" r d q] row_of_glyphs Cons.prems(2) by auto
  moreover have "\<forall>p. lastOr q (rowGlyphs d r) = Some p \<longrightarrow> posRow p \<notin> set rows"
    using Cons.prems row_of_glyphs [of "last (rowGlyphs d r)" d r] by (auto simp: lastOr_def)
  ultimately show ?case using Cons by (simp add: startsL_append)
qed simp

lemma rows_ends:
  assumes "distinct rows"
  shows "endsL d (concat (map (rowGlyphs d) rows)) = map last (concat (map (\<lambda>r. runs (\<lambda>g. \<not> sepAt d g) (rowGlyphs d r)) rows))"
  using assms
proof (induction rows)
  case (Cons r rows)
  let ?xs = "rowGlyphs d r" and ?ys = "concat (map (rowGlyphs d) rows)"
  have "\<not> sameWord d (hd ?ys) (last ?xs)" if "?xs \<noteq> []" "?ys \<noteq> []"
  proof -
    have "posRow (hd ?ys) \<in> set rows" using hd_in_set [OF that(2)] row_of_glyphs by fastforce
    moreover have "posRow (last ?xs) = r" using that(1) row_of_glyphs [OF last_in_set] by simp
    ultimately show ?thesis using Cons.prems by (auto simp: sameWord_def)
  qed
  then have "endsL d (?xs @ ?ys) = endsL d ?xs @ endsL d ?ys" using endsL_append by blast
  then show ?case using Cons row_ends [of ?xs r d] row_of_glyphs by auto
qed simp

lemma word_starts: "map hd (wordsOf d) = startsL d None (glyphs d)"
  by (simp add: wordsOf_def glyphs_def rows_starts)

lemma word_ends: "map last (wordsOf d) = endsL d (glyphs d)"
  by (simp add: wordsOf_def glyphs_def rows_ends)

section \<open>Before and after a position\<close>

definition after :: "Document \<Rightarrow> Pos \<Rightarrow> Pos list" where
  "after d p = filter (before p) (glyphs d)"

definition upTo :: "Document \<Rightarrow> Pos \<Rightarrow> Pos list" where
  "upTo d p = filter (\<lambda>g. before g p) (glyphs d)"

lemma rows_sorted: "sorted_wrt (<) rows \<Longrightarrow> sorted_wrt before (concat (map (rowGlyphs d) rows))"
proof (induction rows)
  case (Cons r rows)
  have "sorted_wrt before (rowGlyphs d r)"
    by (simp add: rowGlyphs_def sorted_wrt_map before_def sorted_wrt_filter strict_sorted_iff)
  moreover have "before x y" if "x \<in> set (rowGlyphs d r)" "y \<in> set (concat (map (rowGlyphs d) rows))" for x y
    using that Cons.prems row_of_glyphs by (fastforce simp: before_def)
  ultimately show ?case using Cons by (simp add: sorted_wrt_append)
qed simp

lemma glyphs_sorted: "sorted_wrt before (glyphs d)"
  unfolding glyphs_def by (rule rows_sorted) (simp add: strict_sorted_iff)

lemma sorted_parts:
  assumes "sorted_wrt before gs"
  shows "gs = filter (\<lambda>g. before g p) gs @ (if p \<in> set gs then [p] else []) @ filter (before p) gs"
  using assms
proof (induction gs)
  case (Cons g gs)
  consider "before g p" | "g = p" | "before p g" using before_linear by blast
  then show ?case
  proof cases
    case 1
    then have "\<not> before p g" "g \<noteq> p" using before_trans before_irrefl by blast+
    then show ?thesis using 1 Cons by simp
  next
    case 2
    then have "filter (\<lambda>x. before x p) gs = []" "filter (before p) gs = gs" "p \<notin> set gs"
      using Cons.prems before_trans before_irrefl by (fastforce simp: filter_empty_conv filter_id_conv)+
    then show ?thesis using 2 by simp
  next
    case 3
    then have "\<forall>x \<in> set gs. before p x" using Cons.prems before_trans by auto
    then have "filter (\<lambda>x. before x p) gs = []" "filter (before p) gs = gs" "p \<notin> set gs"
      using before_trans before_irrefl by (fastforce simp: filter_empty_conv filter_id_conv)+
    moreover have "\<not> before g p" "g \<noteq> p" using 3 before_trans before_irrefl by blast+
    ultimately show ?thesis using 3 by simp
  qed
qed simp

lemma sorted_after:
  assumes "sorted_wrt before gs" "filter (before p) gs = n # ns"
  shows "n \<in> set gs" "before p n" "ns = filter (before n) gs"
proof -
  have "n \<in> set (filter (before p) gs)" using assms(2) by simp
  then show n: "n \<in> set gs" "before p n" by auto
  have "sorted_wrt before (n # ns)" using sorted_wrt_filter [OF assms(1), of "before p"] assms(2) by simp
  then have ns: "\<forall>x \<in> set ns. before n x" by simp
  have "filter (before n) gs = filter (before n) (filter (before p) gs)" using before_trans [OF n(2)] by (auto intro!: filter_cong)
  also have "\<dots> = ns" using assms(2) ns by (simp add: filter_id_conv)
  finally show "ns = filter (before n) gs" by simp
qed

lemma sorted_upTo:
  assumes "sorted_wrt before gs" "filter (\<lambda>g. before g p) gs = ns @ [n]"
  shows "n \<in> set gs" "before n p" "ns = filter (\<lambda>g. before g n) gs"
proof -
  have "n \<in> set (filter (\<lambda>g. before g p) gs)" using assms(2) by simp
  then show n: "n \<in> set gs" "before n p" by auto
  have "sorted_wrt before (ns @ [n])" using sorted_wrt_filter [OF assms(1), of "\<lambda>g. before g p"] assms(2) by simp
  then have ns: "\<forall>x \<in> set ns. before x n" by (simp add: sorted_wrt_append)
  have "filter (\<lambda>g. before g n) gs = filter (\<lambda>g. before g n) (filter (\<lambda>g. before g p) gs)"
    using before_trans [OF _ n(2)] by (auto intro!: filter_cong)
  also have "\<dots> = ns" using assms(2) ns by (simp add: filter_id_conv)
  finally show "ns = filter (\<lambda>g. before g n) gs" by simp
qed

lemma glyphs_parts: "glyphs d = upTo d p @ (if p \<in> set (glyphs d) then [p] else []) @ after d p"
  unfolding upTo_def after_def by (rule sorted_parts [OF glyphs_sorted])

lemma in_glyphs: "g \<in> set (glyphs d) \<longleftrightarrow> isGlyph d g \<and> 0 \<le> posRow g \<and> posRow g < docLen d"
proof -
  have "g = mkPos (posRow g) (posCol g)" by (cases g) simp
  then show ?thesis by (cases g) (auto simp: glyphs_def rowGlyphs_def isGlyph_def)
qed

lemma find_filtered: "find P xs = (case filter P xs of [] \<Rightarrow> None | y # _ \<Rightarrow> Some y)"
  by (induction xs) auto

lemma after_next:
  assumes "0 \<le> posRow p" "0 \<le> posCol p"
  shows "nextDocumentGlyph d p = (case after d p of [] \<Rightarrow> None | n # _ \<Rightarrow> Some n)"
  using next_glyph [of p d] assms by (simp add: after_def find_filtered)

lemma after_Cons:
  assumes "after d p = n # ns"
  shows "n \<in> set (glyphs d)" "before p n" "ns = after d n" "0 \<le> posRow n" "0 \<le> posCol n"
proof -
  note S = sorted_after [OF glyphs_sorted assms [unfolded after_def]]
  then show "n \<in> set (glyphs d)" "before p n" "ns = after d n" by (simp_all add: after_def)
  then show "0 \<le> posRow n" "0 \<le> posCol n" by (simp_all add: in_glyphs isGlyph_def)
qed

lemma upTo_prev:
  assumes "posRow p < docLen d"
  shows "previousDocumentGlyph d p = (if upTo d p = [] then None else Some (last (upTo d p)))"
proof -
  have "filter (\<lambda>g. before g p) (rev (glyphs d)) = rev (upTo d p)" by (simp add: upTo_def rev_filter)
  then show ?thesis using previous_glyph [OF assms] by (cases "upTo d p" rule: rev_cases) (auto simp: find_filtered)
qed

lemma upTo_snoc:
  assumes "upTo d p = ns @ [n]"
  shows "n \<in> set (glyphs d)" "before n p" "ns = upTo d n" "posRow n < docLen d"
proof -
  note S = sorted_upTo [OF glyphs_sorted assms [unfolded upTo_def]]
  then show "n \<in> set (glyphs d)" "before n p" "ns = upTo d n" by (simp_all add: upTo_def)
  then show "posRow n < docLen d" by (simp add: in_glyphs)
qed

section \<open>The loops find the nearest word\<close>

abbreviation hdOpt :: "'a list \<Rightarrow> 'a option" where
  "hdOpt xs \<equiv> (case xs of [] \<Rightarrow> None | y # _ \<Rightarrow> Some y)"

lemma skipSeparators_find:
  assumes "0 \<le> posRow c" "0 \<le> posCol c"
  shows "skipSeparators d c = find (\<lambda>g. \<not> sepAt d g) (c # after d c)"
  using assms
proof (induction "length (after d c)" arbitrary: c rule: less_induct)
  case less
  show ?case
  proof (cases "after d c")
    case Nil
    then show ?thesis using after_next [OF less.prems, of d] by (simp add: skipSeparators.simps [of d c])
  next
    case (Cons n ns)
    note A = after_Cons [OF Cons]
    have "skipSeparators d n = find (\<lambda>g. \<not> sepAt d g) (n # after d n)" using less.hyps [of n] A Cons by simp
    then show ?thesis using after_next [OF less.prems, of d] A Cons by (simp add: skipSeparators.simps [of d c])
  qed
qed

lemma starts_fresh:
  assumes "\<forall>x. q = Some x \<longrightarrow> sepAt d x \<or> gs = [] \<or> posRow x \<noteq> posRow (hd gs)"
  shows "hdOpt (startsL d q gs) = find (\<lambda>g. \<not> sepAt d g) gs"
  using assms
proof (induction gs arbitrary: q)
  case (Cons g gs)
  show ?case
  proof (cases "sepAt d g")
    case True
    then show ?thesis using Cons.IH [of "Some g"] by simp
  next
    case False
    then show ?thesis using Cons.prems by (auto simp: sameWord_def split: option.splits)
  qed
qed simp

lemma skipWord_starts:
  assumes "0 \<le> posRow p" "0 \<le> posCol p" "\<not> sepAt d p"
  shows "Option.bind (skipWord d p) (skipSeparators d) = hdOpt (startsL d (Some p) (after d p))"
  using assms
proof (induction "length (after d p)" arbitrary: p rule: less_induct)
  case less
  show ?case
  proof (cases "after d p")
    case Nil
    then show ?thesis using after_next [OF less.prems(1,2), of d] by (simp add: skipWord.simps [of d p])
  next
    case (Cons n ns)
    note A = after_Cons [OF Cons]
    have nx: "nextDocumentGlyph d p = Some n" using after_next [OF less.prems(1,2), of d] Cons by simp
    show ?thesis
    proof (cases "sameWord d n p")
      case True
      then have "\<not> sepAt d n" "sameWord d p n" by (auto simp: sameWord_def)
      then show ?thesis using less.hyps [of n] True A Cons nx by (simp add: skipWord.simps [of d p])
    next
      case False
      have "hdOpt (startsL d (Some p) (n # ns)) = find (\<lambda>g. \<not> sepAt d g) (n # ns)"
      proof (cases "sepAt d n")
        case True
        then show ?thesis using starts_fresh [of "Some n" d ns] by simp
      next
        case n: False
        then show ?thesis using False by (auto simp: sameWord_def)
      qed
      then show ?thesis using False A Cons nx skipSeparators_find [of n d] by (simp add: skipWord.simps [of d p])
    qed
  qed
qed

lemma find_suffix:
  assumes "glyphs d = xs @ after d p" "\<forall>g \<in> set xs. \<not> before p g"
  shows "find (before p) (map hd (wordsOf d)) = hdOpt (startsL d (lastOr None xs) (after d p))"
    and "find (before p) (map last (wordsOf d)) = hdOpt (endsL d (after d p))"
proof -
  have here: "find (before p) ys = hdOpt ys" if "set ys \<subseteq> set (after d p)" for ys
    using that by (cases ys) (auto simp: after_def)
  have "startsL d None (glyphs d) = startsL d None xs @ startsL d (lastOr None xs) (after d p)" using assms(1) by (metis startsL_append)
  moreover have "\<not> before p g" if "g \<in> set (startsL d None xs)" for g using that startsL_subset assms(2) by blast
  ultimately show "find (before p) (map hd (wordsOf d)) = hdOpt (startsL d (lastOr None xs) (after d p))"
    using here [OF startsL_subset] by (simp add: word_starts find_skip)
  obtain E where E: "endsL d (glyphs d) = E @ endsL d (after d p)" "set E \<subseteq> set xs" using endsL_suffix [of d xs "after d p"] assms(1) by auto
  have sub: "set (endsL d (after d p)) \<subseteq> set (after d p)" using endsL_suffix [of d "after d p" "[]"] by auto
  have "find (before p) (E @ endsL d (after d p)) = find (before p) (endsL d (after d p))" by (rule find_skip) (use E(2) assms(2) in auto)
  then show "find (before p) (map last (wordsOf d)) = hdOpt (endsL d (after d p))" using here [OF sub] by (simp add: word_ends E(1))
qed

lemma upTo_not_after: "g \<in> set (upTo d p) \<Longrightarrow> \<not> before p g"
  using before_trans before_irrefl by (fastforce simp: upTo_def)

lemma next_word_glyph:
  assumes n: "NormalizePos d p0 = Some p" and g: "isGlyph d p"
  shows "NextWordStart d p0 = find (before p) (map hd (wordsOf d))"
proof -
  note N = norm_facts [OF n]
  have parts: "glyphs d = (upTo d p @ [p]) @ after d p" using glyphs_parts [of d p] g N by (simp add: in_glyphs)
  have "find (before p) (map hd (wordsOf d)) = hdOpt (startsL d (Some p) (after d p))"
    using find_suffix(1) [OF parts] upTo_not_after by (auto simp: lastOr_def)
  moreover have "NextWordStart d p0 = hdOpt (startsL d (Some p) (after d p))"
  proof (cases "sepAt d p")
    case True
    have "hdOpt (startsL d (Some p) (after d p)) = find (\<lambda>g. \<not> sepAt d g) (after d p)" using starts_fresh [of "Some p" d] True by simp
    then show ?thesis using n True after_next [OF N(2,4), of d] after_Cons(3,4,5) [of d p] skipSeparators_find [of _ d]
      by (cases "after d p") (simp_all add: NextWordStart_def)
  next
    case False
    then show ?thesis using skipWord_starts [OF N(2,4) False] n g by (cases "skipWord d p") (simp_all add: NextWordStart_def)
  qed
  ultimately show ?thesis by simp
qed

lemma gap_rows:
  assumes "docWidth d (posRow p) = 0"
  shows "g \<in> set (upTo d p) \<Longrightarrow> posRow g < posRow p" "g \<in> set (after d p) \<Longrightarrow> posRow p < posRow g"
    "glyphs d = upTo d p @ after d p"
proof -
  have row: "posRow g \<noteq> posRow p" if "g \<in> set (glyphs d)" for g using that assms by (auto simp: in_glyphs isGlyph_def)
  show "g \<in> set (upTo d p) \<Longrightarrow> posRow g < posRow p" "g \<in> set (after d p) \<Longrightarrow> posRow p < posRow g"
    using row [of g] by (auto simp: upTo_def after_def before_def)
  have "p \<notin> set (glyphs d)" using row by blast
  then show "glyphs d = upTo d p @ after d p" by (metis append_Nil glyphs_parts)
qed

lemma next_word_gap:
  assumes n: "NormalizePos d p0 = Some p" and g: "\<not> isGlyph d p"
  shows "NextWordStart d p0 = find (before p) (map hd (wordsOf d))"
proof -
  note N = norm_facts [OF n]
  then have w: "docWidth d (posRow p) = 0" using g by blast
  note G = gap_rows [OF w]
  have "\<forall>x. lastOr None (upTo d p) = Some x \<longrightarrow> sepAt d x \<or> after d p = [] \<or> posRow x \<noteq> posRow (hd (after d p))"
    using G(1) [OF last_in_set] G(2) [OF hd_in_set] by (auto simp: lastOr_def split: if_splits)
  then have "find (before p) (map hd (wordsOf d)) = find (\<lambda>g. \<not> sepAt d g) (after d p)"
    using find_suffix(1) [OF G(3)] upTo_not_after starts_fresh by auto
  then show ?thesis using n g after_next [OF N(2,4), of d] after_Cons(3,4,5) [of d p] skipSeparators_find [of _ d]
    by (cases "after d p") (simp_all add: NextWordStart_def)
qed

lemmas next_word_start = next_word_glyph next_word_gap

text \<open>Backwards.\<close>

lemma startsL_snoc:
  "startsL d None (xs @ [g]) = startsL d None xs @ (if \<not> sepAt d g \<and> (xs = [] \<or> \<not> sameWord d (last xs) g) then [g] else [])"
  by (simp add: startsL_append lastOr_def)

lemma toWordStart_last:
  assumes "posRow c < docLen d" "\<not> sepAt d c"
  shows "lastOr None (startsL d None (upTo d c @ [c])) = Some (toWordStart d c)"
  using assms
proof (induction "length (upTo d c)" arbitrary: c rule: less_induct)
  case less
  show ?case
  proof (cases "upTo d c" rule: rev_cases)
    case Nil
    then show ?thesis using upTo_prev [OF less.prems(1)] less.prems(2) by (simp add: toWordStart.simps [of d c] lastOr_def)
  next
    case (snoc ns n)
    note A = upTo_snoc [OF snoc]
    have pv: "previousDocumentGlyph d c = Some n" using upTo_prev [OF less.prems(1)] snoc by simp
    show ?thesis
    proof (cases "sameWord d n c")
      case True
      then have "\<not> sepAt d n" by (simp add: sameWord_def)
      then have "lastOr None (startsL d None (upTo d c)) = Some (toWordStart d n)" using less.hyps [of n] A snoc by simp
      then show ?thesis using True pv startsL_snoc [of d "upTo d c" c] snoc by (simp add: toWordStart.simps [of d c])
    next
      case False
      then show ?thesis using pv less.prems(2) startsL_snoc [of d "upTo d c" c] snoc by (simp add: toWordStart.simps [of d c] lastOr_def)
    qed
  qed
qed

lemma backSeparators_last:
  assumes "posRow c < docLen d"
  shows "lastOr None (startsL d None (upTo d c @ [c])) = map_option (toWordStart d) (backSeparators d c)"
  using assms
proof (induction "length (upTo d c)" arbitrary: c rule: less_induct)
  case less
  show ?case
  proof (cases "sepAt d c")
    case False
    then show ?thesis using toWordStart_last [OF less.prems] by (simp add: backSeparators.simps [of d c])
  next
    case True
    show ?thesis
    proof (cases "upTo d c" rule: rev_cases)
      case Nil
      then show ?thesis using True upTo_prev [OF less.prems] by (simp add: backSeparators.simps [of d c] lastOr_def)
    next
      case (snoc ns n)
      note A = upTo_snoc [OF snoc]
      then show ?thesis using True upTo_prev [OF less.prems] less.hyps [of n] startsL_snoc [of d "upTo d c" c] snoc
        by (simp add: backSeparators.simps [of d c])
    qed
  qed
qed

lemma find_prefix:
  assumes "glyphs d = upTo d p @ ys" "\<forall>g \<in> set ys. \<not> before g p"
  shows "find (\<lambda>g. before g p) (rev (map hd (wordsOf d))) = lastOr None (startsL d None (upTo d p))"
proof -
  let ?S = "startsL d None (upTo d p)" and ?T = "startsL d (lastOr None (upTo d p)) ys"
  have "rev (startsL d None (glyphs d)) = rev ?T @ rev ?S" using assms(1) by (simp add: startsL_append)
  moreover have "find (\<lambda>g. before g p) (rev ?T @ rev ?S) = find (\<lambda>g. before g p) (rev ?S)"
    by (rule find_skip) (use startsL_subset assms(2) in fastforce)
  moreover have "find (\<lambda>g. before g p) (rev ?S) = lastOr None ?S"
  proof (cases ?S rule: rev_cases)
    case (snoc zs z)
    then have "z \<in> set (upTo d p)" using startsL_subset [of d None "upTo d p"] by auto
    then show ?thesis using snoc by (simp add: lastOr_def upTo_def)
  qed (simp add: lastOr_def)
  ultimately show ?thesis by (simp add: word_starts)
qed

lemma after_not_before: "g \<in> set (after d p) \<Longrightarrow> \<not> before g p"
  using before_trans before_irrefl by (fastforce simp: after_def)

lemma previous_word_start:
  assumes n: "NormalizePos d p0 = Some p"
  shows "PreviousWordStart d p0 = find (\<lambda>g. before g p) (rev (map hd (wordsOf d)))"
proof -
  note N = norm_facts [OF n]
  let ?ys = "(if p \<in> set (glyphs d) then [p] else []) @ after d p"
  have "glyphs d = upTo d p @ ?ys" by (rule glyphs_parts)
  moreover have "\<forall>g \<in> set ?ys. \<not> before g p" using after_not_before by auto
  ultimately have ref: "find (\<lambda>g. before g p) (rev (map hd (wordsOf d))) = lastOr None (startsL d None (upTo d p))" by (rule find_prefix)
  show ?thesis
  proof (cases "upTo d p" rule: rev_cases)
    case Nil
    then show ?thesis using n upTo_prev [OF N(3)] ref by (simp add: PreviousWordStart_def lastOr_def)
  next
    case (snoc ns m)
    note A = upTo_snoc [OF snoc]
    have pv: "previousDocumentGlyph d p = Some m" using upTo_prev [OF N(3)] snoc by simp
    show ?thesis
    proof (cases "isGlyph d p \<and> \<not> sepAt d p \<and> sameWord d m p")
      case True
      have "lastOr None (startsL d None (upTo d p @ [p])) = Some (toWordStart d p)" using toWordStart_last [OF N(3)] True by simp
      then show ?thesis using True n pv ref startsL_snoc [of d "upTo d p" p] snoc by (simp add: PreviousWordStart_def)
    next
      case False
      then show ?thesis using n pv snoc A backSeparators_last [OF A(4)] ref by (auto simp: PreviousWordStart_def Let_def)
    qed
  qed
qed

text \<open>Ends of words.\<close>

lemma toWordEnd_first:
  assumes "0 \<le> posRow c" "0 \<le> posCol c" "\<not> sepAt d c"
  shows "hdOpt (endsL d (c # after d c)) = Some (toWordEnd d c)"
  using assms
proof (induction "length (after d c)" arbitrary: c rule: less_induct)
  case less
  show ?case
  proof (cases "after d c")
    case Nil
    then show ?thesis using after_next [OF less.prems(1,2), of d] less.prems(3) by (simp add: toWordEnd.simps [of d c])
  next
    case (Cons n ns)
    note A = after_Cons [OF Cons]
    have nx: "nextDocumentGlyph d c = Some n" using after_next [OF less.prems(1,2), of d] Cons by simp
    show ?thesis
    proof (cases "sameWord d n c")
      case True
      then have "\<not> sepAt d n" by (simp add: sameWord_def)
      then have "hdOpt (endsL d (n # ns)) = Some (toWordEnd d n)" using less.hyps [of n] A Cons by simp
      then show ?thesis using True nx Cons by (simp add: toWordEnd.simps [of d c])
    next
      case False
      then show ?thesis using nx Cons less.prems(3) by (simp add: toWordEnd.simps [of d c])
    qed
  qed
qed

lemma skip_to_end:
  assumes "0 \<le> posRow c" "0 \<le> posCol c"
  shows "hdOpt (endsL d (c # after d c)) = map_option (toWordEnd d) (skipSeparators d c)"
  using assms
proof (induction "length (after d c)" arbitrary: c rule: less_induct)
  case less
  show ?case
  proof (cases "sepAt d c")
    case False
    then show ?thesis using toWordEnd_first [OF less.prems False] by (simp add: skipSeparators.simps [of d c])
  next
    case True
    show ?thesis
    proof (cases "after d c")
      case Nil
      then show ?thesis using True after_next [OF less.prems, of d] by (simp add: skipSeparators.simps [of d c])
    next
      case (Cons n ns)
      note A = after_Cons [OF Cons]
      have "hdOpt (endsL d (n # after d n)) = map_option (toWordEnd d) (skipSeparators d n)" using less.hyps [of n] A Cons by simp
      then show ?thesis using True after_next [OF less.prems, of d] A Cons by (simp add: skipSeparators.simps [of d c])
    qed
  qed
qed

lemma next_word_end:
  assumes n: "NormalizePos d p0 = Some p" and g: "isGlyph d p"
  shows "NextWordEnd d p0 = find (before p) (map last (wordsOf d))"
proof -
  note N = norm_facts [OF n]
  have parts: "glyphs d = (upTo d p @ [p]) @ after d p" using glyphs_parts [of d p] g N by (simp add: in_glyphs)
  have ref: "find (before p) (map last (wordsOf d)) = hdOpt (endsL d (after d p))" using find_suffix(2) [OF parts] upTo_not_after by auto
  note nx = after_next [OF N(2,4), of d] and sk = skip_to_end [OF N(2,4), of d]
  show ?thesis
  proof (cases "sepAt d p")
    case True
    then show ?thesis using sk n g by (simp add: NextWordEnd_def ref)
  next
    case False
    show ?thesis
    proof (cases "after d p")
      case Nil
      then show ?thesis using False n g nx by (simp add: NextWordEnd_def ref)
    next
      case (Cons m ms)
      note A = after_Cons [OF Cons]
      show ?thesis
      proof (cases "sameWord d m p")
        case True
        then show ?thesis using False n g nx sk Cons by (simp add: NextWordEnd_def ref)
      next
        case ns: False
        then show ?thesis using False n g nx skip_to_end [OF A(4,5), of d] A Cons by (simp add: NextWordEnd_def ref)
      qed
    qed
  qed
qed

section \<open>The word at a position\<close>

lemma runs_concat: "concat (runs P xs) = filter P xs"
proof (induction P xs rule: runs.induct)
  case (2 P x xs)
  have "filter P xs = filter P (takeWhile P xs) @ filter P (dropWhile P xs)" by (metis filter_append takeWhile_dropWhile_id)
  also have "filter P (takeWhile P xs) = takeWhile P xs" by (auto simp: filter_id_conv dest: set_takeWhileD)
  finally show ?case using 2 by (cases "P x") simp_all
qed simp

lemma runs_mem:
  assumes "P x"
  shows "rev (takeWhile P (rev xs)) @ x # takeWhile P ys \<in> set (runs P (xs @ x # ys))"
proof (induction xs rule: length_induct)
  case (1 xs)
  show ?case
  proof (cases xs)
    case Nil
    then show ?thesis using assms by simp
  next
    case (Cons z zs)
    show ?thesis
    proof (cases "\<forall>y \<in> set zs. P y")
      case True
      then show ?thesis using assms Cons 1 by (cases "P z") (simp_all add: takeWhile_append2 takeWhile_tail)
    next
      case False
      then obtain y where y: "y \<in> set zs" "\<not> P y" by blast
      then have y': "y \<in> set (dropWhile P zs)" by (metis Un_iff set_append set_takeWhileD takeWhile_dropWhile_id)
      have drop: "takeWhile P (rev zs) = takeWhile P (rev (dropWhile P zs))"
        using takeWhile_append1 [of y "rev (dropWhile P zs)" P "rev (takeWhile P zs)"] y y'
        by (metis rev_append set_rev takeWhile_dropWhile_id)
      have tl: "takeWhile P (rev xs) = takeWhile P (rev zs)" using takeWhile_append1 [of y "rev zs"] y Cons by simp
      have run: "runs P (xs @ x # ys) = (if P z then (z # takeWhile P (zs @ x # ys)) # runs P (dropWhile P zs @ x # ys) else runs P (zs @ x # ys))"
        using Cons dropWhile_append1 [of y zs P "x # ys"] y by simp
      have "rev (takeWhile P (rev zs)) @ x # takeWhile P ys \<in> set (runs P (zs @ x # ys))" using 1 Cons by simp
      moreover have "rev (takeWhile P (rev (dropWhile P zs))) @ x # takeWhile P ys \<in> set (runs P (dropWhile P zs @ x # ys))"
        using 1 Cons length_dropWhile_le [of P zs] by simp
      ultimately show ?thesis using drop unfolding tl run by simp
    qed
  qed
qed

lemma rowGlyphs_sorted: "sorted_wrt before (rowGlyphs d r)"
  using rows_sorted [of "[r]" d] by simp

lemma in_rowGlyphs: "isGlyph d p \<Longrightarrow> p \<in> set (rowGlyphs d (posRow p))"
  by (cases p) (auto simp: rowGlyphs_def isGlyph_def)

lemma PrevGlyph_row:
  assumes "p \<in> set (rowGlyphs d r)" "0 \<le> r" "r < docLen d"
  shows "PrevGlyph d p = lastOr None (filter (\<lambda>g. before g p) (rowGlyphs d r))"
proof -
  have g: "isGlyph d p" "posRow p = r" using assms(1) by (auto simp: rowGlyphs_def isGlyph_def)
  have "PrevGlyph d p = find (\<lambda>g. before g p) (rev (rowGlyphs d r))"
    using norm_glyph [of d p] row_prev [of r p d] g assms by (simp add: PrevGlyph_def isGlyph_def min_def)
  also have "\<dots> = lastOr None (filter (\<lambda>g. before g p) (rowGlyphs d r))"
    by (cases "filter (\<lambda>g. before g p) (rowGlyphs d r)" rule: rev_cases) (simp_all add: find_filtered rev_filter [symmetric] lastOr_def)
  finally show ?thesis .
qed

lemma NextGlyph_row:
  assumes "p \<in> set (rowGlyphs d r)" "0 \<le> r" "r < docLen d"
  shows "NextGlyph d p = hdOpt (filter (before p) (rowGlyphs d r))"
proof -
  have g: "isGlyph d p" "posRow p = r" using assms(1) by (auto simp: rowGlyphs_def isGlyph_def)
  then show ?thesis using norm_glyph [of d p] row_next [of p r d] assms by (simp add: NextGlyph_def isGlyph_def find_filtered)
qed

lemma wordFirst_run:
  assumes "p \<in> set (rowGlyphs d r)" "0 \<le> r" "r < docLen d"
  shows "wordFirst d p = hd (rev (takeWhile (\<lambda>g. \<not> sepAt d g) (rev (filter (\<lambda>g. before g p) (rowGlyphs d r)))) @ [p])"
  using assms(1)
proof (induction "length (filter (\<lambda>g. before g p) (rowGlyphs d r))" arbitrary: p rule: less_induct)
  case less
  note P = PrevGlyph_row [OF less.prems assms(2,3)]
  show ?case
  proof (cases "filter (\<lambda>g. before g p) (rowGlyphs d r)" rule: rev_cases)
    case Nil
    then show ?thesis using P by (simp add: wordFirst.simps [of d p] lastOr_def)
  next
    case (snoc ns n)
    note S = sorted_upTo [OF rowGlyphs_sorted snoc]
    have "wordFirst d n = hd (rev (takeWhile (\<lambda>g. \<not> sepAt d g) (rev ns)) @ [n])" using less.hyps [of n] S snoc by simp
    then show ?thesis using P snoc by (simp add: wordFirst.simps [of d p] lastOr_def hd_append)
  qed
qed

lemma wordLast_run:
  assumes "p \<in> set (rowGlyphs d r)" "0 \<le> r" "r < docLen d"
  shows "wordLast d p = last (p # takeWhile (\<lambda>g. \<not> sepAt d g) (filter (before p) (rowGlyphs d r)))"
  using assms(1)
proof (induction "length (filter (before p) (rowGlyphs d r))" arbitrary: p rule: less_induct)
  case less
  note P = NextGlyph_row [OF less.prems assms(2,3)]
  show ?case
  proof (cases "filter (before p) (rowGlyphs d r)")
    case Nil
    then show ?thesis using P by (simp add: wordLast.simps [of d p])
  next
    case (Cons n ns)
    note S = sorted_after [OF rowGlyphs_sorted Cons]
    have "wordLast d n = last (n # takeWhile (\<lambda>g. \<not> sepAt d g) ns)" using less.hyps [of n] S Cons by simp
    then show ?thesis using P Cons by (simp add: wordLast.simps [of d p])
  qed
qed

lemma words_concat: "concat (wordsOf d) = filter (\<lambda>g. \<not> sepAt d g) (glyphs d)"
proof -
  have "concat (concat (map (\<lambda>r. runs (\<lambda>g. \<not> sepAt d g) (rowGlyphs d r)) rows)) = filter (\<lambda>g. \<not> sepAt d g) (concat (map (rowGlyphs d) rows))" for rows
    by (induction rows) (simp_all add: runs_concat)
  then show ?thesis by (simp add: wordsOf_def glyphs_def)
qed

lemma sorted_distinct: "sorted_wrt before gs \<Longrightarrow> distinct gs"
  by (induction gs) auto

lemma glyphs_distinct: "distinct (glyphs d)"
  by (rule sorted_distinct [OF glyphs_sorted])

lemma word_at:
  assumes n: "NormalizePos d p0 = Some p" and g: "isGlyph d p" "\<not> sepAt d p"
  obtains w where "w \<in> set (wordsOf d)" "p \<in> set w" "hd w = wordFirst d p" "last w = wordLast d p"
proof -
  note N = norm_facts [OF n]
  let ?N = "\<lambda>g. \<not> sepAt d g" and ?R = "rowGlyphs d (posRow p)"
  let ?xs = "filter (\<lambda>g. before g p) ?R" and ?ys = "filter (before p) ?R"
  let ?w = "rev (takeWhile ?N (rev ?xs)) @ p # takeWhile ?N ?ys"
  have p: "p \<in> set ?R" using in_rowGlyphs [OF g(1)] .
  then have "?R = ?xs @ p # ?ys" using sorted_parts [OF rowGlyphs_sorted, of d "posRow p" p] by simp
  then have "?w \<in> set (runs ?N ?R)" using runs_mem [of ?N p ?xs ?ys] g(2) by metis
  then have "?w \<in> set (wordsOf d)" using N(2,3) by (auto simp: wordsOf_def)
  moreover have "hd ?w = wordFirst d p" "last ?w = wordLast d p"
    using wordFirst_run [OF p N(2,3)] wordLast_run [OF p N(2,3)] by (simp_all add: hd_append)
  ultimately show ?thesis using that [of ?w] by simp
qed

lemma words_disjoint:
  assumes "v \<in> set (wordsOf d)" "w \<in> set (wordsOf d)" "p \<in> set v" "p \<in> set w"
  shows "v = w"
proof -
  have "distinct (concat (wordsOf d))" using glyphs_distinct by (simp add: words_concat)
  then show ?thesis using assms by (auto simp: distinct_concat_iff)
qed

lemma word_bounds:
  assumes n: "NormalizePos d p0 = Some p"
  shows "WordBounds d p0 = Some (a, b) \<longleftrightarrow> (\<exists>w \<in> set (wordsOf d). p \<in> set w \<and> a = hd w \<and> b = last w)"
proof (cases "isGlyph d p \<and> \<not> sepAt d p")
  case True
  then obtain w where w: "w \<in> set (wordsOf d)" "p \<in> set w" "hd w = wordFirst d p" "last w = wordLast d p" using word_at [OF n] by blast
  have "WordBounds d p0 = Some (hd w, last w)" using n True w(3,4) by (simp add: WordBounds_def)
  moreover have "v = w" if "v \<in> set (wordsOf d)" "p \<in> set v" for v using words_disjoint that w by blast
  ultimately show ?thesis using w(1,2) by (metis option.inject prod.inject)
next
  case False
  have "p \<notin> set w" if "w \<in> set (wordsOf d)" for w
  proof
    assume "p \<in> set w"
    then have "p \<in> set (concat (wordsOf d))" using that by auto
    then show False using False by (simp add: words_concat in_glyphs)
  qed
  then show ?thesis using n False by (auto simp: WordBounds_def)
qed

text \<open>
  C15. The word motions find the nearest word. A word is a longest run of glyphs of one row without a
  separator. From any position the motion forward goes to the first word that starts after it, the motion
  back to the last word that starts before it, the motion to an end to the first word end after it, in
  reading order over the rows; and the word at a position is the one that contains it.
\<close>

theorem word_motions:
  assumes "NormalizePos d p0 = Some p"
  shows "NextWordStart d p0 = find (before p) (map hd (wordsOf d)) \<and>
    PreviousWordStart d p0 = find (\<lambda>g. before g p) (rev (map hd (wordsOf d))) \<and>
    NextWordEnd d p0 = (if isGlyph d p then find (before p) (map last (wordsOf d)) else None) \<and>
    (WordBounds d p0 = Some (a, b) \<longleftrightarrow> (\<exists>w \<in> set (wordsOf d). p \<in> set w \<and> a = hd w \<and> b = last w))"
proof -
  have "NextWordStart d p0 = find (before p) (map hd (wordsOf d))" using next_word_start [OF assms] by blast
  moreover have "NextWordEnd d p0 = (if isGlyph d p then find (before p) (map last (wordsOf d)) else None)"
    using next_word_end [OF assms] assms by (simp add: NextWordEnd_def)
  ultimately show ?thesis using previous_word_start [OF assms] word_bounds [OF assms] by blast
qed

definition demoSource :: CellSource where
  "demoSource = \<lparr>srcColumns = 4, srcRows = 2,
     srcCell = (\<lambda>x y. \<lparr>Rune = [[97, 98, 32, 99], [100, 32, 32, 32]] ! y ! x, Continuation = False\<rparr>)\<rparr>"

definition demoDoc :: Document where
  "demoDoc = \<lparr>snapshot = newSnapshot [] demoSource [\<lparr>boundEnd = 4, Soft = False\<rparr>, \<lparr>boundEnd = 4, Soft = False\<rparr>], wordSeparators = []\<rparr>"

theorem word_motions_witness:
  "NextWordStart demoDoc (mkPos 0 1) = Some (mkPos 0 3) \<and> PreviousWordStart demoDoc (mkPos 0 1) = Some (mkPos 0 0) \<and>
   NextWordEnd demoDoc (mkPos 0 1) = Some (mkPos 0 3)"
proof -
  have "NormalizePos demoDoc (mkPos 0 1) = Some (mkPos 0 1)" by code_simp
  note m = word_motions [OF this]
  have "find (before (mkPos 0 1)) (map hd (wordsOf demoDoc)) = Some (mkPos 0 3)" by code_simp
  moreover have "find (\<lambda>g. before g (mkPos 0 1)) (rev (map hd (wordsOf demoDoc))) = Some (mkPos 0 0)" by code_simp
  moreover have "find (before (mkPos 0 1)) (map last (wordsOf demoDoc)) = Some (mkPos 0 3)" "isGlyph demoDoc (mkPos 0 1)" by code_simp+
  ultimately show ?thesis using m by simp
qed

end
