(* ===== verification/Copy_Selection.thy ===== *)
theory Copy_Selection
  imports Copy_Words
begin

text \<open>
  Selections of copy mode and their text: \<^verbatim>\<open>internal/usecase/copy/selection.go\<close> and the extraction of
  \<^verbatim>\<open>document.go\<close>. A text is the list of its runes.
\<close>

section \<open>Cells of a row\<close>

function glyphEnd :: "Cell list \<Rightarrow> int \<Rightarrow> int" where
  "glyphEnd cells col =
     (if col + 1 < int (length cells) \<and> Continuation (cells ! nat (col + 1)) then glyphEnd cells (col + 1) else col)"
  by pat_completeness auto
termination
  by (relation "measure (\<lambda>(cells, col). nat (int (length cells) - col))") auto

declare glyphEnd.simps [simp del]

definition blankCell :: "Cell \<Rightarrow> bool" where
  "blankCell c = (Continuation c \<or> Rune c = 0 \<or> Rune c = 32)"

definition lastContentCol :: "Cell list \<Rightarrow> int \<Rightarrow> int \<Rightarrow> int" where
  "lastContentCol row start stop =
     (case find (\<lambda>col. \<not> blankCell (row ! nat col)) (rev [start..stop]) of None \<Rightarrow> start - 1 | Some col \<Rightarrow> col)"

definition contentEndOf :: "Cell list \<Rightarrow> LineBound \<Rightarrow> int" where
  "contentEndOf cells bound =
     (if cells = [] then 0
      else if Soft bound then min (max (boundEnd bound) 0) (int (length cells))
      else let l = lastContentCol cells 0 (int (length cells) - 1)
           in if l < 0 then 0 else glyphEnd cells l + 1)"

definition cellText :: "Cell \<Rightarrow> rune list" where
  "cellText c = (if Continuation c then [] else if Rune c = 0 then [32] else [Rune c])"

definition cellsText :: "Cell list \<Rightarrow> int \<Rightarrow> int \<Rightarrow> rune list" where
  "cellsText row start stop =
     (if start < 0 \<or> stop < start \<or> start \<ge> int (length row) then []
      else concat (map (\<lambda>col. cellText (row ! nat col)) [start..min stop (int (length row) - 1)]))"

section \<open>Extraction\<close>

text \<open>The text of a range, whether the row continues into the next one, and whether the range is valid.\<close>

definition rangeText :: "Document \<Rightarrow> CellRange \<Rightarrow> bool \<Rightarrow> rune list \<times> bool \<times> bool" where
  "rangeText d r logicalEnd =
     (if rgRow r < 0 \<or> rgRow r \<ge> docLen d then ([], False, False)
      else let row = RowAt (snapshot d) (rgRow r); len = int (length row); bound = BoundAt (snapshot d) (rgRow r)
      in if len = 0 then ([], False, rgStart r = 0 \<and> rgEnd r = 0)
      else if rgEnd r = rgStart r - 1 \<and> rgStart r \<ge> 0 \<and> rgStart r \<le> len then ([], Soft bound \<and> \<not> logicalEnd, True)
      else let start = min (rgStart r) (rgEnd r); stop = max (rgStart r) (rgEnd r)
      in if stop < 0 \<or> start \<ge> len then ([], False, False)
      else let start = max start 0; stop = min stop (len - 1)
      in case NormalizePos d (mkPos (rgRow r) start) of
        None \<Rightarrow> ([], False, False)
      | Some head \<Rightarrow>
          let start = posCol head; limit = contentEndOf row bound;
              soft = (Soft bound \<and> \<not> logicalEnd \<and> stop \<ge> limit - 1);
              stop = (if soft then min stop (limit - 1) else lastContentCol row start stop)
          in if stop < start then ([], soft, True)
             else case NormalizePos d (mkPos (rgRow r) stop) of
               None \<Rightarrow> ([], soft, True)
             | Some tail \<Rightarrow> (cellsText row start (posCol tail), soft, True))"

fun emit :: "Document \<Rightarrow> CellRange list \<Rightarrow> rune list" where
  "emit d [] = []"
| "emit d (r # rs) =
     (let final = (rs = []); adjacent = (\<not> final \<and> rgRow (hd rs) = rgRow r + 1);
          (txt, soft, ok) = rangeText d r (final \<or> \<not> adjacent)
      in txt @ (if \<not> final \<and> \<not> soft then [10] else []) @ emit d rs)"

definition Extract :: "Document \<Rightarrow> CellRange list \<Rightarrow> rune list" where
  "Extract d ranges = emit d (filter (\<lambda>r. snd (snd (rangeText d r True))) ranges)"

definition contentEnd :: "Document \<Rightarrow> int \<Rightarrow> int" where
  "contentEnd d row = contentEndOf (RowAt (snapshot d) row) (BoundAt (snapshot d) row)"

definition trimRight :: "rune list \<Rightarrow> rune list" where
  "trimRight xs = rev (dropWhile (\<lambda>r. r = 32) (rev xs))"

definition LineText :: "Document \<Rightarrow> int \<Rightarrow> rune list" where
  "LineText d row = (let cells = RowAt (snapshot d) row in trimRight (cellsText cells 0 (int (length cells) - 1)))"

section \<open>Selections\<close>

datatype Granularity = GranLine | GranCharacter | GranWord

record Selection =
  slAnchor :: Pos
  slActive :: Pos
  slGranularity :: Granularity
  slEnabled :: bool

definition zeroSelection :: Selection where
  "zeroSelection = \<lparr>slAnchor = mkPos 0 0, slActive = mkPos 0 0, slGranularity = GranLine, slEnabled = False\<rparr>"

definition NewLineSelection :: "Pos \<Rightarrow> Selection" where
  "NewLineSelection p = \<lparr>slAnchor = p, slActive = p, slGranularity = GranLine, slEnabled = True\<rparr>"

definition NewWordSelection :: "Document \<Rightarrow> Pos \<Rightarrow> Selection option" where
  "NewWordSelection d p =
     map_option (\<lambda>(a, b). \<lparr>slAnchor = a, slActive = b, slGranularity = GranWord, slEnabled = True\<rparr>) (WordBounds d p)"

definition order :: "Pos \<Rightarrow> Pos \<Rightarrow> Pos \<times> Pos" where
  "order l r = (if before r l then (r, l) else (l, r))"

record selectionBounds =
  sbStart :: Pos
  sbEnd :: Pos
  linewise :: bool

definition bounds :: "Document \<Rightarrow> Selection \<Rightarrow> selectionBounds option" where
  "bounds d s =
     (if \<not> slEnabled s then None
      else case NormalizePos d (slAnchor s) of
        None \<Rightarrow> None
      | Some anchor \<Rightarrow>
          (case NormalizePos d (slActive s) of
             None \<Rightarrow> None
           | Some active \<Rightarrow>
               (case slGranularity s of
                  GranLine \<Rightarrow> (let (a, b) = order anchor active in Some \<lparr>sbStart = a, sbEnd = b, linewise = True\<rparr>)
                | GranCharacter \<Rightarrow> (let (a, b) = order anchor active in Some \<lparr>sbStart = a, sbEnd = b, linewise = False\<rparr>)
                | GranWord \<Rightarrow>
                    (case WordBounds d anchor of
                       None \<Rightarrow> None
                     | Some (anchorStart, anchorEnd) \<Rightarrow>
                         (case WordBounds d active of
                            None \<Rightarrow> None
                          | Some (activeStart, activeEnd) \<Rightarrow>
                              Some \<lparr>sbStart = fst (order anchorStart activeStart), sbEnd = snd (order anchorEnd activeEnd),
                                linewise = False\<rparr>)))))"

definition rangeForCells :: "selectionBounds \<Rightarrow> int \<Rightarrow> Cell list \<Rightarrow> int \<Rightarrow> CellRange option" where
  "rangeForCells b row cells limit =
     (if row < posRow (sbStart b) \<or> row > posRow (sbEnd b) then None
      else if cells = [] then Some \<lparr>rgRow = row, rgStart = 0, rgEnd = 0\<rparr>
      else if limit = 0 then Some \<lparr>rgRow = row, rgStart = 0, rgEnd = -1\<rparr>
      else if linewise b then Some \<lparr>rgRow = row, rgStart = 0, rgEnd = limit - 1\<rparr>
      else let start = (if row = posRow (sbStart b) then posCol (sbStart b) else 0);
               stop = min (if row = posRow (sbEnd b) then glyphEnd cells (posCol (sbEnd b)) else int (length cells) - 1) (limit - 1)
           in Some \<lparr>rgRow = row, rgStart = start, rgEnd = (if start > stop then start - 1 else stop)\<rparr>)"

definition rangeForRow :: "Document \<Rightarrow> selectionBounds \<Rightarrow> int \<Rightarrow> CellRange option" where
  "rangeForRow d b row =
     (if row < posRow (sbStart b) \<or> row > posRow (sbEnd b) then None
      else let cells = RowAt (snapshot d) row in rangeForCells b row cells (contentEndOf cells (BoundAt (snapshot d) row)))"

definition Ranges :: "Document \<Rightarrow> Selection \<Rightarrow> CellRange list" where
  "Ranges d s =
     (case bounds d s of
        None \<Rightarrow> []
      | Some b \<Rightarrow> List.map_filter (rangeForRow d b) [posRow (sbStart b)..posRow (sbEnd b)])"

definition RangeForRow :: "Document \<Rightarrow> Selection \<Rightarrow> int \<Rightarrow> CellRange option" where
  "RangeForRow d s row = (case bounds d s of None \<Rightarrow> None | Some b \<Rightarrow> rangeForRow d b row)"

definition newlineMarkerAt :: "selectionBounds \<Rightarrow> int \<Rightarrow> int \<Rightarrow> int \<Rightarrow> bool \<Rightarrow> int option" where
  "newlineMarkerAt b row stop width soft =
     (if row < posRow (sbStart b) \<or> row > posRow (sbEnd b) \<or> soft \<or> (\<not> linewise b \<and> row = posRow (sbEnd b)) then None
      else if stop > 0 \<and> stop < width then Some stop else None)"

definition SelText :: "Document \<Rightarrow> Selection \<Rightarrow> rune list" where
  "SelText d s = Extract d (Ranges d s)"

definition Extend :: "Pos \<Rightarrow> Selection \<Rightarrow> Selection" where
  "Extend p s = s\<lparr>slActive := p\<rparr>"

definition AsCharacter :: "Selection \<Rightarrow> Selection" where
  "AsCharacter s = s\<lparr>slGranularity := GranCharacter\<rparr>"

end
