(* ===== verification/Copy_Text.thy ===== *)
theory Copy_Text
  imports Copy_Selection
begin

text \<open>
  What a selection copies. Under the shape every snapshot has, and with the two facts the terminal
  guarantees of its rows (a row starts with a glyph, and a soft-wrapped row has nothing visible past its
  logical end), the copied text has exactly the visible characters of the selected glyphs, in reading order.
\<close>

section \<open>Rows\<close>

definition frame_ok :: "Document \<Rightarrow> bool" where
  "frame_ok d = (let f = snScreen (snapshot d) in
     frHeight f = int (length (frRows f)) \<and> (\<forall>row \<in> set (frRows f). frWidth f = int (length row)))"

definition rows_ok :: "Document \<Rightarrow> bool" where
  "rows_ok d = (\<forall>r \<in> {0..<docLen d}. let row = RowAt (snapshot d) r; b = BoundAt (snapshot d) r in
     row \<noteq> [] \<longrightarrow> \<not> Continuation (hd row) \<and>
       (Soft b \<longrightarrow> (\<forall>c \<in> {max 0 (boundEnd b)..<int (length row)}. blankCell (row ! nat c))))"

abbreviation cellsOf :: "Document \<Rightarrow> int \<Rightarrow> Cell list" where
  "cellsOf d r \<equiv> RowAt (snapshot d) r"

abbreviation boundOf :: "Document \<Rightarrow> int \<Rightarrow> LineBound" where
  "boundOf d r \<equiv> BoundAt (snapshot d) r"

lemma snapshot_frame: "snapshot d = newSnapshot history src bs \<Longrightarrow> frame_ok d"
  by (auto simp: frame_ok_def newSnapshot_def Let_def)

lemma row_shape:
  assumes "frame_ok d" "0 \<le> r" "r < docLen d"
  shows "docWidth d r = int (length (cellsOf d r))"
    and "0 \<le> c \<Longrightarrow> c < docWidth d r \<Longrightarrow> docCell d c r = cellsOf d r ! nat c"
proof -
  let ?k = "r - histLen (snapshot d)"
  have k: "nat ?k < length (frRows (snScreen (snapshot d)))" if "\<not> r < histLen (snapshot d)"
    using assms that by (simp add: frame_ok_def Len_def Let_def nat_less_iff)
  have w: "int (length (frRows (snScreen (snapshot d)) ! nat ?k)) = frWidth (snScreen (snapshot d))" if "\<not> r < histLen (snapshot d)"
    using assms(1) nth_mem [OF k [OF that]] by (simp add: frame_ok_def Let_def)
  show width: "docWidth d r = int (length (cellsOf d r))" using assms(2,3) w by (auto simp: RowWidth_def RowAt_def Len_def Let_def)
  show "docCell d c r = cellsOf d r ! nat c" if "0 \<le> c" "c < docWidth d r"
    using assms(2,3) that w by (auto simp: CellAt_def RowAt_def RowWidth_def Len_def Let_def split: if_splits)
qed

lemma row_head:
  assumes "frame_ok d" "rows_ok d" "0 \<le> r" "r < docLen d" "cellsOf d r \<noteq> []"
  shows "headAt d r 0"
  using assms row_shape(2) [OF assms(1,3,4), of 0] row_shape(1) [OF assms(1,3,4)]
  by (auto simp: rows_ok_def headAt_def Let_def hd_conv_nth)

lemma headCol_is_head:
  assumes "headAt d r 0"
  shows "headAt d r (int (headCol d r c))"
  using assms by (induction c) (auto simp: headAt_def)

lemma norm_in_row:
  assumes "frame_ok d" "rows_ok d" "0 \<le> r" "r < docLen d" "0 \<le> c" "c < int (length (cellsOf d r))"
  obtains q where "NormalizePos d (mkPos r c) = Some q" "posRow q = r" "posCol q \<le> c" "isGlyph d q"
    "\<And>k. posCol q < k \<Longrightarrow> k \<le> c \<Longrightarrow> \<not> headAt d r k"
proof -
  have w: "docWidth d r = int (length (cellsOf d r))" by (rule row_shape(1) [OF assms(1,3,4)])
  have "cellsOf d r \<noteq> []" using assms(5,6) by auto
  then have "headAt d r 0" by (rule row_head [OF assms(1-4)])
  then have "headAt d r (int (headCol d r (nat c)))" by (rule headCol_is_head)
  then have "NormalizePos d (mkPos r c) = Some (mkPos r (int (headCol d r (nat c))))"
    using assms(3-6) w by (auto simp: NormalizePos_def headAt_def Let_def)
  then obtain q where q: "NormalizePos d (mkPos r c) = Some q" by blast
  show ?thesis using norm_facts [OF q] that [OF q] w assms(5,6) by force
qed

section \<open>Visible characters\<close>

definition visible :: "rune \<Rightarrow> bool" where
  "visible r = (r \<noteq> 32 \<and> r \<noteq> 10)"

definition visCols :: "Cell list \<Rightarrow> int \<Rightarrow> int \<Rightarrow> rune list" where
  "visCols row lo hi = filter visible (concat (map (\<lambda>c. cellText (row ! nat c)) [lo..hi]))"

lemma visCols_split: "lo \<le> m \<Longrightarrow> m \<le> hi + 1 \<Longrightarrow> visCols row lo hi = visCols row lo (m - 1) @ visCols row m hi"
  using upto_parts [of lo m hi] by (simp add: visCols_def)

lemma visCols_blank:
  assumes "\<And>c. lo \<le> c \<Longrightarrow> c \<le> hi \<Longrightarrow> blankCell (row ! nat c)"
  shows "visCols row lo hi = []"
proof -
  have "filter visible (cellText (row ! nat c)) = []" if "c \<in> set [lo..hi]" for c
    using assms [of c] that by (auto simp: cellText_def blankCell_def visible_def)
  then show ?thesis by (auto simp: visCols_def filter_concat)
qed

lemma visCols_cut:
  assumes "m \<le> hi" "\<And>c. max lo (m + 1) \<le> c \<Longrightarrow> c \<le> hi \<Longrightarrow> blankCell (row ! nat c)"
  shows "visCols row lo hi = visCols row lo m"
proof (cases "lo \<le> m")
  case True
  have "visCols row lo hi = visCols row lo m @ visCols row (m + 1) hi" using visCols_split [of lo "m + 1" hi row] True assms(1) by simp
  moreover have "visCols row (m + 1) hi = []" by (rule visCols_blank) (use assms(2) True in auto)
  ultimately show ?thesis by simp
next
  case False
  have "visCols row lo hi = []" by (rule visCols_blank) (use assms(2) False in auto)
  then show ?thesis using False by (simp add: visCols_def)
qed

lemma glyphs_cols:
  assumes "frame_ok d" "0 \<le> r" "r < docLen d" "0 \<le> lo" "hi < int (length (cellsOf d r))"
  shows "filter visible (map (runeAt d) (filter (\<lambda>g. lo \<le> posCol g \<and> posCol g \<le> hi) (rowGlyphs d r))) = visCols (cellsOf d r) lo hi"
proof -
  let ?row = "cellsOf d r"
  note W = row_shape(1) [OF assms(1-3)]
  have parts: "filter (\<lambda>c. lo \<le> c \<and> c \<le> hi) [0..docWidth d r - 1] = [lo..hi]"
  proof (cases "lo \<le> hi")
    case True
    have "[0..docWidth d r - 1] = [0..lo - 1] @ [lo..hi] @ [hi + 1..docWidth d r - 1]"
      using upto_parts [of 0 lo "docWidth d r - 1"] upto_parts [of lo "hi + 1" "docWidth d r - 1"] True assms(4,5) W by simp
    moreover have "filter (\<lambda>c. lo \<le> c \<and> c \<le> hi) [lo..hi] = [lo..hi]" by (simp add: filter_id_conv)
    ultimately show ?thesis by (simp add: filter_empty_conv)
  next
    case False
    then show ?thesis by (auto simp: filter_empty_conv)
  qed
  have "filter (\<lambda>g. lo \<le> posCol g \<and> posCol g \<le> hi) (rowGlyphs d r) =
      map (mkPos r) (filter (headAt d r) (filter (\<lambda>c. lo \<le> c \<and> c \<le> hi) [0..docWidth d r - 1]))"
    by (simp add: rowGlyphs_def filter_map o_def conj_commute)
  also have "\<dots> = map (mkPos r) (filter (headAt d r) [lo..hi])" by (simp only: parts)
  finally have eq: "filter (\<lambda>g. lo \<le> posCol g \<and> posCol g \<le> hi) (rowGlyphs d r) = map (mkPos r) (filter (headAt d r) [lo..hi])" .
  have cell: "concat (map (\<lambda>c. cellText (?row ! nat c)) cs) = map (runeAt d) (map (mkPos r) (filter (headAt d r) cs))"
    if "set cs \<subseteq> {lo..hi}" for cs
    using that
  proof (induction cs)
    case (Cons c cs)
    then have "docCell d c r = ?row ! nat c" using row_shape(2) [OF assms(1-3), of c] W assms(4,5) by auto
    then show ?case using Cons by (simp add: headAt_def cellText_def runeAt_def Let_def)
  qed simp
  show ?thesis unfolding eq visCols_def using cell [of "[lo..hi]"] by simp
qed

section \<open>Where a row's content ends\<close>

lemma glyphEnd_ge: "col \<le> glyphEnd cells col"
proof (induction cells col rule: glyphEnd.induct)
  case (1 cells col)
  then show ?case by (subst glyphEnd.simps) auto
qed

lemma glyphEnd_lt: "col < int (length cells) \<Longrightarrow> glyphEnd cells col < int (length cells)"
proof (induction cells col rule: glyphEnd.induct)
  case (1 cells col)
  then show ?case by (subst glyphEnd.simps) auto
qed

lemma glyphEnd_cont:
  "col < c \<Longrightarrow> c \<le> glyphEnd cells col \<Longrightarrow> Continuation (cells ! nat c)"
proof (induction cells col rule: glyphEnd.induct)
  case (1 cells col)
  show ?case
  proof (cases "col + 1 < int (length cells) \<and> Continuation (cells ! nat (col + 1))")
    case True
    then have "glyphEnd cells col = glyphEnd cells (col + 1)" by (subst glyphEnd.simps) simp
    then show ?thesis using 1 True by (cases "c = col + 1") auto
  next
    case False
    then have "glyphEnd cells col = col" by (subst glyphEnd.simps) auto
    then show ?thesis using 1 by simp
  qed
qed

lemma lastContentCol_facts:
  assumes "l = lastContentCol row start stop" "start \<le> stop + 1"
  shows "start - 1 \<le> l" "l \<le> stop" "\<And>c. l < c \<Longrightarrow> c \<le> stop \<Longrightarrow> blankCell (row ! nat c)"
    "start \<le> l \<Longrightarrow> \<not> blankCell (row ! nat l)"
proof -
  have "start - 1 \<le> l \<and> l \<le> stop \<and> (\<forall>c. l < c \<longrightarrow> c \<le> stop \<longrightarrow> blankCell (row ! nat c)) \<and> (start \<le> l \<longrightarrow> \<not> blankCell (row ! nat l))"
  proof (cases "find (\<lambda>col. \<not> blankCell (row ! nat col)) (rev [start..stop])")
    case None
    have "l = start - 1" using assms(1) None by (simp add: lastContentCol_def)
    moreover have "\<forall>c. start \<le> c \<longrightarrow> c \<le> stop \<longrightarrow> blankCell (row ! nat c)" using None by (auto simp: find_None_iff)
    ultimately show ?thesis using assms(2) by auto
  next
    case (Some k)
    have k: "k \<in> set [start..stop]" "\<not> blankCell (row ! nat k)" using find_in [OF Some] by auto
    have "blankCell (row ! nat c)" if kc: "k < c" "c \<le> stop" for c
    proof -
      have "rev [start..stop] = rev [k + 1..stop] @ k # rev [start..k - 1]" using upto_split3 [of start k stop] k(1) by simp
      then have *: "find (\<lambda>col. \<not> blankCell (row ! nat col)) (rev [k + 1..stop] @ k # rev [start..k - 1]) = Some k" using Some by simp
      show ?thesis
      proof (rule ccontr)
        assume "\<not> blankCell (row ! nat c)"
        then obtain m where "find (\<lambda>col. \<not> blankCell (row ! nat col)) (rev [k + 1..stop]) = Some m"
          using kc by (cases "find (\<lambda>col. \<not> blankCell (row ! nat col)) (rev [k + 1..stop])") (auto simp: find_None_iff)
        moreover from this have "m \<noteq> k" by (auto dest!: find_in)
        moreover have "find P (xs @ ys) = (case find P xs of None \<Rightarrow> find P ys | Some y \<Rightarrow> Some y)" for P and xs ys :: "int list" by (induction xs) auto
        ultimately show False using * by simp
      qed
    qed
    then show ?thesis using k Some assms(1) by (auto simp: lastContentCol_def)
  qed
  then show "start - 1 \<le> l" "l \<le> stop" "\<And>c. l < c \<Longrightarrow> c \<le> stop \<Longrightarrow> blankCell (row ! nat c)" "start \<le> l \<Longrightarrow> \<not> blankCell (row ! nat l)" by auto
qed

lemma content_end:
  assumes "rows_ok d" "0 \<le> r" "r < docLen d" "row = cellsOf d r" "limit = contentEndOf row (boundOf d r)"
  shows "0 \<le> limit" "limit \<le> int (length row)" "\<And>c. limit \<le> c \<Longrightarrow> c < int (length row) \<Longrightarrow> blankCell (row ! nat c)"
proof -
  have "0 \<le> limit \<and> limit \<le> int (length row) \<and> (\<forall>c. limit \<le> c \<longrightarrow> c < int (length row) \<longrightarrow> blankCell (row ! nat c))"
  proof (cases "row = [] \<or> Soft (boundOf d r)")
    case True
    have "\<forall>c \<in> {max 0 (boundEnd (boundOf d r))..<int (length row)}. blankCell (row ! nat c)" if "row \<noteq> []"
      using assms(1-4) True that by (simp add: rows_ok_def Let_def)
    then show ?thesis using True assms(5) by (cases "row = []") (auto simp: contentEndOf_def min_def split: if_splits)
  next
    case False
    define l where "l = lastContentCol row 0 (int (length row) - 1)"
    note L = lastContentCol_facts [OF l_def]
    have "limit = (if l < 0 then 0 else glyphEnd row l + 1)" using False assms(5) by (simp add: contentEndOf_def l_def Let_def)
    moreover have "l < int (length row)" using L(2) False by (cases row) auto
    ultimately show ?thesis using L(1,3) glyphEnd_ge [of l row] glyphEnd_lt [of l row] by (cases "l < 0") auto
  qed
  then show "0 \<le> limit" "limit \<le> int (length row)" "\<And>c. limit \<le> c \<Longrightarrow> c < int (length row) \<Longrightarrow> blankCell (row ! nat c)" by auto
qed

section \<open>The text of one row\<close>

lemma cellsText_visible:
  assumes "0 \<le> s" "s \<le> e" "e < int (length row)"
  shows "filter visible (cellsText row s e) = visCols row s e"
  using assms by (simp add: cellsText_def visCols_def min_def)

lemma cellsText_last:
  assumes "0 \<le> s" "s \<le> e" "e < int (length row)" "\<not> blankCell (row ! nat e)"
  shows "cellsText row s e \<noteq> [] \<and> last (cellsText row s e) \<noteq> 32"
proof -
  have "[s..e] = [s..e - 1] @ [e]" using upto_rec2 [OF assms(2)] by simp
  then show ?thesis using assms by (simp add: cellsText_def min_def cellText_def blankCell_def)
qed

lemma not_head_blank:
  assumes "frame_ok d" "0 \<le> r" "r < docLen d" "0 \<le> c" "c < int (length (cellsOf d r))" "\<not> headAt d r c"
  shows "blankCell (cellsOf d r ! nat c)"
  using assms row_shape [OF assms(1-3)] by (simp add: headAt_def blankCell_def)

definition rowText_ok :: "Document \<Rightarrow> CellRange \<Rightarrow> bool \<Rightarrow> bool \<Rightarrow> rune list \<Rightarrow> bool" where
  "rowText_ok d rg le soft vis =
     (\<exists>txt. rangeText d rg le = (txt, soft, True) \<and> filter visible txt = vis \<and> (soft \<or> txt = [] \<or> last txt \<noteq> 32))"

lemma tail_text:
  assumes "frame_ok d" "rows_ok d" "0 \<le> r" "r < docLen d" "row = cellsOf d r"
    and "0 \<le> s" "s \<le> e" "e < int (length row)" "headAt d r s"
  obtains q where "NormalizePos d (mkPos r e) = Some q" "filter visible (cellsText row s (posCol q)) = visCols row s e"
    "\<not> blankCell (row ! nat e) \<Longrightarrow> last (cellsText row s (posCol q)) \<noteq> 32"
proof -
  obtain q where q: "NormalizePos d (mkPos r e) = Some q" "posRow q = r" "posCol q \<le> e"
      "\<And>k. posCol q < k \<Longrightarrow> k \<le> e \<Longrightarrow> \<not> headAt d r k"
    using norm_in_row [OF assms(1-4), of e] assms(5-8) by auto
  have sq: "s \<le> posCol q" using q(4) [of s] assms(7,9) by force
  have blank: "blankCell (row ! nat c)" if "posCol q < c" "c \<le> e" for c
    using not_head_blank [OF assms(1,3,4), of c] q(4) [OF that] that assms(5,6,8) sq by auto
  have "visCols row s e = visCols row s (posCol q)" by (rule visCols_cut [OF q(3)]) (use blank in auto)
  then have "filter visible (cellsText row s (posCol q)) = visCols row s e"
    using cellsText_visible [OF assms(6) sq] q(3) assms(8) by simp
  moreover have "last (cellsText row s (posCol q)) \<noteq> 32" if "\<not> blankCell (row ! nat e)"
  proof -
    have "posCol q = e" using blank [of e] that q(3) by force
    then show ?thesis using cellsText_last [OF assms(6-8) that] by simp
  qed
  ultimately show thesis using that [OF q(1)] by blast
qed

lemma range_text:
  assumes "frame_ok d" "rows_ok d" "0 \<le> r" "r < docLen d" "row = cellsOf d r" "limit = contentEndOf row (boundOf d r)"
    and "0 \<le> s" "s \<le> e" "e < int (length row)" "headAt d r s" "e \<le> limit - 1"
  shows "rowText_ok d \<lparr>rgRow = r, rgStart = s, rgEnd = e\<rparr> le (Soft (boundOf d r) \<and> \<not> le \<and> limit - 1 \<le> e) (visCols row s e)"
proof -
  define soft where "soft = (Soft (boundOf d r) \<and> \<not> le \<and> limit - 1 \<le> e)"
  define l where "l = (if soft then e else lastContentCol row s e)"
  have W: "docWidth d r = int (length row)" using row_shape(1) [OF assms(1,3,4)] assms(5) by simp
  have "NormalizePos d (mkPos r s) = Some (mkPos r s)" using norm_glyph [of d "mkPos r s"] assms(3,4,7-10) W by (simp add: isGlyph_def)
  moreover have "min s e = s" "max s e = e" "max s 0 = s" "min e (int (length row) - 1) = e" "min e (limit - 1) = e" "row \<noteq> []"
    using assms(7-9,11) by auto
  ultimately have R: "rangeText d \<lparr>rgRow = r, rgStart = s, rgEnd = e\<rparr> le =
      (if l < s then ([], soft, True)
       else case NormalizePos d (mkPos r l) of None \<Rightarrow> ([], soft, True) | Some q \<Rightarrow> (cellsText row s (posCol q), soft, True))"
    using assms(3,4,7-9) unfolding l_def soft_def by (simp add: rangeText_def Let_def assms(5,6) [symmetric])
  have L: "s - 1 \<le> l" "l \<le> e" "\<And>c. l < c \<Longrightarrow> c \<le> e \<Longrightarrow> blankCell (row ! nat c)" "\<not> soft \<Longrightarrow> s \<le> l \<Longrightarrow> \<not> blankCell (row ! nat l)"
    using lastContentCol_facts [OF refl, of s e row] assms(8) by (auto simp: l_def split: if_splits)
  have cut: "visCols row s e = visCols row s l" by (rule visCols_cut [OF L(2)]) (use L(3) in auto)
  show ?thesis
  proof (cases "l < s")
    case True
    then have "visCols row s e = []" using cut by (simp add: visCols_def)
    then show ?thesis using R True by (simp add: rowText_ok_def soft_def)
  next
    case False
    obtain q where q: "NormalizePos d (mkPos r l) = Some q" "filter visible (cellsText row s (posCol q)) = visCols row s l"
        "\<not> blankCell (row ! nat l) \<Longrightarrow> last (cellsText row s (posCol q)) \<noteq> 32"
      using tail_text [OF assms(1-5,7), of l] False L(2) assms(9,10) by auto
    then have "rangeText d \<lparr>rgRow = r, rgStart = s, rgEnd = e\<rparr> le = (cellsText row s (posCol q), soft, True)" using R False by simp
    moreover have "soft \<or> last (cellsText row s (posCol q)) \<noteq> 32" using q(3) L(4) False by auto
    ultimately show ?thesis using q(2) cut unfolding rowText_ok_def soft_def by auto
  qed
qed

lemma empty_text:
  assumes "0 \<le> r" "r < docLen d" "row = cellsOf d r" "row \<noteq> []" "0 \<le> s" "s \<le> int (length row)"
  shows "rowText_ok d \<lparr>rgRow = r, rgStart = s, rgEnd = s - 1\<rparr> le (Soft (boundOf d r) \<and> \<not> le) []"
  using assms by (simp add: rowText_ok_def rangeText_def Let_def)

section \<open>The rows of a selection\<close>

text \<open>The columns of row \<open>r\<close> a selection covers.\<close>

definition colFrom :: "selectionBounds \<Rightarrow> int \<Rightarrow> int" where
  "colFrom b r = (if \<not> linewise b \<and> r = posRow (sbStart b) then posCol (sbStart b) else 0)"

definition colTo :: "Document \<Rightarrow> selectionBounds \<Rightarrow> int \<Rightarrow> int" where
  "colTo d b r = min (int (length (cellsOf d r)) - 1) (if \<not> linewise b \<and> r = posRow (sbEnd b) then posCol (sbEnd b) else int (length (cellsOf d r)) - 1)"

definition end_ok :: "Document \<Rightarrow> Pos \<Rightarrow> bool" where
  "end_ok d p = (0 \<le> posRow p \<and> posRow p < docLen d \<and> 0 \<le> posCol p \<and>
     (if cellsOf d (posRow p) = [] then posCol p = 0 else posCol p < int (length (cellsOf d (posRow p))) \<and> headAt d (posRow p) (posCol p)))"

definition bounds_ok :: "Document \<Rightarrow> selectionBounds \<Rightarrow> bool" where
  "bounds_ok d b = (end_ok d (sbStart b) \<and> end_ok d (sbEnd b) \<and> posRow (sbStart b) \<le> posRow (sbEnd b))"

lemma char_range:
  assumes "frame_ok d" "rows_ok d" "bounds_ok d b" "\<not> linewise b" "posRow (sbStart b) \<le> r" "r \<le> posRow (sbEnd b)" "cellsOf d r \<noteq> []"
    and limit: "contentEndOf (cellsOf d r) (boundOf d r) = limit" "limit \<noteq> 0" and le: "r < posRow (sbEnd b) \<or> le"
  shows "\<exists>rg. rangeForRow d b r = Some rg \<and> rgRow rg = r \<and>
    rowText_ok d rg le (Soft (boundOf d r) \<and> \<not> le) (visCols (cellsOf d r) (colFrom b r) (colTo d b r))"
proof -
  define row where "row = cellsOf d r"
  define s where "s = colFrom b r"
  define e where "e = min (if r = posRow (sbEnd b) then glyphEnd row (posCol (sbEnd b)) else int (length row) - 1) (limit - 1)"
  have r: "0 \<le> r" "r < docLen d" using assms(3,5,6) by (auto simp: bounds_ok_def end_ok_def)
  have ne: "row \<noteq> []" using assms(7) by (simp add: row_def)
  note C = content_end [OF assms(2) r row_def limit(1) [symmetric, folded row_def]]
  have s: "0 \<le> s" "s < int (length row)" "headAt d r s"
    using assms(3,4,7) row_head [OF assms(1,2) r assms(7)] by (auto simp: s_def colFrom_def bounds_ok_def end_ok_def row_def split: if_splits)
  have b: "colTo d b r \<le> (if r = posRow (sbEnd b) then glyphEnd row (posCol (sbEnd b)) else int (length row) - 1)"
    using assms(4) glyphEnd_ge [of "posCol (sbEnd b)" row] by (auto simp: colTo_def row_def)
  have bl: "colTo d b r < int (length row)" using ne by (auto simp: colTo_def row_def)
  have e: "e < int (length row)" "e \<le> limit - 1" "r < posRow (sbEnd b) \<Longrightarrow> limit - 1 \<le> e" using C(2) by (auto simp: e_def)
  have rg: "rangeForRow d b r = Some \<lparr>rgRow = r, rgStart = s, rgEnd = (if s > e then s - 1 else e)\<rparr>"
    using assms(4-7) limit by (auto simp: rangeForRow_def rangeForCells_def Let_def s_def e_def colFrom_def row_def)
  have beyond: "blankCell (row ! nat c)" if "e < c" "c \<le> colTo d b r" for c using C(3) [of c] that b bl by (simp add: e_def split: if_splits)
  have wide: "blankCell (row ! nat c)" if "colTo d b r < c" "c \<le> e" for c
    using glyphEnd_cont [of "posCol (sbEnd b)" c row] that assms(3,4,7)
    by (auto simp: e_def colTo_def row_def blankCell_def bounds_ok_def end_ok_def split: if_splits)
  have "visCols row s (colTo d b r) = visCols row s (min e (colTo d b r))" by (rule visCols_cut) (use beyond in auto)
  also have "\<dots> = visCols row s e" by (rule visCols_cut [symmetric]) (use wide in auto)
  finally have vis: "visCols row s (colTo d b r) = visCols row s e" .
  have "rowText_ok d \<lparr>rgRow = r, rgStart = s, rgEnd = (if s > e then s - 1 else e)\<rparr> le (Soft (boundOf d r) \<and> \<not> le) (visCols row s e)"
  proof (cases "s > e")
    case True
    then show ?thesis using empty_text [OF r row_def ne s(1), of le] s(2) by (simp add: visCols_def)
  next
    case False
    have "(Soft (boundOf d r) \<and> \<not> le \<and> limit - 1 \<le> e) = (Soft (boundOf d r) \<and> \<not> le)" using e(3) le by auto
    then show ?thesis using range_text [OF assms(1,2) r row_def limit(1) [symmetric, folded row_def] s(1) _ e(1) s(3) e(2), of le] False by simp
  qed
  then show ?thesis using rg vis by (simp add: row_def s_def)
qed

lemma line_range:
  assumes "frame_ok d" "rows_ok d" "bounds_ok d b" "linewise b" "posRow (sbStart b) \<le> r" "r \<le> posRow (sbEnd b)" "cellsOf d r \<noteq> []"
    and limit: "contentEndOf (cellsOf d r) (boundOf d r) = limit" "limit \<noteq> 0"
  shows "\<exists>rg. rangeForRow d b r = Some rg \<and> rgRow rg = r \<and>
    rowText_ok d rg le (Soft (boundOf d r) \<and> \<not> le) (visCols (cellsOf d r) (colFrom b r) (colTo d b r))"
proof -
  have r: "0 \<le> r" "r < docLen d" using assms(3,5,6) by (auto simp: bounds_ok_def end_ok_def)
  note C = content_end [OF assms(2) r refl limit(1) [symmetric]]
  have h: "headAt d r 0" by (rule row_head [OF assms(1,2) r assms(7)])
  have "visCols (cellsOf d r) 0 (int (length (cellsOf d r)) - 1) = visCols (cellsOf d r) 0 (limit - 1)"
    by (rule visCols_cut) (use C in auto)
  moreover have "rangeForRow d b r = Some \<lparr>rgRow = r, rgStart = 0, rgEnd = limit - 1\<rparr>"
    using assms(4-7) limit by (simp add: rangeForRow_def rangeForCells_def Let_def)
  ultimately show ?thesis
    using range_text [OF assms(1,2) r refl limit(1) [symmetric] order_refl, of "limit - 1" le] C h limit(2) assms(4)
    by (simp add: colFrom_def colTo_def)
qed

lemma row_range:
  assumes "frame_ok d" "rows_ok d" "bounds_ok d b" "posRow (sbStart b) \<le> r" "r \<le> posRow (sbEnd b)" and le: "r < posRow (sbEnd b) \<or> le"
  shows "\<exists>rg. rangeForRow d b r = Some rg \<and> rgRow rg = r \<and>
    rowText_ok d rg le (cellsOf d r \<noteq> [] \<and> Soft (boundOf d r) \<and> \<not> le) (visCols (cellsOf d r) (colFrom b r) (colTo d b r))"
proof -
  define limit where "limit = contentEndOf (cellsOf d r) (boundOf d r)"
  have r: "0 \<le> r" "r < docLen d" using assms(3-5) by (auto simp: bounds_ok_def end_ok_def)
  consider "cellsOf d r = []" | "cellsOf d r \<noteq> []" "limit = 0" | "cellsOf d r \<noteq> []" "limit \<noteq> 0" by blast
  then show ?thesis
  proof cases
    case 1
    have "0 \<le> colFrom b r" "colTo d b r < 0" using 1 assms(3) by (auto simp: bounds_ok_def end_ok_def colFrom_def colTo_def)
    then have "visCols [] (colFrom b r) (colTo d b r) = []" by (simp add: visCols_def)
    then show ?thesis using 1 r assms(4,5) by (simp add: rangeForRow_def rangeForCells_def rowText_ok_def rangeText_def Let_def)
  next
    case 2
    note C = content_end [OF assms(2) r refl limit_def]
    have "visCols (cellsOf d r) (colFrom b r) (colTo d b r) = []"
      by (rule visCols_blank) (use C(3) 2 assms(3) in \<open>auto simp: colTo_def colFrom_def bounds_ok_def end_ok_def split: if_splits\<close>)
    then show ?thesis using empty_text [OF r refl 2(1) order_refl, of le] 2 assms(4,5)
      by (simp add: rangeForRow_def rangeForCells_def limit_def Let_def)
  next
    case 3
    then show ?thesis
      using char_range [OF assms(1-3) _ assms(4,5) 3(1) limit_def [symmetric] 3(2) le] line_range [OF assms(1-3) _ assms(4,5) 3(1) limit_def [symmetric] 3(2), of le]
      by (cases "linewise b") simp_all
  qed
qed

section \<open>Endpoints\<close>

lemma norm_end_ok:
  assumes "frame_ok d" "NormalizePos d p = Some q"
  shows "end_ok d q"
proof -
  note N = norm_facts [OF assms(2)]
  have w: "docWidth d (posRow q) = int (length (cellsOf d (posRow q)))" by (rule row_shape(1) [OF assms(1) N(2,3)])
  then show ?thesis using N(2-4,6,7) by (cases "cellsOf d (posRow q) = []") (auto simp: end_ok_def isGlyph_def)
qed

lemma word_ends_in_row: "posRow (wordFirst d p) = posRow p" "posRow (wordLast d p) = posRow p"
proof -
  show "posRow (wordFirst d p) = posRow p"
  proof (induction d p rule: wordFirst.induct)
    case (1 d p)
    then show ?case by (subst wordFirst.simps) (auto dest: prev_step(1) split: option.splits)
  qed
  show "posRow (wordLast d p) = posRow p"
  proof (induction d p rule: wordLast.induct)
    case (1 d p)
    then show ?case by (subst wordLast.simps) (auto dest: next_step(1) split: option.splits)
  qed
qed

lemma glyph_end_ok: "frame_ok d \<Longrightarrow> g \<in> set (glyphs d) \<Longrightarrow> end_ok d g"
  by (rule norm_end_ok [of d g], assumption, rule norm_glyph) (auto simp: in_glyphs)

lemma word_bounds_ok:
  assumes "frame_ok d" "WordBounds d p0 = Some (a, b)"
  shows "end_ok d a" "end_ok d b" "posRow a = posRow b"
proof -
  obtain p where p: "NormalizePos d p0 = Some p" using assms(2) by (auto simp: WordBounds_def split: option.splits)
  obtain w where w: "w \<in> set (wordsOf d)" "p \<in> set w" "a = hd w" "b = last w" using word_bounds [OF p] assms(2) by blast
  then have "set w \<subseteq> set (concat (wordsOf d))" by auto
  then have "set w \<subseteq> set (glyphs d)" by (auto simp: words_concat)
  moreover have "a \<in> set w" "b \<in> set w" using w by (auto intro: hd_in_set last_in_set)
  ultimately show "end_ok d a" "end_ok d b" using glyph_end_ok [OF assms(1)] by auto
  have "a = wordFirst d p" "b = wordLast d p" using assms(2) p by (auto simp: WordBounds_def split: if_splits)
  then show "posRow a = posRow b" using word_ends_in_row by simp
qed

lemma order_cases: "order l r = (l, r) \<and> \<not> before r l \<or> order l r = (r, l) \<and> before r l"
  by (simp add: order_def)

lemma selection_bounds_ok:
  assumes "frame_ok d" "bounds d s = Some b"
  shows "bounds_ok d b"
proof -
  obtain p q where pq: "NormalizePos d (slAnchor s) = Some p" "NormalizePos d (slActive s) = Some q"
    using assms(2) by (auto simp: bounds_def split: if_splits option.splits)
  have pe: "end_ok d p" "end_ok d q" using pq norm_end_ok [OF assms(1)] by auto
  show ?thesis
  proof (cases "slGranularity s = GranWord")
    case False
    then have "b = \<lparr>sbStart = fst (order p q), sbEnd = snd (order p q), linewise = (slGranularity s = GranLine)\<rparr>"
      using assms(2) pq by (cases "slGranularity s") (auto simp: bounds_def split: prod.splits if_splits)
    then show ?thesis using pe order_cases [of p q] by (auto simp: bounds_ok_def before_def)
  next
    case True
    then obtain a1 b1 a2 b2 where w: "WordBounds d p = Some (a1, b1)" "WordBounds d q = Some (a2, b2)"
      "b = \<lparr>sbStart = fst (order a1 a2), sbEnd = snd (order b1 b2), linewise = False\<rparr>"
      using assms(2) pq by (auto simp: bounds_def split: if_splits option.splits)
    then show ?thesis using word_bounds_ok [OF assms(1) w(1)] word_bounds_ok [OF assms(1) w(2)] order_cases [of a1 a2] order_cases [of b1 b2]
      by (auto simp: bounds_ok_def before_def)
  qed
qed

section \<open>The text of a selection\<close>

definition joined :: "Document \<Rightarrow> int \<Rightarrow> bool" where
  "joined d r = (cellsOf d r \<noteq> [] \<and> Soft (boundOf d r))"

definition selected :: "selectionBounds \<Rightarrow> Pos \<Rightarrow> bool" where
  "selected b g = (if linewise b then posRow (sbStart b) \<le> posRow g \<and> posRow g \<le> posRow (sbEnd b)
     else \<not> before g (sbStart b) \<and> \<not> before (sbEnd b) g)"

lemma row_selected:
  assumes "frame_ok d" "bounds_ok d b" "posRow (sbStart b) \<le> r" "r \<le> posRow (sbEnd b)"
  shows "filter visible (map (runeAt d) (filter (selected b) (rowGlyphs d r))) = visCols (cellsOf d r) (colFrom b r) (colTo d b r)"
proof -
  have r: "0 \<le> r" "r < docLen d" using assms(2-4) by (auto simp: bounds_ok_def end_ok_def)
  have w: "docWidth d r = int (length (cellsOf d r))" by (rule row_shape(1) [OF assms(1) r])
  have "0 \<le> colFrom b r" "colTo d b r < int (length (cellsOf d r))" using assms(2) by (auto simp: colFrom_def colTo_def bounds_ok_def end_ok_def)
  note G = glyphs_cols [OF assms(1) r this]
  have "selected b g = (colFrom b r \<le> posCol g \<and> posCol g \<le> colTo d b r)" if "g \<in> set (rowGlyphs d r)" for g
  proof -
    have g: "posRow g = r" "0 \<le> posCol g" "posCol g \<le> int (length (cellsOf d r)) - 1" using that w by (auto simp: rowGlyphs_def)
    then show ?thesis using assms(3,4)
      by (cases "linewise b"; cases "r = posRow (sbStart b)"; cases "r = posRow (sbEnd b)")
        (simp_all add: selected_def before_def colFrom_def colTo_def not_less)
  qed
  then have "filter (selected b) (rowGlyphs d r) = filter (\<lambda>g. colFrom b r \<le> posCol g \<and> posCol g \<le> colTo d b r) (rowGlyphs d r)"
    by (rule filter_cong [OF refl])
  then show ?thesis using G by simp
qed

lemma all_selected:
  assumes "frame_ok d" "bounds_ok d b"
  shows "filter visible (map (runeAt d) (filter (selected b) (glyphs d))) =
    concat (map (\<lambda>r. visCols (cellsOf d r) (colFrom b r) (colTo d b r)) [posRow (sbStart b)..posRow (sbEnd b)])"
proof -
  let ?i = "posRow (sbStart b)" and ?j = "posRow (sbEnd b)"
  let ?f = "\<lambda>r. filter visible (map (runeAt d) (filter (selected b) (rowGlyphs d r)))"
  have none: "?f r = []" if "r < ?i \<or> ?j < r" for r
    using that by (auto simp: rowGlyphs_def selected_def before_def filter_empty_conv)
  have "[0..docLen d - 1] = [0..?i - 1] @ [?i..?j] @ [?j + 1..docLen d - 1]"
    using assms(2) upto_parts [of 0 ?i "docLen d - 1"] upto_parts [of ?i "?j + 1" "docLen d - 1"] by (auto simp: bounds_ok_def end_ok_def)
  then have "filter visible (map (runeAt d) (filter (selected b) (glyphs d))) = concat (map ?f ([0..?i - 1] @ [?i..?j] @ [?j + 1..docLen d - 1]))"
    by (simp add: glyphs_def filter_concat map_concat o_def)
  also have "concat (map ?f ([0..?i - 1] @ [?i..?j] @ [?j + 1..docLen d - 1])) = concat (map ?f [?i..?j])"
  proof -
    have "concat (map ?f [0..?i - 1]) = []" "concat (map ?f [?j + 1..docLen d - 1]) = []" using none by (simp_all add: concat_eq_Nil_conv)
    then show ?thesis by (simp only: map_append concat_append append_Nil append_Nil2)
  qed
  also have "map ?f [?i..?j] = map (\<lambda>r. visCols (cellsOf d r) (colFrom b r) (colTo d b r)) [?i..?j]"
    using row_selected [OF assms] by simp
  finally show ?thesis .
qed

lemma emit_rows:
  assumes "\<And>r. i \<le> r \<Longrightarrow> r \<le> j \<Longrightarrow> rgRow (R r) = r"
  shows "emit d (map R [i..j]) =
    concat (map (\<lambda>r. fst (rangeText d (R r) (r = j)) @ (if r < j \<and> \<not> fst (snd (rangeText d (R r) (r = j))) then [10] else [])) [i..j])"
  using assms
proof (induction i j rule: upto.induct)
  case (1 i j)
  show ?case
  proof (cases "i \<le> j")
    case True
    let ?rs = "map R [i + 1..j]"
    have fin: "(?rs = []) = (i = j)" using True by auto
    have "rgRow (hd ?rs) = i + 1" if "i \<noteq> j" using True that 1(2) [of "i + 1"] upto_rec1 [of "i + 1" j] by simp
    then have adj: "(?rs = [] \<or> \<not> (?rs \<noteq> [] \<and> rgRow (hd ?rs) = rgRow (R i) + 1)) = (i = j)" using fin 1(2) [of i] True by auto
    have "emit d (map R [i..j]) = fst (rangeText d (R i) (i = j)) @ (if i < j \<and> \<not> fst (snd (rangeText d (R i) (i = j))) then [10] else []) @ emit d ?rs"
      using True fin adj by (auto simp: upto_rec1 Let_def split: prod.splits)
    then show ?thesis using 1 True by (simp add: upto_rec1)
  qed simp
qed

definition pieceOf :: "Document \<Rightarrow> selectionBounds \<Rightarrow> int \<Rightarrow> rune list" where
  "pieceOf d b r = fst (rangeText d (the (rangeForRow d b r)) (r = posRow (sbEnd b)))"

lemma row_piece:
  assumes "frame_ok d" "rows_ok d" "bounds_ok d b" "posRow (sbStart b) \<le> r" "r \<le> posRow (sbEnd b)"
  obtains rg where "rangeForRow d b r = Some rg" "rgRow rg = r" "snd (snd (rangeText d rg True))"
    "filter visible (pieceOf d b r) = visCols (cellsOf d r) (colFrom b r) (colTo d b r)"
    "fst (snd (rangeText d rg (r = posRow (sbEnd b)))) = (joined d r \<and> r < posRow (sbEnd b))"
    "r < posRow (sbEnd b) \<and> joined d r \<or> pieceOf d b r = [] \<or> last (pieceOf d b r) \<noteq> 32"
proof -
  let ?le = "r = posRow (sbEnd b)" and ?v = "visCols (cellsOf d r) (colFrom b r) (colTo d b r)"
  have "r < posRow (sbEnd b) \<or> ?le" using assms(5) by auto
  from row_range [OF assms this] obtain rg where rg: "rangeForRow d b r = Some rg" "rgRow rg = r" "rowText_ok d rg ?le (joined d r \<and> \<not> ?le) ?v"
    by (auto simp: joined_def)
  then have "snd (snd (rangeText d rg True))" using row_range [OF assms, of True] by (auto simp: rowText_ok_def)
  moreover obtain tx where "rangeText d rg ?le = (tx, joined d r \<and> \<not> ?le, True)" "filter visible tx = ?v" "joined d r \<and> \<not> ?le \<or> tx = [] \<or> last tx \<noteq> 32"
    using rg(3) by (auto simp: rowText_ok_def)
  moreover have "(joined d r \<and> \<not> ?le) = (joined d r \<and> r < posRow (sbEnd b))" using assms(5) by auto
  ultimately show thesis using that [OF rg(1,2)] rg(1) by (auto simp: pieceOf_def)
qed

lemma selection_rows:
  assumes "frame_ok d" "rows_ok d" "bounds_ok d b" "bounds d s = Some b"
  shows "SelText d s = concat (map (\<lambda>r. pieceOf d b r @ (if r < posRow (sbEnd b) \<and> \<not> joined d r then [10] else []))
    [posRow (sbStart b)..posRow (sbEnd b)])"
proof -
  let ?i = "posRow (sbStart b)" and ?j = "posRow (sbEnd b)"
  define R where "R r = the (rangeForRow d b r)" for r
  have row: "rangeForRow d b r = Some (R r)" "rgRow (R r) = r" "snd (snd (rangeText d (R r) True))"
      "fst (snd (rangeText d (R r) (r = ?j))) = (joined d r \<and> r < ?j)" if "?i \<le> r" "r \<le> ?j" for r
    by (rule row_piece [OF assms(1-3) that], simp add: R_def)+
  have "List.map_filter (rangeForRow d b) rs = map R rs" if "set rs \<subseteq> {?i..?j}" for rs
    using that by (induction rs) (auto simp: row(1) List.map_filter_simps)
  then have "Ranges d s = map R [?i..?j]" using assms(4) by (simp add: Ranges_def)
  moreover have "filter (\<lambda>r. snd (snd (rangeText d r True))) (map R [?i..?j]) = map R [?i..?j]" using row(3) by (simp add: filter_id_conv)
  ultimately have "SelText d s = emit d (map R [?i..?j])" by (simp add: SelText_def Extract_def)
  also have "\<dots> = concat (map (\<lambda>r. fst (rangeText d (R r) (r = ?j)) @ (if r < ?j \<and> \<not> fst (snd (rangeText d (R r) (r = ?j))) then [10] else [])) [?i..?j])"
    by (rule emit_rows) (use row(2) in auto)
  also have "\<dots> = concat (map (\<lambda>r. pieceOf d b r @ (if r < ?j \<and> \<not> joined d r then [10] else [])) [?i..?j])"
    using row(4) by (intro arg_cong [where f = concat] map_cong refl) (auto simp: pieceOf_def R_def)
  finally show ?thesis .
qed


definition demoSel :: Selection where
  "demoSel = \<lparr>slAnchor = mkPos 1 0, slActive = mkPos 0 1, slGranularity = GranCharacter, slEnabled = True\<rparr>"

definition demoBounds :: selectionBounds where
  "demoBounds = \<lparr>sbStart = mkPos 0 1, sbEnd = mkPos 1 0, linewise = False\<rparr>"

lemma demo_rows_ok: "rows_ok demoDoc"
proof -
  have "docLen demoDoc = 2" "\<not> Soft (boundOf demoDoc 0)" "\<not> Soft (boundOf demoDoc 1)"
    "\<not> Continuation (hd (cellsOf demoDoc 0))" "\<not> Continuation (hd (cellsOf demoDoc 1))" by code_simp+
  moreover have "{0..<2 :: int} = {0, 1}" by auto
  ultimately show ?thesis by (simp add: rows_ok_def)
qed


end
