(* ===== verification/Copy_Mode.thy ===== *)
theory Copy_Mode
  imports Copy_Text
begin

text \<open>
  Copy mode: the cursor of \<^verbatim>\<open>internal/usecase/copy/navigator.go\<close> and the mode of \<^verbatim>\<open>mode.go\<close> with its
  viewport, selection and search. Drawing and the clipboard escape are left out. A mode has a document;
  the code's checks for a missing one have no counterpart.
\<close>

section \<open>Navigator\<close>

record Navigator =
  nvPos :: Pos
  PreferredCol :: int

type_synonym motion = "Document \<Rightarrow> Navigator \<Rightarrow> bool \<times> Navigator"

definition NewNavigator :: "Pos \<Rightarrow> Navigator" where
  "NewNavigator p = \<lparr>nvPos = p, PreferredCol = posCol p\<rparr>"

definition navPut :: "Pos \<Rightarrow> bool \<Rightarrow> Navigator \<Rightarrow> bool \<times> Navigator" where
  "navPut p setPreferred n =
     (nvPos n \<noteq> p, n\<lparr>nvPos := p, PreferredCol := (if setPreferred then posCol p else PreferredCol n)\<rparr>)"

definition navTo :: "Pos option \<Rightarrow> Navigator \<Rightarrow> bool \<times> Navigator" where
  "navTo po n = (case po of None \<Rightarrow> (False, n) | Some p \<Rightarrow> navPut p True n)"

definition navLeft :: motion where "navLeft d n = navTo (PrevGlyph d (nvPos n)) n"
definition navRight :: motion where "navRight d n = navTo (NextGlyph d (nvPos n)) n"
definition navWordNext :: motion where "navWordNext d n = navTo (NextWordStart d (nvPos n)) n"
definition navWordBackward :: motion where "navWordBackward d n = navTo (PreviousWordStart d (nvPos n)) n"
definition navWordEnd :: motion where "navWordEnd d n = navTo (NextWordEnd d (nvPos n)) n"

definition navSet :: "Pos \<Rightarrow> motion" where
  "navSet p d n = navTo (NormalizePos d p) n"

definition navigatorPosOnRow :: "Document \<Rightarrow> int \<Rightarrow> int \<Rightarrow> Pos option" where
  "navigatorPosOnRow d row col =
     (let width = docWidth d row
      in if width = 0 then NormalizePos d (mkPos row 0) else NormalizePos d (mkPos row (min (max col 0) (width - 1))))"

definition moveVertical :: "int \<Rightarrow> motion" where
  "moveVertical row d n =
     (if row < 0 \<or> row \<ge> docLen d then (False, n)
      else case navigatorPosOnRow d row (PreferredCol n) of None \<Rightarrow> (False, n) | Some p \<Rightarrow> navPut p False n)"

definition navUp :: motion where "navUp d n = moveVertical (posRow (nvPos n) - 1) d n"
definition navDown :: motion where "navDown d n = moveVertical (posRow (nvPos n) + 1) d n"

definition navTop :: motion where
  "navTop d n = (if docLen d = 0 then (False, n) else navSet (mkPos 0 (posCol (nvPos n))) d n)"

definition navBottom :: motion where
  "navBottom d n = (if docLen d = 0 then (False, n) else navSet (mkPos (docLen d - 1) (posCol (nvPos n))) d n)"

definition navPage :: "int \<Rightarrow> motion" where
  "navPage rows d n =
     (if docLen d = 0 then (False, n) else moveVertical (min (max (posRow (nvPos n) + rows) 0) (docLen d - 1)) d n)"

section \<open>Search\<close>

record SearchMatch =
  smRow :: int
  smStart :: int
  smEnd :: int
  smText :: "rune list"

text \<open>A row as \<^verbatim>\<open>textRows\<close> yields it: its number, runes, the column of each rune, and the width.\<close>

record textRow =
  trRow :: int
  trRunes :: "rune list"
  trColumns :: "int list"
  trWidth :: int

definition rowText :: "Document \<Rightarrow> int \<Rightarrow> textRow" where
  "rowText d r = \<lparr>trRow = r, trRunes = map (runeAt d) (rowGlyphs d r), trColumns = map posCol (rowGlyphs d r), trWidth = docWidth d r\<rparr>"

definition textRows :: "Document \<Rightarrow> textRow list" where
  "textRows d = map (rowText d) [0..docLen d - 1]"

text \<open>The query is never empty, so a hit always advances.\<close>

function searchStarts :: "rune list \<Rightarrow> rune list \<Rightarrow> nat \<Rightarrow> nat list" where
  "searchStarts needle hay start =
     (if needle = [] \<or> start + length needle > length hay then []
      else if take (length needle) (drop start hay) \<noteq> needle then searchStarts needle hay (Suc start)
      else start # searchStarts needle hay (start + length needle))"
  by pat_completeness auto
termination
  by (relation "measure (\<lambda>(needle, hay, start). Suc (length hay) - start)") (auto simp: Suc_diff_le length_greater_0_conv [symmetric] simp del: length_greater_0_conv)

declare searchStarts.simps [simp del]

definition lowerRunes :: "caseTables \<Rightarrow> rune list \<Rightarrow> rune list" where
  "lowerRunes uc s = map (lowerRune uc) s"

definition rowMatches :: "caseTables \<Rightarrow> rune list \<Rightarrow> textRow \<Rightarrow> SearchMatch list" where
  "rowMatches uc needle t =
     map (\<lambda>start. let stop = start + length needle in
            \<lparr>smRow = trRow t, smStart = trColumns t ! start,
             smEnd = (if stop < length (trColumns t) then trColumns t ! stop else trWidth t), smText = trimRight (trRunes t)\<rparr>)
       (searchStarts needle (lowerRunes uc (trRunes t)) 0)"

text \<open>\<^verbatim>\<open>findMatches\<close>; \<open>None\<close> is a history that could not be read.\<close>

definition findMatches :: "caseTables \<Rightarrow> rune list \<Rightarrow> textRow list option \<Rightarrow> SearchMatch list" where
  "findMatches uc query rows =
     (case rows of None \<Rightarrow> [] | Some ts \<Rightarrow> concat (map (rowMatches uc (lowerRunes uc query)) ts))"

definition FindMatches :: "caseTables \<Rightarrow> Document \<Rightarrow> rune list \<Rightarrow> SearchMatch list" where
  "FindMatches uc d query0 =
     (let query = TrimSpace query0 in if query = [] then [] else findMatches uc query (Some (textRows d)))"

section \<open>Mode\<close>

record Mode =
  document :: Document
  navigator :: Navigator
  selection :: Selection
  ViewportTop :: int
  SearchQuery :: "rune list"
  Searches :: "SearchMatch list"
  SearchIndex :: int

abbreviation viewRows :: "Document \<Rightarrow> int" where
  "viewRows d \<equiv> max (snHeight (snapshot d)) 1"

definition maxTop :: "Document \<Rightarrow> int" where
  "maxTop d = max (docLen d - viewRows d) 0"

definition NewMode :: "Document \<Rightarrow> Mode" where
  "NewMode d =
     (let m = \<lparr>document = d, navigator = NewNavigator (mkPos 0 0), selection = zeroSelection, ViewportTop = 0,
               SearchQuery = [], Searches = [], SearchIndex = -1\<rparr>
      in if docLen d > 0
         then m\<lparr>navigator := snd (navSet (mkPos (docLen d - 1) 0) d (NewNavigator (mkPos (docLen d - 1) 0))), ViewportTop := maxTop d\<rparr>
         else m)"

definition adjustViewport :: "Mode \<Rightarrow> Mode" where
  "adjustViewport m =
     (if docLen (document m) = 0 then m
      else let rows = viewRows (document m); row = posRow (nvPos (navigator m));
               top1 = (if row < ViewportTop m then row else ViewportTop m);
               top2 = (if row \<ge> top1 + rows then row - rows + 1 else top1)
           in m\<lparr>ViewportTop := min (max top2 0) (maxTop (document m))\<rparr>)"

definition SetPosition :: "Pos \<Rightarrow> Mode \<Rightarrow> bool \<times> Mode" where
  "SetPosition p m = (let (changed, n) = navSet p (document m) (navigator m) in (changed, adjustViewport (m\<lparr>navigator := n\<rparr>)))"

definition moveMode :: "motion \<Rightarrow> bool \<Rightarrow> Mode \<Rightarrow> bool \<times> Mode" where
  "moveMode op stream m =
     (let m1 = (if stream \<and> slEnabled (selection m) \<and> slGranularity (selection m) = GranLine
                then m\<lparr>selection := AsCharacter (selection m)\<rparr> else m);
          (changed, n) = op (document m1) (navigator m1);
          m2 = m1\<lparr>navigator := n\<rparr>
      in if changed
         then (True, adjustViewport (if slEnabled (selection m2) then m2\<lparr>selection := Extend (nvPos n) (selection m2)\<rparr> else m2))
         else (False, m2))"

definition modeLeft where "modeLeft = moveMode navLeft True"
definition modeRight where "modeRight = moveMode navRight True"
definition modeUp where "modeUp = moveMode navUp False"
definition modeDown where "modeDown = moveMode navDown False"
definition modeWordNext where "modeWordNext = moveMode navWordNext True"
definition modeWordBackward where "modeWordBackward = moveMode navWordBackward True"
definition modeWordEnd where "modeWordEnd = moveMode navWordEnd True"
definition modeTop where "modeTop = moveMode navTop False"
definition modeBottom where "modeBottom = moveMode navBottom False"

definition modePage :: "int \<Rightarrow> Mode \<Rightarrow> bool \<times> Mode" where
  "modePage pages m = moveMode (navPage (pages * viewRows (document m))) False m"

fun repeatOp :: "(Mode \<Rightarrow> bool \<times> Mode) \<Rightarrow> nat \<Rightarrow> Mode \<Rightarrow> bool \<times> Mode" where
  "repeatOp op 0 m = (False, m)"
| "repeatOp op (Suc k) m = (case op m of (False, m1) \<Rightarrow> (False, m1) | (True, m1) \<Rightarrow> (True, snd (repeatOp op k m1)))"

definition MoveRows :: "int \<Rightarrow> Mode \<Rightarrow> bool \<times> Mode" where
  "MoveRows delta m = (if delta = 0 then (False, m) else repeatOp (if delta > 0 then modeDown else modeUp) (nat \<bar>delta\<bar>) m)"

definition ScrollRows :: "int \<Rightarrow> Mode \<Rightarrow> bool \<times> Mode" where
  "ScrollRows delta m =
     (let d = document m
      in if docLen d = 0 \<or> delta = 0 then (False, m)
         else let oldTop = ViewportTop m;
                  newTop = oldTop + min (max delta (- oldTop)) (maxTop d - oldTop);
                  row0 = posRow (nvPos (navigator m));
                  row = row0 + min (max delta (- row0)) (docLen d - 1 - row0);
                  (changed, m1) = moveMode (moveVertical row) False m
              in (changed \<or> oldTop \<noteq> newTop, m1\<lparr>ViewportTop := newTop\<rparr>))"

definition AtBottom :: "Mode \<Rightarrow> bool" where
  "AtBottom m =
     (if docLen (document m) = 0 then ViewportTop m = 0
      else posRow (nvPos (navigator m)) = docLen (document m) - 1 \<and> ViewportTop m = maxTop (document m))"

definition ToggleLineSelection :: "Mode \<Rightarrow> Mode" where
  "ToggleLineSelection m =
     (if slEnabled (selection m) then m\<lparr>selection := zeroSelection\<rparr> else m\<lparr>selection := NewLineSelection (nvPos (navigator m))\<rparr>)"

definition placeAt :: "Pos \<Rightarrow> Selection \<Rightarrow> Mode \<Rightarrow> Mode" where
  "placeAt p s m = adjustViewport (m\<lparr>navigator := snd (navSet p (document m) (navigator m)), selection := s\<rparr>)"

definition StartCharacterSelection :: "Pos \<Rightarrow> Mode \<Rightarrow> bool \<times> Mode" where
  "StartCharacterSelection p0 m =
     (case NormalizePos (document m) p0 of
        None \<Rightarrow> (False, m)
      | Some p \<Rightarrow> (True, placeAt p \<lparr>slAnchor = p, slActive = p, slGranularity = GranCharacter, slEnabled = True\<rparr> m))"

definition ExtendCharacterSelection :: "Pos \<Rightarrow> Mode \<Rightarrow> bool \<times> Mode" where
  "ExtendCharacterSelection p0 m =
     (if \<not> slEnabled (selection m) then (False, m)
      else case NormalizePos (document m) p0 of
        None \<Rightarrow> (False, m)
      | Some p \<Rightarrow> (True, placeAt p (Extend p (AsCharacter (selection m))) m))"

definition SelectWordAt :: "Pos \<Rightarrow> Mode \<Rightarrow> bool \<times> Mode" where
  "SelectWordAt p m =
     (case NewWordSelection (document m) p of None \<Rightarrow> (False, m) | Some s \<Rightarrow> (True, placeAt (slActive s) s m))"

definition ExtendWordSelection :: "Pos \<Rightarrow> Mode \<Rightarrow> bool \<times> Mode" where
  "ExtendWordSelection p m =
     (if \<not> slEnabled (selection m) then (False, m)
      else case WordBounds (document m) p of
        None \<Rightarrow> (False, m)
      | Some (a, b) \<Rightarrow> (True, placeAt b (Extend b ((selection m)\<lparr>slGranularity := GranWord\<rparr>)) m))"

definition moveToSearchMatch :: "SearchMatch \<Rightarrow> Mode \<Rightarrow> Mode" where
  "moveToSearchMatch x m =
     (case NormalizePos (document m) (mkPos (smRow x) (smStart x)) of
        None \<Rightarrow> m
      | Some p \<Rightarrow>
          let n = snd (navSet p (document m) (navigator m))
          in placeAt p (if slEnabled (selection m) then Extend (nvPos n) (selection m) else selection m) m)"

definition SetSearchMatches :: "rune list \<Rightarrow> SearchMatch list \<Rightarrow> int \<Rightarrow> Mode \<Rightarrow> bool \<times> Mode" where
  "SetSearchMatches query matches index m0 =
     (let m = m0\<lparr>SearchQuery := TrimSpace query\<rparr>
      in if matches = [] then (False, m\<lparr>Searches := [], SearchIndex := -1\<rparr>)
         else let i = min (max index 0) (int (length matches) - 1)
              in (True, moveToSearchMatch (matches ! nat i) (m\<lparr>Searches := matches, SearchIndex := i\<rparr>)))"

definition Search :: "caseTables \<Rightarrow> rune list \<Rightarrow> Mode \<Rightarrow> bool \<times> Mode" where
  "Search uc query m = SetSearchMatches query (FindMatches uc (document m) query) 0 m"

text \<open>Go's remainder takes the sign of the dividend.\<close>

definition goRem :: "int \<Rightarrow> int \<Rightarrow> int" where
  "goRem a n = (if a < 0 then - ((- a) mod n) else a mod n)"

definition NextSearchMatch :: "int \<Rightarrow> Mode \<Rightarrow> bool \<times> Mode" where
  "NextSearchMatch delta m =
     (if Searches m = [] \<or> delta = 0 then (False, m)
      else let n = int (length (Searches m)); i0 = goRem (SearchIndex m + delta) n; i = (if i0 < 0 then i0 + n else i0)
           in (True, moveToSearchMatch (Searches m ! nat i) (m\<lparr>SearchIndex := i\<rparr>)))"

definition SelectedText :: "Mode \<Rightarrow> rune list" where
  "SelectedText m = SelText (document m) (selection m)"

definition currentSearchMatchForRow :: "int \<Rightarrow> Mode \<Rightarrow> SearchMatch option" where
  "currentSearchMatchForRow row m =
     (if SearchIndex m < 0 \<or> SearchIndex m \<ge> int (length (Searches m)) then None
      else let v = Searches m ! nat (SearchIndex m) in if smRow v = row then Some v else None)"

end
