(* ===== verification/Copy_Mode_Inv.thy ===== *)
theory Copy_Mode_Inv
  imports Copy_Mode
begin

text \<open>
  The invariant of copy mode: the cursor is on a glyph and in view, a selection's endpoints are
  positions of the document, and the current search hit exists. Every operation keeps it.
\<close>

section \<open>Cursor\<close>

abbreviation on_glyph :: "Document \<Rightarrow> Pos \<Rightarrow> bool" where
  "on_glyph d p \<equiv> NormalizePos d p = Some p"

lemma norm_idem: "NormalizePos d p = Some q \<Longrightarrow> on_glyph d q"
proof (cases "docWidth d (posRow q) = 0")
  case True
  assume "NormalizePos d p = Some q"
  then show ?thesis using True norm_facts(2,3,7) [of d p q] by (simp add: NormalizePos_def)
next
  case False
  assume "NormalizePos d p = Some q"
  then show ?thesis using False norm_facts(2,3,6) [of d p q] norm_glyph by simp
qed

lemma glyph_on: "g \<in> set (glyphs d) \<Longrightarrow> on_glyph d g"
  by (simp add: in_glyphs norm_glyph)

lemma word_in_glyphs: "w \<in> set (wordsOf d) \<Longrightarrow> set w \<subseteq> set (glyphs d) \<and> w \<noteq> []"
proof
  assume w: "w \<in> set (wordsOf d)"
  then have "set w \<subseteq> set (concat (wordsOf d))" by auto
  then show "set w \<subseteq> set (glyphs d)" by (auto simp: words_concat)
  have "[] \<notin> set (runs P xs)" for P and xs :: "Pos list" by (induction P xs rule: runs.induct) auto
  then show "w \<noteq> []" using w by (auto simp: wordsOf_def)
qed

lemma motion_normalizes:
  "PrevGlyph d p = Some q \<Longrightarrow> \<exists>p'. NormalizePos d p = Some p'" "NextGlyph d p = Some q \<Longrightarrow> \<exists>p'. NormalizePos d p = Some p'"
  "NextWordStart d p = Some q \<Longrightarrow> \<exists>p'. NormalizePos d p = Some p'" "PreviousWordStart d p = Some q \<Longrightarrow> \<exists>p'. NormalizePos d p = Some p'"
  "NextWordEnd d p = Some q \<Longrightarrow> \<exists>p'. NormalizePos d p = Some p'"
  by (cases "NormalizePos d p"; simp add: PrevGlyph_def NextGlyph_def NextWordStart_def PreviousWordStart_def NextWordEnd_def)+

lemma row_step_on_glyph: "PrevGlyph d p = Some q \<Longrightarrow> on_glyph d q" "NextGlyph d p = Some q \<Longrightarrow> on_glyph d q"
proof -
  show "on_glyph d q" if q: "PrevGlyph d p = Some q"
  proof -
    obtain p' where p: "NormalizePos d p = Some p'" using motion_normalizes(1) [OF q] by blast
    note N = norm_facts [OF p]
    from q p have w: "docWidth d (posRow p') \<noteq> 0" "q = mkPos (posRow p') (posCol q)" "0 \<le> posCol q" "posCol q < posCol p'" "headAt d (posRow p') (posCol q)"
      by (auto simp: PrevGlyph_def dest!: find_in split: if_splits)
    have r: "posRow q = posRow p'" by (subst w(2)) simp
    have "isGlyph d q" using w(1,3-5) N(6) by (simp add: isGlyph_def r)
    then show ?thesis using norm_glyph N(2,3) r by simp
  qed
  show "on_glyph d q" if q: "NextGlyph d p = Some q"
  proof -
    obtain p' where p: "NormalizePos d p = Some p'" using motion_normalizes(2) [OF q] by blast
    note N = norm_facts [OF p]
    from q p have w: "q = mkPos (posRow p') (posCol q)" "posCol p' < posCol q" "posCol q < docWidth d (posRow p')" "headAt d (posRow p') (posCol q)"
      by (auto simp: NextGlyph_def dest!: find_in)
    have r: "posRow q = posRow p'" by (subst w(1)) simp
    have "isGlyph d q" using w(2-4) N(4) by (simp add: isGlyph_def r)
    then show ?thesis using norm_glyph N(2,3) r by simp
  qed
qed

lemma word_end_glyphs: "w \<in> set (wordsOf d) \<Longrightarrow> on_glyph d (hd w) \<and> on_glyph d (last w)"
  using word_in_glyphs [of w d] glyph_on by (auto intro: hd_in_set last_in_set)

lemma find_on_glyph:
  "find P (map hd (wordsOf d)) = Some q \<Longrightarrow> on_glyph d q" "find P (rev (map hd (wordsOf d))) = Some q \<Longrightarrow> on_glyph d q"
  "find P (map last (wordsOf d)) = Some q \<Longrightarrow> on_glyph d q"
  using word_end_glyphs by (force dest: find_in)+

lemma step_on_glyph:
  "PrevGlyph d p = Some q \<Longrightarrow> on_glyph d q" "NextGlyph d p = Some q \<Longrightarrow> on_glyph d q"
  "NextWordStart d p = Some q \<Longrightarrow> on_glyph d q" "PreviousWordStart d p = Some q \<Longrightarrow> on_glyph d q"
  "NextWordEnd d p = Some q \<Longrightarrow> on_glyph d q"
proof -
  show "on_glyph d q" if q: "NextWordStart d p = Some q"
    using motion_normalizes(3) [OF q] next_word_start q find_on_glyph(1) by metis
  show "on_glyph d q" if q: "PreviousWordStart d p = Some q"
    using motion_normalizes(4) [OF q] previous_word_start q find_on_glyph(2) by metis
  show "on_glyph d q" if q: "NextWordEnd d p = Some q"
  proof -
    obtain p' where p: "NormalizePos d p = Some p'" using motion_normalizes(5) [OF q] by blast
    then have "isGlyph d p'" using q by (auto simp: NextWordEnd_def split: if_splits)
    then show ?thesis using next_word_end [OF p] q find_on_glyph(3) by simp
  qed
qed (fact row_step_on_glyph)+

definition nav_ok :: "Document \<Rightarrow> Navigator \<Rightarrow> bool" where
  "nav_ok d n = on_glyph d (nvPos n)"

text \<open>A motion keeps the cursor on a glyph, and reports whether it moved.\<close>

definition nav_step :: "Document \<Rightarrow> Navigator \<Rightarrow> bool \<times> Navigator \<Rightarrow> bool" where
  "nav_step d n r = (nav_ok d (snd r) \<and> (fst r = (nvPos (snd r) \<noteq> nvPos n)))"

lemma navPut_step: "on_glyph d q \<Longrightarrow> nav_step d n (navPut q b n)"
  by (auto simp: navPut_def nav_step_def nav_ok_def)

lemma nav_stay: "nav_ok d n \<Longrightarrow> nav_step d n (False, n)"
  by (simp add: nav_step_def)

lemma navTo_step: "nav_ok d n \<Longrightarrow> (\<And>q. po = Some q \<Longrightarrow> on_glyph d q) \<Longrightarrow> nav_step d n (navTo po n)"
  by (cases po) (simp_all add: navTo_def nav_stay navPut_step)

lemma posOnRow: "navigatorPosOnRow d row col = Some q \<Longrightarrow> on_glyph d q \<and> posRow q = row"
  by (auto simp: navigatorPosOnRow_def Let_def norm_idem dest: norm_facts(1) split: if_splits)

lemma moveVertical_step: "nav_ok d n \<Longrightarrow> nav_step d n (moveVertical row d n)"
  using posOnRow by (auto simp: moveVertical_def intro: navPut_step nav_stay split: option.splits)

lemma navSet_step: "nav_ok d n \<Longrightarrow> nav_step d n (navSet p d n)"
  using navTo_step norm_idem by (simp add: navSet_def)

definition motion_ok :: "motion \<Rightarrow> bool" where
  "motion_ok op = (\<forall>d n. nav_ok d n \<longrightarrow> nav_step d n (op d n))"

lemma motions_ok:
  "motion_ok navLeft" "motion_ok navRight" "motion_ok navWordNext" "motion_ok navWordBackward" "motion_ok navWordEnd"
  "motion_ok navUp" "motion_ok navDown" "motion_ok navTop" "motion_ok navBottom" "motion_ok (navPage k)" "motion_ok (moveVertical r)"
  unfolding motion_ok_def navLeft_def navRight_def navWordNext_def navWordBackward_def navWordEnd_def navUp_def navDown_def
    navTop_def navBottom_def navPage_def
  by (simp_all add: navTo_step step_on_glyph moveVertical_step navSet_step nav_stay)

section \<open>Viewport, selection and search\<close>

definition view_ok :: "Mode \<Rightarrow> bool" where
  "view_ok m = (let d = document m; vt = ViewportTop m; row = posRow (nvPos (navigator m)) in
     0 \<le> vt \<and> vt \<le> maxTop d \<and> vt \<le> row \<and> row < vt + viewRows d)"

definition sel_ok :: "Document \<Rightarrow> Selection \<Rightarrow> bool" where
  "sel_ok d s = (slEnabled s \<longrightarrow> on_glyph d (slAnchor s) \<and> on_glyph d (slActive s))"

definition search_ok :: "Mode \<Rightarrow> bool" where
  "search_ok m = (if Searches m = [] then SearchIndex m = -1 else 0 \<le> SearchIndex m \<and> SearchIndex m < int (length (Searches m)))"

definition core_ok :: "Document \<Rightarrow> Mode \<Rightarrow> bool" where
  "core_ok d m = (document m = d \<and> 0 < docLen d \<and> nav_ok d (navigator m) \<and> sel_ok d (selection m) \<and> search_ok m)"

definition mode_ok :: "Document \<Rightarrow> Mode \<Rightarrow> bool" where
  "mode_ok d m = (core_ok d m \<and> view_ok m)"

lemma on_glyph_row: "on_glyph d p \<Longrightarrow> 0 \<le> posRow p \<and> posRow p < docLen d"
  using norm_facts(2,3) by blast

lemma clamp_view:
  assumes "0 \<le> row" "row < len" "1 \<le> (h :: int)"
    "top1 = (if row < t0 then row else t0)" "top2 = (if row \<ge> top1 + h then row - h + 1 else top1)"
    "t = min (max top2 0) (max (len - h) 0)"
  shows "0 \<le> t \<and> t \<le> max (len - h) 0 \<and> t \<le> row \<and> row < t + h"
  using assms by (auto simp: min_def max_def split: if_splits)

lemma adjust_ok:
  assumes "core_ok d m"
  shows "mode_ok d (adjustViewport m)"
proof -
  have d: "document m = d" "docLen d \<noteq> 0" "on_glyph d (nvPos (navigator m))" using assms by (auto simp: core_ok_def nav_ok_def)
  define row where "row = posRow (nvPos (navigator m))"
  define top1 where "top1 = (if row < ViewportTop m then row else ViewportTop m)"
  define top2 where "top2 = (if row \<ge> top1 + viewRows d then row - viewRows d + 1 else top1)"
  define t where "t = min (max top2 0) (max (docLen d - viewRows d) 0)"
  have eq: "adjustViewport m = m\<lparr>ViewportTop := t\<rparr>"
    unfolding adjustViewport_def t_def top2_def top1_def row_def maxTop_def Let_def d(1) by (rule if_not_P [OF d(2)])
  have "0 \<le> row" "row < docLen d" "1 \<le> viewRows d" using on_glyph_row [OF d(3)] by (auto simp: row_def)
  then have "0 \<le> t \<and> t \<le> max (docLen d - viewRows d) 0 \<and> t \<le> row \<and> row < t + viewRows d"
    by (rule clamp_view [OF _ _ _ top1_def top2_def t_def])
  moreover have "ViewportTop (m\<lparr>ViewportTop := t\<rparr>) = t" "document (m\<lparr>ViewportTop := t\<rparr>) = d" "navigator (m\<lparr>ViewportTop := t\<rparr>) = navigator m"
    using d(1) by simp_all
  ultimately have "view_ok (adjustViewport m)" unfolding eq view_ok_def Let_def maxTop_def by (simp only: row_def)
  moreover have "core_ok d (adjustViewport m)" unfolding eq using assms by (simp add: core_ok_def search_ok_def)
  ultimately show ?thesis by (simp add: mode_ok_def)
qed

lemma moveMode_ok:
  assumes "mode_ok d m" "motion_ok op"
  shows "mode_ok d (snd (moveMode op stream m))"
proof -
  define m1 where "m1 = (if stream \<and> slEnabled (selection m) \<and> slGranularity (selection m) = GranLine
    then m\<lparr>selection := AsCharacter (selection m)\<rparr> else m)"
  have m1: "mode_ok d m1" using assms(1) by (auto simp: m1_def mode_ok_def core_ok_def view_ok_def sel_ok_def search_ok_def AsCharacter_def Let_def)
  obtain ch n where r: "op (document m1) (navigator m1) = (ch, n)" by force
  have "document m1 = d" "nav_ok d (navigator m1)" using m1 by (simp_all add: mode_ok_def core_ok_def)
  then have s: "nav_step d (navigator m1) (ch, n)" using assms(2) r unfolding motion_ok_def by metis
  show ?thesis
  proof (cases ch)
    case True
    define m2 where "m2 = (if slEnabled (selection m1) then m1\<lparr>navigator := n, selection := Extend (nvPos n) (selection m1)\<rparr> else m1\<lparr>navigator := n\<rparr>)"
    have "core_ok d m2" using m1 s by (auto simp: m2_def mode_ok_def core_ok_def nav_step_def nav_ok_def sel_ok_def search_ok_def Extend_def)
    then have "mode_ok d (adjustViewport m2)" by (rule adjust_ok)
    then show ?thesis using True r by (simp add: moveMode_def m1_def [symmetric] m2_def Let_def split: if_splits)
  next
    case False
    then have "nvPos n = nvPos (navigator m1)" using s by (simp add: nav_step_def)
    then have "mode_ok d (m1\<lparr>navigator := n\<rparr>)" using m1 s by (auto simp: mode_ok_def core_ok_def view_ok_def nav_ok_def nav_step_def search_ok_def Let_def)
    then show ?thesis using False r by (simp add: moveMode_def m1_def [symmetric] Let_def)
  qed
qed

lemma placeAt_ok:
  assumes "mode_ok d m" "sel_ok d s"
  shows "mode_ok d (placeAt p s m)"
  unfolding placeAt_def
  by (rule adjust_ok) (use assms navSet_step [of d "navigator m" p] in \<open>simp add: mode_ok_def core_ok_def search_ok_def nav_step_def\<close>)

lemma repeat_ok:
  assumes "\<And>m. mode_ok d m \<Longrightarrow> mode_ok d (snd (op m))" "mode_ok d m"
  shows "mode_ok d (snd (repeatOp op k m))"
  using assms(2)
proof (induction k arbitrary: m)
  case (Suc k)
  obtain ch m1 where r: "op m = (ch, m1)" by force
  then have "mode_ok d m1" using assms(1) [OF Suc.prems] by simp
  then show ?case using Suc.IH r by (cases ch) simp_all
qed simp

lemma new_mode_ok:
  assumes "frame_ok d" "rows_ok d" "0 < docLen d"
  shows "mode_ok d (NewMode d)"
proof -
  have "NormalizePos d (mkPos (docLen d - 1) 0) = Some (mkPos (docLen d - 1) 0)"
  proof (cases "cellsOf d (docLen d - 1) = []")
    case True
    then show ?thesis using row_shape(1) [OF assms(1), of "docLen d - 1"] assms(3) by (simp add: NormalizePos_def)
  next
    case False
    then show ?thesis using row_head [OF assms(1,2), of "docLen d - 1"] row_shape(1) [OF assms(1), of "docLen d - 1"] assms(3) norm_glyph
      by (simp add: isGlyph_def)
  qed
  then show ?thesis using assms(3)
    by (auto simp: NewMode_def mode_ok_def core_ok_def view_ok_def nav_ok_def sel_ok_def search_ok_def navSet_def navTo_def navPut_def
        NewNavigator_def zeroSelection_def maxTop_def Let_def)
qed

lemma adjust_nav: "navigator (adjustViewport m) = navigator m"
  unfolding adjustViewport_def Let_def by (simp split: if_split)

lemma moveMode_nav: "navigator (snd (moveMode op False m)) = snd (op (document m) (navigator m))"
  by (cases "op (document m) (navigator m)") (simp add: moveMode_def adjust_nav Let_def)

lemma scroll_view:
  assumes "0 \<le> v0" "v0 \<le> max (len - h) 0" "v0 \<le> r0" "r0 < v0 + h" "0 \<le> r0" "r0 < len" "1 \<le> (h :: int)"
    "r = r0 + min (max delta (- r0)) (len - 1 - r0)" "v = v0 + min (max delta (- v0)) (max (len - h) 0 - v0)"
  shows "0 \<le> v \<and> v \<le> max (len - h) 0 \<and> v \<le> r \<and> r < v + h"
  using assms by (auto simp: min_def max_def split: if_splits)

lemma scroll_ok:
  assumes "frame_ok d" "rows_ok d" "mode_ok d m"
  shows "mode_ok d (snd (ScrollRows delta m))"
proof (cases "delta = 0 \<or> docLen d = 0")
  case True
  then show ?thesis using assms(3) by (auto simp: ScrollRows_def mode_ok_def core_ok_def Let_def)
next
  case False
  have d: "document m = d" "0 < docLen d" and v: "view_ok m" using assms(3) by (auto simp: mode_ok_def core_ok_def)
  define row0 where "row0 = posRow (nvPos (navigator m))"
  define row where "row = row0 + min (max delta (- row0)) (docLen d - 1 - row0)"
  define vt where "vt = ViewportTop m + min (max delta (- ViewportTop m)) (maxTop d - ViewportTop m)"
  define m1 where "m1 = snd (moveMode (moveVertical row) False m)"
  have r0: "0 \<le> row0" "row0 < docLen d" using assms(3) on_glyph_row by (auto simp: mode_ok_def core_ok_def nav_ok_def row0_def)
  have m1: "mode_ok d m1" using moveMode_ok [OF assms(3) motions_ok(11)] by (simp add: m1_def)
  have r: "0 \<le> row" "row < docLen d" using r0 by (auto simp: row_def)
  have w: "docWidth d row = int (length (cellsOf d row))" by (rule row_shape(1) [OF assms(1) r])
  have "\<exists>q. navigatorPosOnRow d row (PreferredCol (navigator m)) = Some q"
  proof (cases "cellsOf d row = []")
    case True
    then show ?thesis using r w by (simp add: navigatorPosOnRow_def NormalizePos_def)
  next
    case False
    define c where "c = min (max (PreferredCol (navigator m)) 0) (docWidth d row - 1)"
    have "0 \<le> c" "c < int (length (cellsOf d row))" using False w by (auto simp: c_def)
    from norm_in_row [OF assms(1,2) r this] show ?thesis using False w by (auto simp: navigatorPosOnRow_def c_def Let_def)
  qed
  then obtain q where q: "navigatorPosOnRow d row (PreferredCol (navigator m)) = Some q" "posRow q = row" using posOnRow by blast
  have "nvPos (navigator m1) = q" using r q d(1) by (simp add: m1_def moveMode_nav moveVertical_def navPut_def)
  moreover have "0 \<le> vt \<and> vt \<le> max (docLen d - viewRows d) 0 \<and> vt \<le> row \<and> row < vt + viewRows d"
  proof (rule scroll_view [OF _ _ _ _ r0 _ row_def])
    show "vt = ViewportTop m + min (max delta (- ViewportTop m)) (max (docLen d - viewRows d) 0 - ViewportTop m)" by (simp add: vt_def maxTop_def)
  qed (use v d in \<open>simp_all add: view_ok_def row0_def maxTop_def Let_def\<close>)
  moreover have "document m1 = d" using m1 by (simp add: mode_ok_def core_ok_def)
  ultimately have "view_ok (m1\<lparr>ViewportTop := vt\<rparr>)" using q(2) by (simp add: view_ok_def maxTop_def Let_def)
  moreover have "snd (ScrollRows delta m) = m1\<lparr>ViewportTop := vt\<rparr>"
    unfolding ScrollRows_def Let_def d(1) m1_def row_def row0_def vt_def
    by (simp only: False if_False de_Morgan_disj disj_commute) (simp add: case_prod_unfold)
  ultimately show ?thesis using m1 by (simp add: mode_ok_def core_ok_def search_ok_def)
qed

lemma search_move_ok:
  assumes "core_ok d m" "view_ok m"
  shows "mode_ok d (moveToSearchMatch x m)"
proof (cases "NormalizePos (document m) (mkPos (smRow x) (smStart x))")
  case None
  then show ?thesis using assms by (simp add: moveToSearchMatch_def mode_ok_def)
next
  case (Some p)
  let ?n = "snd (navSet p (document m) (navigator m))"
  have d: "document m = d" "nav_ok d (navigator m)" "sel_ok d (selection m)" using assms(1) by (auto simp: core_ok_def)
  have "nav_ok d ?n" using navSet_step [OF d(2), of p] d(1) by (simp add: nav_step_def)
  then have "sel_ok d (if slEnabled (selection m) then Extend (nvPos ?n) (selection m) else selection m)"
    using d(3) by (auto simp: sel_ok_def Extend_def nav_ok_def)
  then show ?thesis using Some placeAt_ok [of d m] assms by (simp add: moveToSearchMatch_def mode_ok_def Let_def)
qed

section \<open>Runs\<close>

datatype copyOp = OpSetPosition Pos | OpLeft | OpRight | OpUp | OpDown | OpWordNext | OpWordBackward | OpWordEnd | OpTop | OpBottom
  | OpPage int | OpMoveRows int | OpScroll int | OpToggle | OpStart Pos | OpExtend Pos | OpSelectWord Pos | OpExtendWord Pos
  | OpSearch "rune list" | OpSetMatches "rune list" "SearchMatch list" int | OpNextMatch int

fun applyCopyOp :: "caseTables \<Rightarrow> copyOp \<Rightarrow> Mode \<Rightarrow> Mode" where
  "applyCopyOp uc (OpSetPosition p) m = snd (SetPosition p m)"
| "applyCopyOp uc OpLeft m = snd (modeLeft m)"
| "applyCopyOp uc OpRight m = snd (modeRight m)"
| "applyCopyOp uc OpUp m = snd (modeUp m)"
| "applyCopyOp uc OpDown m = snd (modeDown m)"
| "applyCopyOp uc OpWordNext m = snd (modeWordNext m)"
| "applyCopyOp uc OpWordBackward m = snd (modeWordBackward m)"
| "applyCopyOp uc OpWordEnd m = snd (modeWordEnd m)"
| "applyCopyOp uc OpTop m = snd (modeTop m)"
| "applyCopyOp uc OpBottom m = snd (modeBottom m)"
| "applyCopyOp uc (OpPage k) m = snd (modePage k m)"
| "applyCopyOp uc (OpMoveRows k) m = snd (MoveRows k m)"
| "applyCopyOp uc (OpScroll k) m = snd (ScrollRows k m)"
| "applyCopyOp uc OpToggle m = ToggleLineSelection m"
| "applyCopyOp uc (OpStart p) m = snd (StartCharacterSelection p m)"
| "applyCopyOp uc (OpExtend p) m = snd (ExtendCharacterSelection p m)"
| "applyCopyOp uc (OpSelectWord p) m = snd (SelectWordAt p m)"
| "applyCopyOp uc (OpExtendWord p) m = snd (ExtendWordSelection p m)"
| "applyCopyOp uc (OpSearch q) m = snd (Search uc q m)"
| "applyCopyOp uc (OpSetMatches q xs i) m = snd (SetSearchMatches q xs i m)"
| "applyCopyOp uc (OpNextMatch k) m = snd (NextSearchMatch k m)"

lemma word_bounds_glyphs: "WordBounds d p = Some (a, b) \<Longrightarrow> on_glyph d a \<and> on_glyph d b"
proof -
  assume w: "WordBounds d p = Some (a, b)"
  then obtain p' where p: "NormalizePos d p = Some p'" by (auto simp: WordBounds_def split: option.splits)
  from word_bounds [OF p] w obtain v where "v \<in> set (wordsOf d)" "a = hd v" "b = last v" by blast
  then show ?thesis using word_end_glyphs by simp
qed

lemma select_ok:
  assumes "mode_ok d m"
  shows "mode_ok d (ToggleLineSelection m)" "mode_ok d (snd (StartCharacterSelection p m))" "mode_ok d (snd (ExtendCharacterSelection p m))"
    "mode_ok d (snd (SelectWordAt p m))" "mode_ok d (snd (ExtendWordSelection p m))"
proof -
  have d: "document m = d" "nav_ok d (navigator m)" "sel_ok d (selection m)" using assms by (auto simp: mode_ok_def core_ok_def)
  show "mode_ok d (ToggleLineSelection m)"
    using assms d by (auto simp: ToggleLineSelection_def mode_ok_def core_ok_def view_ok_def sel_ok_def search_ok_def zeroSelection_def
        NewLineSelection_def nav_ok_def Let_def)
  show "mode_ok d (snd (StartCharacterSelection p m))"
    using assms d norm_idem placeAt_ok by (auto simp: StartCharacterSelection_def sel_ok_def split: option.splits)
  show "mode_ok d (snd (ExtendCharacterSelection p m))"
    using assms d norm_idem placeAt_ok by (auto simp: ExtendCharacterSelection_def sel_ok_def Extend_def AsCharacter_def split: option.splits)
  show "mode_ok d (snd (SelectWordAt p m))"
    using assms d word_bounds_glyphs placeAt_ok by (auto simp: SelectWordAt_def NewWordSelection_def sel_ok_def split: option.splits)
  show "mode_ok d (snd (ExtendWordSelection p m))"
    using assms d word_bounds_glyphs placeAt_ok by (auto simp: ExtendWordSelection_def sel_ok_def Extend_def split: option.splits)
qed

lemma setMatches_ok:
  assumes "mode_ok d m"
  shows "mode_ok d (snd (SetSearchMatches q xs i m))"
proof (cases "xs = []")
  case True
  then show ?thesis using assms by (auto simp: SetSearchMatches_def mode_ok_def core_ok_def view_ok_def search_ok_def Let_def)
next
  case False
  let ?i = "min (max i 0) (int (length xs) - 1)"
  have "0 \<le> ?i" "?i < int (length xs)" using False by auto
  then have "core_ok d (m\<lparr>SearchQuery := TrimSpace q, Searches := xs, SearchIndex := ?i\<rparr>)" "view_ok (m\<lparr>SearchQuery := TrimSpace q, Searches := xs, SearchIndex := ?i\<rparr>)"
    using assms False by (auto simp: mode_ok_def core_ok_def view_ok_def search_ok_def Let_def)
  then show ?thesis using False search_move_ok by (simp add: SetSearchMatches_def Let_def)
qed

lemma rem_range:
  assumes "0 < n" "i = (if goRem a n < 0 then goRem a n + n else goRem a n)"
  shows "0 \<le> i" "i < n"
proof -
  define u where "u = (- a) mod n"
  define v where "v = a mod n"
  have "0 \<le> u" "u < n" "0 \<le> v" "v < n" using assms(1) by (simp_all add: u_def v_def)
  then show "0 \<le> i" "i < n" using assms unfolding goRem_def u_def [symmetric] v_def [symmetric] by (auto split: if_splits)
qed

lemma nextMatch_ok:
  assumes "mode_ok d m"
  shows "mode_ok d (snd (NextSearchMatch k m))"
proof (cases "Searches m = [] \<or> k = 0")
  case True
  then show ?thesis using assms by (auto simp: NextSearchMatch_def)
next
  case False
  define n where "n = int (length (Searches m))"
  define i where "i = (if goRem (SearchIndex m + k) n < 0 then goRem (SearchIndex m + k) n + n else goRem (SearchIndex m + k) n)"
  have "0 \<le> i" "i < n" using rem_range [OF _ i_def] False by (auto simp: n_def)
  then have "core_ok d (m\<lparr>SearchIndex := i\<rparr>)" "view_ok (m\<lparr>SearchIndex := i\<rparr>)"
    using assms False by (auto simp: mode_ok_def core_ok_def view_ok_def search_ok_def n_def Let_def)
  then have "mode_ok d (moveToSearchMatch (Searches m ! nat i) (m\<lparr>SearchIndex := i\<rparr>))" by (rule search_move_ok)
  moreover have "snd (NextSearchMatch k m) = moveToSearchMatch (Searches m ! nat i) (m\<lparr>SearchIndex := i\<rparr>)"
    using False unfolding NextSearchMatch_def Let_def i_def n_def by simp
  ultimately show ?thesis by simp
qed

lemma op_ok:
  assumes "frame_ok d" "rows_ok d" "mode_ok d m"
  shows "mode_ok d (applyCopyOp uc op m)"
proof (cases op)
  case (OpSetPosition p)
  have "core_ok d (m\<lparr>navigator := snd (navSet p (document m) (navigator m))\<rparr>)"
    using assms(3) navSet_step [of d "navigator m" p] by (auto simp: mode_ok_def core_ok_def search_ok_def nav_step_def)
  then have "mode_ok d (adjustViewport (m\<lparr>navigator := snd (navSet p (document m) (navigator m))\<rparr>))" by (rule adjust_ok)
  then show ?thesis using OpSetPosition by (cases "navSet p (document m) (navigator m)") (simp add: SetPosition_def)
next
  case (OpMoveRows k)
  then show ?thesis using assms(3) repeat_ok [of d modeUp] repeat_ok [of d modeDown] moveMode_ok motions_ok
    by (simp add: MoveRows_def modeUp_def modeDown_def)
qed (use assms scroll_ok select_ok setMatches_ok nextMatch_ok moveMode_ok motions_ok in
  \<open>simp_all add: modeLeft_def modeRight_def modeUp_def modeDown_def modeWordNext_def modeWordBackward_def modeWordEnd_def modeTop_def
     modeBottom_def modePage_def Search_def\<close>)

lemma copy_run_ok: "frame_ok d \<Longrightarrow> rows_ok d \<Longrightarrow> mode_ok d m \<Longrightarrow> mode_ok d (fold (applyCopyOp uc) ops m)"
  by (induction ops arbitrary: m) (simp_all add: op_ok)

text \<open>
  C16. Copy mode keeps its cursor and its view together. After any operations, in any order, on a document with
  a row, the cursor is a glyph of the document (or the start of an empty row) and is in the viewport, the
  viewport lies in the document, both ends of an active selection are positions of the document, so that a line
  or character selection always has a range, and the current search hit is one of the hits.
\<close>

theorem copy_mode_invariant:
  assumes "snapshot d = newSnapshot history src bs" "rows_ok d" "0 < docLen d" "m = fold (applyCopyOp uc) ops (NewMode d)"
  shows "document m = d \<and> NormalizePos d (nvPos (navigator m)) = Some (nvPos (navigator m)) \<and>
    0 \<le> ViewportTop m \<and> ViewportTop m \<le> max (docLen d - max (snHeight (snapshot d)) 1) 0 \<and>
    ViewportTop m \<le> posRow (nvPos (navigator m)) \<and> posRow (nvPos (navigator m)) < ViewportTop m + max (snHeight (snapshot d)) 1 \<and>
    (slEnabled (selection m) \<longrightarrow> slGranularity (selection m) \<noteq> GranWord \<longrightarrow> bounds d (selection m) \<noteq> None) \<and>
    (if Searches m = [] then SearchIndex m = -1 else 0 \<le> SearchIndex m \<and> SearchIndex m < int (length (Searches m)))"
proof -
  have f: "frame_ok d" by (rule snapshot_frame [OF assms(1)])
  have ok: "mode_ok d m" unfolding assms(4) by (rule copy_run_ok [OF f assms(2) new_mode_ok [OF f assms(2,3)]])
  then have sel: "sel_ok d (selection m)" by (simp add: mode_ok_def core_ok_def)
  have "bounds d (selection m) \<noteq> None" if "slEnabled (selection m)" "slGranularity (selection m) \<noteq> GranWord"
    using sel that by (cases "slGranularity (selection m)") (auto simp: bounds_def sel_ok_def split: prod.splits)
  then show ?thesis using ok by (auto simp: mode_ok_def core_ok_def view_ok_def nav_ok_def search_ok_def maxTop_def Let_def)
qed

theorem copy_mode_invariant_witness:
  "let m = fold (applyCopyOp asciiCase) [OpToggle, OpUp, OpWordNext, OpScroll (-1)] (NewMode demoDoc) in
     ViewportTop m \<le> posRow (nvPos (navigator m)) \<and> posRow (nvPos (navigator m)) < ViewportTop m + max (snHeight (snapshot demoDoc)) 1"
proof -
  have s: "snapshot demoDoc = newSnapshot [] demoSource [\<lparr>boundEnd = 4, Soft = False\<rparr>, \<lparr>boundEnd = 4, Soft = False\<rparr>]" by (simp add: demoDoc_def)
  have l: "0 < docLen demoDoc" by code_simp
  show ?thesis using copy_mode_invariant [OF s demo_rows_ok l refl, of asciiCase "[OpToggle, OpUp, OpWordNext, OpScroll (-1)]"]
    unfolding Let_def by blast
qed

text \<open>
  A word selection whose active end is moved onto a separator copies nothing, although it is enabled:
  the second word motion of the double click \<open>SelectWordAt\<close> followed by one step to the right.
\<close>

lemma word_selection_copies_nothing:
  "let m = applyCopyOp asciiCase OpRight (applyCopyOp asciiCase (OpSelectWord (mkPos 0 0)) (NewMode demoDoc)) in
     slEnabled (selection m) \<and> SelectedText m = []"
  by code_simp

end
