(* ===== verification/Copy_Search.thy ===== *)
theory Copy_Search
  imports Copy_Mode
begin

text \<open>
  What the search of copy mode finds, \<^verbatim>\<open>FindMatches\<close> of \<^verbatim>\<open>internal/usecase/copy/mode.go\<close>.
\<close>

section \<open>Search\<close>

lemma starts_facts:
  assumes "S = searchStarts needle hay start" "needle \<noteq> []"
  shows "(\<forall>s \<in> set S. start \<le> s \<and> s + length needle \<le> length hay \<and> take (length needle) (drop s hay) = needle) \<and>
    sorted_wrt (\<lambda>a b. a + length needle \<le> b) S \<and>
    (\<forall>k. start \<le> k \<longrightarrow> k + length needle \<le> length hay \<longrightarrow> take (length needle) (drop k hay) = needle \<longrightarrow>
       (\<exists>s \<in> set S. s \<le> k \<and> k < s + length needle))"
  using assms
proof (induction needle hay start arbitrary: S rule: searchStarts.induct)
  case (1 needle hay start)
  show ?case
  proof (cases "start + length needle > length hay")
    case True
    then show ?thesis using 1(3) by (simp add: searchStarts.simps [of needle hay start])
  next
    case in_range: False
    show ?thesis
    proof (cases "take (length needle) (drop start hay) = needle")
      case True
      then have S: "S = start # searchStarts needle hay (start + length needle)" using 1(3,4) in_range by (simp add: searchStarts.simps [of needle hay start])
      let ?T = "searchStarts needle hay (start + length needle)"
      have IH: "\<forall>s \<in> set ?T. start + length needle \<le> s \<and> s + length needle \<le> length hay \<and> take (length needle) (drop s hay) = needle"
          "sorted_wrt (\<lambda>a b. a + length needle \<le> b) ?T"
          "\<And>k. start + length needle \<le> k \<Longrightarrow> k + length needle \<le> length hay \<Longrightarrow> take (length needle) (drop k hay) = needle \<Longrightarrow>
             \<exists>s \<in> set ?T. s \<le> k \<and> k < s + length needle"
        using 1(2) [OF _ _ refl 1(4)] True in_range 1(4) by auto
      have "\<exists>s \<in> set S. s \<le> k \<and> k < s + length needle" if "start \<le> k" "k + length needle \<le> length hay" "take (length needle) (drop k hay) = needle" for k
        using IH(3) [of k] that by (cases "k < start + length needle") (auto simp: S)
      then show ?thesis using IH(1,2) True in_range by (auto simp: S)
    next
      case False
      then have S: "S = searchStarts needle hay (Suc start)" using 1(3,4) in_range by (simp add: searchStarts.simps [of needle hay start])
      have IH: "(\<forall>s \<in> set S. Suc start \<le> s \<and> s + length needle \<le> length hay \<and> take (length needle) (drop s hay) = needle) \<and>
          sorted_wrt (\<lambda>a b. a + length needle \<le> b) S \<and>
          (\<forall>k. Suc start \<le> k \<longrightarrow> k + length needle \<le> length hay \<longrightarrow> take (length needle) (drop k hay) = needle \<longrightarrow>
             (\<exists>s \<in> set S. s \<le> k \<and> k < s + length needle))"
        using 1(1) [OF _ False S 1(4)] in_range 1(4) by simp
      show ?thesis using IH False by (metis Suc_leD Suc_leI le_neq_implies_less)
    qed
  qed
qed

lemma starts_zero:
  assumes "needle \<noteq> []"
  shows "s \<in> set (searchStarts needle hay 0) \<Longrightarrow> s + length needle \<le> length hay \<and> take (length needle) (drop s hay) = needle"
    "sorted_wrt (\<lambda>a b. a + length needle \<le> b) (searchStarts needle hay 0)"
    "k + length needle \<le> length hay \<Longrightarrow> take (length needle) (drop k hay) = needle \<Longrightarrow>
       \<exists>s \<in> set (searchStarts needle hay 0). s \<le> k \<and> k < s + length needle"
  using starts_facts [OF refl assms, of hay 0] by simp_all

definition occursAt :: "caseTables \<Rightarrow> Document \<Rightarrow> rune list \<Rightarrow> int \<Rightarrow> nat \<Rightarrow> bool" where
  "occursAt uc d needle r k = (let row = lowerRunes uc (map (runeAt d) (rowGlyphs d r)) in
     k + length needle \<le> length row \<and> take (length needle) (drop k row) = needle)"

lemma cols_increase:
  assumes "i < j" "j < length (rowGlyphs d r)"
  shows "posCol (rowGlyphs d r ! i) < posCol (rowGlyphs d r ! j)"
proof -
  have "before (rowGlyphs d r ! i) (rowGlyphs d r ! j)" using sorted_wrt_nth_less [OF rowGlyphs_sorted assms] .
  moreover have "posRow (rowGlyphs d r ! i) = r" "posRow (rowGlyphs d r ! j) = r" using assms by (auto intro!: row_of_glyphs nth_mem)
  ultimately show ?thesis by (simp add: before_def)
qed

lemma col_in_width: "i < length (rowGlyphs d r) \<Longrightarrow> posCol (rowGlyphs d r ! i) < docWidth d r"
  using nth_mem [of i "rowGlyphs d r"] by (auto simp: rowGlyphs_def)

definition hitAt :: "Document \<Rightarrow> int \<Rightarrow> nat \<Rightarrow> nat \<Rightarrow> SearchMatch" where
  "hitAt d r n k = \<lparr>smRow = r, smStart = posCol (rowGlyphs d r ! k),
     smEnd = (if k + n < length (rowGlyphs d r) then posCol (rowGlyphs d r ! (k + n)) else docWidth d r),
     smText = trimRight (map (runeAt d) (rowGlyphs d r))\<rparr>"

lemma rowMatches_hits:
  assumes "needle \<noteq> []"
  shows "rowMatches uc needle (rowText d r) = map (hitAt d r (length needle)) (searchStarts needle (lowerRunes uc (map (runeAt d) (rowGlyphs d r))) 0)"
proof -
  have "s < length (rowGlyphs d r)" if "s \<in> set (searchStarts needle (lowerRunes uc (map (runeAt d) (rowGlyphs d r))) 0)" for s
  proof -
    have "s + length needle \<le> length (lowerRunes uc (map (runeAt d) (rowGlyphs d r)))" using starts_facts [OF refl assms] that by blast
    then show ?thesis using assms by (cases needle) (simp_all add: lowerRunes_def)
  qed
  then show ?thesis by (auto simp: rowMatches_def rowText_def hitAt_def Let_def)
qed

lemma hits_covered:
  assumes "s \<le> k" "k < s + n" "k < length (rowGlyphs d r)"
  shows "smStart (hitAt d r n s) \<le> posCol (rowGlyphs d r ! k)" "posCol (rowGlyphs d r ! k) < smEnd (hitAt d r n s)"
proof -
  show "smStart (hitAt d r n s) \<le> posCol (rowGlyphs d r ! k)" using cols_increase [of s k d r] assms by (cases "s = k") (auto simp: hitAt_def)
  show "posCol (rowGlyphs d r ! k) < smEnd (hitAt d r n s)" using cols_increase [of k "s + n" d r] col_in_width assms by (auto simp: hitAt_def)
qed

lemma hits_apart:
  assumes "a + n \<le> b" "b < length (rowGlyphs d r)"
  shows "smEnd (hitAt d r n a) \<le> smStart (hitAt d r n b)"
  using cols_increase [of "a + n" b d r] assms by (cases "a + n = b") (auto simp: hitAt_def)

lemma row_hits:
  assumes "needle \<noteq> []" and Hdef: "\<And>r. H r = rowMatches uc needle (rowText d r)"
  shows "h \<in> set (H r) \<Longrightarrow> smRow h = r \<and> (\<exists>k. occursAt uc d needle r k \<and> smStart h = posCol (rowGlyphs d r ! k))"
    "sorted_wrt (\<lambda>a b. smRow a = smRow b \<and> smEnd a \<le> smStart b) (H r)"
    "occursAt uc d needle r k \<Longrightarrow> \<exists>h \<in> set (H r). smRow h = r \<and> smStart h \<le> posCol (rowGlyphs d r ! k) \<and> posCol (rowGlyphs d r ! k) < smEnd h"
proof -
  define n where "n = length needle"
  define hay where "hay = lowerRunes uc (map (runeAt d) (rowGlyphs d r))"
  define S where "S = searchStarts needle hay 0"
  have H: "H r = map (hitAt d r n) S" unfolding Hdef S_def hay_def n_def by (rule rowMatches_hits [OF assms(1)])
  have len: "length hay = length (rowGlyphs d r)" by (simp add: hay_def lowerRunes_def)
  have occ: "occursAt uc d needle r k = (k + n \<le> length hay \<and> take n (drop k hay) = needle)" for k
    by (simp add: occursAt_def hay_def n_def Let_def)
  note Z = starts_zero [OF assms(1), where hay = hay, folded S_def n_def]
  have pos: "0 < n" using assms(1) by (simp add: n_def)
  show "smRow h = r \<and> (\<exists>k. occursAt uc d needle r k \<and> smStart h = posCol (rowGlyphs d r ! k))" if h: "h \<in> set (H r)"
  proof -
    obtain s where s: "s \<in> set S" "h = hitAt d r n s" using h by (auto simp: H)
    have "occursAt uc d needle r s" using Z(1) [OF s(1)] occ by simp
    then show ?thesis unfolding s(2) by (auto simp: hitAt_def)
  qed
  show "sorted_wrt (\<lambda>a b. smRow a = smRow b \<and> smEnd a \<le> smStart b) (H r)"
    unfolding H sorted_wrt_map
  proof (rule sorted_wrt_mono_rel [OF _ Z(2)])
    fix a b assume "a \<in> set S" "b \<in> set S" "a + n \<le> b"
    moreover have "b < length (rowGlyphs d r)" using Z(1) [of b] calculation(2) pos len by simp
    ultimately show "smRow (hitAt d r n a) = smRow (hitAt d r n b) \<and> smEnd (hitAt d r n a) \<le> smStart (hitAt d r n b)"
      using hits_apart [of a n b d r] by (auto simp: hitAt_def)
  qed
  show "\<exists>h \<in> set (H r). smRow h = r \<and> smStart h \<le> posCol (rowGlyphs d r ! k) \<and> posCol (rowGlyphs d r ! k) < smEnd h"
    if "occursAt uc d needle r k"
  proof -
    have k: "k + n \<le> length hay" "take n (drop k hay) = needle" using that occ by auto
    obtain s where s: "s \<in> set S" "s \<le> k" "k < s + n" using Z(3) [OF k] by blast
    have "hitAt d r n s \<in> set (H r)" "smRow (hitAt d r n s) = r" using s(1) by (auto simp: H hitAt_def)
    moreover have "k < length (rowGlyphs d r)" using k(1) pos len by simp
    ultimately show ?thesis using hits_covered [OF s(2,3)] by blast
  qed
qed

lemma rows_hits_sorted:
  assumes "needle \<noteq> []" "sorted_wrt (<) rows"
  shows "sorted_wrt (\<lambda>a b. smRow a < smRow b \<or> smRow a = smRow b \<and> smEnd a \<le> smStart b)
    (concat (map (\<lambda>r. rowMatches uc needle (rowText d r)) rows))"
  using assms(2)
proof (induction rows)
  case (Cons r rows)
  have "sorted_wrt (\<lambda>a b. smRow a < smRow b \<or> smRow a = smRow b \<and> smEnd a \<le> smStart b) (rowMatches uc needle (rowText d r))"
    by (rule sorted_wrt_mono_rel [OF _ row_hits(2) [OF assms(1) refl]]) simp
  moreover have "smRow a < smRow b" if "a \<in> set (rowMatches uc needle (rowText d r))" "r' \<in> set rows" "b \<in> set (rowMatches uc needle (rowText d r'))" for a b r'
    using row_hits(1) [OF assms(1) refl that(1)] row_hits(1) [OF assms(1) refl that(3)] Cons.prems that(2) by simp
  ultimately show ?case using Cons by (auto simp: sorted_wrt_append)
qed simp



end
