(* ===== verification/Spec2Isabelle.thy ===== *)
theory Spec2Isabelle
  imports Layout_Properties Stream_Window Kv_Store Stream_Frame Ui_Place Toast_Queue Palette_Model Input_Path Key_Normalizer
    Mux_Flow Mux_Pump_Props Copy_Mode_Inv Copy_Search
begin

text \<open>
  A verification of vev, a terminal multiplexer written in Go: a daemon owns sessions of tabs and
  panes, a client on a terminal attaches to it locally or through a broker, and the two exchange
  framed messages over multiplexed streams. The definitions translate the Go sources under
  \<^verbatim>\<open>src/\<close>; the theorems state what the rest of the program relies on.

  \<^bold>\<open>Parts and how they meet.\<close> A terminal's bytes pass the client's key normalizer and paste
  coalescer; every piece the coalescer emits is one message. In the daemon the message passes the
  mouse scanner and the key router, which splits it into bound actions and bytes for the focused
  pane; forwarded keys are re-encoded for the program in the pane. Actions edit the pane tree of a
  tab, whose solver gives every pane its cells, or open the command palette, whose rows are found by
  the fuzzy matcher; notices are shown as toasts. Messages travel in length-prefixed frames with a
  bounded egress queue, over a multiplexed connection whose streams are flow controlled by credit and
  scheduled fairly; stream identities pass an anti-replay window. A key-value file keeps small state.

  \<^bold>\<open>Theories.\<close>
    \<^item> \<open>Vev_Prelude\<close>, \<open>Float64\<close>, \<open>Go_Bytes\<close>, \<open>Go_Strings\<close>, \<open>Go_Utf8\<close>: shared lists and maps, IEEE doubles
      with rounding, big-endian integers, and the parts of Go's strings, bytes and utf8 packages used.
    \<^item> \<open>Layout_Tree\<close> to \<open>Layout_Properties\<close> (\<^verbatim>\<open>internal/domain/layout\<close>): the pane tree, the
      distribution of cells by weight, the solver with dividers, every operation. The operations are
      instances of the locales \<open>layout_edit\<close> and \<open>committed_edit\<close> of \<open>Layout_Steps\<close>, and reachable trees
      are a step relation. Shown: a solved layout tiles its area; distribution allocates every cell and
      reproduces given extents in spite of rounding; every reachable tree is well-formed; each
      operation's effect on panes and focus.
    \<^item> \<open>Stream_Window\<close> (\<^verbatim>\<open>internal/ports/broker_stream_window.go\<close>): the bit window on 64-bit words
      refines a set of consumed identities.
    \<^item> \<open>Kv_Codec\<close>, \<open>Kv_Store\<close> (\<^verbatim>\<open>pkg/kv\<close>): file codec and store, with a fault at every file system
      call; a store file always opens again with a whole map. Interface: locale \<open>key_store\<close>.
    \<^item> \<open>Stream_Frame\<close> (\<^verbatim>\<open>internal/adapters/streamframe\<close>): frames and the egress queue as
      interleaved steps.
    \<^item> \<open>Ui_Place\<close>, \<open>Toast_Queue\<close> (\<^verbatim>\<open>internal/usecase/ui\<close>): placement and the toast queue.
    \<^item> \<open>Fuzzy_Match\<close>, \<open>Palette_Fuzzy\<close>, \<open>Palette_Model\<close> (\<^verbatim>\<open>internal/usecase/fuzzy\<close>,
      \<^verbatim>\<open>internal/usecase/palette\<close>): matching, ranking, and the palette's state changes.
    \<^item> \<open>Byte_Stage\<close>: the contract of a stage of the input path (locale \<open>byte_stage\<close>) and of two stages
      in a row (\<open>piped_stages\<close>, itself a stage). \<open>Paste_Coalescer\<close>, \<open>Mouse_Scan\<close> and \<open>Key_Router\<close>
      interpret it on their own operations, \<open>Input_Path\<close> interprets the pipe.
    \<^item> \<open>Paste_Coalescer\<close> (\<^verbatim>\<open>internal/usecase/client/paste_coalescer.go\<close>), \<open>Kitty_Key\<close>,
      \<open>Key_Normalizer\<close> (\<^verbatim>\<open>internal/usecase/keys/kittykey\<close>), \<open>Key_Bindings\<close>, \<open>Key_Router\<close>
      (\<^verbatim>\<open>internal/usecase/keys\<close>), \<open>Mouse_Scan\<close> (\<^verbatim>\<open>internal/usecase/mouse\<close>),
      \<open>Input_Path\<close> (\<^verbatim>\<open>internal/usecase/daemon/input.go\<close>): the input path. Shown: no stage loses,
      repeats or reorders a byte; pastes and reports survive any cutting into reads; key events decode
      to what was encoded; configured bindings hold or are warned about.
    \<^item> \<open>Mux_Limits\<close>, \<open>Mux_Messages\<close>, \<open>Mux_Engine\<close>, \<open>Mux_Scheduler\<close>, \<open>Mux_Pump\<close>
      (\<^verbatim>\<open>limits.go\<close>, \<^verbatim>\<open>messages.go\<close>, \<^verbatim>\<open>terminal.go\<close>, \<^verbatim>\<open>engine_state.go\<close>, \<^verbatim>\<open>scheduler.go\<close> and
      \<^verbatim>\<open>pump.go\<close> of \<^verbatim>\<open>internal/adapters/daemonmux\<close>): many streams over one connection. The engine
      is the table of streams with its credit and queues, the scheduler the outbound queues with their
      deficit round robin, the pump drives both. \<open>Table_Sum\<close> holds the sums over a table,
      \<open>Keyed_Calls\<close> the contract of a table whose calls name one key (locale \<open>keyed_calls\<close>), which
      engine, scheduler and pump interpret. \<open>Mux_Engine_Inv\<close>, \<open>Mux_Engine_Ops\<close> and \<open>Mux_Engine_Run\<close>
      show that accounts are exact, data arrives in order and streams are isolated; \<open>Mux_Flow\<close> that two
      ends never overrun each other and a blocked sender resumes; \<open>Mux_Sched_Inv\<close>, \<open>Mux_Sched_Ops\<close>,
      \<open>Mux_Sched_Serve\<close> and \<open>Mux_Sched_Fair\<close> that the scheduler always writes, in order, and starves
      no stream; \<open>Mux_Pump_Props\<close> that a peer reaches only the streams it names. The encoder of a
      message is a parameter whose only law is the envelope ceiling (\<open>codec_ok\<close>). A loop that could run
      forever, \<open>serveDRRLocked\<close>, is a partial function, shown to return.
    \<^item> \<open>Copy_Document\<close>, \<open>Copy_Words\<close>, \<open>Copy_Selection\<close>, \<open>Copy_Text\<close>, \<open>Copy_Mode\<close>, \<open>Copy_Mode_Inv\<close>,
      \<open>Copy_Search\<close> (\<^verbatim>\<open>internal/usecase/copy\<close>): copy mode over a snapshot of the scrollback. Shown:
      the word motions find the nearest word, a selection copies exactly its visible characters, cursor
      and viewport stay together, and search finds every occurrence. Assumed of the terminal's rows
      (\<open>rows_ok\<close>): a row starts with a glyph, and a wrapped row has nothing visible past its end.

  \<^bold>\<open>Conventions.\<close> A struct is a record, an enumeration or a sum of messages a datatype, a map a
  function into an option. An operation takes the state and returns the new one with its outputs.
  Errors are values of the component's error type on the left of a sum, or an option where the code
  returns a flag. Goroutines are steps of a relation, each critical section one step. A timer is
  armed or not, or a number where a stale one can be told apart. Loops are recursive functions with a
  termination proof; no definition uses fuel. Go's \<^verbatim>\<open>int\<close> is an unbounded integer where the code's own
  bounds keep it far below the limit, and identities and bit sets are 64-bit words. The Unicode
  case tables are parameters (\<open>caseTables\<close>, \<open>toUpper\<close>), with their ASCII part as an instance.

  \<^bold>\<open>Assumed of the surroundings.\<close> Reads of one attachment are routed one after another, and a router
  timer claims and forwards its escape in one step. The file system renames atomically. The input path
  is that of a current attachment with no overlay open.

  \<^bold>\<open>Not modelled.\<close> The daemon's sessions, rendering and agent detection work on the cells of an
  external terminal emulator; the client supervisor, transports, PTYs, the multiplexer's goroutines
  and the application wiring are input and output; the wire codecs convert generated protobuf types; snapshots rest on
  the standard library's encoders; colours are style tables. The broker's registry and
  the pickers are the next candidates.
\<close>

section \<open>Properties across components\<close>

lemma chunks_plain:
  assumes "bytesIndex pat (concat reads) = None" "m \<in> set (snd (feed reads newPasteCoalescer))"
  shows "bytesIndex pat m = None"
proof -
  have "concat (snd (feed reads newPasteCoalescer)) @ withheld (fst (feed reads newPasteCoalescer)) = concat reads"
    using feed_lossless [of newPasteCoalescer reads] by (simp add: coalescer_ok_def withheld_def newPasteCoalescer_def)
  then have "bytesIndex pat (concat (snd (feed reads newPasteCoalescer))) = None"
    using assms(1) bytesIndex_None_infix by metis
  then show ?thesis using plain_chunks assms(2) by blast
qed





end
